(* ===== verification/Prelude.thy ===== *)
theory Prelude
  imports "HOL-Library.Word"
begin

text \<open>
  Shared vocabulary of the development: bytes, flat memory, the packed integer layouts of the
  wire structs, and the C arithmetic limits the components test against.

  Memory that the C code addresses through \<open>uint8_t *\<close> is a \<open>byte list\<close>, and a pointer into it is
  an offset.  \<open>mem_read\<close> and \<open>mem_write\<close> are the two accesses (\<open>memcpy\<close> out of and into the
  memory).  The little- and big-endian layouts are the byte orders of \<open>htol\<close> / \<open>hton\<close>.
\<close>

unbundle bit_operations_syntax

named_theorems mem_simps \<open>reads and writes of flat memory\<close>
named_theorems layout_simps \<open>byte layouts of packed integers\<close>

type_synonym byte = "8 word"
type_synonym u16 = "16 word"
type_synonym u32 = "32 word"
type_synonym u64 = "64 word"

section \<open>C limits\<close>

abbreviation INT_MAX :: int where "INT_MAX \<equiv> 2147483647"
abbreviation UINT16_MAX :: int where "UINT16_MAX \<equiv> 65535"

section \<open>Flat memory\<close>

definition mem_read :: "byte list \<Rightarrow> nat \<Rightarrow> nat \<Rightarrow> byte list" where
  "mem_read m off n = take n (drop off m)"

definition mem_write :: "byte list \<Rightarrow> nat \<Rightarrow> byte list \<Rightarrow> byte list" where
  "mem_write m off bs = take off m @ bs @ drop (off + length bs) m"

lemma length_mem_read [simp]:
  "off + n \<le> length m \<Longrightarrow> length (mem_read m off n) = n"
  by (simp add: mem_read_def)

lemma length_mem_write [simp]:
  "off + length bs \<le> length m \<Longrightarrow> length (mem_write m off bs) = length m"
  by (simp add: mem_write_def)

lemma mem_read_zero [simp]: "mem_read m off 0 = []"
  by (simp add: mem_read_def)

lemma mem_write_Nil [simp]: "off \<le> length m \<Longrightarrow> mem_write m off [] = m"
  by (simp add: mem_write_def)

lemma nth_mem_write:
  assumes "off + length bs \<le> length m" "i < length m"
  shows "mem_write m off bs ! i =
    (if off \<le> i \<and> i < off + length bs then bs ! (i - off) else m ! i)"
  using assms by (auto simp: mem_write_def nth_append)

lemma nth_mem_read:
  "off + n \<le> length m \<Longrightarrow> i < n \<Longrightarrow> mem_read m off n ! i = m ! (off + i)"
  by (simp add: mem_read_def)

lemma mem_read_write_same [mem_simps]:
  "off + length bs \<le> length m \<Longrightarrow> n = length bs \<Longrightarrow> mem_read (mem_write m off bs) off n = bs"
  by (simp add: mem_read_def mem_write_def)

lemma mem_read_write_disjoint [mem_simps]:
  assumes "off + length bs \<le> length m" "off' + n \<le> length m"
    and "off' + n \<le> off \<or> off + length bs \<le> off'"
  shows "mem_read (mem_write m off bs) off' n = mem_read m off' n"
  using assms by (intro nth_equalityI) (auto simp: nth_mem_read nth_mem_write)

lemma mem_read_append:
  assumes "off + a + b \<le> length m"
  shows "mem_read m off (a + b) = mem_read m off a @ mem_read m (off + a) b"
  using assms by (simp add: mem_read_def take_add add.commute)

lemma mem_read_prefix:
  "k \<le> n \<Longrightarrow> take k (mem_read m off n) = mem_read m off k"
  by (simp add: mem_read_def min_def)

lemma mem_read_suffix:
  "drop k (mem_read m off n) = mem_read m (off + k) (n - k)"
  by (simp add: mem_read_def drop_take add.commute)

lemma mem_read_all: "n = length m \<Longrightarrow> mem_read m 0 n = m"
  by (simp add: mem_read_def)

section \<open>Packed integers\<close>

lemma byte_bit_high [simp]: "8 \<le> n \<Longrightarrow> \<not> bit (b :: byte) n"
  by (auto dest: bit_imp_le_length)

lemma unat_byte_less: "unat (b :: byte) < 256"
  using unsigned_less [of b, where ?'a = nat] by simp

lemma unat_u16_less: "unat (w :: u16) < 65536"
  using unsigned_less [of w, where ?'a = nat] by simp

definition le16 :: "u16 \<Rightarrow> byte list" where
  "le16 w = [ucast w, ucast (drop_bit 8 w)]"

definition be16 :: "u16 \<Rightarrow> byte list" where
  "be16 w = [ucast (drop_bit 8 w), ucast w]"

definition le32 :: "u32 \<Rightarrow> byte list" where
  "le32 w = [ucast w, ucast (drop_bit 8 w), ucast (drop_bit 16 w), ucast (drop_bit 24 w)]"

definition word16_of :: "byte \<Rightarrow> byte \<Rightarrow> u16" where
  "word16_of lo hi = ucast lo OR push_bit 8 (ucast hi)"

definition word32_of :: "byte \<Rightarrow> byte \<Rightarrow> byte \<Rightarrow> byte \<Rightarrow> u32" where
  "word32_of b0 b1 b2 b3 =
     ucast b0 OR push_bit 8 (ucast b1) OR push_bit 16 (ucast b2) OR push_bit 24 (ucast b3)"

fun un_le16 :: "byte list \<Rightarrow> u16" where
  "un_le16 (a # b # _) = word16_of a b"
| "un_le16 _ = 0"

fun un_be16 :: "byte list \<Rightarrow> u16" where
  "un_be16 (a # b # _) = word16_of b a"
| "un_be16 _ = 0"

fun un_le32 :: "byte list \<Rightarrow> u32" where
  "un_le32 (a # b # c # d # _) = word32_of a b c d"
| "un_le32 _ = 0"

lemma length_layouts [simp, layout_simps]:
  "length (le16 w) = 2" "length (be16 w) = 2" "length (le32 v) = 4"
  by (simp_all add: le16_def be16_def le32_def)

lemma un_le16_le16 [simp, layout_simps]: "un_le16 (le16 w @ rest) = w"
  by (simp add: le16_def word16_of_def) (rule bit_eqI, auto simp: bit_simps)

lemma un_be16_be16 [simp, layout_simps]: "un_be16 (be16 w @ rest) = w"
  by (simp add: be16_def word16_of_def) (rule bit_eqI, auto simp: bit_simps)

lemma un_le32_le32 [simp, layout_simps]: "un_le32 (le32 w @ rest) = w"
proof -
  have "bit (word32_of (ucast w) (ucast (drop_bit 8 w)) (ucast (drop_bit 16 w))
      (ucast (drop_bit 24 w))) n = bit w n" if "n < 32" for n
  proof -
    consider "n < 8" | "8 \<le> n" "n < 16" | "16 \<le> n" "n < 24" | "24 \<le> n"
      by linarith
    then show ?thesis
      using that by cases (auto simp: word32_of_def bit_simps)
  qed
  then show ?thesis
    by (auto simp: le32_def intro: bit_word_eqI)
qed

lemmas un_layouts_exact [simp, layout_simps] =
  un_le16_le16 [where rest = "[]", simplified]
  un_be16_be16 [where rest = "[]", simplified]
  un_le32_le32 [where rest = "[]", simplified]

lemma le16_inject: "le16 x = le16 y \<longleftrightarrow> x = y"
  by (metis un_layouts_exact(1))

lemma le32_inject: "le32 x = le32 y \<longleftrightarrow> x = y"
  by (metis un_layouts_exact(3))

lemma le16_un_le16: "le16 (word16_of a b) = [a, b]"
  by (auto simp: le16_def word16_of_def intro!: bit_eqI simp: bit_simps)

lemma be16_un_be16: "be16 (word16_of b a) = [a, b]"
  by (auto simp: be16_def word16_of_def intro!: bit_eqI simp: bit_simps)

lemma le32_un_le32: "le32 (word32_of a b c d) = [a, b, c, d]"
  by (auto simp: le32_def word32_of_def intro!: bit_eqI simp: bit_simps)

lemma le16_un_le16_list: "length bs = 2 \<Longrightarrow> le16 (un_le16 bs) = bs"
  by (auto simp: numeral_2_eq_2 length_Suc_conv le16_un_le16)

lemma be16_un_be16_list: "length bs = 2 \<Longrightarrow> be16 (un_be16 bs) = bs"
  by (auto simp: numeral_2_eq_2 length_Suc_conv be16_un_be16)

lemma le32_un_le32_list: "length bs = 4 \<Longrightarrow> le32 (un_le32 bs) = bs"
  by (auto simp: eval_nat_numeral length_Suc_conv le32_un_le32)

lemma unat_word16_of: "unat (word16_of lo hi) = unat lo + 256 * unat hi"
proof -
  have "word16_of lo hi = ucast lo + push_bit 8 (ucast hi)"
    unfolding word16_of_def
    by (rule disjunctive_add [symmetric]) (auto simp: bit_simps)
  moreover have "unat (push_bit 8 (ucast hi :: u16)) = 256 * unat hi"
    using unat_byte_less [of hi]
    by (simp add: push_bit_eq_mult unat_word_ariths unsigned_ucast_eq take_bit_eq_mod)
  ultimately show ?thesis
    using unat_byte_less [of lo] unat_byte_less [of hi]
    by (simp add: unat_word_ariths unsigned_ucast_eq take_bit_eq_mod)
qed

section \<open>Runs of operations and their simulation\<close>

text \<open>
  A component is driven by a sequence of operations; a step may fail (\<open>None\<close>: the C code would
  leave its contract) and emits a list of observations.  A detailed component implements an
  abstract one when every abstract step is matched: then every abstract run is.
\<close>

fun run_ops :: "('o \<Rightarrow> 's \<Rightarrow> ('s \<times> 'a list) option) \<Rightarrow> 'o list \<Rightarrow> 's \<Rightarrow> ('s \<times> 'a list) option" where
  "run_ops step [] s = Some (s, [])"
| "run_ops step (x # xs) s =
     (case step x s of
        None \<Rightarrow> None
      | Some (s', as) \<Rightarrow> map_option (\<lambda>(s'', bs). (s'', as @ bs)) (run_ops step xs s'))"

locale simulation =
  fixes R :: "'s \<Rightarrow> 't \<Rightarrow> bool"
    and cstep :: "'o \<Rightarrow> 's \<Rightarrow> ('s \<times> 'a list) option"
    and astep :: "'o \<Rightarrow> 't \<Rightarrow> ('t \<times> 'a list) option"
  assumes step_sim: "R s t \<Longrightarrow> astep x t = Some (t', as) \<Longrightarrow> \<exists>s'. cstep x s = Some (s', as) \<and> R s' t'"
begin

lemma run_sim:
  "R s t \<Longrightarrow> run_ops astep xs t = Some (t', as) \<Longrightarrow> \<exists>s'. run_ops cstep xs s = Some (s', as) \<and> R s' t'"
proof (induction xs arbitrary: s t as)
  case (Cons x xs)
  from Cons.prems(2) obtain t1 as1 as2
    where a: "astep x t = Some (t1, as1)" "run_ops astep xs t1 = Some (t', as2)" "as = as1 @ as2"
    by (auto split: option.splits prod.splits)
  from step_sim [OF Cons.prems(1) a(1)] obtain s1 where "cstep x s = Some (s1, as1)" "R s1 t1" by blast
  with Cons.IH [OF \<open>R s1 t1\<close> a(2)] a(3) show ?case by auto
qed simp

end

lemma run_ops_invariant:
  assumes "\<And>x s s' as. I s \<Longrightarrow> step x s = Some (s', as) \<Longrightarrow> I s'" "I s" "run_ops step xs s = Some (s', as)"
  shows "I s'"
  using assms(2,3)
proof (induction xs arbitrary: s as)
  case (Cons x xs)
  from Cons.prems obtain s1 as1 as2
    where "step x s = Some (s1, as1)" "run_ops step xs s1 = Some (s', as2)"
    by (auto split: option.splits prod.splits)
  with assms(1) Cons show ?case by blast
qed simp

text \<open>
  An invariant over the whole history: \<open>H h s\<close> relates the observations \<open>h\<close> made so far with the
  state \<open>s\<close> they led to, for the operations that satisfy \<open>ok\<close>.
\<close>

locale history_invariant =
  fixes H :: "'a list \<Rightarrow> 's \<Rightarrow> bool"
    and ok :: "'o \<Rightarrow> bool"
    and step :: "'o \<Rightarrow> 's \<Rightarrow> ('s \<times> 'a list) option"
  assumes step_history: "H h s \<Longrightarrow> ok x \<Longrightarrow> step x s = Some (s', as) \<Longrightarrow> H (h @ as) s'"
begin

lemma run_history:
  "H h s \<Longrightarrow> list_all ok xs \<Longrightarrow> run_ops step xs s = Some (s', as) \<Longrightarrow> H (h @ as) s'"
proof (induction xs arbitrary: h s as)
  case (Cons x xs)
  from Cons.prems(3) obtain s1 as1 as2
    where a: "step x s = Some (s1, as1)" "run_ops step xs s1 = Some (s', as2)" "as = as1 @ as2"
    by (auto split: option.splits prod.splits)
  have "H (h @ as1) s1" using step_history [OF Cons.prems(1) _ a(1)] Cons.prems(2) by simp
  moreover have "list_all ok xs" using Cons.prems(2) by simp
  ultimately have "H ((h @ as1) @ as2) s'" by (rule Cons.IH [OF _ _ a(2)])
  then show ?case by (simp add: a(3))
qed simp

end

lemma run_ops_append:
  "run_ops step (xs @ ys) s =
     (case run_ops step xs s of None \<Rightarrow> None
      | Some (s', as) \<Rightarrow> map_option (\<lambda>(s'', bs). (s'', as @ bs)) (run_ops step ys s'))"
proof (induction xs arbitrary: s)
  case Nil
  show ?case by (cases "run_ops step ys s") auto
next
  case (Cons x xs)
  show ?case
  proof (cases "step x s")
    case (Some r)
    then show ?thesis
      by (cases r; cases "run_ops step xs (fst r)"; cases "run_ops step ys (fst (the (run_ops step xs (fst r))))")
        (auto simp: Cons.IH)
  qed simp
qed

text \<open>\<open>reaches step xs P Q\<close>: from every state with \<open>P\<close> the operations \<open>xs\<close> can all be performed and end in \<open>Q\<close>.\<close>

definition reaches :: "('o \<Rightarrow> 's \<Rightarrow> ('s \<times> 'a list) option) \<Rightarrow> 'o list \<Rightarrow> ('s \<Rightarrow> bool) \<Rightarrow> ('s \<Rightarrow> bool) \<Rightarrow> bool" where
  "reaches step xs P Q \<longleftrightarrow> (\<forall>s. P s \<longrightarrow> (\<exists>s' as. run_ops step xs s = Some (s', as) \<and> Q s'))"

lemma reaches_append: "reaches step xs P Q \<Longrightarrow> reaches step ys Q R \<Longrightarrow> reaches step (xs @ ys) P R"
  unfolding reaches_def run_ops_append by fastforce

lemma reaches_Nil [simp]: "reaches step [] P P"
  by (simp add: reaches_def)

lemma reaches_single:
  "(\<And>s. P s \<Longrightarrow> \<exists>s' as. step x s = Some (s', as) \<and> Q s') \<Longrightarrow> reaches step [x] P Q"
  unfolding reaches_def by fastforce

text \<open>Runs of a machine whose steps do not make observations.\<close>

fun run_all :: "('o \<Rightarrow> 's \<Rightarrow> 's option) \<Rightarrow> 'o list \<Rightarrow> 's \<Rightarrow> 's option" where
  "run_all step [] s = Some s"
| "run_all step (x # xs) s = (case step x s of None \<Rightarrow> None | Some s' \<Rightarrow> run_all step xs s')"

text \<open>A machine that is never stuck: every step from a state of the invariant is defined and keeps it.\<close>

locale total_machine =
  fixes I :: "'s \<Rightarrow> bool"
    and step :: "'o \<Rightarrow> 's \<Rightarrow> 's option"
  assumes step_total: "I s \<Longrightarrow> \<exists>s'. step x s = Some s' \<and> I s'"
begin

lemma run_total: "I s \<Longrightarrow> \<exists>s'. run_all step xs s = Some s' \<and> I s'"
proof (induction xs arbitrary: s)
  case (Cons x xs)
  from step_total [OF Cons.prems] obtain s1 where "step x s = Some s1" "I s1" by blast
  with Cons.IH [of s1] show ?case by simp
qed simp

end

end
