(* ===== verification/Linked_Lists.thy ===== *)
theory Linked_Lists
  imports Prelude
begin

text \<open>
  The intrusive doubly linked lists: \<^verbatim>\<open>badvpn/structure/LinkedList1.h\<close> and the list template
  \<^verbatim>\<open>badvpn/structure/SLinkedList_impl.h\<close> as \<^verbatim>\<open>BPending\<close> instantiates it (no \<open>last\<close> pointer).
  Nodes are abstract addresses; the store maps an address to its two link fields, \<open>None\<close> for
  \<open>NULL\<close>.  Each operation is shown to implement the list operation it stands for.
\<close>

section \<open>The node store\<close>

record 'n links =
  lp :: "'n \<Rightarrow> 'n option"
  ln :: "'n \<Rightarrow> 'n option"

definition set_p :: "'n links \<Rightarrow> 'n \<Rightarrow> 'n option \<Rightarrow> 'n links" where
  "set_p h x v = h\<lparr>lp := (lp h)(x := v)\<rparr>"

definition set_n :: "'n links \<Rightarrow> 'n \<Rightarrow> 'n option \<Rightarrow> 'n links" where
  "set_n h x v = h\<lparr>ln := (ln h)(x := v)\<rparr>"

lemma links_set [simp]:
  "lp (set_p h x v) = (lp h)(x := v)" "ln (set_p h x v) = ln h"
  "ln (set_n h x v) = (ln h)(x := v)" "lp (set_n h x v) = lp h"
  by (simp_all add: set_p_def set_n_def)

section \<open>LinkedList1\<close>

record 'n LinkedList1 =
  ll_first :: "'n option"
  ll_last :: "'n option"

definition LinkedList1_Init :: "'n LinkedList1" where
  "LinkedList1_Init = \<lparr>ll_first = None, ll_last = None\<rparr>"

definition LinkedList1_IsEmpty :: "'n LinkedList1 \<Rightarrow> bool" where
  "LinkedList1_IsEmpty l = (ll_first l = None)"

definition LinkedList1_GetFirst :: "'n LinkedList1 \<Rightarrow> 'n option" where
  "LinkedList1_GetFirst l = ll_first l"

definition LinkedList1_GetLast :: "'n LinkedList1 \<Rightarrow> 'n option" where
  "LinkedList1_GetLast l = ll_last l"

definition LinkedList1_Prepend ::
    "'n links \<Rightarrow> 'n LinkedList1 \<Rightarrow> 'n \<Rightarrow> 'n links \<times> 'n LinkedList1" where
  "LinkedList1_Prepend h l node =
     (let h1 = set_n (set_p h node None) node (ll_first l);
          (h2, l2) = (case ll_first l of
             Some f \<Rightarrow> (set_p h1 f (Some node), l)
           | None \<Rightarrow> (h1, l\<lparr>ll_last := Some node\<rparr>))
      in (h2, l2\<lparr>ll_first := Some node\<rparr>))"

definition LinkedList1_Append ::
    "'n links \<Rightarrow> 'n LinkedList1 \<Rightarrow> 'n \<Rightarrow> 'n links \<times> 'n LinkedList1" where
  "LinkedList1_Append h l node =
     (let h1 = set_n (set_p h node (ll_last l)) node None;
          (h2, l2) = (case ll_last l of
             Some e \<Rightarrow> (set_n h1 e (Some node), l)
           | None \<Rightarrow> (h1, l\<lparr>ll_first := Some node\<rparr>))
      in (h2, l2\<lparr>ll_last := Some node\<rparr>))"

definition LinkedList1_InsertBefore ::
    "'n links \<Rightarrow> 'n LinkedList1 \<Rightarrow> 'n \<Rightarrow> 'n \<Rightarrow> 'n links \<times> 'n LinkedList1" where
  "LinkedList1_InsertBefore h l node target =
     (let h1 = set_n (set_p h node (lp h target)) node (Some target);
          (h2, l2) = (case lp h1 target of
             Some q \<Rightarrow> (set_n h1 q (Some node), l)
           | None \<Rightarrow> (h1, l\<lparr>ll_first := Some node\<rparr>))
      in (set_p h2 target (Some node), l2))"

definition LinkedList1_InsertAfter ::
    "'n links \<Rightarrow> 'n LinkedList1 \<Rightarrow> 'n \<Rightarrow> 'n \<Rightarrow> 'n links \<times> 'n LinkedList1" where
  "LinkedList1_InsertAfter h l node target =
     (let h1 = set_n (set_p h node (Some target)) node (ln h target);
          (h2, l2) = (case ln h1 target of
             Some q \<Rightarrow> (set_p h1 q (Some node), l)
           | None \<Rightarrow> (h1, l\<lparr>ll_last := Some node\<rparr>))
      in (set_n h2 target (Some node), l2))"

definition LinkedList1_Remove ::
    "'n links \<Rightarrow> 'n LinkedList1 \<Rightarrow> 'n \<Rightarrow> 'n links \<times> 'n LinkedList1" where
  "LinkedList1_Remove h l node =
     (let (h1, l1) = (case lp h node of
             Some q \<Rightarrow> (set_n h q (ln h node), l)
           | None \<Rightarrow> (h, l\<lparr>ll_first := ln h node\<rparr>))
      in case ln h1 node of
           Some r \<Rightarrow> (set_p h1 r (lp h1 node), l1)
         | None \<Rightarrow> (h1, l1\<lparr>ll_last := lp h1 node\<rparr>))"

definition LinkedList1_InsertListAfter ::
    "'n links \<Rightarrow> 'n LinkedList1 \<Rightarrow> 'n LinkedList1 \<Rightarrow> 'n option \<Rightarrow> 'n links \<times> 'n LinkedList1" where
  "LinkedList1_InsertListAfter h l ins target =
     (case (ll_first ins, ll_last ins) of
        (Some f, Some e) \<Rightarrow>
          (let t_next = (case target of Some t \<Rightarrow> ln h t | None \<Rightarrow> ll_first l);
               h1 = set_n (set_p h f target) e t_next;
               (h2, l2) = (case target of
                  Some t \<Rightarrow> (set_n h1 t (Some f), l)
                | None \<Rightarrow> (h1, l\<lparr>ll_first := Some f\<rparr>))
           in case t_next of
                Some r \<Rightarrow> (set_p h2 r (Some e), l2)
              | None \<Rightarrow> (h2, l2\<lparr>ll_last := Some e\<rparr>))
      | _ \<Rightarrow> (h, l))"

section \<open>The list a store represents\<close>

fun hd_or :: "'n list \<Rightarrow> 'n option \<Rightarrow> 'n option" where
  "hd_or [] d = d"
| "hd_or (x # _) d = Some x"

fun last_or :: "'n option \<Rightarrow> 'n list \<Rightarrow> 'n option" where
  "last_or d [] = d"
| "last_or d (x # xs) = last_or (Some x) xs"

lemma hd_or_append [simp]: "hd_or (xs @ ys) d = hd_or xs (hd_or ys d)"
  by (cases xs) auto

lemma last_or_append [simp]: "last_or d (xs @ ys) = last_or (last_or d xs) ys"
  by (induction xs arbitrary: d) auto

lemma hd_or_None [simp]: "hd_or xs None = None \<longleftrightarrow> xs = []"
  by (cases xs) auto

lemma last_or_Some: "xs \<noteq> [] \<Longrightarrow> last_or d xs = Some (last xs)"
  by (induction xs arbitrary: d) auto

lemma last_or_None [simp]: "last_or None xs = None \<longleftrightarrow> xs = []"
  by (cases xs rule: rev_cases) auto

text \<open>\<open>seg h pr xs nx\<close>: the nodes \<open>xs\<close> are linked in this order, entered from \<open>pr\<close>, left to \<open>nx\<close>.\<close>

fun seg :: "'n links \<Rightarrow> 'n option \<Rightarrow> 'n list \<Rightarrow> 'n option \<Rightarrow> bool" where
  "seg h pr [] nx = True"
| "seg h pr (x # xs) nx = (lp h x = pr \<and> ln h x = hd_or xs nx \<and> seg h (Some x) xs nx)"

lemma seg_append [simp]:
  "seg h pr (xs @ ys) nx = (seg h pr xs (hd_or ys nx) \<and> seg h (last_or pr xs) ys nx)"
  by (induction xs arbitrary: pr) auto

lemma seg_frame [simp]:
  "x \<notin> set xs \<Longrightarrow> seg (set_p h x v) pr xs nx = seg h pr xs nx"
  "x \<notin> set xs \<Longrightarrow> seg (set_n h x v) pr xs nx = seg h pr xs nx"
  by (induction xs arbitrary: pr) auto

lemma seg_set_n_last:
  "seg h pr xs nx \<Longrightarrow> last_or None xs = Some e \<Longrightarrow> distinct xs \<Longrightarrow> seg (set_n h e nx') pr xs nx'"
  by (cases xs rule: rev_cases) (auto simp: last_or_Some)

lemma seg_set_p_hd:
  "seg h pr xs nx \<Longrightarrow> hd_or xs None = Some f \<Longrightarrow> distinct xs \<Longrightarrow> seg (set_p h f pr') pr' xs nx"
  by (cases xs) auto

definition ll_repr :: "'n links \<Rightarrow> 'n LinkedList1 \<Rightarrow> 'n list \<Rightarrow> bool" where
  "ll_repr h l xs \<longleftrightarrow> distinct xs \<and> seg h None xs None \<and>
     ll_first l = hd_or xs None \<and> ll_last l = last_or None xs"

lemma ll_repr_Init [simp]: "ll_repr h LinkedList1_Init []"
  by (simp add: ll_repr_def LinkedList1_Init_def)

lemma ll_repr_IsEmpty: "ll_repr h l xs \<Longrightarrow> LinkedList1_IsEmpty l \<longleftrightarrow> xs = []"
  by (cases xs) (auto simp: ll_repr_def LinkedList1_IsEmpty_def)

lemma ll_repr_GetFirst: "ll_repr h l xs \<Longrightarrow> LinkedList1_GetFirst l = hd_or xs None"
  by (simp add: ll_repr_def LinkedList1_GetFirst_def)

lemma ll_repr_GetLast: "ll_repr h l xs \<Longrightarrow> LinkedList1_GetLast l = last_or None xs"
  by (simp add: ll_repr_def LinkedList1_GetLast_def)

lemma ll_repr_Prepend:
  assumes "ll_repr h l xs" "x \<notin> set xs"
  shows "(case LinkedList1_Prepend h l x of (h', l') \<Rightarrow> ll_repr h' l' (x # xs))"
  using assms by (cases xs) (auto simp: ll_repr_def LinkedList1_Prepend_def)

lemma ll_repr_Append:
  assumes "ll_repr h l xs" "x \<notin> set xs"
  shows "(case LinkedList1_Append h l x of (h', l') \<Rightarrow> ll_repr h' l' (xs @ [x]))"
  using assms
  by (cases xs rule: rev_cases) (auto simp: ll_repr_def LinkedList1_Append_def)

lemma ll_repr_Remove:
  assumes "ll_repr h l (as @ x # bs)"
  shows "(case LinkedList1_Remove h l x of (h', l') \<Rightarrow> ll_repr h' l' (as @ bs))"
  using assms
  by (cases as rule: rev_cases; cases bs) (auto simp: ll_repr_def LinkedList1_Remove_def)

lemma ll_repr_InsertBefore:
  assumes "ll_repr h l (as @ t # bs)" "x \<notin> set (as @ t # bs)"
  shows "(case LinkedList1_InsertBefore h l x t of (h', l') \<Rightarrow> ll_repr h' l' (as @ x # t # bs))"
  using assms
  by (cases as rule: rev_cases) (auto simp: ll_repr_def LinkedList1_InsertBefore_def)

lemma ll_repr_InsertAfter:
  assumes "ll_repr h l (as @ t # bs)" "x \<notin> set (as @ t # bs)"
  shows "(case LinkedList1_InsertAfter h l x t of (h', l') \<Rightarrow> ll_repr h' l' (as @ t # x # bs))"
  using assms
  by (cases bs) (auto simp: ll_repr_def LinkedList1_InsertAfter_def)

lemma list_ends_cases:
  obtains (nil) "ys = []" | (single) y where "ys = [y]" | (ends) f m e where "ys = f # m @ [e]"
proof (cases ys)
  case (Cons f t)
  then show thesis by (cases t rule: rev_cases) (use single ends in auto)
qed (use nil in auto)

text \<open>Splicing a second list in: after \<open>target\<close>, or at the front when there is none.\<close>

lemma ll_repr_InsertListAfter_front:
  assumes "ll_repr h l xs" "ll_repr h ins ys" "set xs \<inter> set ys = {}"
  shows "(case LinkedList1_InsertListAfter h l ins None of (h', l') \<Rightarrow> ll_repr h' l' (ys @ xs))"
  using assms
  by (cases ys rule: list_ends_cases; cases xs)
     (auto simp: ll_repr_def LinkedList1_InsertListAfter_def)

lemma ll_repr_InsertListAfter:
  assumes "ll_repr h l (as @ t # bs)" "ll_repr h ins ys" "set (as @ t # bs) \<inter> set ys = {}"
  shows "(case LinkedList1_InsertListAfter h l ins (Some t) of (h', l') \<Rightarrow> ll_repr h' l' (as @ t # ys @ bs))"
  using assms
  by (cases ys rule: list_ends_cases; cases bs)
     (auto simp: ll_repr_def LinkedList1_InsertListAfter_def)

section \<open>SLinkedList without a last pointer\<close>

text \<open>
  The state of the list is its \<open>first\<close> field.  The \<open>prev\<close> field of the first entry is never
  initialised, so an operation that follows a \<open>prev\<close> link may meet any value there: the
  operations that do return \<open>None\<close> where the C code would dereference \<open>NULL\<close>.
\<close>

definition SLinkedListMarkRemoved :: "'n links \<Rightarrow> 'n \<Rightarrow> 'n links" where
  "SLinkedListMarkRemoved h entry = set_n h entry (Some entry)"

definition SLinkedListIsRemoved :: "'n links \<Rightarrow> 'n \<Rightarrow> bool" where
  "SLinkedListIsRemoved h entry = (ln h entry = Some entry)"

definition SLinkedList_Init :: "'n option" where
  "SLinkedList_Init = None"

definition SLinkedList_Next :: "'n links \<Rightarrow> 'n option \<Rightarrow> 'n \<Rightarrow> 'n option" where
  "SLinkedList_Next h first entry = ln h entry"

definition SLinkedList_Prev :: "'n links \<Rightarrow> 'n option \<Rightarrow> 'n \<Rightarrow> 'n option" where
  "SLinkedList_Prev h first entry = (if Some entry = first then None else lp h entry)"

definition SLinkedList_Prepend ::
    "'n links \<Rightarrow> 'n option \<Rightarrow> 'n \<Rightarrow> 'n links \<times> 'n option" where
  "SLinkedList_Prepend h first entry =
     (let h1 = set_n h entry first;
          h2 = (case first of Some f \<Rightarrow> set_p h1 f (Some entry) | None \<Rightarrow> h1)
      in (h2, Some entry))"

definition SLinkedList_InsertBefore ::
    "'n links \<Rightarrow> 'n option \<Rightarrow> 'n \<Rightarrow> 'n \<Rightarrow> ('n links \<times> 'n option) option" where
  "SLinkedList_InsertBefore h first entry before_entry =
     (let h1 = set_n h entry (Some before_entry)
      in if Some before_entry \<noteq> first then
           (let h2 = set_p h1 entry (lp h1 before_entry)
            in case lp h2 before_entry of
                 None \<Rightarrow> None
               | Some q \<Rightarrow> Some (set_p (set_n h2 q (Some entry)) before_entry (Some entry), first))
         else Some (set_p h1 before_entry (Some entry), Some entry))"

definition SLinkedList_InsertAfter ::
    "'n links \<Rightarrow> 'n option \<Rightarrow> 'n \<Rightarrow> 'n \<Rightarrow> 'n links \<times> 'n option" where
  "SLinkedList_InsertAfter h first entry after_entry =
     (let h1 = set_p (set_n h entry (ln h after_entry)) entry (Some after_entry);
          h2 = (case ln h1 after_entry of Some r \<Rightarrow> set_p h1 r (Some entry) | None \<Rightarrow> h1)
      in (set_n h2 after_entry (Some entry), first))"

definition SLinkedList_Remove ::
    "'n links \<Rightarrow> 'n option \<Rightarrow> 'n \<Rightarrow> ('n links \<times> 'n option) option" where
  "SLinkedList_Remove h first entry =
     (if Some entry \<noteq> first then
        (case lp h entry of
           None \<Rightarrow> None
         | Some q \<Rightarrow>
             (let h1 = set_n h q (ln h entry)
              in case ln h1 entry of
                   Some r \<Rightarrow> Some (set_p h1 r (lp h1 entry), first)
                 | None \<Rightarrow> Some (h1, first)))
      else Some (h, ln h entry))"

definition SLinkedList_RemoveFirst :: "'n links \<Rightarrow> 'n option \<Rightarrow> 'n option" where
  "SLinkedList_RemoveFirst h first = (case first of Some f \<Rightarrow> ln h f | None \<Rightarrow> None)"

definition SLinkedList_First :: "'n option \<Rightarrow> 'n option" where
  "SLinkedList_First first = first"

definition SLinkedList_IsEmpty :: "'n option \<Rightarrow> bool" where
  "SLinkedList_IsEmpty first = (first = None)"

lemmas sl_defs = SLinkedListMarkRemoved_def SLinkedListIsRemoved_def SLinkedList_Init_def
  SLinkedList_Next_def SLinkedList_Prev_def SLinkedList_Prepend_def SLinkedList_InsertBefore_def
  SLinkedList_InsertAfter_def SLinkedList_Remove_def SLinkedList_RemoveFirst_def
  SLinkedList_First_def SLinkedList_IsEmpty_def

fun sl_seg :: "'n links \<Rightarrow> 'n list \<Rightarrow> bool" where
  "sl_seg h [] = True"
| "sl_seg h (x # xs) = (ln h x = hd_or xs None \<and> seg h (Some x) xs None)"

definition sl_repr :: "'n links \<Rightarrow> 'n option \<Rightarrow> 'n list \<Rightarrow> bool" where
  "sl_repr h first xs \<longleftrightarrow> distinct xs \<and> sl_seg h xs \<and> first = hd_or xs None"

lemma sl_repr_Init [simp]: "sl_repr h SLinkedList_Init []"
  by (simp add: sl_repr_def sl_defs)

lemma sl_repr_First:
  assumes "sl_repr h first xs"
  shows "SLinkedList_First first = hd_or xs None" "SLinkedList_IsEmpty first \<longleftrightarrow> xs = []"
  using assms by (auto simp: sl_repr_def sl_defs)

lemma sl_repr_Next:
  assumes "sl_repr h first (as @ x # bs)"
  shows "SLinkedList_Next h first x = hd_or bs None" "SLinkedList_Prev h first x = last_or None as"
  using assms by (cases as rule: list_ends_cases; auto simp: sl_repr_def sl_defs)+

text \<open>The removed mark (an entry that is its own successor) never clashes with a linked entry.\<close>

lemma sl_repr_not_removed:
  assumes "sl_repr h first xs" "x \<in> set xs"
  shows "\<not> SLinkedListIsRemoved h x"
proof -
  obtain as bs where "xs = as @ x # bs" using assms(2) by (meson split_list)
  then show ?thesis
    using assms(1) by (cases bs; cases as) (auto simp: sl_repr_def sl_defs)
qed

lemma sl_repr_MarkRemoved:
  assumes "sl_repr h first xs" "x \<notin> set xs"
  shows "sl_repr (SLinkedListMarkRemoved h x) first xs" "SLinkedListIsRemoved (SLinkedListMarkRemoved h x) x"
  using assms by (cases xs; auto simp: sl_repr_def sl_defs)+

lemma sl_repr_Prepend:
  assumes "sl_repr h first xs" "x \<notin> set xs"
  shows "(case SLinkedList_Prepend h first x of (h', f') \<Rightarrow> sl_repr h' f' (x # xs))"
  using assms by (cases xs) (auto simp: sl_repr_def sl_defs)

lemma sl_repr_RemoveFirst:
  assumes "sl_repr h first (x # xs)"
  shows "sl_repr h (SLinkedList_RemoveFirst h first) xs"
  using assms by (cases xs) (auto simp: sl_repr_def sl_defs)

lemma sl_repr_InsertAfter:
  assumes "sl_repr h first (as @ t # bs)" "x \<notin> set (as @ t # bs)"
  shows "(case SLinkedList_InsertAfter h first x t of (h', f') \<Rightarrow> sl_repr h' f' (as @ t # x # bs))"
  using assms by (cases bs; cases as) (auto simp: sl_repr_def sl_defs)

lemma sl_repr_Remove:
  assumes "sl_repr h first (as @ x # bs)"
  shows "\<exists>h' f'. SLinkedList_Remove h first x = Some (h', f') \<and> sl_repr h' f' (as @ bs)"
  using assms
  by (cases as rule: list_ends_cases; cases bs) (auto simp: sl_repr_def sl_defs)

lemma sl_repr_InsertBefore:
  assumes "sl_repr h first (as @ t # bs)" "x \<notin> set (as @ t # bs)"
  shows "\<exists>h' f'. SLinkedList_InsertBefore h first x t = Some (h', f') \<and> sl_repr h' f' (as @ x # t # bs)"
  using assms
  by (cases as rule: list_ends_cases) (auto simp: sl_repr_def sl_defs)

section \<open>The contract of a recency list\<close>

text \<open>
  The connection lists of the UDP clients keep their entries in order of last use: an entry that
  is used is removed and appended again, and the first entry is the one to evict.  The locale
  states what they rely on; its lemmas hold for every implementation.
\<close>

fun touch_all :: "'n list \<Rightarrow> 'n list \<Rightarrow> 'n list" where
  "touch_all xs [] = xs"
| "touch_all xs (t # ts) = touch_all (remove1 t xs @ [t]) ts"

lemma remove1_filter_neq: "distinct xs \<Longrightarrow> remove1 t xs = filter (\<lambda>x. x \<noteq> t) xs"
  by (induction xs) (auto simp: remove1_idem)

lemma touch_all_append: "touch_all xs (ts @ us) = touch_all (touch_all xs ts) us"
  by (induction ts arbitrary: xs) auto

lemma remdups_snoc: "remdups (ts @ [t]) = filter (\<lambda>x. x \<noteq> t) (remdups ts) @ [t]"
  by (induction ts) auto

lemma touch_all_eq:
  assumes "distinct xs" "set ts \<subseteq> set xs"
  shows "touch_all xs ts = filter (\<lambda>x. x \<notin> set ts) xs @ remdups ts"
  using assms
proof (induction ts rule: rev_induct)
  case (snoc t ts)
  have "remove1 t (filter (\<lambda>x. x \<notin> set ts) xs @ remdups ts) =
    filter (\<lambda>x. x \<noteq> t) (filter (\<lambda>x. x \<notin> set ts) xs @ remdups ts)"
    using snoc.prems by (intro remove1_filter_neq) auto
  then show ?case
    using snoc by (simp add: touch_all_append remdups_snoc del: remdups.simps) (auto intro!: filter_cong)
qed auto

locale recency_list =
  fixes repr :: "'s \<Rightarrow> 'n list \<Rightarrow> bool"
    and append :: "'s \<Rightarrow> 'n \<Rightarrow> 's"
    and remove :: "'s \<Rightarrow> 'n \<Rightarrow> 's"
    and first :: "'s \<Rightarrow> 'n option"
  assumes repr_distinct: "repr s xs \<Longrightarrow> distinct xs"
    and repr_append: "repr s xs \<Longrightarrow> x \<notin> set xs \<Longrightarrow> repr (append s x) (xs @ [x])"
    and repr_remove: "repr s xs \<Longrightarrow> x \<in> set xs \<Longrightarrow> repr (remove s x) (remove1 x xs)"
    and repr_first: "repr s xs \<Longrightarrow> first s = hd_or xs None"
begin

lemma repr_touch:
  assumes "repr s xs" "x \<in> set xs"
  shows "repr (append (remove s x) x) (remove1 x xs @ [x])"
  using assms repr_distinct by (intro repr_append repr_remove) auto

lemma repr_touches:
  assumes "repr s xs" "set ts \<subseteq> set xs"
  shows "repr (fold (\<lambda>t s. append (remove s t) t) ts s) (touch_all xs ts)"
  using assms
proof (induction ts arbitrary: s xs)
  case (Cons t ts)
  from Cons.prems have "repr (append (remove s t) t) (remove1 t xs @ [t])"
    by (intro repr_touch) auto
  moreover have "set ts \<subseteq> set (remove1 t xs @ [t])"
    using Cons.prems repr_distinct by (auto simp: in_set_remove1)
  ultimately show ?case using Cons.IH by simp
qed simp

lemma first_least_recent:
  assumes "repr s xs" "set ts \<subseteq> set xs" "x \<in> set xs" "x \<notin> set ts"
  shows "\<exists>y. first (fold (\<lambda>t s. append (remove s t) t) ts s) = Some y \<and> y \<in> set xs \<and> y \<notin> set ts"
proof -
  let ?rest = "filter (\<lambda>x. x \<notin> set ts) xs"
  have "first (fold (\<lambda>t s. append (remove s t) t) ts s) = hd_or (?rest @ remdups ts) None"
    using repr_first [OF repr_touches [OF assms(1,2)]] touch_all_eq [OF repr_distinct [OF assms(1)] assms(2)]
    by simp
  moreover obtain y r where yr: "?rest = y # r"
    using assms(3,4) by (cases ?rest) (auto simp: filter_empty_conv)
  moreover have "y \<in> set xs \<and> y \<notin> set ts"
    using arg_cong [OF yr, of set] by auto
  ultimately show ?thesis by auto
qed

end

definition ll_append :: "'n links \<times> 'n LinkedList1 \<Rightarrow> 'n \<Rightarrow> 'n links \<times> 'n LinkedList1" where
  "ll_append s x = LinkedList1_Append (fst s) (snd s) x"

definition ll_remove :: "'n links \<times> 'n LinkedList1 \<Rightarrow> 'n \<Rightarrow> 'n links \<times> 'n LinkedList1" where
  "ll_remove s x = LinkedList1_Remove (fst s) (snd s) x"

interpretation ll: recency_list
  "\<lambda>s. ll_repr (fst s) (snd s)" ll_append ll_remove "\<lambda>s. LinkedList1_GetFirst (snd s)"
proof unfold_locales
  fix s :: "'a links \<times> 'a LinkedList1" and xs x
  assume r: "ll_repr (fst s) (snd s) xs"
  show "distinct xs" using r by (simp add: ll_repr_def)
  show "LinkedList1_GetFirst (snd s) = hd_or xs None" using r by (rule ll_repr_GetFirst)
  show "ll_repr (fst (ll_append s x)) (snd (ll_append s x)) (xs @ [x])" if "x \<notin> set xs"
    using ll_repr_Append [OF r that] by (simp add: ll_append_def case_prod_beta)
  show "ll_repr (fst (ll_remove s x)) (snd (ll_remove s x)) (remove1 x xs)" if "x \<in> set xs"
  proof -
    from that obtain as bs where "xs = as @ x # bs" "x \<notin> set as" by (meson split_list_first)
    then show ?thesis
      using ll_repr_Remove [of "fst s" "snd s" as x bs] r
      by (simp add: ll_remove_def case_prod_beta remove1_append)
  qed
qed

section \<open>The list operations implement lists\<close>

datatype 'n ll_op =
  LL_Prepend 'n | LL_Append 'n | LL_InsertBefore 'n 'n | LL_InsertAfter 'n 'n | LL_Remove 'n
| LL_First | LL_Last

fun ll_step :: "'n ll_op \<Rightarrow> 'n links \<times> 'n LinkedList1 \<Rightarrow>
    (('n links \<times> 'n LinkedList1) \<times> 'n option list) option" where
  "ll_step (LL_Prepend x) (h, l) = Some (LinkedList1_Prepend h l x, [])"
| "ll_step (LL_Append x) (h, l) = Some (LinkedList1_Append h l x, [])"
| "ll_step (LL_InsertBefore x t) (h, l) = Some (LinkedList1_InsertBefore h l x t, [])"
| "ll_step (LL_InsertAfter x t) (h, l) = Some (LinkedList1_InsertAfter h l x t, [])"
| "ll_step (LL_Remove x) (h, l) = Some (LinkedList1_Remove h l x, [])"
| "ll_step LL_First (h, l) = Some ((h, l), [LinkedList1_GetFirst l])"
| "ll_step LL_Last (h, l) = Some ((h, l), [LinkedList1_GetLast l])"

text \<open>The same operations on a list without repetitions; using a linked node again is an error.\<close>

fun splice_at :: "'n list \<Rightarrow> 'n \<Rightarrow> 'n list \<Rightarrow> 'n list" where
  "splice_at r t [] = []"
| "splice_at r t (y # ys) = (if y = t then r @ ys else y # splice_at r t ys)"

lemma splice_at_split: "t \<notin> set as \<Longrightarrow> splice_at r t (as @ t # bs) = as @ r @ bs"
  by (induction as) auto

fun list_step :: "'n ll_op \<Rightarrow> 'n list \<Rightarrow> ('n list \<times> 'n option list) option" where
  "list_step (LL_Prepend x) xs = (if x \<in> set xs then None else Some (x # xs, []))"
| "list_step (LL_Append x) xs = (if x \<in> set xs then None else Some (xs @ [x], []))"
| "list_step (LL_InsertBefore x t) xs =
     (if x \<in> set xs \<or> t \<notin> set xs then None else Some (splice_at [x, t] t xs, []))"
| "list_step (LL_InsertAfter x t) xs =
     (if x \<in> set xs \<or> t \<notin> set xs then None else Some (splice_at [t, x] t xs, []))"
| "list_step (LL_Remove x) xs = (if x \<in> set xs then Some (splice_at [] x xs, []) else None)"
| "list_step LL_First xs = Some (xs, [hd_or xs None])"
| "list_step LL_Last xs = Some (xs, [last_or None xs])"

definition ll_sim :: "'n links \<times> 'n LinkedList1 \<Rightarrow> 'n list \<Rightarrow> bool" where
  "ll_sim s xs \<longleftrightarrow> ll_repr (fst s) (snd s) xs"

interpretation llops: simulation ll_sim ll_step list_step
proof unfold_locales
  fix s :: "'n links \<times> 'n LinkedList1" and xs x ys out
  assume sim: "ll_sim s xs" and st: "list_step x xs = Some (ys, out)"
  obtain h l where s: "s = (h, l)" by fastforce
  with sim have r: "ll_repr h l xs" by (simp add: ll_sim_def)
  have split: "\<exists>as bs. xs = as @ t # bs \<and> t \<notin> set as \<and> ll_repr h l (as @ t # bs)" if "t \<in> set xs" for t
    using split_list_first [OF that] r by blast
  show "\<exists>s'. ll_step x s = Some (s', out) \<and> ll_sim s' ys"
  proof (cases x)
    case (LL_InsertBefore y t)
    with st obtain as bs where "xs = as @ t # bs" "t \<notin> set as" "y \<notin> set xs" "ll_repr h l (as @ t # bs)"
      using split [of t] by (auto split: if_splits)
    with LL_InsertBefore st s ll_repr_InsertBefore [of h l as t bs y] show ?thesis
      by (auto simp: ll_sim_def splice_at_split case_prod_beta)
  next
    case (LL_InsertAfter y t)
    with st obtain as bs where "xs = as @ t # bs" "t \<notin> set as" "y \<notin> set xs" "ll_repr h l (as @ t # bs)"
      using split [of t] by (auto split: if_splits)
    with LL_InsertAfter st s ll_repr_InsertAfter [of h l as t bs y] show ?thesis
      by (auto simp: ll_sim_def splice_at_split case_prod_beta)
  next
    case (LL_Remove t)
    with st obtain as bs where "xs = as @ t # bs" "t \<notin> set as" "ll_repr h l (as @ t # bs)"
      using split [of t] by (auto split: if_splits)
    with LL_Remove st s ll_repr_Remove [of h l as t bs] show ?thesis
      by (auto simp: ll_sim_def splice_at_split case_prod_beta)
  qed (use st s r ll_repr_Prepend [OF r] ll_repr_Append [OF r] in
      \<open>auto simp: ll_sim_def case_prod_beta ll_repr_GetFirst ll_repr_GetLast split: if_splits\<close>)
qed

section \<open>Properties\<close>

text \<open>Every sequence of \<^verbatim>\<open>LinkedList1\<close> operations that starts at an empty list and is meaningful for a
  list without repetitions behaves as on that list: \<^verbatim>\<open>GetFirst\<close> and \<^verbatim>\<open>GetLast\<close> return its ends, and
  the links represent it at the end.\<close>

theorem LinkedList1_refines_list:
  assumes "run_ops list_step ops [] = Some (xs, outs)"
  shows "\<exists>h' l'. run_ops ll_step ops (h, LinkedList1_Init) = Some ((h', l'), outs) \<and> ll_repr h' l' xs"
  using llops.run_sim [of "(h, LinkedList1_Init)" "[]" ops xs outs] assms by (auto simp: ll_sim_def)

theorem LinkedList1_refines_list_witness:
  "\<exists>h' l'. run_ops ll_step
     [LL_Append (1::nat), LL_Prepend 2, LL_InsertBefore 3 1, LL_InsertAfter 4 1, LL_Remove 1, LL_First, LL_Last]
     (\<lparr>lp = \<lambda>_. None, ln = \<lambda>_. Some 7\<rparr>, LinkedList1_Init) = Some ((h', l'), [Some 2, Some 4]) \<and>
   ll_repr h' l' [2, 3, 4]"
  by (rule LinkedList1_refines_list) simp

text \<open>In a \<^verbatim>\<open>LinkedList1\<close> whose entries are removed and appended again when they are used, the first
  entry is never one that was used while some entry was not: evicting the first entry evicts the
  least recently used.\<close>

theorem LinkedList1_least_recent:
  assumes "ll_repr h l xs" "set ts \<subseteq> set xs" "x \<in> set xs" "x \<notin> set ts"
  shows "\<exists>y. LinkedList1_GetFirst (snd (fold (\<lambda>t s. ll_append (ll_remove s t) t) ts (h, l))) = Some y \<and>
    y \<in> set xs \<and> y \<notin> set ts"
  using ll.first_least_recent [of "(h, l)" xs ts x] assms by simp

theorem LinkedList1_least_recent_witness:
  "\<exists>y. LinkedList1_GetFirst (snd (fold (\<lambda>t s. ll_append (ll_remove s t) t) [1, 2, 1]
      (\<lparr>lp = [2 \<mapsto> 1, 3 \<mapsto> 2], ln = [1 \<mapsto> 2, 2 \<mapsto> (3::nat)]\<rparr>, \<lparr>ll_first = Some 1, ll_last = Some 3\<rparr>))) = Some y \<and>
    y \<in> set [1, 2, 3] \<and> y \<notin> set [1, 2, 1]"
  by (rule LinkedList1_least_recent [where x = 3]) (simp_all add: ll_repr_def)

end
