(* ===== verification/BPending.thy ===== *)
theory BPending
  imports Linked_Lists
begin

text \<open>
  The job queue of the reactor: \<^verbatim>\<open>badvpn/base/BPending.c\<close>, and the job dispatch of
  \<^verbatim>\<open>BReactor_Synchronize\<close> in \<^verbatim>\<open>badvpn/system/BReactor_badvpn.c\<close>.  A group owns a linked list of the jobs
  that are set; a job stores its handler and is marked as removed while it is not set.  The jobs
  of a group are executed last set first.
\<close>

section \<open>Job groups\<close>

record ('n, 'h) BPendingGroup =
  pg_jobs :: "'n option"
  pg_links :: "'n links"
  pg_handler :: "'n \<Rightarrow> 'h option"

definition BPendingGroup_Init :: "'n links \<Rightarrow> ('n, 'h) BPendingGroup" where
  "BPendingGroup_Init h = \<lparr>pg_jobs = SLinkedList_Init, pg_links = h, pg_handler = Map.empty\<rparr>"

definition BPendingGroup_HasJobs :: "('n, 'h) BPendingGroup \<Rightarrow> bool" where
  "BPendingGroup_HasJobs g = (\<not> SLinkedList_IsEmpty (pg_jobs g))"

definition BPendingGroup_PeekJob :: "('n, 'h) BPendingGroup \<Rightarrow> 'n option" where
  "BPendingGroup_PeekJob g = SLinkedList_First (pg_jobs g)"

text \<open>
  Executing a job unlinks it, marks it and yields the handler that is called next; the result is
  \<open>None\<close> for an empty group or a job that was never initialised.
\<close>

definition BPendingGroup_ExecuteJob ::
    "('n, 'h) BPendingGroup \<Rightarrow> (('n, 'h) BPendingGroup \<times> 'h) option" where
  "BPendingGroup_ExecuteJob g =
     (case SLinkedList_First (pg_jobs g) of
        None \<Rightarrow> None
      | Some p \<Rightarrow>
          (let jobs = SLinkedList_RemoveFirst (pg_links g) (pg_jobs g);
               links = SLinkedListMarkRemoved (pg_links g) p
           in case pg_handler g p of
                None \<Rightarrow> None
              | Some hnd \<Rightarrow> Some (g\<lparr>pg_jobs := jobs, pg_links := links\<rparr>, hnd)))"

definition BSmallPending_Init ::
    "('n, 'h) BPendingGroup \<Rightarrow> 'n \<Rightarrow> 'h \<Rightarrow> ('n, 'h) BPendingGroup" where
  "BSmallPending_Init g x hnd =
     g\<lparr>pg_links := SLinkedListMarkRemoved (pg_links g) x, pg_handler := (pg_handler g)(x \<mapsto> hnd)\<rparr>"

definition BSmallPending_SetHandler ::
    "('n, 'h) BPendingGroup \<Rightarrow> 'n \<Rightarrow> 'h \<Rightarrow> ('n, 'h) BPendingGroup" where
  "BSmallPending_SetHandler g x hnd = g\<lparr>pg_handler := (pg_handler g)(x \<mapsto> hnd)\<rparr>"

definition BSmallPending_IsSet :: "('n, 'h) BPendingGroup \<Rightarrow> 'n \<Rightarrow> bool" where
  "BSmallPending_IsSet g x = (\<not> SLinkedListIsRemoved (pg_links g) x)"

definition pending_unlink ::
    "('n, 'h) BPendingGroup \<Rightarrow> 'n \<Rightarrow> ('n, 'h) BPendingGroup option" where
  "pending_unlink g x =
     (if \<not> SLinkedListIsRemoved (pg_links g) x then
        map_option (\<lambda>(links, jobs). g\<lparr>pg_jobs := jobs, pg_links := links\<rparr>)
          (SLinkedList_Remove (pg_links g) (pg_jobs g) x)
      else Some g)"

text \<open>Freeing ends the life of the job object: its handler field is gone afterwards.\<close>

definition BSmallPending_Free ::
    "('n, 'h) BPendingGroup \<Rightarrow> 'n \<Rightarrow> ('n, 'h) BPendingGroup option" where
  "BSmallPending_Free g x =
     map_option (\<lambda>g1. g1\<lparr>pg_handler := (pg_handler g1)(x := None)\<rparr>) (pending_unlink g x)"

definition BSmallPending_Set ::
    "('n, 'h) BPendingGroup \<Rightarrow> 'n \<Rightarrow> ('n, 'h) BPendingGroup option" where
  "BSmallPending_Set g x =
     map_option (\<lambda>g1. let (links, jobs) = SLinkedList_Prepend (pg_links g1) (pg_jobs g1) x
                      in g1\<lparr>pg_jobs := jobs, pg_links := links\<rparr>)
       (pending_unlink g x)"

definition BSmallPending_Unset ::
    "('n, 'h) BPendingGroup \<Rightarrow> 'n \<Rightarrow> ('n, 'h) BPendingGroup option" where
  "BSmallPending_Unset g x =
     (if \<not> SLinkedListIsRemoved (pg_links g) x then
        map_option (\<lambda>(links, jobs). g\<lparr>pg_jobs := jobs, pg_links := SLinkedListMarkRemoved links x\<rparr>)
          (SLinkedList_Remove (pg_links g) (pg_jobs g) x)
      else Some g)"

text \<open>\<^verbatim>\<open>BPending\<close> is a \<^verbatim>\<open>BSmallPending\<close> that remembers its group; the five wrappers call through.\<close>

definition BPending_Init :: "('n, 'h) BPendingGroup \<Rightarrow> 'n \<Rightarrow> 'h \<Rightarrow> ('n, 'h) BPendingGroup" where
  "BPending_Init g x hnd = BSmallPending_Init g x hnd"

definition BPending_Free :: "('n, 'h) BPendingGroup \<Rightarrow> 'n \<Rightarrow> ('n, 'h) BPendingGroup option" where
  "BPending_Free g x = BSmallPending_Free g x"

definition BPending_Set :: "('n, 'h) BPendingGroup \<Rightarrow> 'n \<Rightarrow> ('n, 'h) BPendingGroup option" where
  "BPending_Set g x = BSmallPending_Set g x"

definition BPending_Unset :: "('n, 'h) BPendingGroup \<Rightarrow> 'n \<Rightarrow> ('n, 'h) BPendingGroup option" where
  "BPending_Unset g x = BSmallPending_Unset g x"

definition BPending_IsSet :: "('n, 'h) BPendingGroup \<Rightarrow> 'n \<Rightarrow> bool" where
  "BPending_IsSet g x = BSmallPending_IsSet g x"

lemmas pg_defs = BPendingGroup_Init_def BPendingGroup_HasJobs_def BPendingGroup_PeekJob_def
  BPendingGroup_ExecuteJob_def BSmallPending_Init_def BSmallPending_SetHandler_def
  BSmallPending_IsSet_def pending_unlink_def BSmallPending_Free_def BSmallPending_Set_def
  BSmallPending_Unset_def

section \<open>The stack of jobs a group represents\<close>

text \<open>
  A group with live jobs \<open>dom (pg_handler g)\<close> represents the stack \<open>js\<close>: the list holds exactly
  \<open>js\<close>, and every live job outside it carries the removed mark.
\<close>

definition pg_repr :: "('n, 'h) BPendingGroup \<Rightarrow> 'n list \<Rightarrow> bool" where
  "pg_repr g js \<longleftrightarrow> sl_repr (pg_links g) (pg_jobs g) js \<and> set js \<subseteq> dom (pg_handler g) \<and>
     (\<forall>x \<in> dom (pg_handler g) - set js. SLinkedListIsRemoved (pg_links g) x)"

lemma pg_repr_distinct: "pg_repr g js \<Longrightarrow> distinct js"
  by (simp add: pg_repr_def sl_repr_def)

lemma pg_repr_Init [simp]: "pg_repr (BPendingGroup_Init h) []"
  by (simp add: pg_repr_def BPendingGroup_Init_def)

lemma pg_repr_HasJobs: "pg_repr g js \<Longrightarrow> BPendingGroup_HasJobs g \<longleftrightarrow> js \<noteq> []"
  by (auto simp: pg_repr_def BPendingGroup_HasJobs_def sl_repr_First)

lemma pg_repr_PeekJob: "pg_repr g js \<Longrightarrow> BPendingGroup_PeekJob g = hd_or js None"
  by (auto simp: pg_repr_def BPendingGroup_PeekJob_def sl_repr_First(1))

lemma pg_repr_IsSet:
  "pg_repr g js \<Longrightarrow> x \<in> dom (pg_handler g) \<Longrightarrow> BSmallPending_IsSet g x \<longleftrightarrow> x \<in> set js"
  using sl_repr_not_removed by (fastforce simp: pg_repr_def BSmallPending_IsSet_def)

lemma MarkRemoved_other:
  "SLinkedListIsRemoved (SLinkedListMarkRemoved h x) y \<longleftrightarrow> y = x \<or> SLinkedListIsRemoved h y"
  by (auto simp: sl_defs)

lemma pg_repr_BSmallPending_Init:
  assumes "pg_repr g js" "x \<notin> set js"
  shows "pg_repr (BSmallPending_Init g x hnd) js"
  using assms
  by (auto simp: pg_repr_def BSmallPending_Init_def sl_repr_MarkRemoved MarkRemoved_other)

lemma pg_repr_SetHandler:
  assumes "pg_repr g js" "x \<in> dom (pg_handler g)"
  shows "pg_repr (BSmallPending_SetHandler g x hnd) js"
  using assms by (auto simp: pg_repr_def BSmallPending_SetHandler_def)

lemma sl_Remove_frame:
  assumes "sl_repr h f (as @ x # bs)" "SLinkedList_Remove h f x = Some (h', f')" "y \<notin> set as"
  shows "ln h' y = ln h y"
  using assms
  by (cases as rule: list_ends_cases; cases bs) (auto simp: sl_repr_def SLinkedList_Remove_def)

lemma pg_repr_linked:
  assumes "pg_repr g js" "x \<in> set js"
  obtains links jobs where "SLinkedList_Remove (pg_links g) (pg_jobs g) x = Some (links, jobs)"
    "sl_repr links jobs (remove1 x js)" "\<forall>y. y \<notin> set js \<longrightarrow> ln links y = ln (pg_links g) y"
    "\<not> SLinkedListIsRemoved (pg_links g) x"
proof -
  obtain as bs where js: "js = as @ x # bs" "x \<notin> set as"
    using assms(2) by (meson split_list_first)
  then have r: "sl_repr (pg_links g) (pg_jobs g) (as @ x # bs)"
    using assms(1) by (simp add: pg_repr_def)
  from sl_repr_Remove [OF r] obtain links jobs
    where rem: "SLinkedList_Remove (pg_links g) (pg_jobs g) x = Some (links, jobs)"
      and "sl_repr links jobs (as @ bs)" by blast
  moreover have "\<forall>y. y \<notin> set js \<longrightarrow> ln links y = ln (pg_links g) y"
    using sl_Remove_frame [OF r rem] js by auto
  moreover have "\<not> SLinkedListIsRemoved (pg_links g) x"
    using r by (rule sl_repr_not_removed) simp
  ultimately show thesis
    using js that by (simp add: remove1_append)
qed

text \<open>
  Unlinking leaves the entry outside the list but without the removed mark, so the result is a
  group for the remaining jobs only in what concerns the other entries.
\<close>

lemma pending_unlink_repr:
  assumes "pg_repr g js" "x \<in> dom (pg_handler g)"
  obtains g1 where "pending_unlink g x = Some g1" "sl_repr (pg_links g1) (pg_jobs g1) (remove1 x js)"
    "\<forall>y \<in> dom (pg_handler g) - set js. SLinkedListIsRemoved (pg_links g1) y"
    "pg_handler g1 = pg_handler g"
proof (cases "x \<in> set js")
  case True
  from pg_repr_linked [OF assms(1) True] obtain links jobs
    where l: "SLinkedList_Remove (pg_links g) (pg_jobs g) x = Some (links, jobs)"
      "sl_repr links jobs (remove1 x js)" "\<forall>y. y \<notin> set js \<longrightarrow> ln links y = ln (pg_links g) y"
      "\<not> SLinkedListIsRemoved (pg_links g) x" .
  show thesis
    by (rule that [of "g\<lparr>pg_jobs := jobs, pg_links := links\<rparr>"])
       (use l assms(1) in \<open>auto simp: pending_unlink_def pg_repr_def SLinkedListIsRemoved_def\<close>)
next
  case False
  then show thesis
    by (intro that [of g]) (use assms in \<open>auto simp: pending_unlink_def pg_repr_def remove1_idem\<close>)
qed

lemma pg_repr_Set:
  assumes "pg_repr g js" "x \<in> dom (pg_handler g)"
  shows "\<exists>g'. BSmallPending_Set g x = Some g' \<and> pg_repr g' (x # remove1 x js) \<and>
    pg_handler g' = pg_handler g"
proof -
  from pending_unlink_repr [OF assms] obtain g1
    where g1: "pending_unlink g x = Some g1" "sl_repr (pg_links g1) (pg_jobs g1) (remove1 x js)"
      "\<forall>y \<in> dom (pg_handler g) - set js. SLinkedListIsRemoved (pg_links g1) y"
      "pg_handler g1 = pg_handler g" .
  obtain links jobs where pre: "SLinkedList_Prepend (pg_links g1) (pg_jobs g1) x = (links, jobs)"
    by fastforce
  have x: "x \<notin> set (remove1 x js)"
    using pg_repr_distinct [OF assms(1)] by simp
  have "sl_repr links jobs (x # remove1 x js)"
    using sl_repr_Prepend [OF g1(2) x] pre by simp
  moreover have "SLinkedListIsRemoved links y" if "y \<in> dom (pg_handler g) - set js" "y \<noteq> x" for y
    using bspec [OF g1(3) that(1)] that(2) pre
    by (auto simp: SLinkedListIsRemoved_def SLinkedList_Prepend_def Let_def split: option.splits)
  ultimately show ?thesis
    using g1 pre assms pg_repr_distinct [OF assms(1)]
    by (auto simp: BSmallPending_Set_def pg_repr_def)
qed

lemma pg_repr_Unset:
  assumes "pg_repr g js" "x \<in> dom (pg_handler g)"
  shows "\<exists>g'. BSmallPending_Unset g x = Some g' \<and> pg_repr g' (remove1 x js) \<and>
    pg_handler g' = pg_handler g"
proof (cases "x \<in> set js")
  case True
  have d: "x \<notin> set (remove1 x js)" using pg_repr_distinct [OF assms(1)] by simp
  from pg_repr_linked [OF assms(1) True] obtain links jobs
    where l: "SLinkedList_Remove (pg_links g) (pg_jobs g) x = Some (links, jobs)"
      "sl_repr links jobs (remove1 x js)" "\<forall>y. y \<notin> set js \<longrightarrow> ln links y = ln (pg_links g) y"
      "\<not> SLinkedListIsRemoved (pg_links g) x" .
  have "SLinkedListIsRemoved links y" if "y \<in> dom (pg_handler g) - set js" for y
    using l(3) assms(1) that by (auto simp: pg_repr_def SLinkedListIsRemoved_def)
  then show ?thesis
    using l assms(1) sl_repr_MarkRemoved(1) [OF l(2) d] pg_repr_distinct [OF assms(1)]
    by (auto simp: BSmallPending_Unset_def pg_repr_def MarkRemoved_other)
next
  case False
  then show ?thesis
    using assms by (auto simp: BSmallPending_Unset_def pg_repr_def remove1_idem)
qed

lemma pg_repr_Free:
  assumes "pg_repr g js" "x \<in> dom (pg_handler g)"
  shows "\<exists>g'. BSmallPending_Free g x = Some g' \<and> pg_repr g' (remove1 x js) \<and>
    pg_handler g' = (pg_handler g)(x := None)"
proof -
  from pending_unlink_repr [OF assms] obtain g1
    where "pending_unlink g x = Some g1" "sl_repr (pg_links g1) (pg_jobs g1) (remove1 x js)"
      "\<forall>y \<in> dom (pg_handler g) - set js. SLinkedListIsRemoved (pg_links g1) y"
      "pg_handler g1 = pg_handler g" .
  then show ?thesis
    using assms pg_repr_distinct [OF assms(1)]
    by (auto simp: BSmallPending_Free_def pg_repr_def)
qed

lemma pg_repr_ExecuteJob:
  assumes "pg_repr g (x # js)"
  shows "\<exists>g' hnd. BPendingGroup_ExecuteJob g = Some (g', hnd) \<and> pg_repr g' js \<and>
    pg_handler g x = Some hnd \<and> pg_handler g' = pg_handler g"
proof -
  from assms obtain hnd where h: "pg_handler g x = Some hnd" by (auto simp: pg_repr_def)
  have first: "SLinkedList_First (pg_jobs g) = Some x"
    using pg_repr_PeekJob [OF assms] by (simp add: BPendingGroup_PeekJob_def)
  have "x \<notin> set js" using pg_repr_distinct [OF assms] by simp
  moreover have "sl_repr (pg_links g) (SLinkedList_RemoveFirst (pg_links g) (pg_jobs g)) js"
    using assms by (auto simp: pg_repr_def intro: sl_repr_RemoveFirst)
  ultimately show ?thesis
    using assms h first
    by (auto simp: BPendingGroup_ExecuteJob_def pg_repr_def sl_repr_MarkRemoved MarkRemoved_other)
qed

section \<open>The group implements a stack of jobs\<close>

datatype ('n, 'h) pg_op =
  Job_Init 'n 'h | Job_Free 'n | Job_SetHandler 'n 'h | Job_Set 'n | Job_Unset 'n | Job_Execute

fun pg_step ::
    "('n, 'h) pg_op \<Rightarrow> ('n, 'h) BPendingGroup \<Rightarrow> (('n, 'h) BPendingGroup \<times> 'h list) option" where
  "pg_step (Job_Init x hnd) g = Some (BPending_Init g x hnd, [])"
| "pg_step (Job_Free x) g = map_option (\<lambda>g'. (g', [])) (BPending_Free g x)"
| "pg_step (Job_SetHandler x hnd) g = Some (BSmallPending_SetHandler g x hnd, [])"
| "pg_step (Job_Set x) g = map_option (\<lambda>g'. (g', [])) (BPending_Set g x)"
| "pg_step (Job_Unset x) g = map_option (\<lambda>g'. (g', [])) (BPending_Unset g x)"
| "pg_step Job_Execute g = map_option (\<lambda>(g', hnd). (g', [hnd])) (BPendingGroup_ExecuteJob g)"

text \<open>The abstract stack: the jobs that are set, top first, and the handlers of the live jobs.\<close>

type_synonym ('n, 'h) job_stack = "'n list \<times> ('n \<Rightarrow> 'h option)"

fun stack_step :: "('n, 'h) pg_op \<Rightarrow> ('n, 'h) job_stack \<Rightarrow> (('n, 'h) job_stack \<times> 'h list) option" where
  "stack_step (Job_Init x hnd) (js, m) =
     (if m x = None then Some ((js, m(x \<mapsto> hnd)), []) else None)"
| "stack_step (Job_Free x) (js, m) =
     (if m x = None then None else Some ((remove1 x js, m(x := None)), []))"
| "stack_step (Job_SetHandler x hnd) (js, m) =
     (if m x = None then None else Some ((js, m(x \<mapsto> hnd)), []))"
| "stack_step (Job_Set x) (js, m) =
     (if m x = None then None else Some ((x # remove1 x js, m), []))"
| "stack_step (Job_Unset x) (js, m) =
     (if m x = None then None else Some ((remove1 x js, m), []))"
| "stack_step Job_Execute (js, m) =
     (case js of [] \<Rightarrow> None | x # js' \<Rightarrow> (case m x of None \<Rightarrow> None | Some hnd \<Rightarrow> Some ((js', m), [hnd])))"

definition pg_sim :: "('n, 'h) BPendingGroup \<Rightarrow> ('n, 'h) job_stack \<Rightarrow> bool" where
  "pg_sim g s \<longleftrightarrow> pg_repr g (fst s) \<and> pg_handler g = snd s"

interpretation pg: simulation pg_sim pg_step stack_step
proof unfold_locales
  fix g :: "('n, 'h) BPendingGroup" and s t x as
  assume sim: "pg_sim g s" and st: "stack_step x s = Some (t, as)"
  obtain js m where s: "s = (js, m)" by fastforce
  from sim s have r: "pg_repr g js" and m: "pg_handler g = m" by (auto simp: pg_sim_def)
  from r m have dom: "set js \<subseteq> dom m" by (auto simp: pg_repr_def)
  show "\<exists>g'. pg_step x g = Some (g', as) \<and> pg_sim g' t"
  proof (cases x)
    case (Job_Init y hnd)
    with st s dom m have "y \<notin> set js" by (auto split: if_splits)
    with Job_Init st s pg_repr_BSmallPending_Init [OF r this, of hnd] m show ?thesis
      by (auto simp: pg_sim_def BPending_Init_def BSmallPending_Init_def split: if_splits)
  next
    case (Job_Free y)
    with st s m have "y \<in> dom (pg_handler g)" by (auto split: if_splits)
    with Job_Free st s m pg_repr_Free [OF r this] show ?thesis
      by (auto simp: pg_sim_def BPending_Free_def split: if_splits)
  next
    case (Job_SetHandler y hnd)
    with st s m have "y \<in> dom (pg_handler g)" by (auto split: if_splits)
    with Job_SetHandler st s m pg_repr_SetHandler [OF r this, of hnd] show ?thesis
      by (auto simp: pg_sim_def BSmallPending_SetHandler_def split: if_splits)
  next
    case (Job_Set y)
    with st s m have "y \<in> dom (pg_handler g)" by (auto split: if_splits)
    with Job_Set st s m pg_repr_Set [OF r this] show ?thesis
      by (auto simp: pg_sim_def BPending_Set_def split: if_splits)
  next
    case (Job_Unset y)
    with st s m have "y \<in> dom (pg_handler g)" by (auto split: if_splits)
    with Job_Unset st s m pg_repr_Unset [OF r this] show ?thesis
      by (auto simp: pg_sim_def BPending_Unset_def split: if_splits)
  next
    case Job_Execute
    with st s obtain y js' hnd where "js = y # js'" by (auto split: list.splits)
    with Job_Execute st s m pg_repr_ExecuteJob [of g y js'] r show ?thesis
      by (auto simp: pg_sim_def split: option.splits)
  qed
qed

section \<open>Synchronous dispatch\<close>

text \<open>
  \<^verbatim>\<open>BReactor_Synchronize\<close> executes jobs until the job \<open>ref\<close> is on top or the reactor exits.  The
  handlers are a parameter: \<open>run\<close> executes one on the rest of the program's state and on the
  group; \<open>exiting\<close> reads the reactor's flag.  \<open>fuel\<close> bounds the number of rounds.
\<close>

fun BReactor_Synchronize ::
    "('w \<Rightarrow> bool) \<Rightarrow> ('h \<Rightarrow> 'w \<times> ('n, 'h) BPendingGroup \<Rightarrow> 'w \<times> ('n, 'h) BPendingGroup) \<Rightarrow> nat \<Rightarrow>
     'n \<Rightarrow> 'w \<times> ('n, 'h) BPendingGroup \<Rightarrow> (bool \<times> 'w \<times> ('n, 'h) BPendingGroup) option" where
  "BReactor_Synchronize exiting run 0 ref s = None"
| "BReactor_Synchronize exiting run (Suc fuel) ref s =
     (if exiting (fst s) then Some (False, s)
      else if BPendingGroup_PeekJob (snd s) = Some ref then Some (True, s)
      else case BPendingGroup_ExecuteJob (snd s) of
             None \<Rightarrow> None
           | Some (g, hnd) \<Rightarrow> BReactor_Synchronize exiting run fuel ref (run hnd (fst s, g)))"

text \<open>
  What a handler may do to the stack while \<open>ref\<close> waits: change what is above \<open>ref\<close>, and make
  progress, measured by \<open>\<mu>\<close> on the state and the jobs above.
\<close>

definition stack_discipline ::
    "('h \<Rightarrow> 'w \<times> ('n, 'h) BPendingGroup \<Rightarrow> 'w \<times> ('n, 'h) BPendingGroup) \<Rightarrow> ('w \<Rightarrow> 'n list \<Rightarrow> nat) \<Rightarrow>
     'n list \<Rightarrow> bool" where
  "stack_discipline run \<mu> base \<longleftrightarrow>
     (\<forall>w g x abv hnd. pg_repr g (abv @ base) \<longrightarrow> pg_handler g x = Some hnd \<longrightarrow>
        (\<exists>abv'. pg_repr (snd (run hnd (w, g))) (abv' @ base) \<and>
           \<mu> (fst (run hnd (w, g))) abv' < \<mu> w (x # abv)))"

definition sync_result ::
    "('w \<Rightarrow> bool) \<Rightarrow> 'n \<Rightarrow> 'n list \<Rightarrow> (bool \<times> 'w \<times> ('n, 'h) BPendingGroup) option \<Rightarrow> bool" where
  "sync_result exiting ref below res \<longleftrightarrow>
     (case res of
        None \<Rightarrow> False
      | Some (True, w, g) \<Rightarrow> \<not> exiting w \<and> pg_repr g (ref # below)
      | Some (False, w, g) \<Rightarrow> exiting w \<and> (\<exists>abv. pg_repr g (abv @ ref # below)))"

section \<open>Properties\<close>

text \<open>C8: every sequence of job operations that starts at a fresh group and uses only live jobs runs
  without following a null link, executes the handlers a stack of jobs executes (a job that is set
  again moves to the top), and leaves exactly the jobs of that stack set.\<close>

theorem BPending_refines_stack:
  assumes "run_ops stack_step ops ([], Map.empty) = Some ((js, m), outs)"
  shows "\<exists>g. run_ops pg_step ops (BPendingGroup_Init h) = Some (g, outs) \<and> pg_repr g js \<and>
    (BPendingGroup_HasJobs g \<longleftrightarrow> js \<noteq> []) \<and> (\<forall>x \<in> dom m. BPending_IsSet g x \<longleftrightarrow> x \<in> set js)"
proof -
  have "pg_sim (BPendingGroup_Init h) ([], Map.empty)"
    by (simp add: pg_sim_def BPendingGroup_Init_def pg_repr_def)
  from pg.run_sim [OF this assms] obtain g
    where "run_ops pg_step ops (BPendingGroup_Init h) = Some (g, outs)" "pg_repr g js" "pg_handler g = m"
    by (auto simp: pg_sim_def)
  with pg_repr_HasJobs pg_repr_IsSet show ?thesis by (fastforce simp: BPending_IsSet_def)
qed

theorem BPending_refines_stack_witness:
  "\<exists>g. run_ops pg_step
      [Job_Init 1 10, Job_Init (2::nat) (20::nat), Job_Init 3 30, Job_Set 1, Job_Set 2, Job_Set 3,
       Job_Set 1, Job_Unset 3, Job_Execute, Job_SetHandler 2 25, Job_Execute]
      (BPendingGroup_Init \<lparr>lp = \<lambda>_. None, ln = \<lambda>_. None\<rparr>) = Some (g, [10, 25]) \<and> pg_repr g [] \<and>
    (BPendingGroup_HasJobs g \<longleftrightarrow> [] \<noteq> ([] :: nat list)) \<and>
    (\<forall>x \<in> dom [1 \<mapsto> 10::nat, 2 \<mapsto> 25, 3 \<mapsto> 30]. BPending_IsSet g x \<longleftrightarrow> x \<in> set [])"
  by (rule BPending_refines_stack) (simp add: fun_upd_twist)

text \<open>\<^verbatim>\<open>BReactor_Synchronize\<close> returns whenever the handlers make progress and only touch the jobs above the
  reference job: with 1 and the reference job on top of the jobs that were below it, or with 0
  once the reactor is exiting.\<close>

theorem BReactor_Synchronize_returns:
  assumes "stack_discipline run \<mu> (ref # below)" "pg_repr g (abv @ ref # below)" "\<mu> w abv < fuel"
  shows "sync_result exiting ref below (BReactor_Synchronize exiting run fuel ref (w, g))"
  using assms(2,3)
proof (induction fuel arbitrary: w g abv)
  case (Suc fuel)
  show ?case
  proof (cases "exiting w \<or> abv = []")
    case True
    moreover have "abv = [] \<Longrightarrow> BPendingGroup_PeekJob g = Some ref"
      using pg_repr_PeekJob [OF Suc.prems(1)] by simp
    moreover have "\<exists>abv. pg_repr g (abv @ ref # below)" using Suc.prems(1) by blast
    ultimately show ?thesis
      using Suc.prems(1) by (cases "exiting w") (simp_all add: sync_result_def)
  next
    case False
    then obtain x abv1 where abv: "abv = x # abv1" by (cases abv) auto
    with Suc.prems(1) have r: "pg_repr g (x # abv1 @ ref # below)" by simp
    from pg_repr_ExecuteJob [OF r] obtain g1 hnd
      where ex: "BPendingGroup_ExecuteJob g = Some (g1, hnd)" "pg_repr g1 (abv1 @ ref # below)"
        "pg_handler g1 x = Some hnd" by auto
    obtain abv2 where n: "pg_repr (snd (run hnd (w, g1))) (abv2 @ ref # below)"
      "\<mu> (fst (run hnd (w, g1))) abv2 < \<mu> w (x # abv1)"
      using assms(1) ex(2,3) unfolding stack_discipline_def by metis
    have "\<mu> (fst (run hnd (w, g1))) abv2 < fuel" using n(2) Suc.prems(2) abv by simp
    from Suc.IH [OF n(1) this]
    have "sync_result exiting ref below (BReactor_Synchronize exiting run fuel ref (run hnd (w, g1)))"
      by simp
    moreover have "BPendingGroup_PeekJob g \<noteq> Some ref"
      using pg_repr_PeekJob [OF r] pg_repr_distinct [OF r] by auto
    ultimately show ?thesis using False ex(1) by simp
  qed
qed simp

theorem BReactor_Synchronize_returns_witness:
  "sync_result (\<lambda>_. False) 1 [2] (BReactor_Synchronize (\<lambda>_. False) (\<lambda>hnd (w, g). (hnd # w, g)) 3 (1::nat)
     ([], \<lparr>pg_jobs = Some 4, pg_links = \<lparr>lp = [1 \<mapsto> 3, 2 \<mapsto> 1, 3 \<mapsto> 4], ln = [4 \<mapsto> 3, 3 \<mapsto> 1, 1 \<mapsto> 2]\<rparr>,
           pg_handler = [1 \<mapsto> ''a'', 2 \<mapsto> ''b'', 3 \<mapsto> ''c'', 4 \<mapsto> ''d'']\<rparr>))"
  by (rule BReactor_Synchronize_returns [where abv = "[4, 3]" and \<mu> = "\<lambda>_ js. length js"])
     (auto simp: stack_discipline_def pg_repr_def sl_repr_def)

end
