(* ===== verification/Flow_Interface.thy ===== *)
theory Flow_Interface
  imports BPending
begin

text \<open>
  The four interfaces by which the flow modules pass data: \<^verbatim>\<open>PacketPassInterface\<close>,
  \<^verbatim>\<open>PacketRecvInterface\<close>, \<^verbatim>\<open>StreamPassInterface\<close> and \<^verbatim>\<open>StreamRecvInterface\<close> of \<^verbatim>\<open>badvpn/flow/\<close>.  A user starts
  an operation, the provider is called back from a job, completes it, and the user is called back
  from another job.  The jobs live in the group of \<^verbatim>\<open>BPending\<close>, here the stack of jobs that are set;
  data pointers are values of a type of their own.
\<close>

section \<open>Jobs and states\<close>

definition job_set :: "'n \<Rightarrow> 'n list \<Rightarrow> 'n list" where
  "job_set x js = x # remove1 x js"

definition job_unset :: "'n \<Rightarrow> 'n list \<Rightarrow> 'n list" where
  "job_unset x js = remove1 x js"

lemma job_set_simps [simp]:
  "distinct js \<Longrightarrow> set (job_set x js) = insert x (set js)" "distinct js \<Longrightarrow> distinct (job_set x js)"
  "distinct js \<Longrightarrow> set (job_unset x js) = set js - {x}" "distinct js \<Longrightarrow> distinct (job_unset x js)"
  by (auto simp: job_set_def job_unset_def)

lemma job_frame [simp]:
  "\<not> P x \<Longrightarrow> filter P (job_set x js) = filter P js"
  "\<not> P x \<Longrightarrow> filter P (job_unset x js) = filter P js"
  by (auto simp: job_set_def job_unset_def filter_remove1 remove1_idem)

datatype iface_state = STATE_NONE | STATE_OPERATION_PENDING | STATE_BUSY | STATE_DONE_PENDING

text \<open>The callbacks an interface makes: of the provider (with a length where it has one) and of the user.\<close>

datatype 'd flow_event = Ev_operation 'd "int option" | Ev_requestcancel | Ev_done "int option"

fun is_done :: "'d flow_event \<Rightarrow> bool" where
  "is_done (Ev_done _) = True"
| "is_done _ = False"

fun is_operation :: "'d flow_event \<Rightarrow> bool" where
  "is_operation (Ev_operation _ _) = True"
| "is_operation _ = False"

section \<open>The contract of an interface\<close>

text \<open>
  The phases an interface goes through: \<open>flow_trans starts ph ph' evs\<close> holds when a step that
  starts an operation (or not) may lead from phase \<open>ph\<close> to \<open>ph'\<close> making the callbacks \<open>evs\<close>.
\<close>

fun flow_trans :: "bool \<Rightarrow> iface_state \<Rightarrow> iface_state \<Rightarrow> 'd flow_event list \<Rightarrow> bool" where
  "flow_trans True ph ph' evs = (ph = STATE_NONE \<and> ph' = STATE_OPERATION_PENDING \<and> evs = [])"
| "flow_trans False ph ph' [] =
     (ph' = ph \<or> ((ph = STATE_OPERATION_PENDING \<or> ph = STATE_BUSY) \<and> ph' = STATE_DONE_PENDING))"
| "flow_trans False ph ph' [Ev_operation d n] = (ph = STATE_OPERATION_PENDING \<and> ph' = STATE_BUSY)"
| "flow_trans False ph ph' [Ev_requestcancel] = (ph = STATE_BUSY \<and> ph' = STATE_BUSY)"
| "flow_trans False ph ph' [Ev_done n] = (ph = STATE_DONE_PENDING \<and> ph' = STATE_NONE)"
| "flow_trans False ph ph' (_ # _ # _) = False"

locale flow_contract =
  fixes inv :: "'s \<Rightarrow> bool"
    and phase :: "'s \<Rightarrow> iface_state"
    and starts :: "'o \<Rightarrow> bool"
    and step :: "'o \<Rightarrow> 's \<Rightarrow> ('s \<times> 'd flow_event list) option"
    and jobs :: "'s \<Rightarrow> 'n list"
    and own :: "'s \<Rightarrow> 'n set"
  assumes step_inv: "inv s \<Longrightarrow> step x s = Some (s', evs) \<Longrightarrow> inv s'"
    and step_own: "inv s \<Longrightarrow> step x s = Some (s', evs) \<Longrightarrow> own s' = own s"
    and step_jobs: "inv s \<Longrightarrow> step x s = Some (s', evs) \<Longrightarrow>
      filter (\<lambda>y. y \<notin> own s) (jobs s') = filter (\<lambda>y. y \<notin> own s) (jobs s)"
    and step_trans: "inv s \<Longrightarrow> step x s = Some (s', evs) \<Longrightarrow> flow_trans (starts x) (phase s) (phase s') evs"
begin

abbreviation started :: "'o list \<Rightarrow> nat" where
  "started xs \<equiv> length (filter starts xs)"

lemma run_contract:
  assumes "inv s" "run_ops step xs s = Some (s', evs)"
  shows "inv s' \<and> own s' = own s \<and>
    filter (\<lambda>y. y \<notin> own s) (jobs s') = filter (\<lambda>y. y \<notin> own s) (jobs s) \<and>
    started xs + (if phase s = STATE_NONE then 0 else 1) =
      length (filter is_done evs) + (if phase s' = STATE_NONE then 0 else 1) \<and>
    length (filter is_operation evs) + (if phase s' = STATE_OPERATION_PENDING then 1 else 0) \<le>
      started xs + (if phase s = STATE_OPERATION_PENDING then 1 else 0)"
  using assms
proof (induction xs arbitrary: s evs)
  case (Cons x xs)
  from Cons.prems(2) obtain s1 as bs
    where st: "step x s = Some (s1, as)" "run_ops step xs s1 = Some (s', bs)" "evs = as @ bs"
    by (auto split: option.splits prod.splits)
  note first = step_inv [OF Cons.prems(1) st(1)] step_own [OF Cons.prems(1) st(1)]
    step_jobs [OF Cons.prems(1) st(1)] step_trans [OF Cons.prems(1) st(1)]
  have "(if starts x then 1 else 0) + (if phase s = STATE_NONE then 0 else 1) =
      length (filter is_done as) + (if phase s1 = STATE_NONE then 0 else (1::nat))"
    "length (filter is_operation as) + (if phase s1 = STATE_OPERATION_PENDING then 1 else 0) \<le>
      (if starts x then 1 else 0) + (if phase s = STATE_OPERATION_PENDING then 1 else (0::nat))"
    using first(4) by (auto elim!: flow_trans.elims)
  with Cons.IH [OF first(1) st(2)] first(2,3) st(3) show ?case by auto
qed simp

end

text \<open>
  A stream interface completes an operation of length \<open>m\<close> with a length between 1 and \<open>m\<close>;
  \<open>lens_ok m evs\<close> scans the callbacks, \<open>m\<close> being the length of the operation in progress.
\<close>

fun lens_ok :: "int \<Rightarrow> 'd flow_event list \<Rightarrow> bool" where
  "lens_ok m [] = True"
| "lens_ok m (Ev_operation d (Some k) # evs) = (0 < k \<and> lens_ok k evs)"
| "lens_ok m (Ev_done (Some n) # evs) = (0 < n \<and> n \<le> m \<and> lens_ok m evs)"
| "lens_ok m (_ # evs) = False"

locale stream_contract = flow_contract +
  fixes oplen :: "'a \<Rightarrow> int"
  assumes stream_events: "inv s \<Longrightarrow> step x s = Some (s', evs) \<Longrightarrow>
      evs = [] \<or> (\<exists>d. evs = [Ev_operation d (Some (oplen s))] \<and> 0 < oplen s) \<or>
      (\<exists>n. evs = [Ev_done (Some n)] \<and> 0 < n \<and> n \<le> oplen s)"
    and stream_oplen: "inv s \<Longrightarrow> step x s = Some (s', evs) \<Longrightarrow> \<not> starts x \<Longrightarrow> oplen s' = oplen s"
    and stream_pending: "inv s \<Longrightarrow> step x s = Some (s', []) \<Longrightarrow> phase s = STATE_OPERATION_PENDING \<Longrightarrow>
      phase s' = STATE_OPERATION_PENDING"
begin

lemma run_lens_ok:
  assumes "inv s" "run_ops step xs s = Some (s', evs)"
    and "phase s = STATE_BUSY \<or> phase s = STATE_DONE_PENDING \<Longrightarrow> m = oplen s"
  shows "lens_ok m evs"
  using assms
proof (induction xs arbitrary: s evs m)
  case (Cons x xs)
  from Cons.prems(2) obtain s1 as bs
    where st: "step x s = Some (s1, as)" "run_ops step xs s1 = Some (s', bs)" "evs = as @ bs"
    by (auto split: option.splits prod.splits)
  note first = step_inv [OF Cons.prems(1) st(1)] step_trans [OF Cons.prems(1) st(1)]
    stream_events [OF Cons.prems(1) st(1)] stream_oplen [OF Cons.prems(1) st(1)]
  show ?case
  proof (cases as)
    case Nil
    have "m = oplen s1" if "phase s1 = STATE_BUSY \<or> phase s1 = STATE_DONE_PENDING"
    proof -
      have "\<not> starts x" using first(2) Nil that by (cases "starts x") auto
      moreover have "phase s = STATE_BUSY \<or> phase s = STATE_DONE_PENDING"
        using first(2) Nil that stream_pending [OF Cons.prems(1)] st(1) \<open>\<not> starts x\<close> by auto
      ultimately show ?thesis using Cons.prems(3) first(4) by simp
    qed
    with Cons.IH [OF first(1) st(2)] Nil st(3) show ?thesis by simp
  next
    case (Cons e es)
    have "lens_ok (oplen s) bs"
      using Cons.IH [OF first(1) st(2), of "oplen s"] first(2,3,4) Cons by (cases "starts x") auto
    with Cons.prems(3) first(2,3) Cons st(3) show ?thesis by (cases "starts x") auto
  qed
qed simp

end

section \<open>PacketPassInterface\<close>

record ('n, 'd) PacketPassInterface =
  ppi_mtu :: int
  ppi_has_cancel :: bool
  ppi_has_user :: bool
  ppi_job_operation :: 'n
  ppi_job_operation_data :: 'd
  ppi_job_operation_len :: int
  ppi_job_requestcancel :: 'n
  ppi_job_done :: 'n
  ppi_state :: iface_state
  ppi_cancel_requested :: bool

type_synonym ('n, 'd) ppi = "('n, 'd) PacketPassInterface \<times> 'n list"

definition PacketPassInterface_Init :: "('n, 'd) PacketPassInterface \<Rightarrow> int \<Rightarrow> ('n, 'd) PacketPassInterface" where
  "PacketPassInterface_Init i mtu =
     i\<lparr>ppi_mtu := mtu, ppi_has_cancel := False, ppi_has_user := False, ppi_state := STATE_NONE\<rparr>"

definition PacketPassInterface_Free :: "('n, 'd) PacketPassInterface \<Rightarrow> 'n list \<Rightarrow> 'n list" where
  "PacketPassInterface_Free i js =
     job_unset (ppi_job_operation i) (job_unset (ppi_job_requestcancel i) (job_unset (ppi_job_done i) js))"

definition PacketPassInterface_EnableCancel :: "('n, 'd) PacketPassInterface \<Rightarrow> ('n, 'd) PacketPassInterface" where
  "PacketPassInterface_EnableCancel i = i\<lparr>ppi_has_cancel := True\<rparr>"

definition PacketPassInterface_Done :: "('n, 'd) ppi \<Rightarrow> ('n, 'd) ppi" where
  "PacketPassInterface_Done s = (case s of (i, js) \<Rightarrow>
     (i\<lparr>ppi_state := STATE_DONE_PENDING\<rparr>,
      job_set (ppi_job_done i) (job_unset (ppi_job_requestcancel i) js)))"

definition PacketPassInterface_GetMTU :: "('n, 'd) PacketPassInterface \<Rightarrow> int" where
  "PacketPassInterface_GetMTU i = ppi_mtu i"

definition PacketPassInterface_Sender_Init :: "('n, 'd) PacketPassInterface \<Rightarrow> ('n, 'd) PacketPassInterface" where
  "PacketPassInterface_Sender_Init i = i\<lparr>ppi_has_user := True\<rparr>"

definition PacketPassInterface_Sender_Send :: "('n, 'd) ppi \<Rightarrow> 'd \<Rightarrow> int \<Rightarrow> ('n, 'd) ppi" where
  "PacketPassInterface_Sender_Send s data data_len = (case s of (i, js) \<Rightarrow>
     (i\<lparr>ppi_job_operation_data := data, ppi_job_operation_len := data_len,
        ppi_state := STATE_OPERATION_PENDING, ppi_cancel_requested := False\<rparr>,
      job_set (ppi_job_operation i) js))"

definition PacketPassInterface_Sender_RequestCancel :: "('n, 'd) ppi \<Rightarrow> ('n, 'd) ppi" where
  "PacketPassInterface_Sender_RequestCancel s = (case s of (i, js) \<Rightarrow>
     if ppi_cancel_requested i then (i, js)
     else let i1 = i\<lparr>ppi_cancel_requested := True\<rparr> in
       if ppi_state i1 = STATE_OPERATION_PENDING then
         (i1\<lparr>ppi_state := STATE_DONE_PENDING\<rparr>,
          job_set (ppi_job_done i1) (job_unset (ppi_job_operation i1) js))
       else if ppi_state i1 = STATE_BUSY then (i1, job_set (ppi_job_requestcancel i1) js)
       else (i1, js))"

definition PacketPassInterface_HasCancel :: "('n, 'd) PacketPassInterface \<Rightarrow> bool" where
  "PacketPassInterface_HasCancel i = ppi_has_cancel i"

text \<open>The job handlers return the callback they make.\<close>

definition PacketPassInterface_job_operation ::
    "('n, 'd) PacketPassInterface \<Rightarrow> ('n, 'd) PacketPassInterface \<times> 'd flow_event" where
  "PacketPassInterface_job_operation i =
     (i\<lparr>ppi_state := STATE_BUSY\<rparr>, Ev_operation (ppi_job_operation_data i) (Some (ppi_job_operation_len i)))"

definition PacketPassInterface_job_requestcancel ::
    "('n, 'd) PacketPassInterface \<Rightarrow> ('n, 'd) PacketPassInterface \<times> 'd flow_event" where
  "PacketPassInterface_job_requestcancel i = (i, Ev_requestcancel)"

definition PacketPassInterface_job_done ::
    "('n, 'd) PacketPassInterface \<Rightarrow> ('n, 'd) PacketPassInterface \<times> 'd flow_event" where
  "PacketPassInterface_job_done i = (i\<lparr>ppi_state := STATE_NONE\<rparr>, Ev_done None)"

text \<open>
  A step is a call of the user or the provider that respects the assertions at the head of the
  called function, or the dispatch of one of the interface's jobs that are set.
\<close>

datatype 'd ppi_op =
  PPI_EnableCancel | PPI_Sender_Init | PPI_Send 'd int | PPI_RequestCancel | PPI_Done
| PPI_run_operation | PPI_run_requestcancel | PPI_run_done

definition dispatch :: "'n \<Rightarrow> ('i \<Rightarrow> 'i \<times> 'e) \<Rightarrow> 'i \<times> 'n list \<Rightarrow> (('i \<times> 'n list) \<times> 'e list) option" where
  "dispatch x hnd s = (case s of (i, js) \<Rightarrow>
     if x \<in> set js then (case hnd i of (i', ev) \<Rightarrow> Some ((i', job_unset x js), [ev])) else None)"

fun ppi_step :: "'d ppi_op \<Rightarrow> ('n, 'd) ppi \<Rightarrow> (('n, 'd) ppi \<times> 'd flow_event list) option" where
  "ppi_step PPI_EnableCancel (i, js) =
     (if ppi_has_cancel i \<or> ppi_has_user i then None else Some ((PacketPassInterface_EnableCancel i, js), []))"
| "ppi_step PPI_Sender_Init (i, js) =
     (if ppi_has_user i then None else Some ((PacketPassInterface_Sender_Init i, js), []))"
| "ppi_step (PPI_Send d n) (i, js) =
     (if 0 \<le> n \<and> n \<le> PacketPassInterface_GetMTU i \<and> ppi_state i = STATE_NONE \<and> ppi_has_user i
      then Some (PacketPassInterface_Sender_Send (i, js) d n, []) else None)"
| "ppi_step PPI_RequestCancel (i, js) =
     (if ppi_state i \<noteq> STATE_NONE \<and> PacketPassInterface_HasCancel i
      then Some (PacketPassInterface_Sender_RequestCancel (i, js), []) else None)"
| "ppi_step PPI_Done (i, js) =
     (if ppi_state i = STATE_BUSY then Some (PacketPassInterface_Done (i, js), []) else None)"
| "ppi_step PPI_run_operation (i, js) =
     dispatch (ppi_job_operation i) PacketPassInterface_job_operation (i, js)"
| "ppi_step PPI_run_requestcancel (i, js) =
     dispatch (ppi_job_requestcancel i) PacketPassInterface_job_requestcancel (i, js)"
| "ppi_step PPI_run_done (i, js) =
     dispatch (ppi_job_done i) PacketPassInterface_job_done (i, js)"

definition ppi_inv :: "('n, 'd) ppi \<Rightarrow> bool" where
  "ppi_inv s = (case s of (i, js) \<Rightarrow>
     distinct js \<and> distinct [ppi_job_operation i, ppi_job_requestcancel i, ppi_job_done i] \<and>
     (ppi_job_operation i \<in> set js \<longleftrightarrow> ppi_state i = STATE_OPERATION_PENDING) \<and>
     (ppi_job_done i \<in> set js \<longleftrightarrow> ppi_state i = STATE_DONE_PENDING) \<and>
     (ppi_job_requestcancel i \<in> set js \<longrightarrow>
        ppi_state i = STATE_BUSY \<and> ppi_cancel_requested i \<and> ppi_has_cancel i) \<and>
     (ppi_state i = STATE_NONE \<or> ppi_has_user i) \<and>
     (ppi_state i = STATE_OPERATION_PENDING \<longrightarrow> 0 \<le> ppi_job_operation_len i \<and> ppi_job_operation_len i \<le> ppi_mtu i))"

definition ppi_own :: "('n, 'd) ppi \<Rightarrow> 'n set" where
  "ppi_own s = {ppi_job_operation (fst s), ppi_job_requestcancel (fst s), ppi_job_done (fst s)}"

lemmas ppi_defs = PacketPassInterface_Init_def PacketPassInterface_EnableCancel_def
  PacketPassInterface_Done_def PacketPassInterface_GetMTU_def PacketPassInterface_Sender_Init_def
  PacketPassInterface_Sender_Send_def PacketPassInterface_Sender_RequestCancel_def
  PacketPassInterface_HasCancel_def PacketPassInterface_job_operation_def
  PacketPassInterface_job_requestcancel_def PacketPassInterface_job_done_def dispatch_def

lemma ppi_step_ok:
  assumes "ppi_inv s" "ppi_step x s = Some (s', evs)"
  shows "ppi_inv s' \<and> ppi_own s' = ppi_own s \<and> ppi_mtu (fst s') = ppi_mtu (fst s) \<and>
    filter (\<lambda>y. y \<notin> ppi_own s) (snd s') = filter (\<lambda>y. y \<notin> ppi_own s) (snd s)"
  using assms
  by (cases s; cases x) (auto simp: ppi_inv_def ppi_own_def ppi_defs Let_def split: if_splits)

fun ppi_starts :: "'d ppi_op \<Rightarrow> bool" where
  "ppi_starts (PPI_Send _ _) = True"
| "ppi_starts _ = False"

lemma ppi_step_trans:
  assumes "ppi_inv s" "ppi_step x s = Some (s', evs)"
  shows "flow_trans (ppi_starts x) (ppi_state (fst s)) (ppi_state (fst s')) evs"
  using assms
  by (cases s; cases x) (auto simp: ppi_inv_def ppi_defs Let_def split: if_splits)

interpretation ppi: flow_contract ppi_inv "\<lambda>s. ppi_state (fst s)" ppi_starts ppi_step snd ppi_own
  by unfold_locales (use ppi_step_ok ppi_step_trans in blast)+

section \<open>PacketRecvInterface\<close>

record ('n, 'd) PacketRecvInterface =
  pri_mtu :: int
  pri_has_user :: bool
  pri_job_operation :: 'n
  pri_job_operation_data :: 'd
  pri_job_done :: 'n
  pri_job_done_len :: int
  pri_state :: iface_state

type_synonym ('n, 'd) pri = "('n, 'd) PacketRecvInterface \<times> 'n list"

definition PacketRecvInterface_Init :: "('n, 'd) PacketRecvInterface \<Rightarrow> int \<Rightarrow> ('n, 'd) PacketRecvInterface" where
  "PacketRecvInterface_Init i mtu = i\<lparr>pri_mtu := mtu, pri_has_user := False, pri_state := STATE_NONE\<rparr>"

definition PacketRecvInterface_Free :: "('n, 'd) PacketRecvInterface \<Rightarrow> 'n list \<Rightarrow> 'n list" where
  "PacketRecvInterface_Free i js = job_unset (pri_job_operation i) (job_unset (pri_job_done i) js)"

definition PacketRecvInterface_Done :: "('n, 'd) pri \<Rightarrow> int \<Rightarrow> ('n, 'd) pri" where
  "PacketRecvInterface_Done s data_len = (case s of (i, js) \<Rightarrow>
     (i\<lparr>pri_job_done_len := data_len, pri_state := STATE_DONE_PENDING\<rparr>, job_set (pri_job_done i) js))"

definition PacketRecvInterface_GetMTU :: "('n, 'd) PacketRecvInterface \<Rightarrow> int" where
  "PacketRecvInterface_GetMTU i = pri_mtu i"

definition PacketRecvInterface_Receiver_Init :: "('n, 'd) PacketRecvInterface \<Rightarrow> ('n, 'd) PacketRecvInterface" where
  "PacketRecvInterface_Receiver_Init i = i\<lparr>pri_has_user := True\<rparr>"

definition PacketRecvInterface_Receiver_Recv :: "('n, 'd) pri \<Rightarrow> 'd \<Rightarrow> ('n, 'd) pri" where
  "PacketRecvInterface_Receiver_Recv s data = (case s of (i, js) \<Rightarrow>
     (i\<lparr>pri_job_operation_data := data, pri_state := STATE_OPERATION_PENDING\<rparr>,
      job_set (pri_job_operation i) js))"

definition PacketRecvInterface_job_operation :: "('n, 'd) PacketRecvInterface \<Rightarrow> ('n, 'd) PacketRecvInterface \<times> 'd flow_event" where
  "PacketRecvInterface_job_operation i =
     (i\<lparr>pri_state := STATE_BUSY\<rparr>, Ev_operation (pri_job_operation_data i) None)"

definition PacketRecvInterface_job_done :: "('n, 'd) PacketRecvInterface \<Rightarrow> ('n, 'd) PacketRecvInterface \<times> 'd flow_event" where
  "PacketRecvInterface_job_done i = (i\<lparr>pri_state := STATE_NONE\<rparr>, Ev_done (Some (pri_job_done_len i)))"

datatype 'd pri_op =
  PRI_Receiver_Init | PRI_Recv 'd | PRI_Done int | PRI_run_operation | PRI_run_done

fun pri_step :: "'d pri_op \<Rightarrow> ('n, 'd) pri \<Rightarrow> (('n, 'd) pri \<times> 'd flow_event list) option" where
  "pri_step PRI_Receiver_Init (i, js) =
     (if pri_has_user i then None else Some ((PacketRecvInterface_Receiver_Init i, js), []))"
| "pri_step (PRI_Recv d) (i, js) =
     (if pri_state i = STATE_NONE \<and> pri_has_user i then Some (PacketRecvInterface_Receiver_Recv (i, js) d, []) else None)"
| "pri_step (PRI_Done n) (i, js) =
     (if 0 \<le> n \<and> n \<le> PacketRecvInterface_GetMTU i \<and> pri_state i = STATE_BUSY
      then Some (PacketRecvInterface_Done (i, js) n, []) else None)"
| "pri_step PRI_run_operation (i, js) = dispatch (pri_job_operation i) PacketRecvInterface_job_operation (i, js)"
| "pri_step PRI_run_done (i, js) = dispatch (pri_job_done i) PacketRecvInterface_job_done (i, js)"

definition pri_inv :: "('n, 'd) pri \<Rightarrow> bool" where
  "pri_inv s = (case s of (i, js) \<Rightarrow>
     distinct js \<and> pri_job_operation i \<noteq> pri_job_done i \<and>
     (pri_job_operation i \<in> set js \<longleftrightarrow> pri_state i = STATE_OPERATION_PENDING) \<and>
     (pri_job_done i \<in> set js \<longleftrightarrow> pri_state i = STATE_DONE_PENDING) \<and>
     (pri_state i = STATE_NONE \<or> pri_has_user i) \<and>
     (pri_state i = STATE_DONE_PENDING \<longrightarrow> 0 \<le> pri_job_done_len i \<and> pri_job_done_len i \<le> pri_mtu i))"

definition pri_own :: "('n, 'd) pri \<Rightarrow> 'n set" where
  "pri_own s = {pri_job_operation (fst s), pri_job_done (fst s)}"

fun pri_starts :: "'d pri_op \<Rightarrow> bool" where
  "pri_starts (PRI_Recv _) = True"
| "pri_starts _ = False"

lemmas pri_defs = PacketRecvInterface_Init_def PacketRecvInterface_Done_def PacketRecvInterface_GetMTU_def PacketRecvInterface_Receiver_Init_def
  PacketRecvInterface_Receiver_Recv_def PacketRecvInterface_job_operation_def PacketRecvInterface_job_done_def dispatch_def

lemma pri_step_ok:
  assumes "pri_inv s" "pri_step x s = Some (s', evs)"
  shows "pri_inv s' \<and> pri_own s' = pri_own s \<and> pri_mtu (fst s') = pri_mtu (fst s) \<and>
    filter (\<lambda>y. y \<notin> pri_own s) (snd s') = filter (\<lambda>y. y \<notin> pri_own s) (snd s)"
  using assms
  by (cases s; cases x) (auto simp: pri_inv_def pri_own_def pri_defs split: if_splits)

lemma pri_step_trans:
  assumes "pri_inv s" "pri_step x s = Some (s', evs)"
  shows "flow_trans (pri_starts x) (pri_state (fst s)) (pri_state (fst s')) evs"
  using assms by (cases s; cases x) (auto simp: pri_inv_def pri_defs split: if_splits)

interpretation pri: flow_contract pri_inv "\<lambda>s. pri_state (fst s)" pri_starts pri_step snd pri_own
  by unfold_locales (use pri_step_ok pri_step_trans in blast)+

section \<open>StreamPassInterface\<close>

record ('n, 'd) StreamPassInterface =
  spi_has_user :: bool
  spi_job_operation :: 'n
  spi_job_operation_data :: 'd
  spi_job_operation_len :: int
  spi_job_done :: 'n
  spi_job_done_len :: int
  spi_state :: iface_state

type_synonym ('n, 'd) spi = "('n, 'd) StreamPassInterface \<times> 'n list"

definition StreamPassInterface_Init :: "('n, 'd) StreamPassInterface \<Rightarrow> ('n, 'd) StreamPassInterface" where
  "StreamPassInterface_Init i = i\<lparr>spi_has_user := False, spi_state := STATE_NONE\<rparr>"

definition StreamPassInterface_Free :: "('n, 'd) StreamPassInterface \<Rightarrow> 'n list \<Rightarrow> 'n list" where
  "StreamPassInterface_Free i js = job_unset (spi_job_operation i) (job_unset (spi_job_done i) js)"

definition StreamPassInterface_Done :: "('n, 'd) spi \<Rightarrow> int \<Rightarrow> ('n, 'd) spi" where
  "StreamPassInterface_Done s data_len = (case s of (i, js) \<Rightarrow>
     (i\<lparr>spi_job_done_len := data_len, spi_state := STATE_DONE_PENDING\<rparr>, job_set (spi_job_done i) js))"

definition StreamPassInterface_Sender_Init :: "('n, 'd) StreamPassInterface \<Rightarrow> ('n, 'd) StreamPassInterface" where
  "StreamPassInterface_Sender_Init i = i\<lparr>spi_has_user := True\<rparr>"

definition StreamPassInterface_Sender_Send :: "('n, 'd) spi \<Rightarrow> 'd \<Rightarrow> int \<Rightarrow> ('n, 'd) spi" where
  "StreamPassInterface_Sender_Send s data data_len = (case s of (i, js) \<Rightarrow>
     (i\<lparr>spi_job_operation_data := data, spi_job_operation_len := data_len, spi_state := STATE_OPERATION_PENDING\<rparr>,
      job_set (spi_job_operation i) js))"

definition StreamPassInterface_job_operation :: "('n, 'd) StreamPassInterface \<Rightarrow> ('n, 'd) StreamPassInterface \<times> 'd flow_event" where
  "StreamPassInterface_job_operation i =
     (i\<lparr>spi_state := STATE_BUSY\<rparr>, Ev_operation (spi_job_operation_data i) (Some (spi_job_operation_len i)))"

definition StreamPassInterface_job_done :: "('n, 'd) StreamPassInterface \<Rightarrow> ('n, 'd) StreamPassInterface \<times> 'd flow_event" where
  "StreamPassInterface_job_done i = (i\<lparr>spi_state := STATE_NONE\<rparr>, Ev_done (Some (spi_job_done_len i)))"

datatype 'd spi_op =
  SPI_Sender_Init | SPI_Send 'd int | SPI_Done int | SPI_run_operation | SPI_run_done

fun spi_step :: "'d spi_op \<Rightarrow> ('n, 'd) spi \<Rightarrow> (('n, 'd) spi \<times> 'd flow_event list) option" where
  "spi_step SPI_Sender_Init (i, js) =
     (if spi_has_user i then None else Some ((StreamPassInterface_Sender_Init i, js), []))"
| "spi_step (SPI_Send d n) (i, js) =
     (if 0 < n \<and> spi_state i = STATE_NONE \<and> spi_has_user i then Some (StreamPassInterface_Sender_Send (i, js) d n, []) else None)"
| "spi_step (SPI_Done n) (i, js) =
     (if spi_state i = STATE_BUSY \<and> 0 < n \<and> n \<le> spi_job_operation_len i
      then Some (StreamPassInterface_Done (i, js) n, []) else None)"
| "spi_step SPI_run_operation (i, js) = dispatch (spi_job_operation i) StreamPassInterface_job_operation (i, js)"
| "spi_step SPI_run_done (i, js) = dispatch (spi_job_done i) StreamPassInterface_job_done (i, js)"

definition spi_inv :: "('n, 'd) spi \<Rightarrow> bool" where
  "spi_inv s = (case s of (i, js) \<Rightarrow>
     distinct js \<and> spi_job_operation i \<noteq> spi_job_done i \<and>
     (spi_job_operation i \<in> set js \<longleftrightarrow> spi_state i = STATE_OPERATION_PENDING) \<and>
     (spi_job_done i \<in> set js \<longleftrightarrow> spi_state i = STATE_DONE_PENDING) \<and>
     (spi_state i = STATE_NONE \<or> spi_has_user i) \<and>
     (spi_state i \<noteq> STATE_NONE \<longrightarrow> 0 < spi_job_operation_len i) \<and>
     (spi_state i = STATE_DONE_PENDING \<longrightarrow> 0 < spi_job_done_len i \<and> spi_job_done_len i \<le> spi_job_operation_len i))"

definition spi_own :: "('n, 'd) spi \<Rightarrow> 'n set" where
  "spi_own s = {spi_job_operation (fst s), spi_job_done (fst s)}"

fun spi_starts :: "'d spi_op \<Rightarrow> bool" where
  "spi_starts (SPI_Send _ _) = True"
| "spi_starts _ = False"

lemmas spi_defs = StreamPassInterface_Init_def StreamPassInterface_Done_def StreamPassInterface_Sender_Init_def
  StreamPassInterface_Sender_Send_def StreamPassInterface_job_operation_def StreamPassInterface_job_done_def dispatch_def

lemma spi_step_ok:
  assumes "spi_inv s" "spi_step x s = Some (s', evs)"
  shows "spi_inv s' \<and> spi_own s' = spi_own s \<and>
    filter (\<lambda>y. y \<notin> spi_own s) (snd s') = filter (\<lambda>y. y \<notin> spi_own s) (snd s)"
  using assms
  by (cases s; cases x) (auto simp: spi_inv_def spi_own_def spi_defs split: if_splits)

lemma spi_step_trans:
  assumes "spi_inv s" "spi_step x s = Some (s', evs)"
  shows "flow_trans (spi_starts x) (spi_state (fst s)) (spi_state (fst s')) evs"
  using assms by (cases s; cases x) (auto simp: spi_inv_def spi_defs split: if_splits)

interpretation spi: flow_contract spi_inv "\<lambda>s. spi_state (fst s)" spi_starts spi_step snd spi_own
  by unfold_locales (use spi_step_ok spi_step_trans in blast)+

interpretation spi: stream_contract spi_inv "\<lambda>s. spi_state (fst s)" spi_starts spi_step snd spi_own
    "\<lambda>s. spi_job_operation_len (fst s)"
proof unfold_locales
  fix s s' :: "('n, 'd) spi" and x evs
  assume inv: "spi_inv s" and st: "spi_step x s = Some (s', evs)"
  then show "evs = [] \<or> (\<exists>d. evs = [Ev_operation d (Some (spi_job_operation_len (fst s)))] \<and>
      0 < spi_job_operation_len (fst s)) \<or>
    (\<exists>n. evs = [Ev_done (Some n)] \<and> 0 < n \<and> n \<le> spi_job_operation_len (fst s))"
    by (cases s; cases x) (auto simp: spi_inv_def spi_defs split: if_splits)
  show "spi_job_operation_len (fst s') = spi_job_operation_len (fst s)" if "\<not> spi_starts x"
    using st that by (cases s; cases x) (auto simp: spi_defs split: if_splits)
next
  fix s s' :: "('n, 'd) spi" and x
  assume "spi_inv s" "spi_step x s = Some (s', [])" "spi_state (fst s) = STATE_OPERATION_PENDING"
  then show "spi_state (fst s') = STATE_OPERATION_PENDING"
    by (cases s; cases x) (auto simp: spi_defs split: if_splits)
qed

section \<open>StreamRecvInterface\<close>

record ('n, 'd) StreamRecvInterface =
  sri_has_user :: bool
  sri_job_operation :: 'n
  sri_job_operation_data :: 'd
  sri_job_operation_len :: int
  sri_job_done :: 'n
  sri_job_done_len :: int
  sri_state :: iface_state

type_synonym ('n, 'd) sri = "('n, 'd) StreamRecvInterface \<times> 'n list"

definition StreamRecvInterface_Init :: "('n, 'd) StreamRecvInterface \<Rightarrow> ('n, 'd) StreamRecvInterface" where
  "StreamRecvInterface_Init i = i\<lparr>sri_has_user := False, sri_state := STATE_NONE\<rparr>"

definition StreamRecvInterface_Free :: "('n, 'd) StreamRecvInterface \<Rightarrow> 'n list \<Rightarrow> 'n list" where
  "StreamRecvInterface_Free i js = job_unset (sri_job_operation i) (job_unset (sri_job_done i) js)"

definition StreamRecvInterface_Done :: "('n, 'd) sri \<Rightarrow> int \<Rightarrow> ('n, 'd) sri" where
  "StreamRecvInterface_Done s data_len = (case s of (i, js) \<Rightarrow>
     (i\<lparr>sri_job_done_len := data_len, sri_state := STATE_DONE_PENDING\<rparr>, job_set (sri_job_done i) js))"

definition StreamRecvInterface_Receiver_Init :: "('n, 'd) StreamRecvInterface \<Rightarrow> ('n, 'd) StreamRecvInterface" where
  "StreamRecvInterface_Receiver_Init i = i\<lparr>sri_has_user := True\<rparr>"

definition StreamRecvInterface_Receiver_Recv :: "('n, 'd) sri \<Rightarrow> 'd \<Rightarrow> int \<Rightarrow> ('n, 'd) sri" where
  "StreamRecvInterface_Receiver_Recv s data data_len = (case s of (i, js) \<Rightarrow>
     (i\<lparr>sri_job_operation_data := data, sri_job_operation_len := data_len, sri_state := STATE_OPERATION_PENDING\<rparr>,
      job_set (sri_job_operation i) js))"

definition StreamRecvInterface_job_operation :: "('n, 'd) StreamRecvInterface \<Rightarrow> ('n, 'd) StreamRecvInterface \<times> 'd flow_event" where
  "StreamRecvInterface_job_operation i =
     (i\<lparr>sri_state := STATE_BUSY\<rparr>, Ev_operation (sri_job_operation_data i) (Some (sri_job_operation_len i)))"

definition StreamRecvInterface_job_done :: "('n, 'd) StreamRecvInterface \<Rightarrow> ('n, 'd) StreamRecvInterface \<times> 'd flow_event" where
  "StreamRecvInterface_job_done i = (i\<lparr>sri_state := STATE_NONE\<rparr>, Ev_done (Some (sri_job_done_len i)))"

datatype 'd sri_op =
  SRI_Receiver_Init | SRI_Recv 'd int | SRI_Done int | SRI_run_operation | SRI_run_done

fun sri_step :: "'d sri_op \<Rightarrow> ('n, 'd) sri \<Rightarrow> (('n, 'd) sri \<times> 'd flow_event list) option" where
  "sri_step SRI_Receiver_Init (i, js) =
     (if sri_has_user i then None else Some ((StreamRecvInterface_Receiver_Init i, js), []))"
| "sri_step (SRI_Recv d n) (i, js) =
     (if 0 < n \<and> sri_state i = STATE_NONE \<and> sri_has_user i then Some (StreamRecvInterface_Receiver_Recv (i, js) d n, []) else None)"
| "sri_step (SRI_Done n) (i, js) =
     (if sri_state i = STATE_BUSY \<and> 0 < n \<and> n \<le> sri_job_operation_len i
      then Some (StreamRecvInterface_Done (i, js) n, []) else None)"
| "sri_step SRI_run_operation (i, js) = dispatch (sri_job_operation i) StreamRecvInterface_job_operation (i, js)"
| "sri_step SRI_run_done (i, js) = dispatch (sri_job_done i) StreamRecvInterface_job_done (i, js)"

definition sri_inv :: "('n, 'd) sri \<Rightarrow> bool" where
  "sri_inv s = (case s of (i, js) \<Rightarrow>
     distinct js \<and> sri_job_operation i \<noteq> sri_job_done i \<and>
     (sri_job_operation i \<in> set js \<longleftrightarrow> sri_state i = STATE_OPERATION_PENDING) \<and>
     (sri_job_done i \<in> set js \<longleftrightarrow> sri_state i = STATE_DONE_PENDING) \<and>
     (sri_state i = STATE_NONE \<or> sri_has_user i) \<and>
     (sri_state i \<noteq> STATE_NONE \<longrightarrow> 0 < sri_job_operation_len i) \<and>
     (sri_state i = STATE_DONE_PENDING \<longrightarrow> 0 < sri_job_done_len i \<and> sri_job_done_len i \<le> sri_job_operation_len i))"

definition sri_own :: "('n, 'd) sri \<Rightarrow> 'n set" where
  "sri_own s = {sri_job_operation (fst s), sri_job_done (fst s)}"

fun sri_starts :: "'d sri_op \<Rightarrow> bool" where
  "sri_starts (SRI_Recv _ _) = True"
| "sri_starts _ = False"

lemmas sri_defs = StreamRecvInterface_Init_def StreamRecvInterface_Done_def StreamRecvInterface_Receiver_Init_def
  StreamRecvInterface_Receiver_Recv_def StreamRecvInterface_job_operation_def StreamRecvInterface_job_done_def dispatch_def

lemma sri_step_ok:
  assumes "sri_inv s" "sri_step x s = Some (s', evs)"
  shows "sri_inv s' \<and> sri_own s' = sri_own s \<and>
    filter (\<lambda>y. y \<notin> sri_own s) (snd s') = filter (\<lambda>y. y \<notin> sri_own s) (snd s)"
  using assms
  by (cases s; cases x) (auto simp: sri_inv_def sri_own_def sri_defs split: if_splits)

lemma sri_step_trans:
  assumes "sri_inv s" "sri_step x s = Some (s', evs)"
  shows "flow_trans (sri_starts x) (sri_state (fst s)) (sri_state (fst s')) evs"
  using assms by (cases s; cases x) (auto simp: sri_inv_def sri_defs split: if_splits)

interpretation sri: flow_contract sri_inv "\<lambda>s. sri_state (fst s)" sri_starts sri_step snd sri_own
  by unfold_locales (use sri_step_ok sri_step_trans in blast)+

interpretation sri: stream_contract sri_inv "\<lambda>s. sri_state (fst s)" sri_starts sri_step snd sri_own
    "\<lambda>s. sri_job_operation_len (fst s)"
proof unfold_locales
  fix s s' :: "('n, 'd) sri" and x evs
  assume inv: "sri_inv s" and st: "sri_step x s = Some (s', evs)"
  then show "evs = [] \<or> (\<exists>d. evs = [Ev_operation d (Some (sri_job_operation_len (fst s)))] \<and>
      0 < sri_job_operation_len (fst s)) \<or>
    (\<exists>n. evs = [Ev_done (Some n)] \<and> 0 < n \<and> n \<le> sri_job_operation_len (fst s))"
    by (cases s; cases x) (auto simp: sri_inv_def sri_defs split: if_splits)
  show "sri_job_operation_len (fst s') = sri_job_operation_len (fst s)" if "\<not> sri_starts x"
    using st that by (cases s; cases x) (auto simp: sri_defs split: if_splits)
next
  fix s s' :: "('n, 'd) sri" and x
  assume "sri_inv s" "sri_step x s = Some (s', [])" "sri_state (fst s) = STATE_OPERATION_PENDING"
  then show "sri_state (fst s') = STATE_OPERATION_PENDING"
    by (cases s; cases x) (auto simp: sri_defs split: if_splits)
qed

section \<open>Properties\<close>

text \<open>Along every sequence of calls that respects the callers' obligations of \<^verbatim>\<open>PacketPassInterface\<close>, and
  every order of dispatching its jobs, the assertions at the head of the three job handlers hold,
  each packet that was sent is reported done exactly once except the one in progress, the provider
  is called at most once per packet, and the jobs of other modules keep their order.\<close>

theorem PacketPassInterface_contract:
  assumes "distinct [ppi_job_operation i, ppi_job_requestcancel i, ppi_job_done i]" "distinct js"
    and "{ppi_job_operation i, ppi_job_requestcancel i, ppi_job_done i} \<inter> set js = {}"
    and "run_ops ppi_step ops (PacketPassInterface_Init i mtu, js) = Some ((i', js'), evs)"
  shows "(ppi_job_operation i' \<in> set js' \<longrightarrow> ppi_state i' = STATE_OPERATION_PENDING) \<and>
    (ppi_job_requestcancel i' \<in> set js' \<longrightarrow>
       ppi_state i' = STATE_BUSY \<and> ppi_cancel_requested i' \<and> ppi_has_cancel i') \<and>
    (ppi_job_done i' \<in> set js' \<longrightarrow> ppi_state i' = STATE_DONE_PENDING) \<and>
    length (filter ppi_starts ops) =
      length (filter is_done evs) + (if ppi_state i' = STATE_NONE then 0 else 1) \<and>
    length (filter is_operation evs) \<le> length (filter ppi_starts ops) \<and>
    filter (\<lambda>y. y \<notin> {ppi_job_operation i, ppi_job_requestcancel i, ppi_job_done i}) js' = js"
proof -
  let ?s = "(PacketPassInterface_Init i mtu, js)"
  have inv: "ppi_inv ?s" using assms(1-3) by (auto simp: ppi_inv_def ppi_defs)
  have own: "ppi_own ?s = {ppi_job_operation i, ppi_job_requestcancel i, ppi_job_done i}"
    by (simp add: ppi_own_def ppi_defs)
  have js: "filter (\<lambda>y. y \<notin> ppi_own ?s) js = js" using assms(3) own by (auto simp: filter_id_conv)
  have st: "ppi_state (PacketPassInterface_Init i mtu) = STATE_NONE" by (simp add: ppi_defs)
  note run = ppi.run_contract [OF inv assms(4)]
  from run have "ppi_inv (i', js')" by blast
  moreover from run js own have
    "filter (\<lambda>y. y \<notin> {ppi_job_operation i, ppi_job_requestcancel i, ppi_job_done i}) js' = js" by simp
  moreover from run st have "length (filter ppi_starts ops) =
      length (filter is_done evs) + (if ppi_state i' = STATE_NONE then 0 else 1)"
    "length (filter is_operation evs) \<le> length (filter ppi_starts ops)"
    by (simp_all split: if_splits)
  ultimately show ?thesis by (auto simp: ppi_inv_def)
qed

text \<open>An interface struct before initialisation, with jobs 1, 2 and 3, for the witnesses.\<close>

definition ppi_raw :: "(nat, string) PacketPassInterface" where
  "ppi_raw = \<lparr>ppi_mtu = 0, ppi_has_cancel = True, ppi_has_user = True, ppi_job_operation = 1,
     ppi_job_operation_data = '''', ppi_job_operation_len = 0, ppi_job_requestcancel = 2, ppi_job_done = 3,
     ppi_state = STATE_BUSY, ppi_cancel_requested = True\<rparr>"

definition ppi_example :: "string ppi_op list" where
  "ppi_example = [PPI_EnableCancel, PPI_Sender_Init, PPI_Send ''a'' 1, PPI_run_operation, PPI_Done, PPI_run_done,
     PPI_Send ''b'' 1, PPI_RequestCancel]"

theorem PacketPassInterface_contract_witness:
  "\<exists>i' js' evs. run_ops ppi_step ppi_example (PacketPassInterface_Init ppi_raw 5, [7, 8]) = Some ((i', js'), evs) \<and>
    js' = [3, 7, 8] \<and> ppi_state i' = STATE_DONE_PENDING \<and>
    length (filter ppi_starts ppi_example) =
      length (filter is_done evs) + (if ppi_state i' = STATE_NONE then 0 else 1)"
proof -
  obtain i' js' evs where
    r: "run_ops ppi_step ppi_example (PacketPassInterface_Init ppi_raw 5, [7, 8]) = Some ((i', js'), evs)"
    and v: "js' = [3, 7, 8]" "ppi_state i' = STATE_DONE_PENDING"
    by (simp add: ppi_example_def ppi_raw_def ppi_defs job_set_def job_unset_def)
  have d: "distinct [ppi_job_operation ppi_raw, ppi_job_requestcancel ppi_raw, ppi_job_done ppi_raw]"
    "distinct [7, 8 :: nat]"
    "{ppi_job_operation ppi_raw, ppi_job_requestcancel ppi_raw, ppi_job_done ppi_raw} \<inter> set [7, 8] = {}"
    by (simp_all add: ppi_raw_def)
  from PacketPassInterface_contract [OF d r] r v show ?thesis by blast
qed

text \<open>A \<^verbatim>\<open>StreamRecvInterface\<close> reports, for every receive operation, a length between 1 and the length that was
  asked for, however calls and dispatched jobs interleave.\<close>

theorem StreamRecvInterface_lengths:
  assumes "sri_job_operation i \<noteq> sri_job_done i" "distinct js"
    and "{sri_job_operation i, sri_job_done i} \<inter> set js = {}"
    and "run_ops sri_step ops (StreamRecvInterface_Init i, js) = Some (s, evs)"
  shows "lens_ok 0 evs"
  by (rule sri.run_lens_ok [OF _ assms(4)]) (use assms(1-3) in \<open>auto simp: sri_inv_def sri_defs\<close>)

definition sri_raw :: "(nat, string) StreamRecvInterface" where
  "sri_raw = \<lparr>sri_has_user = False, sri_job_operation = 1, sri_job_operation_data = '''',
     sri_job_operation_len = 0, sri_job_done = 2, sri_job_done_len = 0, sri_state = STATE_BUSY\<rparr>"

theorem StreamRecvInterface_lengths_witness:
  "\<exists>s evs. run_ops sri_step [SRI_Receiver_Init, SRI_Recv ''x'' 10, SRI_run_operation, SRI_Done 3, SRI_run_done]
      (StreamRecvInterface_Init sri_raw, [9]) = Some (s, evs) \<and>
    evs = [Ev_operation ''x'' (Some 10), Ev_done (Some 3)] \<and> lens_ok 0 evs"
proof -
  let ?ops = "[SRI_Receiver_Init, SRI_Recv ''x'' 10, SRI_run_operation, SRI_Done 3, SRI_run_done]"
  obtain s evs where r: "run_ops sri_step ?ops (StreamRecvInterface_Init sri_raw, [9]) = Some (s, evs)"
    and v: "evs = [Ev_operation ''x'' (Some 10), Ev_done (Some 3)]"
    by (simp add: sri_raw_def sri_defs job_set_def job_unset_def)
  have "lens_ok 0 evs"
    by (rule StreamRecvInterface_lengths [OF _ _ _ r]) (simp_all add: sri_raw_def)
  with r v show ?thesis by blast
qed

text \<open>A \<^verbatim>\<open>StreamPassInterface\<close> reports, for every send operation, a length between 1 and the length that was
  passed, however calls and dispatched jobs interleave.\<close>

theorem StreamPassInterface_lengths:
  assumes "spi_job_operation i \<noteq> spi_job_done i" "distinct js"
    and "{spi_job_operation i, spi_job_done i} \<inter> set js = {}"
    and "run_ops spi_step ops (StreamPassInterface_Init i, js) = Some (s, evs)"
  shows "lens_ok 0 evs"
  by (rule spi.run_lens_ok [OF _ assms(4)]) (use assms(1-3) in \<open>auto simp: spi_inv_def spi_defs\<close>)

definition spi_raw :: "(nat, string) StreamPassInterface" where
  "spi_raw = \<lparr>spi_has_user = False, spi_job_operation = 1, spi_job_operation_data = '''',
     spi_job_operation_len = 0, spi_job_done = 2, spi_job_done_len = 0, spi_state = STATE_BUSY\<rparr>"

theorem StreamPassInterface_lengths_witness:
  "\<exists>s evs. run_ops spi_step [SPI_Sender_Init, SPI_Send ''x'' 10, SPI_run_operation, SPI_Done 3, SPI_run_done]
      (StreamPassInterface_Init spi_raw, [9]) = Some (s, evs) \<and>
    evs = [Ev_operation ''x'' (Some 10), Ev_done (Some 3)] \<and> lens_ok 0 evs"
proof -
  let ?ops = "[SPI_Sender_Init, SPI_Send ''x'' 10, SPI_run_operation, SPI_Done 3, SPI_run_done]"
  obtain s evs where r: "run_ops spi_step ?ops (StreamPassInterface_Init spi_raw, [9]) = Some (s, evs)"
    and v: "evs = [Ev_operation ''x'' (Some 10), Ev_done (Some 3)]"
    by (simp add: spi_raw_def spi_defs job_set_def job_unset_def)
  have "lens_ok 0 evs"
    by (rule StreamPassInterface_lengths [OF _ _ _ r]) (simp_all add: spi_raw_def)
  with r v show ?thesis by blast
qed

end
