(* ===== verification/Misc_Arith.thy ===== *)
theory Misc_Arith
  imports Prelude
begin

text \<open>
  The integer helpers of \<^verbatim>\<open>badvpn/misc\<close>: alignment (\<^verbatim>\<open>balign.h\<close>), overflow-checked sizes
  (\<^verbatim>\<open>bsize.h\<close>), byte order (\<^verbatim>\<open>byteorder.h\<close>, little-endian host as the build selects) and
  unaligned reads (\<^verbatim>\<open>read_write_int.h\<close>).  \<open>size_t\<close> is 64 bits wide.
\<close>

section \<open>Conversions between int and size\_t\<close>

definition size_of_int :: "int \<Rightarrow> nat" where
  "size_of_int i = nat (i mod 2 ^ 64)"

definition int_of_size :: "nat \<Rightarrow> int" where
  "int_of_size n = signed_take_bit 31 (int n)"

lemma size_of_int_nonneg [simp]: "0 \<le> i \<Longrightarrow> i \<le> INT_MAX \<Longrightarrow> size_of_int i = nat i"
  by (simp add: size_of_int_def)

lemma int_of_size_small [simp]: "int n \<le> INT_MAX \<Longrightarrow> int_of_size n = int n"
  by (simp add: int_of_size_def signed_take_bit_int_eq_self)

section \<open>Alignment and rounded division (balign.h)\<close>

definition balign_up_overflows :: "u64 \<Rightarrow> u64 \<Rightarrow> bool" where
  "balign_up_overflows x n = (let r = x mod n in r \<noteq> 0 \<and> x > - 1 - (n - r))"

definition balign_up :: "u64 \<Rightarrow> u64 \<Rightarrow> u64" where
  "balign_up x n = (let r = x mod n in if r \<noteq> 0 then x + (n - r) else x)"

definition balign_down :: "u64 \<Rightarrow> u64 \<Rightarrow> u64" where
  "balign_down x n = x - x mod n"

text \<open>
  The quotient rounded up.  \<open>a / b + 1\<close> is only computed when the remainder is positive, so
  \<open>b\<close> is at least 2 there and the sum cannot wrap: natural numbers lose nothing.
\<close>

definition bdivide_up :: "nat \<Rightarrow> nat \<Rightarrow> nat" where
  "bdivide_up a b = (let r = a mod b in if r > 0 then a div b + 1 else a div b)"

lemma bdivide_up_bounds:
  assumes "0 < b"
  shows "a \<le> b * bdivide_up a b" "b * bdivide_up a b < a + b"
proof -
  have eq: "a = b * (a div b) + a mod b" and lt: "a mod b < b"
    using assms by simp_all
  show "a \<le> b * bdivide_up a b"
  proof (cases "a mod b > 0")
    case True
    have "a \<le> b * (a div b) + b" using eq lt by linarith
    with True show ?thesis by (simp add: bdivide_up_def Let_def)
  next
    case False
    with eq have "a = b * (a div b)" by linarith
    with False show ?thesis by (simp add: bdivide_up_def Let_def)
  qed
  show "b * bdivide_up a b < a + b"
  proof (cases "a mod b > 0")
    case True
    with eq have "b * (a div b) < a" by linarith
    with True show ?thesis by (simp add: bdivide_up_def Let_def)
  next
    case False
    with eq have "a = b * (a div b)" by linarith
    with False assms show ?thesis by (simp add: bdivide_up_def Let_def)
  qed
qed

lemma bdivide_up_le_iff:
  assumes "0 < b"
  shows "bdivide_up a b \<le> k \<longleftrightarrow> a \<le> b * k"
proof
  assume "bdivide_up a b \<le> k"
  then have "b * bdivide_up a b \<le> b * k" by simp
  then show "a \<le> b * k" using bdivide_up_bounds(1) [OF assms, of a] by linarith
next
  assume "a \<le> b * k"
  then have "b * bdivide_up a b < b * Suc k"
    using bdivide_up_bounds(2) [OF assms, of a] by simp
  then have "bdivide_up a b < Suc k" by (simp only: mult_less_cancel1)
  then show "bdivide_up a b \<le> k" by simp
qed

lemma bdivide_up_mono: "0 < b \<Longrightarrow> x \<le> y \<Longrightarrow> bdivide_up x b \<le> bdivide_up y b"
  using bdivide_up_bounds(1) [of b y] by (simp add: bdivide_up_le_iff)

lemma bdivide_up_le_self: "0 < b \<Longrightarrow> bdivide_up a b \<le> a"
  by (simp add: bdivide_up_le_iff)

section \<open>Overflow-checked sizes (bsize.h)\<close>

record bsize_t =
  is_overflow :: bool
  bvalue :: u64

definition bsize_fromsize :: "u64 \<Rightarrow> bsize_t" where
  "bsize_fromsize v = \<lparr>is_overflow = False, bvalue = v\<rparr>"

text \<open>\<open>v > SIZE_MAX\<close> is false for every 32-bit \<open>v\<close>; the conversion wraps a negative one.\<close>

definition bsize_fromint :: "int \<Rightarrow> bsize_t" where
  "bsize_fromint v = \<lparr>is_overflow = (v < 0 \<or> v > 2 ^ 64 - 1), bvalue = of_int v\<rparr>"

definition bsize_overflow :: bsize_t where
  "bsize_overflow = \<lparr>is_overflow = True, bvalue = 0\<rparr>"

definition bsize_tosize :: "bsize_t \<Rightarrow> u64 option" where
  "bsize_tosize s = (if is_overflow s then None else Some (bvalue s))"

definition bsize_toint :: "bsize_t \<Rightarrow> int option" where
  "bsize_toint s =
     (if is_overflow s \<or> uint (bvalue s) > INT_MAX then None else Some (uint (bvalue s)))"

definition bsize_add :: "bsize_t \<Rightarrow> bsize_t \<Rightarrow> bsize_t" where
  "bsize_add s1 s2 =
     \<lparr>is_overflow = (is_overflow s1 \<or> is_overflow s2 \<or> bvalue s2 > - 1 - bvalue s1),
      bvalue = bvalue s1 + bvalue s2\<rparr>"

definition bsize_max :: "bsize_t \<Rightarrow> bsize_t \<Rightarrow> bsize_t" where
  "bsize_max s1 s2 =
     \<lparr>is_overflow = (is_overflow s1 \<or> is_overflow s2),
      bvalue = of_bool (bvalue s1 > bvalue s2) * bvalue s1
             + of_bool (bvalue s1 \<le> bvalue s2) * bvalue s2\<rparr>"

definition bsize_mul :: "bsize_t \<Rightarrow> bsize_t \<Rightarrow> bsize_t" where
  "bsize_mul s1 s2 =
     \<lparr>is_overflow = (is_overflow s1 \<or> is_overflow s2 \<or>
        (bvalue s1 \<noteq> 0 \<and> bvalue s2 > (- 1) div bvalue s1)),
      bvalue = bvalue s1 * bvalue s2\<rparr>"

text \<open>The mathematical size a \<open>bsize_t\<close> stands for; \<open>None\<close> once a computation has overflowed.\<close>

definition bsize_val :: "bsize_t \<Rightarrow> nat option" where
  "bsize_val s = (if is_overflow s then None else Some (unat (bvalue s)))"

definition lift_size :: "(nat \<Rightarrow> nat \<Rightarrow> nat) \<Rightarrow> nat option \<Rightarrow> nat option \<Rightarrow> nat option" where
  "lift_size f x y = (case (x, y) of
     (Some a, Some b) \<Rightarrow> if f a b < 2 ^ 64 then Some (f a b) else None
   | _ \<Rightarrow> None)"

lemma unat_max_u64: "unat (- 1 :: u64) = 2 ^ 64 - 1"
  by (simp add: unsigned_minus_1_eq_mask mask_eq_exp_minus_1)

lemma bsize_val_add:
  "bsize_val (bsize_add s1 s2) = lift_size (+) (bsize_val s1) (bsize_val s2)"
proof -
  have lim: "unat (bvalue s1) < 2 ^ 64" "unat (bvalue s2) < 2 ^ 64"
    using unsigned_less [of "bvalue s1", where ?'a = nat]
      unsigned_less [of "bvalue s2", where ?'a = nat] by simp_all
  have "bvalue s2 > - 1 - bvalue s1 \<longleftrightarrow> \<not> unat (bvalue s1) + unat (bvalue s2) < 2 ^ 64"
  proof -
    have "unat (- 1 - bvalue s1) = 2 ^ 64 - 1 - unat (bvalue s1)"
      using lim by (subst unat_sub) (simp_all add: unat_max_u64)
    then show ?thesis using lim by (simp add: word_less_nat_alt) linarith
  qed
  then show ?thesis
    using lim by (auto simp: bsize_val_def bsize_add_def lift_size_def unat_word_ariths)
qed

lemma bsize_val_max:
  "bsize_val (bsize_max s1 s2) = lift_size max (bsize_val s1) (bsize_val s2)"
  using unsigned_less [of "bvalue s1", where ?'a = nat]
    unsigned_less [of "bvalue s2", where ?'a = nat]
  by (auto simp: bsize_val_def bsize_max_def lift_size_def max_def word_le_nat_alt word_less_nat_alt)

lemma bsize_val_mul:
  "bsize_val (bsize_mul s1 s2) = lift_size (*) (bsize_val s1) (bsize_val s2)"
proof -
  let ?a = "unat (bvalue s1)" and ?b = "unat (bvalue s2)"
  have "(bvalue s1 \<noteq> 0 \<and> bvalue s2 > (- 1) div bvalue s1) \<longleftrightarrow> \<not> ?a * ?b < 2 ^ 64"
  proof (cases "bvalue s1 = 0")
    case False
    then have pos: "0 < ?a" by (simp add: unat_gt_0)
    have "(bvalue s2 > (- 1) div bvalue s1) \<longleftrightarrow> (2 ^ 64 - 1) div ?a < ?b"
      by (simp add: word_less_nat_alt unat_div_distrib unat_max_u64)
    also have "\<dots> \<longleftrightarrow> 2 ^ 64 - 1 < ?a * ?b"
      using pos by (simp add: div_less_iff_less_mult mult.commute)
    finally show ?thesis using False by auto
  qed simp
  then show ?thesis
    by (auto simp: bsize_val_def bsize_mul_def lift_size_def unat_word_ariths)
qed

lemma bsize_val_fromsize [simp]: "bsize_val (bsize_fromsize v) = Some (unat v)"
  by (simp add: bsize_val_def bsize_fromsize_def)

lemma bsize_toint_val:
  "bsize_toint s = (case bsize_val s of Some v \<Rightarrow> if int v \<le> INT_MAX then Some (int v) else None
     | None \<Rightarrow> None)"
  by (auto simp: bsize_toint_def bsize_val_def)

section \<open>Byte order (byteorder.h)\<close>

definition badvpn_reverse16 :: "u16 \<Rightarrow> u16" where
  "badvpn_reverse16 x = word16_of (ucast (drop_bit 8 x)) (ucast x)"

definition badvpn_reverse32 :: "u32 \<Rightarrow> u32" where
  "badvpn_reverse32 x = word32_of (ucast (drop_bit 24 x)) (ucast (drop_bit 16 x))
     (ucast (drop_bit 8 x)) (ucast x)"

definition hton16 :: "u16 \<Rightarrow> u16" where "hton16 x = badvpn_reverse16 x"
definition hton32 :: "u32 \<Rightarrow> u32" where "hton32 x = badvpn_reverse32 x"
definition ntoh16 :: "u16 \<Rightarrow> u16" where "ntoh16 x = hton16 x"
definition ntoh32 :: "u32 \<Rightarrow> u32" where "ntoh32 x = hton32 x"
definition htol16 :: "u16 \<Rightarrow> u16" where "htol16 x = x"
definition ltoh16 :: "u16 \<Rightarrow> u16" where "ltoh16 x = htol16 x"

lemma le16_reverse: "le16 (badvpn_reverse16 x) = rev (le16 x)"
  unfolding badvpn_reverse16_def le16_un_le16 by (simp add: le16_def)

lemma le32_reverse: "le32 (badvpn_reverse32 x) = rev (le32 x)"
  unfolding badvpn_reverse32_def le32_un_le32 by (simp add: le32_def)

lemma le16_hton16 [layout_simps]: "le16 (hton16 x) = be16 x"
  unfolding hton16_def le16_reverse by (simp add: le16_def be16_def)

lemma ntoh16_hton16 [simp, layout_simps]: "ntoh16 (hton16 x) = x"
  by (rule le16_inject [THEN iffD1]) (simp add: ntoh16_def hton16_def le16_reverse)

lemma hton16_ntoh16 [simp, layout_simps]: "hton16 (ntoh16 x) = x"
  using ntoh16_hton16 [of x] by (simp add: ntoh16_def)

lemma ntoh32_hton32 [simp, layout_simps]: "ntoh32 (hton32 x) = x"
  by (rule le32_inject [THEN iffD1]) (simp add: ntoh32_def hton32_def le32_reverse)

section \<open>Unaligned reads (read\_write\_int.h)\<close>

definition badvpn_read_be16 :: "byte list \<Rightarrow> u16" where
  "badvpn_read_be16 ptr = un_be16 ptr"

lemma ntoh16_un_le16: "length bs \<ge> 2 \<Longrightarrow> ntoh16 (un_le16 bs) = badvpn_read_be16 bs"
proof -
  assume "length bs \<ge> 2"
  then obtain a b r where bs: "bs = a # b # r"
    by (cases bs; cases "tl bs"; auto)
  have "ntoh16 (word16_of a b) = word16_of b a"
    by (rule le16_inject [THEN iffD1])
      (simp add: ntoh16_def hton16_def le16_reverse le16_un_le16)
  then show ?thesis by (simp add: bs badvpn_read_be16_def)
qed

end
