(* ===== verification/ChunkBuffer2.thy ===== *)
theory ChunkBuffer2
  imports Misc_Arith
begin

text \<open>
  The circular packet buffer \<^verbatim>\<open>badvpn/structure/ChunkBuffer2.h\<close>.  The backing array of
  \<^verbatim>\<open>struct ChunkBuffer2_block\<close> (one \<open>int\<close> each) is flat memory of four bytes per block; a packet is
  a block holding its length followed by the blocks holding its bytes.  \<open>input_dest\<close> and
  \<open>output_dest\<close> are byte offsets, \<open>None\<close> for \<open>NULL\<close>.

  The abstract view is a FIFO queue of packets: \<open>cb_repr b q\<close> relates a buffer to the queue it
  holds.  The lemmas show that every operation keeps the relation and that the code's own debug
  assertions (\<open>assert_buffer\<close>, \<open>assert_io\<close>) hold in every related state, and that a buffer sized by
  \<open>ChunkBuffer2_calc_blocks\<close> always has room for the number of packets it was sized for.
\<close>

section \<open>State and operations\<close>

record ChunkBuffer2 =
  cb_buffer :: "byte list"
  cb_size :: int
  cb_wrap :: int
  cb_start :: int
  cb_used :: int
  cb_mtu :: int
  cb_input_dest :: "int option"
  cb_input_avail :: int
  cb_output_dest :: "int option"
  cb_output_avail :: int

text \<open>A block is four bytes; its \<open>len\<close> field is a little-endian \<open>int\<close>.\<close>

definition block_len :: "byte list \<Rightarrow> int \<Rightarrow> int" where
  "block_len m i = sint (un_le32 (mem_read m (nat (4 * i)) 4))"

definition set_block_len :: "byte list \<Rightarrow> int \<Rightarrow> int \<Rightarrow> byte list" where
  "set_block_len m i len = mem_write m (nat (4 * i)) (le32 (of_int len))"

text \<open>\<open>bdivide_up(len, sizeof(block))\<close> as used on \<open>int\<close> operands, and \<open>n * sizeof(block)\<close> stored
  to an \<open>int\<close>.\<close>

definition blocks_for :: "int \<Rightarrow> int" where
  "blocks_for len = int_of_size (bdivide_up (size_of_int len) 4)"

definition block_bytes :: "int \<Rightarrow> int" where
  "block_bytes n = int_of_size (nat ((n * 4) mod 2 ^ 64))"

definition ChunkBuffer2_end :: "ChunkBuffer2 \<Rightarrow> int" where
  "ChunkBuffer2_end b =
     (if cb_used b \<ge> cb_wrap b - cb_start b
      then cb_used b - (cb_wrap b - cb_start b)
      else cb_start b + cb_used b)"

definition ChunkBuffer2_assert_buffer :: "ChunkBuffer2 \<Rightarrow> bool" where
  "ChunkBuffer2_assert_buffer b \<longleftrightarrow>
     cb_size b > 0 \<and> cb_wrap b > 0 \<and> cb_wrap b \<le> cb_size b \<and>
     cb_start b \<ge> 0 \<and> cb_start b < cb_wrap b \<and>
     cb_used b \<ge> 0 \<and> cb_used b \<le> cb_wrap b \<and>
     (cb_wrap b = cb_size b \<or> cb_used b \<ge> cb_wrap b - cb_start b) \<and>
     cb_mtu b \<ge> 0"

definition free_blocks :: "ChunkBuffer2 \<Rightarrow> int" where
  "free_blocks b =
     (if cb_used b \<ge> cb_wrap b - cb_start b then cb_start b - ChunkBuffer2_end b
      else cb_size b - ChunkBuffer2_end b)"

definition ChunkBuffer2_assert_io :: "ChunkBuffer2 \<Rightarrow> bool" where
  "ChunkBuffer2_assert_io b \<longleftrightarrow>
     (let end = ChunkBuffer2_end b; free = free_blocks b in
      if cb_size b - end - 1 < cb_mtu b
      then cb_input_dest b = None \<and> cb_input_avail b = -1
      else if free > 0
      then cb_input_dest b = Some (4 * (end + 1)) \<and> cb_input_avail b = block_bytes (free - 1)
      else cb_input_dest b = None \<and> cb_input_avail b = -1) \<and>
     (if cb_used b > 0
      then (let datalen = block_len (cb_buffer b) (cb_start b);
                blocklen = blocks_for datalen in
            datalen \<ge> 0 \<and> blocklen \<le> cb_used b - 1 \<and>
            blocklen \<le> cb_wrap b - cb_start b - 1 \<and>
            cb_output_dest b = Some (4 * (cb_start b + 1)) \<and> cb_output_avail b = datalen)
      else cb_output_dest b = None \<and> cb_output_avail b = -1)"

definition ChunkBuffer2_update_input :: "ChunkBuffer2 \<Rightarrow> ChunkBuffer2" where
  "ChunkBuffer2_update_input b =
     (let end = ChunkBuffer2_end b in
      if cb_size b - end - 1 < cb_mtu b
      then b\<lparr>cb_input_dest := None, cb_input_avail := -1\<rparr>
      else if free_blocks b > 0
      then b\<lparr>cb_input_dest := Some (4 * (end + 1)),
             cb_input_avail := block_bytes (free_blocks b - 1)\<rparr>
      else b\<lparr>cb_input_dest := None, cb_input_avail := -1\<rparr>)"

definition ChunkBuffer2_update_output :: "ChunkBuffer2 \<Rightarrow> ChunkBuffer2" where
  "ChunkBuffer2_update_output b =
     (if cb_used b > 0
      then b\<lparr>cb_output_dest := Some (4 * (cb_start b + 1)),
             cb_output_avail := block_len (cb_buffer b) (cb_start b)\<rparr>
      else b\<lparr>cb_output_dest := None, cb_output_avail := -1\<rparr>)"

definition ChunkBuffer2_calc_blocks :: "int \<Rightarrow> int \<Rightarrow> int" where
  "ChunkBuffer2_calc_blocks chunk_len num =
     (let chunk_data_blocks = blocks_for chunk_len in
      if chunk_data_blocks > INT_MAX - 1 then -1
      else let chunk_blocks = 1 + chunk_data_blocks in
      if num > INT_MAX - 1 then -1
      else let num_chunks = num + 1 in
      if chunk_blocks > INT_MAX div num_chunks then -1
      else chunk_blocks * num_chunks)"

definition ChunkBuffer2_Init :: "byte list \<Rightarrow> int \<Rightarrow> int \<Rightarrow> ChunkBuffer2" where
  "ChunkBuffer2_Init mem blocks mtu =
     ChunkBuffer2_update_output (ChunkBuffer2_update_input
       \<lparr>cb_buffer = mem, cb_size = blocks, cb_wrap = blocks, cb_start = 0, cb_used = 0,
        cb_mtu = blocks_for mtu, cb_input_dest = None, cb_input_avail = 0,
        cb_output_dest = None, cb_output_avail = 0\<rparr>)"

definition ChunkBuffer2_SubmitPacket :: "ChunkBuffer2 \<Rightarrow> int \<Rightarrow> ChunkBuffer2" where
  "ChunkBuffer2_SubmitPacket b len =
     (let end = ChunkBuffer2_end b;
          blocklen = blocks_for len;
          b1 = b\<lparr>cb_buffer := set_block_len (cb_buffer b) end len,
                 cb_used := cb_used b + (1 + blocklen)\<rparr>;
          b2 = (if cb_used b1 \<le> cb_wrap b1 - cb_start b1 \<and>
                   cb_mtu b1 > cb_size b1 - (end + 1 + blocklen) - 1
                then b1\<lparr>cb_wrap := end + 1 + blocklen\<rparr> else b1);
          b3 = ChunkBuffer2_update_input b2
      in if cb_used b3 = 1 + blocklen then ChunkBuffer2_update_output b3 else b3)"

definition ChunkBuffer2_ConsumePacket :: "ChunkBuffer2 \<Rightarrow> ChunkBuffer2" where
  "ChunkBuffer2_ConsumePacket b =
     (let blocklen = blocks_for (block_len (cb_buffer b) (cb_start b));
          data_wrapped = (cb_used b \<ge> cb_wrap b - cb_start b);
          b1 = b\<lparr>cb_start := cb_start b + (1 + blocklen),
                 cb_used := cb_used b - (1 + blocklen)\<rparr>;
          b2 = (if cb_start b1 = cb_wrap b1
                then b1\<lparr>cb_start := 0, cb_wrap := cb_size b1\<rparr> else b1);
          b3 = (if data_wrapped then ChunkBuffer2_update_input b2 else b2)
      in ChunkBuffer2_update_output b3)"

text \<open>
  What the owner of the buffer does between receiving \<open>input_dest\<close> and submitting: write the
  packet's bytes there.
\<close>

definition fill_input :: "ChunkBuffer2 \<Rightarrow> byte list \<Rightarrow> ChunkBuffer2" where
  "fill_input b data = (case cb_input_dest b of
     None \<Rightarrow> b
   | Some d \<Rightarrow> b\<lparr>cb_buffer := mem_write (cb_buffer b) (nat d) data\<rparr>)"

definition output_packet :: "ChunkBuffer2 \<Rightarrow> byte list option" where
  "output_packet b = (case cb_output_dest b of
     None \<Rightarrow> None
   | Some d \<Rightarrow> Some (mem_read (cb_buffer b) (nat d) (nat (cb_output_avail b))))"

section \<open>Arithmetic of blocks\<close>

lemma blocks_for_eq:
  "0 \<le> len \<Longrightarrow> len \<le> INT_MAX \<Longrightarrow> blocks_for len = int (bdivide_up (nat len) 4)"
  using bdivide_up_le_self [of 4 "nat len"]
  by (simp add: blocks_for_def)

lemma blocks_for_bounds:
  assumes "0 \<le> len" "len \<le> INT_MAX"
  shows "0 \<le> blocks_for len" "len \<le> 4 * blocks_for len" "4 * blocks_for len < len + 4"
  using bdivide_up_bounds [of 4 "nat len"] assms by (auto simp: blocks_for_eq)

lemma blocks_for_le:
  assumes "0 \<le> len" "len \<le> 4 * k" "4 * k \<le> INT_MAX"
  shows "blocks_for len \<le> k"
  using blocks_for_bounds [of len] assms by linarith

lemma blocks_for_mono:
  assumes "0 \<le> a" "a \<le> b" "b \<le> INT_MAX"
  shows "blocks_for a \<le> blocks_for b"
  using blocks_for_bounds [of a] blocks_for_bounds [of b] assms by linarith

lemma block_bytes_eq:
  "0 \<le> n \<Longrightarrow> 4 * n \<le> INT_MAX \<Longrightarrow> block_bytes n = 4 * n"
  by (simp add: block_bytes_def)

lemma block_len_set:
  assumes "0 \<le> i" "4 * (i + 1) \<le> int (length m)" "0 \<le> len" "len \<le> INT_MAX"
  shows "block_len (set_block_len m i len) i = len"
proof -
  have "nat (4 * i) + 4 \<le> length m" using assms(1,2) by auto
  moreover have "sint (of_int len :: u32) = len"
    using assms by (simp add: signed_of_int signed_take_bit_int_eq_self)
  ultimately show ?thesis
    by (simp add: block_len_def set_block_len_def mem_simps)
qed

section \<open>The abstraction: a buffer holds a queue of packets\<close>

text \<open>\<open>chunks m M S pos ps e\<close>: the packets \<open>ps\<close> are laid out one after another from block \<open>pos\<close> to
  block \<open>e\<close>, each at a place where a packet of \<open>M\<close> data blocks fits below \<open>S\<close>.\<close>

fun chunks :: "byte list \<Rightarrow> int \<Rightarrow> int \<Rightarrow> int \<Rightarrow> byte list list \<Rightarrow> int \<Rightarrow> bool" where
  "chunks m M S pos [] e = (pos = e)"
| "chunks m M S pos (p # ps) e \<longleftrightarrow>
     0 \<le> pos \<and> M \<le> S - pos - 1 \<and> int (length p) \<le> INT_MAX \<and>
     pos + 1 + blocks_for (int (length p)) \<le> S \<and>
     block_len m pos = int (length p) \<and>
     mem_read m (nat (4 * (pos + 1))) (length p) = p \<and>
     chunks m M S (pos + 1 + blocks_for (int (length p))) ps e"

lemma chunks_mono: "chunks m M S pos ps e \<Longrightarrow> pos \<le> e"
proof (induction ps arbitrary: pos)
  case (Cons p ps)
  then show ?case using blocks_for_bounds(1) [of "int (length p)"] by fastforce
qed simp

lemma chunks_append:
  "chunks m M S pos (as @ bs) e \<longleftrightarrow> (\<exists>mid. chunks m M S pos as mid \<and> chunks m M S mid bs e)"
  by (induction as arbitrary: pos) auto

lemma chunks_frame:
  assumes "chunks m M S pos ps e" "4 * S \<le> int (length m)" "off + length bs \<le> length m"
    and "4 * e \<le> int off \<or> int (off + length bs) \<le> 4 * pos"
  shows "chunks (mem_write m off bs) M S pos ps e"
  using assms
proof (induction ps arbitrary: pos)
  case (Cons p ps)
  let ?nb = "blocks_for (int (length p))"
  have nb: "0 \<le> ?nb" "int (length p) \<le> 4 * ?nb"
    using Cons.prems(1) blocks_for_bounds [of "int (length p)"] by auto
  have le: "pos + 1 + ?nb \<le> e"
    using Cons.prems(1) by (auto dest: chunks_mono)
  have "block_len (mem_write m off bs) pos = block_len m pos"
    unfolding block_len_def using Cons.prems nb le
    by (subst mem_read_write_disjoint) auto
  moreover have "mem_read (mem_write m off bs) (nat (4 * (pos + 1))) (length p)
      = mem_read m (nat (4 * (pos + 1))) (length p)"
    using Cons.prems nb le by (intro mem_read_write_disjoint) auto
  moreover have "chunks (mem_write m off bs) M S (pos + 1 + ?nb) ps e"
    using Cons.prems nb by (intro Cons.IH) auto
  ultimately show ?case using Cons.prems(1) by simp
qed simp

definition queue_blocks :: "byte list list \<Rightarrow> int" where
  "queue_blocks q = (\<Sum>p\<leftarrow>q. 1 + blocks_for (int (length p)))"

lemma queue_blocks_simps [simp]:
  "queue_blocks [] = 0"
  "queue_blocks (p # q) = 1 + blocks_for (int (length p)) + queue_blocks q"
  "queue_blocks (q @ r) = queue_blocks q + queue_blocks r"
  by (simp_all add: queue_blocks_def)

lemma chunks_blocks: "chunks m M S pos ps e \<Longrightarrow> e - pos = queue_blocks ps"
proof (induction ps arbitrary: pos)
  case (Cons p ps)
  then have "e - (pos + 1 + blocks_for (int (length p))) = queue_blocks ps" by simp
  then show ?case by simp
qed simp

definition cb_wf :: "ChunkBuffer2 \<Rightarrow> bool" where
  "cb_wf b \<longleftrightarrow> ChunkBuffer2_assert_buffer b \<and>
     int (length (cb_buffer b)) = 4 * cb_size b \<and> 4 * cb_size b \<le> INT_MAX \<and>
     cb_mtu b \<le> cb_size b - cb_start b - 1 \<and>
     (cb_wrap b = cb_size b \<or> cb_mtu b > cb_size b - cb_wrap b - 1)"

definition cb_layout :: "ChunkBuffer2 \<Rightarrow> byte list list \<Rightarrow> bool" where
  "cb_layout b q \<longleftrightarrow>
     (if cb_used b < cb_wrap b - cb_start b
      then chunks (cb_buffer b) (cb_mtu b) (cb_size b) (cb_start b) q (cb_start b + cb_used b) \<and>
           cb_mtu b \<le> cb_size b - (cb_start b + cb_used b) - 1
      else (\<exists>q1 q2. q = q1 @ q2 \<and>
           chunks (cb_buffer b) (cb_mtu b) (cb_size b) (cb_start b) q1 (cb_wrap b) \<and>
           chunks (cb_buffer b) (cb_mtu b) (cb_size b) 0 q2 (ChunkBuffer2_end b) \<and>
           ChunkBuffer2_end b \<le> cb_start b))"

definition cb_repr :: "ChunkBuffer2 \<Rightarrow> byte list list \<Rightarrow> bool" where
  "cb_repr b q \<longleftrightarrow> cb_wf b \<and> cb_layout b q \<and> ChunkBuffer2_assert_io b"


lemmas cb_defs = cb_wf_def cb_layout_def ChunkBuffer2_assert_buffer_def ChunkBuffer2_end_def
  free_blocks_def

text \<open>The two update routines recompute the I/O fields, so the I/O assertion holds after them.\<close>

lemma update_input_fields [simp]:
  "cb_buffer (ChunkBuffer2_update_input b) = cb_buffer b"
  "cb_size (ChunkBuffer2_update_input b) = cb_size b"
  "cb_wrap (ChunkBuffer2_update_input b) = cb_wrap b"
  "cb_start (ChunkBuffer2_update_input b) = cb_start b"
  "cb_used (ChunkBuffer2_update_input b) = cb_used b"
  "cb_mtu (ChunkBuffer2_update_input b) = cb_mtu b"
  "cb_output_dest (ChunkBuffer2_update_input b) = cb_output_dest b"
  "cb_output_avail (ChunkBuffer2_update_input b) = cb_output_avail b"
  by (simp_all add: ChunkBuffer2_update_input_def Let_def)

lemma update_output_fields [simp]:
  "cb_buffer (ChunkBuffer2_update_output b) = cb_buffer b"
  "cb_size (ChunkBuffer2_update_output b) = cb_size b"
  "cb_wrap (ChunkBuffer2_update_output b) = cb_wrap b"
  "cb_start (ChunkBuffer2_update_output b) = cb_start b"
  "cb_used (ChunkBuffer2_update_output b) = cb_used b"
  "cb_mtu (ChunkBuffer2_update_output b) = cb_mtu b"
  "cb_input_dest (ChunkBuffer2_update_output b) = cb_input_dest b"
  "cb_input_avail (ChunkBuffer2_update_output b) = cb_input_avail b"
  by (simp_all add: ChunkBuffer2_update_output_def)

definition input_ok :: "ChunkBuffer2 \<Rightarrow> bool" where
  "input_ok b \<longleftrightarrow>
     cb_input_dest b = cb_input_dest (ChunkBuffer2_update_input b) \<and>
     cb_input_avail b = cb_input_avail (ChunkBuffer2_update_input b)"

definition output_ok :: "ChunkBuffer2 \<Rightarrow> bool" where
  "output_ok b \<longleftrightarrow>
     cb_output_dest b = cb_output_dest (ChunkBuffer2_update_output b) \<and>
     cb_output_avail b = cb_output_avail (ChunkBuffer2_update_output b)"

text \<open>In a well-formed layout the first packet sits at \<open>start\<close>, so the bounds the code asserts on
  it follow from the layout.\<close>

lemma layout_first:
  assumes "cb_layout b q" "ChunkBuffer2_assert_buffer b" "cb_used b > 0"
  obtains p q' where "q = p # q'" "block_len (cb_buffer b) (cb_start b) = int (length p)"
    "int (length p) \<le> INT_MAX"
    "mem_read (cb_buffer b) (nat (4 * (cb_start b + 1))) (length p) = p"
    "1 + blocks_for (int (length p)) \<le> cb_used b"
    "cb_start b + 1 + blocks_for (int (length p)) \<le> cb_wrap b"
    "cb_start b + 1 + blocks_for (int (length p)) \<le> cb_size b"
proof (cases "cb_used b < cb_wrap b - cb_start b")
  case True
  with assms have ch: "chunks (cb_buffer b) (cb_mtu b) (cb_size b) (cb_start b) q
      (cb_start b + cb_used b)" by (simp add: cb_layout_def)
  then obtain p q' where q: "q = p # q'" using assms(3) by (cases q) auto
  with ch have "cb_start b + 1 + blocks_for (int (length p)) \<le> cb_start b + cb_used b"
    by (auto dest: chunks_mono)
  with that [OF q] ch q True show ?thesis by simp
next
  case False
  with assms obtain q1 q2 where q: "q = q1 @ q2"
    and ch: "chunks (cb_buffer b) (cb_mtu b) (cb_size b) (cb_start b) q1 (cb_wrap b)"
    by (auto simp: cb_layout_def)
  then obtain p q1' where q1: "q1 = p # q1'"
    using assms(2) by (cases q1) (auto simp: ChunkBuffer2_assert_buffer_def)
  with ch have "cb_start b + 1 + blocks_for (int (length p)) \<le> cb_wrap b"
    by (auto dest: chunks_mono)
  with that [of p "q1' @ q2"] ch q q1 False show ?thesis by simp
qed

lemma layout_used:
  assumes "cb_layout b q" "ChunkBuffer2_assert_buffer b"
  shows "cb_used b = queue_blocks q"
proof (cases "cb_used b < cb_wrap b - cb_start b")
  case True
  with assms show ?thesis by (auto simp: cb_layout_def dest: chunks_blocks)
next
  case False
  with assms(1) obtain q1 q2 where "q = q1 @ q2"
    "chunks (cb_buffer b) (cb_mtu b) (cb_size b) (cb_start b) q1 (cb_wrap b)"
    "chunks (cb_buffer b) (cb_mtu b) (cb_size b) 0 q2 (ChunkBuffer2_end b)"
    by (auto simp: cb_layout_def)
  with False show ?thesis by (auto simp: ChunkBuffer2_end_def dest!: chunks_blocks)
qed

lemma chunks_same: "chunks m M S pos q pos \<longleftrightarrow> q = []"
proof (cases q)
  case (Cons p ps)
  then show ?thesis using blocks_for_bounds(1) [of "int (length p)"] by (auto dest: chunks_mono)
qed simp

lemma layout_empty_iff:
  assumes "cb_layout b q" "ChunkBuffer2_assert_buffer b"
  shows "cb_used b > 0 \<longleftrightarrow> q \<noteq> []"
proof
  assume "cb_used b > 0"
  then show "q \<noteq> []" using layout_used [OF assms] by auto
next
  assume "q \<noteq> []"
  show "cb_used b > 0"
  proof (rule ccontr)
    assume "\<not> cb_used b > 0"
    then have "cb_used b = 0" using assms(2) by (simp add: ChunkBuffer2_assert_buffer_def)
    with assms have "q = []"
      by (simp add: cb_layout_def ChunkBuffer2_assert_buffer_def chunks_same)
    with \<open>q \<noteq> []\<close> show False ..
  qed
qed

lemma assert_io_iff:
  assumes "cb_layout b q" "cb_wf b"
  shows "ChunkBuffer2_assert_io b \<longleftrightarrow> input_ok b \<and> output_ok b"
proof -
  have buf: "ChunkBuffer2_assert_buffer b" using assms by (simp add: cb_wf_def)
  have first: "block_len (cb_buffer b) (cb_start b) \<ge> 0 \<and>
      blocks_for (block_len (cb_buffer b) (cb_start b)) \<le> cb_used b - 1 \<and>
      blocks_for (block_len (cb_buffer b) (cb_start b)) \<le> cb_wrap b - cb_start b - 1"
    if "cb_used b > 0"
    by (rule layout_first [OF assms(1) buf that]) auto
  have "ChunkBuffer2_assert_io b \<longleftrightarrow> input_ok b \<and>
      (cb_used b > 0 \<longrightarrow> output_ok b) \<and> (\<not> cb_used b > 0 \<longrightarrow> output_ok b)"
    using first
    by (auto simp: ChunkBuffer2_assert_io_def input_ok_def output_ok_def
        ChunkBuffer2_update_input_def ChunkBuffer2_update_output_def Let_def)
  then show ?thesis by blast
qed


lemma end_update [simp]:
  "ChunkBuffer2_end (ChunkBuffer2_update_input b) = ChunkBuffer2_end b"
  "ChunkBuffer2_end (ChunkBuffer2_update_output b) = ChunkBuffer2_end b"
  by (simp_all add: ChunkBuffer2_end_def)

lemma wf_layout_update [simp]:
  "cb_wf (ChunkBuffer2_update_input b) = cb_wf b"
  "cb_wf (ChunkBuffer2_update_output b) = cb_wf b"
  "cb_layout (ChunkBuffer2_update_input b) q = cb_layout b q"
  "cb_layout (ChunkBuffer2_update_output b) q = cb_layout b q"
  by (simp_all add: cb_wf_def cb_layout_def ChunkBuffer2_assert_buffer_def)

lemma io_update [simp]:
  "input_ok (ChunkBuffer2_update_input b)"
  "output_ok (ChunkBuffer2_update_output b)"
  "output_ok (ChunkBuffer2_update_input b) = output_ok b"
  "input_ok (ChunkBuffer2_update_output b) = input_ok b"
  by (auto simp: input_ok_def output_ok_def ChunkBuffer2_update_input_def
      ChunkBuffer2_update_output_def Let_def ChunkBuffer2_end_def free_blocks_def)

lemma cb_reprI: "cb_wf b \<Longrightarrow> cb_layout b q \<Longrightarrow> input_ok b \<Longrightarrow> output_ok b \<Longrightarrow> cb_repr b q"
  by (simp add: cb_repr_def assert_io_iff)

lemma cb_reprD:
  assumes "cb_repr b q"
  shows "cb_wf b" "cb_layout b q" "input_ok b" "output_ok b" "ChunkBuffer2_assert_buffer b"
    "ChunkBuffer2_assert_io b"
  using assms assert_io_iff [of b q] by (auto simp: cb_repr_def cb_wf_def)

section \<open>Initialisation\<close>

lemma cb_repr_Init:
  assumes "int (length mem) = 4 * blocks" "4 * blocks \<le> INT_MAX"
    and "0 \<le> mtu" "mtu \<le> INT_MAX" "1 + blocks_for mtu \<le> blocks"
  shows "cb_repr (ChunkBuffer2_Init mem blocks mtu) []"
  using assms blocks_for_bounds [of mtu] unfolding ChunkBuffer2_Init_def
  by (intro cb_reprI) (simp_all add: cb_defs)

section \<open>Submitting a packet\<close>

text \<open>Where an input location is offered, it is the first free data byte, and the room offered is
  the free blocks less the length block.\<close>

lemma input_dest_SomeD:
  assumes "cb_repr b q" "cb_input_dest b = Some d"
  shows "d = 4 * (ChunkBuffer2_end b + 1)" "free_blocks b > 0"
    "cb_input_avail b = 4 * free_blocks b - 4"
    "cb_mtu b \<le> cb_size b - ChunkBuffer2_end b - 1" "0 \<le> ChunkBuffer2_end b"
    "ChunkBuffer2_end b + free_blocks b \<le> cb_size b"
proof -
  have io: "input_ok b" and wf: "cb_wf b" using cb_reprD [OF assms(1)] by auto
  then show "d = 4 * (ChunkBuffer2_end b + 1)" "free_blocks b > 0"
    "cb_mtu b \<le> cb_size b - ChunkBuffer2_end b - 1"
    using assms(2)
    by (auto simp: input_ok_def ChunkBuffer2_update_input_def Let_def split: if_splits)
  show bnd: "0 \<le> ChunkBuffer2_end b" "ChunkBuffer2_end b + free_blocks b \<le> cb_size b"
    using wf by (auto simp: cb_defs)
  have "cb_input_avail b = block_bytes (free_blocks b - 1)"
    using io assms(2)
    by (auto simp: input_ok_def ChunkBuffer2_update_input_def Let_def split: if_splits)
  then show "cb_input_avail b = 4 * free_blocks b - 4"
    using \<open>free_blocks b > 0\<close> bnd wf by (simp add: block_bytes_eq cb_wf_def)
qed

definition submit_core :: "ChunkBuffer2 \<Rightarrow> int \<Rightarrow> ChunkBuffer2" where
  "submit_core b len =
     (let end = ChunkBuffer2_end b; blocklen = blocks_for len;
          b1 = b\<lparr>cb_buffer := set_block_len (cb_buffer b) end len,
                 cb_used := cb_used b + (1 + blocklen)\<rparr>
      in if cb_used b1 \<le> cb_wrap b1 - cb_start b1 \<and>
            cb_mtu b1 > cb_size b1 - (end + 1 + blocklen) - 1
         then b1\<lparr>cb_wrap := end + 1 + blocklen\<rparr> else b1)"

lemma SubmitPacket_core:
  "ChunkBuffer2_SubmitPacket b len =
     (let b3 = ChunkBuffer2_update_input (submit_core b len)
      in if cb_used b3 = 1 + blocks_for len then ChunkBuffer2_update_output b3 else b3)"
  by (simp add: ChunkBuffer2_SubmitPacket_def submit_core_def Let_def)

text \<open>The memory effect of writing a packet's bytes and then its length: earlier packets keep
  their place, and the new one is laid out at \<open>e\<close>.\<close>

lemma chunks_write:
  assumes mem: "int (length m) = 4 * S" "4 * S \<le> INT_MAX"
    and e: "0 \<le> e" "M \<le> S - e - 1" "e + 1 + blocks_for (int (length data)) \<le> S"
    and len: "int (length data) \<le> INT_MAX"
  defines "m' \<equiv> set_block_len (mem_write m (nat (4 * (e + 1))) data) e (int (length data))"
  shows "chunks m' M S e [data] (e + 1 + blocks_for (int (length data)))" (is ?new)
    and "chunks m M S pos ps pe \<Longrightarrow>
         pe \<le> e \<or> e + 1 + blocks_for (int (length data)) \<le> pos \<Longrightarrow> chunks m' M S pos ps pe"
    and "length m' = length m"
proof -
  let ?nb = "blocks_for (int (length data))"
  have nb: "0 \<le> ?nb" "int (length data) \<le> 4 * ?nb"
    using blocks_for_bounds [of "int (length data)"] len by auto
  have fit: "nat (4 * (e + 1)) + length data \<le> length m" "nat (4 * e) + 4 \<le> length m"
    using mem e nb by (auto simp: nat_le_iff)
  let ?m1 = "mem_write m (nat (4 * (e + 1))) data"
  have l1: "length ?m1 = length m" using fit by simp
  show l2: "length m' = length m" using fit l1 by (simp add: m'_def set_block_len_def)
  have "block_len m' e = int (length data)"
    unfolding m'_def using e nb mem l1 len by (intro block_len_set) auto
  moreover have "mem_read m' (nat (4 * (e + 1))) (length data) = data"
  proof -
    have "mem_read m' (nat (4 * (e + 1))) (length data)
        = mem_read ?m1 (nat (4 * (e + 1))) (length data)"
      unfolding m'_def set_block_len_def
      using fit l1 e by (intro mem_read_write_disjoint) auto
    then show ?thesis using fit by (simp add: mem_read_write_same)
  qed
  ultimately show ?new using e len by simp
  assume ch: "chunks m M S pos ps pe" and apart: "pe \<le> e \<or> e + 1 + ?nb \<le> pos"
  have "chunks ?m1 M S pos ps pe"
    using ch apart fit mem nb e by (intro chunks_frame) auto
  then show "chunks m' M S pos ps pe"
    unfolding m'_def set_block_len_def
    by (rule chunks_frame) (use apart fit l1 mem nb e in auto)
qed

lemma submit_core:
  assumes repr: "cb_repr b q" and dest: "cb_input_dest b = Some d"
    and len: "int (length data) \<le> cb_input_avail b"
  defines "c \<equiv> submit_core (fill_input b data) (int (length data))"
  shows "cb_wf c" "cb_layout c (q @ [data])"
    and "cb_used c = cb_used b + 1 + blocks_for (int (length data))"
    and "cb_start c = cb_start b" "cb_output_dest c = cb_output_dest b"
    and "cb_output_avail c = cb_output_avail b"
proof -
  note D = input_dest_SomeD [OF repr dest]
  note R = cb_reprD [OF repr]
  let ?e = "ChunkBuffer2_end b" and ?l = "int (length data)"
  let ?nb = "blocks_for ?l" and ?S = "cb_size b" and ?M = "cb_mtu b"
  let ?m = "set_block_len (mem_write (cb_buffer b) (nat (4 * (?e + 1))) data) ?e ?l"
  have W: "int (length (cb_buffer b)) = 4 * ?S" "4 * ?S \<le> INT_MAX"
    using R(1) by (simp_all add: cb_wf_def)
  have "?l \<le> 4 * ?S" using len D by linarith
  then have l: "?l \<le> INT_MAX" using W(2) by (rule order_trans)
  have nb: "0 \<le> ?nb" "?nb \<le> free_blocks b - 1"
    using blocks_for_bounds [of ?l] l len D W by (auto intro!: blocks_for_le)
  have fit: "?e + 1 + ?nb \<le> ?S" using nb D by linarith
  note new = chunks_write [OF W D(5,4) fit l]
  have fill: "fill_input b data = b\<lparr>cb_buffer := mem_write (cb_buffer b) (nat (4 * (?e + 1))) data\<rparr>"
    using dest D(1) by (simp add: fill_input_def)
  have e: "ChunkBuffer2_end (fill_input b data) = ?e" by (simp add: fill ChunkBuffer2_end_def)
  have c: "c = (if cb_used b + (1 + ?nb) \<le> cb_wrap b - cb_start b \<and> ?M > ?S - (?e + 1 + ?nb) - 1
      then b\<lparr>cb_buffer := ?m, cb_used := cb_used b + (1 + ?nb), cb_wrap := ?e + 1 + ?nb\<rparr>
      else b\<lparr>cb_buffer := ?m, cb_used := cb_used b + (1 + ?nb)\<rparr>)"
    unfolding c_def submit_core_def e Let_def by (simp add: fill)
  show "cb_used c = cb_used b + 1 + ?nb" "cb_start c = cb_start b"
    "cb_output_dest c = cb_output_dest b" "cb_output_avail c = cb_output_avail b"
    by (simp_all add: c)
  have "cb_wf c \<and> cb_layout c (q @ [data])"
  proof (cases "cb_used b < cb_wrap b - cb_start b")
    case True
    with R have ws: "cb_wrap b = ?S" and ee: "?e = cb_start b + cb_used b"
      by (auto simp: cb_defs)
    have old: "chunks ?m ?M ?S (cb_start b) q ?e"
      using R(2) True ee by (intro new(2)) (auto simp: cb_layout_def)
    then have all: "chunks ?m ?M ?S (cb_start b) (q @ [data]) (?e + 1 + ?nb)"
      using new(1) by (auto simp: chunks_append)
    show ?thesis
    proof (cases "?M > ?S - (?e + 1 + ?nb) - 1")
      case wrap: True
      have "\<exists>q1 q2. q @ [data] = q1 @ q2 \<and> chunks ?m ?M ?S (cb_start b) q1 (?e + 1 + ?nb) \<and>
          chunks ?m ?M ?S 0 q2 0"
        using all by (intro exI [of _ "q @ [data]"] exI [of _ "[]"]) simp
      then show ?thesis
        using R True wrap ws ee nb fit new(3) by (auto simp: c cb_defs)
    next
      case False
      then show ?thesis
        using R True ws ee nb fit new(3) all by (auto simp: c cb_defs algebra_simps)
    qed
  next
    case False
    with R D have fr: "free_blocks b = cb_start b - ?e"
      and ee: "?e = cb_used b - (cb_wrap b - cb_start b)"
      by (auto simp: cb_defs)
    from R(2) False obtain q1 q2 where q: "q = q1 @ q2"
      and c1: "chunks (cb_buffer b) ?M ?S (cb_start b) q1 (cb_wrap b)"
      and c2: "chunks (cb_buffer b) ?M ?S 0 q2 ?e"
      by (auto simp: cb_layout_def)
    have "chunks ?m ?M ?S (cb_start b) q1 (cb_wrap b)"
      using c1 nb fr by (intro new(2)) auto
    moreover have "chunks ?m ?M ?S 0 (q2 @ [data]) (?e + 1 + ?nb)"
      using new(1) new(2) [OF c2] by (auto simp: chunks_append)
    moreover have "q @ [data] = q1 @ (q2 @ [data])" using q by simp
    ultimately have "\<exists>p1 p2. q @ [data] = p1 @ p2 \<and> chunks ?m ?M ?S (cb_start b) p1 (cb_wrap b) \<and>
        chunks ?m ?M ?S 0 p2 (?e + 1 + ?nb)"
      by blast
    moreover have "\<not> cb_used b + (1 + ?nb) \<le> cb_wrap b - cb_start b" using False nb by linarith
    ultimately show ?thesis
      using R False nb fr ee new(3) by (auto simp: c cb_defs algebra_simps)
  qed
  then show "cb_wf c" "cb_layout c (q @ [data])" by auto
qed


lemma cb_repr_SubmitPacket:
  assumes repr: "cb_repr b q" and dest: "cb_input_dest b = Some d"
    and len: "int (length data) \<le> cb_input_avail b"
  shows "cb_repr (ChunkBuffer2_SubmitPacket (fill_input b data) (int (length data))) (q @ [data])"
proof -
  let ?c = "submit_core (fill_input b data) (int (length data))"
  note C = submit_core [OF repr dest len]
  have "output_ok ?c" if "cb_used ?c \<noteq> 1 + blocks_for (int (length data))"
  proof -
    have u: "cb_used b > 0" "cb_used ?c > 0"
      using that C(1,3) cb_reprD(5) [OF repr] blocks_for_bounds(1) [of "int (length data)"]
        layout_empty_iff [OF C(2)]
      by (auto simp: ChunkBuffer2_assert_buffer_def cb_wf_def)
    obtain p q' where "q = p # q'" "block_len (cb_buffer b) (cb_start b) = int (length p)"
      by (rule layout_first [OF cb_reprD(2,5) [OF repr] u(1)])
    moreover obtain p' q'' where "q @ [data] = p' # q''"
      "block_len (cb_buffer ?c) (cb_start ?c) = int (length p')"
      using C(1) by (auto simp: cb_wf_def intro: layout_first [OF C(2) _ u(2)])
    ultimately show ?thesis
      using cb_reprD(4) [OF repr] u C(4-6)
      by (simp add: output_ok_def ChunkBuffer2_update_output_def)
  qed
  then show ?thesis
    unfolding SubmitPacket_core Let_def using C(1,2) by (auto intro!: cb_reprI)
qed

section \<open>Consuming a packet\<close>

lemma chunks_head_room: "chunks m M S pos q e \<Longrightarrow> q \<noteq> [] \<Longrightarrow> M \<le> S - pos - 1"
  by (cases q) auto

lemma cb_repr_ConsumePacket:
  assumes repr: "cb_repr b (p # q)"
  shows "cb_repr (ChunkBuffer2_ConsumePacket b) q"
proof -
  note R = cb_reprD [OF repr]
  let ?nb = "blocks_for (int (length p))" and ?S = "cb_size b" and ?M = "cb_mtu b"
  let ?s = "cb_start b + (1 + ?nb)" and ?u = "cb_used b - (1 + ?nb)"
  have u: "cb_used b > 0" using layout_empty_iff [OF R(2,5)] by simp
  have F: "block_len (cb_buffer b) (cb_start b) = int (length p)" "int (length p) \<le> INT_MAX"
    "1 + ?nb \<le> cb_used b" "?s \<le> cb_wrap b"
    using layout_first [OF R(2,5) u] by fastforce+
  have nb: "0 \<le> ?nb" using F(2) blocks_for_bounds(1) by simp
  let ?b2 = "if ?s = cb_wrap b
     then b\<lparr>cb_used := ?u, cb_start := 0, cb_wrap := ?S\<rparr>
     else b\<lparr>cb_start := ?s, cb_used := ?u\<rparr>"
  have C: "ChunkBuffer2_ConsumePacket b = ChunkBuffer2_update_output
     (if cb_used b \<ge> cb_wrap b - cb_start b then ChunkBuffer2_update_input ?b2 else ?b2)"
    by (simp add: ChunkBuffer2_ConsumePacket_def Let_def F(1))
  have "cb_wf ?b2 \<and> cb_layout ?b2 q \<and>
    (cb_used b < cb_wrap b - cb_start b \<longrightarrow> input_ok ?b2)"
  proof (cases "cb_used b < cb_wrap b - cb_start b")
    case True
    with R have ch: "chunks (cb_buffer b) ?M ?S ?s q (cb_start b + cb_used b)"
      and last: "?M \<le> ?S - (cb_start b + cb_used b) - 1"
      by (auto simp: cb_layout_def algebra_simps)
    have room: "?M \<le> ?S - ?s - 1"
      using ch last chunks_head_room [OF ch] by (cases q) auto
    have "input_ok ?b2"
      using R(3) True F(3) nb
      by (auto simp: input_ok_def ChunkBuffer2_update_input_def ChunkBuffer2_end_def
          free_blocks_def Let_def)
    then show ?thesis using R(5) R(1) True ch last room F(3) nb by (auto simp: cb_defs)
  next
    case False
    from R(2) False obtain q1 q2 where q: "p # q = q1 @ q2"
      and c1: "chunks (cb_buffer b) ?M ?S (cb_start b) q1 (cb_wrap b)"
      and c2: "chunks (cb_buffer b) ?M ?S 0 q2 (ChunkBuffer2_end b)"
      and el: "ChunkBuffer2_end b \<le> cb_start b"
      by (auto simp: cb_layout_def)
    from c1 R(5) have "q1 \<noteq> []" by (auto simp: ChunkBuffer2_assert_buffer_def)
    with q obtain q1' where q1: "q1 = p # q1'" "q = q1' @ q2" by (cases q1) auto
    from c1 q1(1) have c1': "chunks (cb_buffer b) ?M ?S ?s q1' (cb_wrap b)"
      by (simp add: algebra_simps)
    have ee: "ChunkBuffer2_end b = cb_used b - (cb_wrap b - cb_start b)"
      using False by (simp add: ChunkBuffer2_end_def)
    show ?thesis
    proof (cases "?s = cb_wrap b")
      case True
      with c1' have "q1' = []" by (simp add: chunks_same)
      moreover have eu: "ChunkBuffer2_end b = ?u" using ee True by linarith
      ultimately show ?thesis
        using R(1,5) True False c2 [unfolded eu] el [unfolded eu] q1(2) by (auto simp: cb_defs)
    next
      case ne: False
      then have "q1' \<noteq> []" using c1' by auto
      then have "?M \<le> ?S - ?s - 1" using chunks_head_room [OF c1'] by simp
      moreover have "\<exists>p1 p2. q = p1 @ p2 \<and> chunks (cb_buffer b) ?M ?S ?s p1 (cb_wrap b) \<and>
          chunks (cb_buffer b) ?M ?S 0 p2 (ChunkBuffer2_end b)"
        using c1' c2 q1(2) by blast
      ultimately show ?thesis
        using R(1,5) ne False el ee F(3,4) nb by (auto simp: cb_defs algebra_simps)
    qed
  qed
  then show ?thesis unfolding C by (auto intro!: cb_reprI)
qed

lemma cb_repr_output:
  assumes "cb_repr b q"
  shows "output_packet b = (case q of [] \<Rightarrow> None | p # _ \<Rightarrow> Some p)"
    and "cb_output_avail b = (case q of [] \<Rightarrow> -1 | p # _ \<Rightarrow> int (length p))"
proof -
  note R = cb_reprD [OF assms]
  have "output_packet b = (case q of [] \<Rightarrow> None | p # _ \<Rightarrow> Some p) \<and>
    cb_output_avail b = (case q of [] \<Rightarrow> -1 | p # _ \<Rightarrow> int (length p))"
  proof (cases "cb_used b > 0")
    case True
    then show ?thesis
      using R(4) by (rule_tac layout_first [OF R(2,5) True])
        (auto simp: output_packet_def output_ok_def ChunkBuffer2_update_output_def)
  next
    case False
    then show ?thesis
      using R(4) layout_empty_iff [OF R(2,5)]
      by (auto simp: output_packet_def output_ok_def ChunkBuffer2_update_output_def)
  qed
  then show "output_packet b = (case q of [] \<Rightarrow> None | p # _ \<Rightarrow> Some p)"
    "cb_output_avail b = (case q of [] \<Rightarrow> -1 | p # _ \<Rightarrow> int (length p))" by auto
qed

section \<open>Capacity\<close>

lemma cb_repr_capacity:
  assumes repr: "cb_repr b q" and mtu: "cb_mtu b = blocks_for mtu" "0 \<le> mtu" "mtu \<le> INT_MAX"
    and size: "cb_size b = (1 + blocks_for mtu) * (num + 1)"
    and q: "int (length q) < num" "\<forall>p \<in> set q. int (length p) \<le> mtu"
  shows "mtu \<le> cb_input_avail b" "cb_input_dest b \<noteq> None"
proof -
  note R = cb_reprD [OF repr]
  let ?C = "1 + blocks_for mtu"
  have C: "?C \<ge> 1" "mtu \<le> 4 * blocks_for mtu" using blocks_for_bounds [OF mtu(2,3)] by auto
  have used: "cb_used b \<le> ?C * int (length q)"
  proof -
    have "queue_blocks q \<le> ?C * int (length q)" using q(2)
    proof (induction q)
      case (Cons p q)
      then have "blocks_for (int (length p)) \<le> blocks_for mtu"
        using mtu by (intro blocks_for_mono) auto
      then show ?case using Cons by (simp add: algebra_simps)
    qed simp
    then show ?thesis using layout_used [OF R(2,5)] by simp
  qed
  have "?C * int (length q) \<le> ?C * (num - 1)" using C q(1) by (intro mult_left_mono) auto
  then have used': "cb_used b \<le> cb_size b - 2 * ?C"
    using used by (simp add: size algebra_simps)
  have fit: "cb_mtu b \<le> cb_size b - ChunkBuffer2_end b - 1 \<and> ?C \<le> free_blocks b"
  proof (cases "cb_used b < cb_wrap b - cb_start b")
    case True
    then show ?thesis using R(2,5) mtu(1) by (auto simp: cb_defs)
  next
    case False
    then have "ChunkBuffer2_end b \<le> cb_start b" using R(2) by (auto simp: cb_layout_def)
    then show ?thesis using R(1) False used' mtu(1) C(1) by (auto simp: cb_defs)
  qed
  have "ChunkBuffer2_end b + free_blocks b \<le> cb_size b" "0 \<le> ChunkBuffer2_end b"
    using R(1) by (auto simp: cb_defs)
  then have "block_bytes (free_blocks b - 1) = 4 * (free_blocks b - 1)"
    using R(1) fit C(1) by (intro block_bytes_eq) (auto simp: cb_wf_def)
  then show "mtu \<le> cb_input_avail b" "cb_input_dest b \<noteq> None"
    using R(3) fit C by (auto simp: input_ok_def ChunkBuffer2_update_input_def Let_def)
qed

section \<open>A bounded packet queue\<close>

text \<open>
  The contract of the buffer as its users see it: packets of at most \<open>mtu\<close> bytes go in while
  fewer than \<open>num\<close> are queued, and come out in order.  A submit step first lets the producer write
  the packet at the location the buffer offers; it fails where the buffer offers too little room.
\<close>

datatype fifo_op = Fifo_Submit "byte list" | Fifo_Consume

fun fifo_step :: "int \<Rightarrow> int \<Rightarrow> fifo_op \<Rightarrow> byte list list \<Rightarrow> (byte list list \<times> byte list list) option" where
  "fifo_step mtu num (Fifo_Submit p) q =
     (if int (length p) \<le> mtu \<and> int (length q) < num then Some (q @ [p], []) else None)"
| "fifo_step mtu num Fifo_Consume q = (case q of [] \<Rightarrow> None | p # q' \<Rightarrow> Some (q', [p]))"

fun cb_step :: "fifo_op \<Rightarrow> ChunkBuffer2 \<Rightarrow> (ChunkBuffer2 \<times> byte list list) option" where
  "cb_step (Fifo_Submit p) b =
     (if cb_input_dest b = None \<or> cb_input_avail b < int (length p) then None
      else Some (ChunkBuffer2_SubmitPacket (fill_input b p) (int (length p)), []))"
| "cb_step Fifo_Consume b =
     (case output_packet b of None \<Rightarrow> None | Some p \<Rightarrow> Some (ChunkBuffer2_ConsumePacket b, [p]))"

definition cb_fifo :: "int \<Rightarrow> int \<Rightarrow> ChunkBuffer2 \<Rightarrow> byte list list \<Rightarrow> bool" where
  "cb_fifo mtu num b q \<longleftrightarrow> cb_repr b q \<and> 0 \<le> mtu \<and> mtu \<le> INT_MAX \<and> cb_mtu b = blocks_for mtu \<and>
     cb_size b = (1 + blocks_for mtu) * (num + 1) \<and> (\<forall>p \<in> set q. int (length p) \<le> mtu)"

lemma update_static [simp]:
  "cb_mtu (ChunkBuffer2_update_input b) = cb_mtu b" "cb_mtu (ChunkBuffer2_update_output b) = cb_mtu b"
  by (simp_all add: ChunkBuffer2_update_input_def ChunkBuffer2_update_output_def Let_def)

lemma op_static [simp]:
  "cb_mtu (ChunkBuffer2_SubmitPacket b n) = cb_mtu b" "cb_size (ChunkBuffer2_SubmitPacket b n) = cb_size b"
  "cb_mtu (ChunkBuffer2_ConsumePacket b) = cb_mtu b" "cb_size (ChunkBuffer2_ConsumePacket b) = cb_size b"
  "cb_mtu (fill_input b p) = cb_mtu b" "cb_size (fill_input b p) = cb_size b"
  by (simp_all add: ChunkBuffer2_SubmitPacket_def ChunkBuffer2_ConsumePacket_def fill_input_def Let_def
      split: option.splits)

interpretation cb: simulation "cb_fifo mtu num" cb_step "fifo_step mtu num" for mtu num :: int
proof unfold_locales
  fix b q x q' out
  assume sim: "cb_fifo mtu num b q" and st: "fifo_step mtu num x q = Some (q', out)"
  show "\<exists>b'. cb_step x b = Some (b', out) \<and> cb_fifo mtu num b' q'"
  proof (cases x)
    case (Fifo_Submit p)
    with st have p: "int (length p) \<le> mtu" "int (length q) < num" "q' = q @ [p]" "out = []"
      by (auto split: if_splits)
    have cap: "mtu \<le> cb_input_avail b" "cb_input_dest b \<noteq> None"
      using sim p(2) cb_repr_capacity [of b q mtu num] by (auto simp: cb_fifo_def)
    then obtain d where d: "cb_input_dest b = Some d" by auto
    have len: "int (length p) \<le> cb_input_avail b" using cap(1) p(1) by simp
    show ?thesis
      using sim cb_repr_SubmitPacket [OF _ d len, of q] d len p Fifo_Submit
      by (auto simp: cb_fifo_def)
  next
    case Fifo_Consume
    with st obtain p where "q = p # q'" "out = [p]" by (auto split: list.splits)
    with Fifo_Consume sim cb_repr_output(1) [of b q] cb_repr_ConsumePacket [of b p q'] show ?thesis
      by (auto simp: cb_fifo_def)
  qed
qed

lemma calc_blocks_Init:
  assumes "ChunkBuffer2_calc_blocks mtu num = blocks" "blocks \<noteq> -1" "0 \<le> mtu" "mtu \<le> INT_MAX" "0 \<le> num"
    and "4 * blocks \<le> INT_MAX" "int (length mem) = 4 * blocks"
  shows "cb_fifo mtu num (ChunkBuffer2_Init mem blocks mtu) []"
proof -
  let ?C = "1 + blocks_for mtu"
  have blocks: "blocks = ?C * (num + 1)"
    using assms(1,2) by (auto simp: ChunkBuffer2_calc_blocks_def Let_def split: if_splits)
  have "0 \<le> ?C" using blocks_for_bounds(1) [OF assms(3,4)] by simp
  then have "?C \<le> ?C * (num + 1)" using assms(5) mult_left_mono [of 1 "num + 1" ?C] by simp
  with assms blocks cb_repr_Init [of mem blocks mtu] show ?thesis
    by (simp add: cb_fifo_def ChunkBuffer2_Init_def)
qed

section \<open>Properties\<close>

text \<open>C1: for a buffer of the size \<^verbatim>\<open>ChunkBuffer2_calc_blocks\<close> computes for \<open>num\<close> packets of \<open>mtu\<close> bytes,
  every sequence of submits and consumes that a bounded queue of \<open>num\<close> packets accepts is accepted
  by the buffer: it offers room for each submitted packet, the packets come out in order and
  byte for byte, and its assertions hold at the end.\<close>

theorem ChunkBuffer2_refines_fifo:
  assumes "ChunkBuffer2_calc_blocks mtu num = blocks" "blocks \<noteq> -1" "0 \<le> mtu" "mtu \<le> INT_MAX" "0 \<le> num"
    and "4 * blocks \<le> INT_MAX" "int (length mem) = 4 * blocks"
    and "run_ops (fifo_step mtu num) ops [] = Some (q, outs)"
  shows "\<exists>b. run_ops cb_step ops (ChunkBuffer2_Init mem blocks mtu) = Some (b, outs) \<and> cb_repr b q \<and>
    ChunkBuffer2_assert_buffer b \<and> ChunkBuffer2_assert_io b"
proof -
  from cb.run_sim [OF calc_blocks_Init [OF assms(1-7)] assms(8)]
  obtain b where "run_ops cb_step ops (ChunkBuffer2_Init mem blocks mtu) = Some (b, outs)" "cb_repr b q"
    by (auto simp: cb_fifo_def)
  moreover from this(2) have "ChunkBuffer2_assert_buffer b" "ChunkBuffer2_assert_io b"
    by (simp_all add: cb_repr_def cb_wf_def)
  ultimately show ?thesis by blast
qed

theorem ChunkBuffer2_refines_fifo_witness:
  "\<exists>b. run_ops cb_step [Fifo_Submit [1, 2, 3, 4, 5], Fifo_Submit [6], Fifo_Consume, Fifo_Submit [7, 8]]
      (ChunkBuffer2_Init (replicate 36 0) 9 5) = Some (b, [[1, 2, 3, 4, 5]]) \<and> cb_repr b [[6], [7, 8]] \<and>
    ChunkBuffer2_assert_buffer b \<and> ChunkBuffer2_assert_io b"
  by (rule ChunkBuffer2_refines_fifo [where num = 2 and mtu = 5]) (code_simp | simp)+

end
