(* ===== verification/Flow_Buffers.thy ===== *)
theory Flow_Buffers
  imports ChunkBuffer2
begin

text \<open>
  The modules of \<^verbatim>\<open>badvpn/flow/\<close> that hold packets between two interfaces: \<^verbatim>\<open>PacketBuffer.c\<close> (a queue on top of
  \<^verbatim>\<open>ChunkBuffer2\<close>), \<^verbatim>\<open>SinglePacketBuffer.c\<close>, \<^verbatim>\<open>BufferWriter.c\<close> and \<^verbatim>\<open>PacketStreamSender.c\<close>.  Each module is its
  handlers on a record of its fields; an operation it has started on a neighbour and that has not
  completed yet is part of the state, with the address it was given.
\<close>

section \<open>PacketBuffer\<close>

text \<open>\<open>pb_recv\<close> is the address of the receive in progress, \<open>pb_send\<close> the address and length of the send in progress.\<close>

record PacketBuffer =
  pb_buf :: ChunkBuffer2
  pb_input_mtu :: int
  pb_recv :: "int option"
  pb_send :: "(int \<times> int) option"

definition pb_start_recv :: "PacketBuffer \<Rightarrow> PacketBuffer" where
  "pb_start_recv buf = buf\<lparr>pb_recv := cb_input_dest (pb_buf buf)\<rparr>"

definition pb_start_send :: "PacketBuffer \<Rightarrow> PacketBuffer" where
  "pb_start_send buf =
     buf\<lparr>pb_send := map_option (\<lambda>d. (d, cb_output_avail (pb_buf buf))) (cb_output_dest (pb_buf buf))\<rparr>"

definition pb_input_handler_done :: "PacketBuffer \<Rightarrow> int \<Rightarrow> PacketBuffer" where
  "pb_input_handler_done buf in_len =
     (let was_empty = (cb_output_avail (pb_buf buf) < 0);
          buf1 = buf\<lparr>pb_buf := ChunkBuffer2_SubmitPacket (pb_buf buf) in_len\<rparr>;
          buf2 = (if cb_input_avail (pb_buf buf1) \<ge> pb_input_mtu buf1 then pb_start_recv buf1 else buf1)
      in if was_empty then pb_start_send buf2 else buf2)"

definition pb_output_handler_done :: "PacketBuffer \<Rightarrow> PacketBuffer" where
  "pb_output_handler_done buf =
     (let was_full = (cb_input_avail (pb_buf buf) < pb_input_mtu buf);
          buf1 = buf\<lparr>pb_buf := ChunkBuffer2_ConsumePacket (pb_buf buf)\<rparr>;
          buf2 = (if was_full \<and> cb_input_avail (pb_buf buf1) \<ge> pb_input_mtu buf1 then pb_start_recv buf1 else buf1)
      in if cb_output_avail (pb_buf buf2) \<ge> 0 then pb_start_send buf2 else buf2)"

text \<open>\<open>alloc\<close> is \<^verbatim>\<open>BAllocArray\<close> for blocks of four bytes: \<open>None\<close> for \<open>NULL\<close>.\<close>

definition PacketBuffer_Init :: "int \<Rightarrow> int \<Rightarrow> (int \<Rightarrow> byte list option) \<Rightarrow> PacketBuffer option" where
  "PacketBuffer_Init input_mtu num_packets alloc =
     (let num_blocks = ChunkBuffer2_calc_blocks input_mtu num_packets in
      if num_blocks < 0 then None
      else map_option (\<lambda>mem. pb_start_recv \<lparr>pb_buf = ChunkBuffer2_Init mem num_blocks input_mtu,
             pb_input_mtu = input_mtu, pb_recv = None, pb_send = None\<rparr>) (alloc num_blocks))"

text \<open>
  A step completes one of the operations in progress: the input has written a packet where it
  was asked to, or the output has finished reading the packet it was given.
\<close>

datatype pb_op = Pb_Input "byte list" | Pb_Output_Done

fun pb_step :: "pb_op \<Rightarrow> PacketBuffer \<Rightarrow> (PacketBuffer \<times> byte list list) option" where
  "pb_step (Pb_Input p) buf =
     (case pb_recv buf of
        None \<Rightarrow> None
      | Some d \<Rightarrow> if int (length p) > pb_input_mtu buf then None
          else Some (pb_input_handler_done
            (buf\<lparr>pb_recv := None,
                 pb_buf := (pb_buf buf)\<lparr>cb_buffer := mem_write (cb_buffer (pb_buf buf)) (nat d) p\<rparr>\<rparr>)
            (int (length p)), []))"
| "pb_step Pb_Output_Done buf =
     (case pb_send buf of
        None \<Rightarrow> None
      | Some (d, n) \<Rightarrow> Some (pb_output_handler_done (buf\<lparr>pb_send := None\<rparr>),
            [mem_read (cb_buffer (pb_buf buf)) (nat d) (nat n)]))"

text \<open>Consuming a packet does not move the place where the next packet is written.\<close>

lemma Consume_input_place:
  assumes "cb_repr b (p # q)"
  shows "ChunkBuffer2_end (ChunkBuffer2_ConsumePacket b) = ChunkBuffer2_end b \<and>
    free_blocks b \<le> free_blocks (ChunkBuffer2_ConsumePacket b)"
proof -
  note R = cb_reprD [OF assms]
  let ?nb = "blocks_for (int (length p))"
  have u: "cb_used b > 0" using layout_empty_iff [OF R(2,5)] by simp
  have F: "block_len (cb_buffer b) (cb_start b) = int (length p)" "int (length p) \<le> INT_MAX"
    "1 + ?nb \<le> cb_used b" "cb_start b + 1 + ?nb \<le> cb_wrap b"
    using layout_first [OF R(2,5) u] by fastforce+
  have nb: "0 \<le> ?nb" using F(2) blocks_for_bounds(1) by simp
  have start: "cb_used b \<ge> cb_wrap b - cb_start b \<Longrightarrow> ChunkBuffer2_end b \<le> cb_start b"
    using R(2) by (auto simp: cb_layout_def)
  show ?thesis
    using F nb start R(5)
    by (auto simp: ChunkBuffer2_ConsumePacket_def Let_def ChunkBuffer2_end_def free_blocks_def
        ChunkBuffer2_assert_buffer_def)
qed

lemma Consume_keeps_input:
  assumes repr: "cb_repr b (p # q)" and d: "cb_input_dest b = Some d"
  shows "cb_input_dest (ChunkBuffer2_ConsumePacket b) = Some d \<and>
    cb_input_avail b \<le> cb_input_avail (ChunkBuffer2_ConsumePacket b)"
proof -
  let ?b = "ChunkBuffer2_ConsumePacket b"
  note place = Consume_input_place [OF repr] and D = input_dest_SomeD [OF repr d]
  have r: "cb_repr ?b q" using repr by (rule cb_repr_ConsumePacket)
  note R = cb_reprD [OF r]
  have "free_blocks ?b > 0" "cb_mtu ?b \<le> cb_size ?b - ChunkBuffer2_end ?b - 1"
    using place D by auto
  then have dest: "cb_input_dest ?b = Some (4 * (ChunkBuffer2_end ?b + 1))"
    using R(3) by (auto simp: input_ok_def ChunkBuffer2_update_input_def Let_def)
  with D input_dest_SomeD(3) [OF r dest] place show ?thesis by auto
qed

lemma cb_repr_output_dest:
  assumes "cb_repr b q"
  shows "cb_output_dest b = (if q = [] then None else Some (4 * (cb_start b + 1)))"
  using cb_reprD [OF assms] layout_empty_iff [of b q]
  by (auto simp: output_ok_def ChunkBuffer2_update_output_def)

lemma Submit_start [simp]: "cb_start (ChunkBuffer2_SubmitPacket b n) = cb_start b"
  by (simp add: ChunkBuffer2_SubmitPacket_def Let_def)

lemma fill_start [simp]: "cb_start (fill_input b p) = cb_start b"
  by (simp add: fill_input_def split: option.splits)

lemma avail_dest:
  assumes "cb_repr b q" "0 \<le> cb_input_avail b"
  obtains d where "cb_input_dest b = Some d"
  using cb_reprD(3) [OF assms(1)] assms(2)
  by (auto simp: input_ok_def ChunkBuffer2_update_input_def Let_def split: if_splits)

text \<open>The buffer as a queue: the operations in progress are exactly those the queue calls for.\<close>

definition pb_rel :: "int \<Rightarrow> int \<Rightarrow> byte list list \<Rightarrow> PacketBuffer \<Rightarrow> bool" where
  "pb_rel mtu num q buf \<longleftrightarrow> cb_fifo mtu num (pb_buf buf) q \<and> pb_input_mtu buf = mtu \<and>
     pb_recv buf = (if cb_input_avail (pb_buf buf) \<ge> mtu then cb_input_dest (pb_buf buf) else None) \<and>
     pb_send buf = (if q = [] then None else Some (4 * (cb_start (pb_buf buf) + 1), int (length (hd q))))"

fun queue_step :: "int \<Rightarrow> pb_op \<Rightarrow> byte list list \<Rightarrow> (byte list list \<times> byte list list) option" where
  "queue_step mtu (Pb_Input p) q = (if int (length p) \<le> mtu then Some (q @ [p], []) else None)"
| "queue_step mtu Pb_Output_Done q = (case q of [] \<Rightarrow> None | p # q' \<Rightarrow> Some (q', [p]))"

lemma pb_input_rel:
  assumes rel: "pb_rel mtu num q buf" and d: "pb_recv buf = Some d" and p: "int (length p) \<le> mtu"
  shows "pb_rel mtu num (q @ [p]) (pb_input_handler_done
    (buf\<lparr>pb_recv := None, pb_buf := (pb_buf buf)\<lparr>cb_buffer := mem_write (cb_buffer (pb_buf buf)) (nat d) p\<rparr>\<rparr>)
    (int (length p)))"
proof -
  let ?b = "pb_buf buf" and ?b' = "ChunkBuffer2_SubmitPacket (fill_input (pb_buf buf) p) (int (length p))"
  have b: "cb_fifo mtu num ?b q" "cb_repr ?b q" "pb_input_mtu buf = mtu" using rel by (auto simp: pb_rel_def cb_fifo_def)
  have dest: "cb_input_dest ?b = Some d" "mtu \<le> cb_input_avail ?b"
    using rel d by (auto simp: pb_rel_def split: if_splits)
  then have fill: "(pb_buf buf)\<lparr>cb_buffer := mem_write (cb_buffer (pb_buf buf)) (nat d) p\<rparr> = fill_input ?b p"
    by (simp add: fill_input_def)
  have repr: "cb_repr ?b' (q @ [p])"
    using dest p by (intro cb_repr_SubmitPacket [OF b(2)]) auto
  have out: "cb_output_avail (fill_input ?b p) < 0 \<longleftrightarrow> q = []"
    using cb_repr_output(2) [OF b(2)] by (auto simp: fill_input_def dest split: list.splits)
  have out': "cb_output_dest ?b' = Some (4 * (cb_start ?b + 1))" "cb_output_avail ?b' = int (length (hd (q @ [p])))"
    using cb_repr_output_dest [OF repr] cb_repr_output(2) [OF repr] by (auto split: list.splits)
  have fifo: "cb_fifo mtu num ?b' (q @ [p])" using b p repr by (auto simp: cb_fifo_def)
  have send: "pb_send buf = (if q = [] then None else Some (4 * (cb_start ?b + 1), int (length (hd q))))"
    using rel by (simp add: pb_rel_def)
  show ?thesis
    unfolding fill using b(3) fifo send out out'
    by (cases "q = []") (simp_all add: pb_rel_def pb_input_handler_done_def pb_start_recv_def
        pb_start_send_def Let_def)
qed

lemma pb_output_rel:
  assumes rel: "pb_rel mtu num (p # q) buf"
  shows "pb_rel mtu num q (pb_output_handler_done (buf\<lparr>pb_send := None\<rparr>))"
proof -
  let ?b = "pb_buf buf" and ?b' = "ChunkBuffer2_ConsumePacket (pb_buf buf)"
  have b: "cb_repr ?b (p # q)" "pb_input_mtu buf = mtu" "0 \<le> mtu" using rel by (auto simp: pb_rel_def cb_fifo_def)
  have repr: "cb_repr ?b' q" using b(1) by (rule cb_repr_ConsumePacket)
  have out: "cb_output_dest ?b' = (if q = [] then None else Some (4 * (cb_start ?b' + 1)))"
    "cb_output_avail ?b' = (case q of [] \<Rightarrow> -1 | p # _ \<Rightarrow> int (length p))"
    using cb_repr_output_dest [OF repr] cb_repr_output(2) [OF repr] by auto
  have keep: "cb_input_dest ?b' = cb_input_dest ?b \<and> mtu \<le> cb_input_avail ?b'" if room: "mtu \<le> cb_input_avail ?b"
  proof -
    obtain d where d: "cb_input_dest ?b = Some d" by (rule avail_dest [OF b(1)]) (use room b(3) in auto)
    from Consume_keeps_input [OF b(1) d] d room show ?thesis by auto
  qed
  have fifo: "cb_fifo mtu num ?b' q" using rel repr by (auto simp: pb_rel_def cb_fifo_def)
  have recv: "pb_recv buf = (if cb_input_avail ?b \<ge> mtu then cb_input_dest ?b else None)"
    using rel by (simp add: pb_rel_def)
  show ?thesis
  proof (cases "mtu \<le> cb_input_avail ?b")
    case True
    then show ?thesis
      using b(2) fifo recv out keep
      by (cases q) (simp_all add: pb_rel_def pb_output_handler_done_def pb_start_send_def Let_def)
  next
    case False
    then show ?thesis
      using b(2) fifo recv out
      by (cases q) (simp_all add: pb_rel_def pb_output_handler_done_def pb_start_recv_def pb_start_send_def Let_def)
  qed
qed

interpretation pb: simulation "pb_rel mtu num" "queue_step mtu" pb_step for mtu num :: int
proof unfold_locales
  fix q buf buf' x out
  assume rel: "pb_rel mtu num q buf" and st: "pb_step x buf = Some (buf', out)"
  show "\<exists>q'. queue_step mtu x q = Some (q', out) \<and> pb_rel mtu num q' buf'"
  proof (cases x)
    case (Pb_Input p)
    with st rel pb_input_rel [OF rel, of _ p] show ?thesis
      by (auto simp: pb_rel_def split: option.splits if_splits)
  next
    case Pb_Output_Done
    with st rel obtain p q' where q: "q = p # q'" by (cases q) (auto simp: pb_rel_def split: option.splits)
    have "output_packet (pb_buf buf) = Some p" "cb_repr (pb_buf buf) q"
      using rel q cb_repr_output(1) by (auto simp: pb_rel_def cb_fifo_def)
    with cb_repr_output_dest cb_repr_output(2) q
    have "mem_read (cb_buffer (pb_buf buf)) (nat (4 * (cb_start (pb_buf buf) + 1))) (length p) = p"
      by (fastforce simp: output_packet_def split: option.splits)
    with st Pb_Output_Done q rel pb_output_rel [of mtu num p q' buf] show ?thesis
      by (auto simp: pb_rel_def)
  qed
qed

lemma queue_run:
  "run_ops (queue_step mtu) ops q = Some (q', outs) \<Longrightarrow>
    q @ concat (map (\<lambda>x. case x of Pb_Input p \<Rightarrow> [p] | Pb_Output_Done \<Rightarrow> []) ops) = outs @ q'"
proof (induction ops arbitrary: q outs)
  case (Cons x ops)
  then obtain q1 o1 o2 where st: "queue_step mtu x q = Some (q1, o1)"
    "run_ops (queue_step mtu) ops q1 = Some (q', o2)" "outs = o1 @ o2"
    by (auto split: option.splits prod.splits)
  with Cons.IH [OF st(2)] show ?case by (cases x) (auto split: list.splits if_splits)
qed simp

lemma PacketBuffer_Init_rel:
  assumes "PacketBuffer_Init mtu num alloc = Some buf" "0 \<le> mtu" "mtu \<le> INT_MAX" "0 < num"
    and "4 * ChunkBuffer2_calc_blocks mtu num \<le> INT_MAX"
    and "\<And>n m. 0 \<le> n \<Longrightarrow> alloc n = Some m \<Longrightarrow> int (length m) = 4 * n"
  shows "pb_rel mtu num [] buf"
proof -
  let ?n = "ChunkBuffer2_calc_blocks mtu num"
  from assms(1) obtain mem where mem: "?n \<ge> 0" "alloc ?n = Some mem"
    and buf: "buf = pb_start_recv \<lparr>pb_buf = ChunkBuffer2_Init mem ?n mtu, pb_input_mtu = mtu,
      pb_recv = None, pb_send = None\<rparr>"
    by (auto simp: PacketBuffer_Init_def Let_def split: if_splits)
  have fifo: "cb_fifo mtu num (ChunkBuffer2_Init mem ?n mtu) []"
    using assms mem by (intro calc_blocks_Init) auto
  then have "mtu \<le> cb_input_avail (ChunkBuffer2_Init mem ?n mtu)"
    using assms(2-4) cb_repr_capacity(1) [of _ "[]" mtu num] by (simp add: cb_fifo_def)
  with fifo show ?thesis by (simp add: buf pb_rel_def pb_start_recv_def)
qed

section \<open>SinglePacketBuffer\<close>

text \<open>One packet at a time in a buffer of the input's MTU; the state says which side has it.\<close>

datatype spb_phase = Spb_Receiving | Spb_Sending int

record SinglePacketBuffer =
  spb_buf :: "byte list"
  spb_phase :: spb_phase

definition spb_input_handler_done :: "SinglePacketBuffer \<Rightarrow> int \<Rightarrow> SinglePacketBuffer" where
  "spb_input_handler_done o' in_len = o'\<lparr>spb_phase := Spb_Sending in_len\<rparr>"

definition spb_output_handler_done :: "SinglePacketBuffer \<Rightarrow> SinglePacketBuffer" where
  "spb_output_handler_done o' = o'\<lparr>spb_phase := Spb_Receiving\<rparr>"

definition SinglePacketBuffer_Init :: "int \<Rightarrow> (int \<Rightarrow> byte list option) \<Rightarrow> SinglePacketBuffer option" where
  "SinglePacketBuffer_Init mtu alloc =
     map_option (\<lambda>mem. \<lparr>spb_buf = mem, spb_phase = Spb_Receiving\<rparr>) (alloc mtu)"

fun spb_step :: "pb_op \<Rightarrow> SinglePacketBuffer \<Rightarrow> (SinglePacketBuffer \<times> byte list list) option" where
  "spb_step (Pb_Input p) s =
     (case spb_phase s of
        Spb_Receiving \<Rightarrow> if length p > length (spb_buf s) then None
          else Some (spb_input_handler_done (s\<lparr>spb_buf := mem_write (spb_buf s) 0 p\<rparr>) (int (length p)), [])
      | Spb_Sending n \<Rightarrow> None)"
| "spb_step Pb_Output_Done s =
     (case spb_phase s of
        Spb_Receiving \<Rightarrow> None
      | Spb_Sending n \<Rightarrow> Some (spb_output_handler_done s, [mem_read (spb_buf s) 0 (nat n)]))"

fun spb_rel :: "int \<Rightarrow> byte list list \<Rightarrow> SinglePacketBuffer \<Rightarrow> bool" where
  "spb_rel mtu [] s = (int (length (spb_buf s)) = mtu \<and> spb_phase s = Spb_Receiving)"
| "spb_rel mtu [p] s = (int (length (spb_buf s)) = mtu \<and> spb_phase s = Spb_Sending (int (length p)) \<and>
     length p \<le> length (spb_buf s) \<and> mem_read (spb_buf s) 0 (length p) = p)"
| "spb_rel mtu _ s = False"

interpretation spb: simulation "spb_rel mtu" "queue_step mtu" spb_step for mtu :: int
proof unfold_locales
  fix q s s' x out
  assume rel: "spb_rel mtu q s" and st: "spb_step x s = Some (s', out)"
  show "\<exists>q'. queue_step mtu x q = Some (q', out) \<and> spb_rel mtu q' s'"
  proof (cases q)
    case Nil
    with rel st show ?thesis
      by (cases x) (auto simp: spb_input_handler_done_def mem_simps split: spb_phase.splits if_splits)
  next
    case (Cons p q')
    with rel have "q' = []" by (cases q') auto
    with Cons rel st show ?thesis
      by (cases x) (auto simp: spb_output_handler_done_def split: spb_phase.splits if_splits)
  qed
qed

section \<open>PacketStreamSender\<close>

text \<open>
  \<open>pss_in\<close> is the packet at the address \<^verbatim>\<open>in\<close>, which the input keeps unchanged until it is done;
  \<open>pss_sending\<close> is the data of the send in progress.
\<close>

record PacketStreamSender =
  pss_in_len :: int
  pss_in :: "byte list"
  pss_in_used :: int
  pss_sending :: "byte list option"

datatype pss_event = Pss_Bytes "byte list" | Pss_Done

definition send_data :: "PacketStreamSender \<Rightarrow> PacketStreamSender \<times> pss_event list" where
  "send_data s =
     (if pss_in_used s < pss_in_len s
      then (s\<lparr>pss_sending := Some (mem_read (pss_in s) (nat (pss_in_used s)) (nat (pss_in_len s - pss_in_used s)))\<rparr>, [])
      else (s\<lparr>pss_in_len := -1\<rparr>, [Pss_Done]))"

definition pss_input_handler_send :: "PacketStreamSender \<Rightarrow> byte list \<Rightarrow> PacketStreamSender \<times> pss_event list" where
  "pss_input_handler_send s data =
     send_data (s\<lparr>pss_in_len := int (length data), pss_in := data, pss_in_used := 0\<rparr>)"

definition pss_output_handler_done :: "PacketStreamSender \<Rightarrow> int \<Rightarrow> PacketStreamSender \<times> pss_event list" where
  "pss_output_handler_done s data_len = send_data (s\<lparr>pss_in_used := pss_in_used s + data_len\<rparr>)"

definition PacketStreamSender_Init :: "PacketStreamSender \<Rightarrow> PacketStreamSender" where
  "PacketStreamSender_Init s = s\<lparr>pss_in_len := -1, pss_sending := None\<rparr>"

text \<open>A step: the input passes a packet while none is in progress, or the output has taken \<open>n\<close> bytes.\<close>

datatype pss_op = Pss_Packet "byte list" | Pss_Sent nat

fun pss_step :: "pss_op \<Rightarrow> PacketStreamSender \<Rightarrow> (PacketStreamSender \<times> pss_event list) option" where
  "pss_step (Pss_Packet p) s = (if pss_in_len s = -1 then Some (pss_input_handler_send s p) else None)"
| "pss_step (Pss_Sent n) s =
     (case pss_sending s of
        None \<Rightarrow> None
      | Some d \<Rightarrow> if n = 0 \<or> length d < n then None
          else (case pss_output_handler_done (s\<lparr>pss_sending := None\<rparr>) (int n) of
                  (s', evs) \<Rightarrow> Some (s', Pss_Bytes (take n d) # evs)))"

fun event_bytes :: "pss_event \<Rightarrow> byte list" where
  "event_bytes (Pss_Bytes bs) = bs"
| "event_bytes Pss_Done = []"

fun op_packet :: "pss_op \<Rightarrow> byte list list" where
  "op_packet (Pss_Packet p) = [p]"
| "op_packet _ = []"

text \<open>What is left to send: nothing, or a non-empty rest of the packet in progress.\<close>

definition pss_left :: "PacketStreamSender \<Rightarrow> byte list" where
  "pss_left s = (case pss_sending s of None \<Rightarrow> [] | Some d \<Rightarrow> d)"

definition pss_inv :: "PacketStreamSender \<Rightarrow> bool" where
  "pss_inv s \<longleftrightarrow>
     (case pss_sending s of
        None \<Rightarrow> pss_in_len s = -1
      | Some d \<Rightarrow> pss_in_len s = int (length (pss_in s)) \<and> 0 \<le> pss_in_used s \<and>
          pss_in_used s < pss_in_len s \<and> d = drop (nat (pss_in_used s)) (pss_in s))"

lemma send_data_inv:
  assumes "pss_in_len s = int (length (pss_in s))" "0 \<le> pss_in_used s" "pss_in_used s \<le> pss_in_len s"
    and "pss_sending s = None" "send_data s = (s', evs)"
  shows "pss_inv s' \<and> pss_left s' = drop (nat (pss_in_used s)) (pss_in s) \<and>
    evs = (if pss_left s' = [] then [Pss_Done] else [])"
  using assms by (auto simp: send_data_def pss_inv_def pss_left_def mem_read_def split: if_splits)

lemma pss_step_inv:
  assumes "pss_inv s" "pss_step x s = Some (s', evs)"
  shows "pss_inv s' \<and> concat (map event_bytes evs) @ pss_left s' = pss_left s @ concat (op_packet x) \<and>
    length (filter (\<lambda>e. e = Pss_Done) evs) + (if pss_left s' = [] then 0 else 1) =
      (if pss_left s = [] then 0 else 1) + length (op_packet x)"
proof (cases x)
  case (Pss_Packet p)
  with assms have none: "pss_sending s = None" "pss_left s = []"
    by (auto simp: pss_inv_def pss_left_def split: option.splits if_splits)
  with Pss_Packet assms send_data_inv [of "s\<lparr>pss_in_len := int (length p), pss_in := p, pss_in_used := 0\<rparr>" s' evs]
  show ?thesis by (auto simp: pss_input_handler_send_def split: if_splits)
next
  case (Pss_Sent n)
  with assms(2) obtain d evs' where d: "pss_sending s = Some d" "0 < n" "n \<le> length d"
    and out: "pss_output_handler_done (s\<lparr>pss_sending := None\<rparr>) (int n) = (s', evs')"
    and evs: "evs = Pss_Bytes (take n d) # evs'"
    by (auto split: option.splits if_splits prod.splits)
  let ?s = "s\<lparr>pss_sending := None, pss_in_used := pss_in_used s + int n\<rparr>"
  have i: "pss_in_len s = int (length (pss_in s))" "0 \<le> pss_in_used s" "pss_in_used s < pss_in_len s"
    "d = drop (nat (pss_in_used s)) (pss_in s)"
    using assms(1) d(1) by (auto simp: pss_inv_def)
  have "drop (nat (pss_in_used s + int n)) (pss_in s) = drop n d"
    using i(2,4) by (simp add: nat_add_distrib add.commute)
  moreover have "pss_in_used s + int n \<le> pss_in_len s" using d(3) i by auto
  ultimately have "pss_inv s' \<and> pss_left s' = drop n d \<and> evs' = (if pss_left s' = [] then [Pss_Done] else [])"
    using send_data_inv [of ?s s' evs'] i out d(2) by (simp add: pss_output_handler_done_def)
  moreover have "pss_left s = d" "d \<noteq> []" using d by (auto simp: pss_left_def)
  ultimately show ?thesis using evs Pss_Sent by auto
qed

lemma pss_run:
  assumes "pss_inv s" "run_ops pss_step ops s = Some (s', evs)"
  shows "pss_inv s' \<and> concat (map event_bytes evs) @ pss_left s' = pss_left s @ concat (concat (map op_packet ops)) \<and>
    length (filter (\<lambda>e. e = Pss_Done) evs) + (if pss_left s' = [] then 0 else 1) =
      (if pss_left s = [] then 0 else 1) + length (concat (map op_packet ops))"
  using assms
proof (induction ops arbitrary: s evs)
  case (Cons x ops)
  then obtain s1 e1 e2 where st: "pss_step x s = Some (s1, e1)" "run_ops pss_step ops s1 = Some (s', e2)"
    "evs = e1 @ e2" by (auto split: option.splits prod.splits)
  from pss_step_inv [OF Cons.prems(1) st(1)] have
    one: "pss_inv s1" "concat (map event_bytes e1) @ pss_left s1 = pss_left s @ concat (op_packet x)"
    "length (filter (\<lambda>e. e = Pss_Done) e1) + (if pss_left s1 = [] then 0 else 1) =
      (if pss_left s = [] then 0 else 1) + length (op_packet x)" by auto
  note IH = Cons.IH [OF one(1) st(2)]
  have "concat (map event_bytes evs) @ pss_left s' =
      concat (map event_bytes e1) @ concat (map event_bytes e2) @ pss_left s'" by (simp add: st(3))
  also have "\<dots> = (concat (map event_bytes e1) @ pss_left s1) @ concat (concat (map op_packet ops))"
    using IH by simp
  also have "\<dots> = pss_left s @ concat (concat (map op_packet (x # ops)))" by (simp only: one(2)) simp
  finally show ?case using IH one(3) st(3) by auto
qed simp

section \<open>BufferWriter\<close>

text \<open>
  The writer offers the buffer its output asked to receive into: \<open>bw_out\<close> is that buffer while a
  receive is in progress.  Ending a packet completes the receive with the packet's length.
\<close>

record BufferWriter =
  bw_out_have :: bool
  bw_out :: nat

definition bw_output_handler_recv :: "BufferWriter \<Rightarrow> nat \<Rightarrow> BufferWriter" where
  "bw_output_handler_recv w data = w\<lparr>bw_out_have := True, bw_out := data\<rparr>"

definition BufferWriter_Init :: "BufferWriter \<Rightarrow> BufferWriter" where
  "BufferWriter_Init w = w\<lparr>bw_out_have := False\<rparr>"

definition BufferWriter_StartPacket :: "BufferWriter \<Rightarrow> nat option" where
  "BufferWriter_StartPacket w = (if \<not> bw_out_have w then None else Some (bw_out w))"

definition BufferWriter_EndPacket :: "BufferWriter \<Rightarrow> int \<Rightarrow> BufferWriter \<times> int" where
  "BufferWriter_EndPacket w len = (w\<lparr>bw_out_have := False\<rparr>, len)"

section \<open>Properties\<close>

text \<open>C11: a \<^verbatim>\<open>PacketBuffer\<close> for \<open>num\<close> packets passes packets on in order and unchanged, although they are written and read in
  place: the packets read so far and the packets held are the packets received; it is receiving
  whenever it holds fewer than \<open>num\<close> packets, and sending exactly when it holds a packet.\<close>

theorem PacketBuffer_fifo:
  assumes "PacketBuffer_Init mtu num alloc = Some buf" "0 \<le> mtu" "mtu \<le> INT_MAX" "0 < num"
    and "4 * ChunkBuffer2_calc_blocks mtu num \<le> INT_MAX"
    and "\<And>n m. 0 \<le> n \<Longrightarrow> alloc n = Some m \<Longrightarrow> int (length m) = 4 * n"
    and "run_ops pb_step ops buf = Some (buf', outs)"
  shows "\<exists>q. concat (map (\<lambda>x. case x of Pb_Input p \<Rightarrow> [p] | Pb_Output_Done \<Rightarrow> []) ops) = outs @ q \<and>
    (int (length q) < num \<longrightarrow> pb_recv buf' \<noteq> None) \<and> (pb_send buf' \<noteq> None \<longleftrightarrow> q \<noteq> [])"
proof -
  from pb.run_sim [OF PacketBuffer_Init_rel [OF assms(1-6)] assms(7)] obtain q
    where q: "run_ops (queue_step mtu) ops [] = Some (q, outs)" "pb_rel mtu num q buf'" by blast
  have "pb_recv buf' \<noteq> None" if "int (length q) < num"
    using q(2) that cb_repr_capacity [of "pb_buf buf'" q mtu num] by (auto simp: pb_rel_def cb_fifo_def)
  with queue_run [OF q(1)] q(2) show ?thesis by (auto simp: pb_rel_def)
qed

definition pb_example :: "pb_op list" where
  "pb_example = [Pb_Input [1, 2, 3, 4, 5], Pb_Input [6], Pb_Output_Done, Pb_Input [7, 8], Pb_Output_Done]"

theorem PacketBuffer_fifo_witness:
  "\<exists>buf buf'. PacketBuffer_Init 5 2 (\<lambda>n. Some (replicate (nat (4 * n)) 0)) = Some buf \<and>
    run_ops pb_step pb_example buf = Some (buf', [[1, 2, 3, 4, 5], [6]]) \<and>
    (\<exists>q. concat (map (\<lambda>x. case x of Pb_Input p \<Rightarrow> [p] | Pb_Output_Done \<Rightarrow> []) pb_example) =
       [[1, 2, 3, 4, 5], [6]] @ q \<and>
     (int (length q) < 2 \<longrightarrow> pb_recv buf' \<noteq> None) \<and> (pb_send buf' \<noteq> None \<longleftrightarrow> q \<noteq> []))"
proof -
  let ?alloc = "\<lambda>n. Some (replicate (nat (4 * n)) (0 :: byte))"
  have blocks: "ChunkBuffer2_calc_blocks 5 2 = 9" by code_simp
  obtain buf where init: "PacketBuffer_Init 5 2 ?alloc = Some buf"
    by (simp add: PacketBuffer_Init_def blocks)
  have "map_option snd (Option.bind (PacketBuffer_Init 5 2 ?alloc) (run_ops pb_step pb_example)) =
      Some [[1, 2, 3, 4, 5], [6]]" by code_simp
  then obtain buf' where run: "run_ops pb_step pb_example buf = Some (buf', [[1, 2, 3, 4, 5], [6]])"
    using init by auto
  have "\<exists>q. concat (map (\<lambda>x. case x of Pb_Input p \<Rightarrow> [p] | Pb_Output_Done \<Rightarrow> []) pb_example) =
       [[1, 2, 3, 4, 5], [6]] @ q \<and>
     (int (length q) < 2 \<longrightarrow> pb_recv buf' \<noteq> None) \<and> (pb_send buf' \<noteq> None \<longleftrightarrow> q \<noteq> [])"
    by (rule PacketBuffer_fifo [OF init _ _ _ _ _ run]) (auto simp: blocks)
  with init run show ?thesis by blast
qed

text \<open>A \<^verbatim>\<open>PacketStreamSender\<close> writes the packets it is passed to the stream one after the other and byte for byte, however few
  bytes the stream takes at a time; it reports every packet done except the one in progress, and
  never starts a send of zero bytes.\<close>

theorem PacketStreamSender_stream:
  assumes "run_ops pss_step ops (PacketStreamSender_Init s) = Some (s', evs)"
  shows "concat (map event_bytes evs) @ pss_left s' = concat (concat (map op_packet ops)) \<and>
    length (filter (\<lambda>e. e = Pss_Done) evs) + (if pss_left s' = [] then 0 else 1) =
      length (concat (map op_packet ops)) \<and>
    pss_sending s' \<noteq> Some [] \<and> (pss_sending s' = None \<longleftrightarrow> pss_in_len s' = -1)"
proof -
  have i: "pss_inv (PacketStreamSender_Init s)" "pss_left (PacketStreamSender_Init s) = []"
    by (simp_all add: pss_inv_def pss_left_def PacketStreamSender_Init_def)
  from pss_run [OF i(1) assms] i(2) show ?thesis
    by (auto simp: pss_inv_def split: option.splits)
qed

theorem PacketStreamSender_stream_witness:
  "concat (map event_bytes [Pss_Bytes [1, 2], Pss_Bytes [3], Pss_Done, Pss_Done]) @
      pss_left \<lparr>pss_in_len = -1, pss_in = [], pss_in_used = 0, pss_sending = None\<rparr> =
    concat (concat (map op_packet [Pss_Packet [1, 2, 3], Pss_Sent 2, Pss_Sent 1, Pss_Packet []])) \<and>
    length (filter (\<lambda>e. e = Pss_Done) [Pss_Bytes [1, 2], Pss_Bytes [3], Pss_Done, Pss_Done]) +
      (if pss_left \<lparr>pss_in_len = -1, pss_in = [], pss_in_used = 0, pss_sending = None\<rparr> = [] then 0 else 1) =
      length (concat (map op_packet [Pss_Packet [1, 2, 3], Pss_Sent 2, Pss_Sent 1, Pss_Packet []])) \<and>
    pss_sending \<lparr>pss_in_len = -1, pss_in = [], pss_in_used = 0, pss_sending = None\<rparr> \<noteq> Some [] \<and>
    (pss_sending \<lparr>pss_in_len = -1, pss_in = [], pss_in_used = 0, pss_sending = None\<rparr> = None \<longleftrightarrow>
      pss_in_len \<lparr>pss_in_len = -1, pss_in = [], pss_in_used = 0, pss_sending = None\<rparr> = -1)"
  by (rule PacketStreamSender_stream [where s = "\<lparr>pss_in_len = 0, pss_in = [], pss_in_used = 0, pss_sending = None\<rparr>"])
     code_simp

end
