(* ===== verification/Packet_Proto.thy ===== *)
theory Packet_Proto
  imports Misc_Arith "HOL-Library.Sublist"
begin

text \<open>
  The PacketProto framing of \<^verbatim>\<open>badvpn/protocol/packetproto.h\<close>: packets in a byte stream, each after its length
  as a little-endian 16-bit integer.  \<^verbatim>\<open>PacketProtoEncoder.c\<close> writes the length in front of a packet
  that its input received into the output buffer; \<^verbatim>\<open>PacketProtoDecoder.c\<close> collects stream data in a
  buffer and submits the packets it finds.  Both are modelled by their handlers, with the calls
  they make on their neighbours as results.
\<close>

section \<open>Encoder\<close>

abbreviation PACKETPROTO_MAXPAYLOAD :: int where "PACKETPROTO_MAXPAYLOAD \<equiv> 65535"

definition PACKETPROTO_ENCLEN :: "int \<Rightarrow> int" where
  "PACKETPROTO_ENCLEN len = 2 + len"

text \<open>The encoder remembers where the packet being produced goes; memory is the consumer's buffer.\<close>

record PacketProtoEncoder =
  enc_output_packet :: "nat option"

definition PacketProtoEncoder_Init :: "int \<Rightarrow> PacketProtoEncoder \<times> int" where
  "PacketProtoEncoder_Init input_mtu = (\<lparr>enc_output_packet = None\<rparr>, PACKETPROTO_ENCLEN input_mtu)"

text \<open>Returns the address the input is asked to receive to.\<close>

definition enc_output_handler_recv :: "PacketProtoEncoder \<Rightarrow> nat \<Rightarrow> PacketProtoEncoder \<times> nat" where
  "enc_output_handler_recv enc data = (enc\<lparr>enc_output_packet := Some data\<rparr>, data + 2)"

text \<open>Returns the memory with the header written and the length reported to the output.\<close>

definition enc_input_handler_done ::
    "PacketProtoEncoder \<Rightarrow> byte list \<Rightarrow> int \<Rightarrow> (PacketProtoEncoder \<times> byte list \<times> int) option" where
  "enc_input_handler_done enc mem in_len =
     (case enc_output_packet enc of
        None \<Rightarrow> None
      | Some data \<Rightarrow> Some (enc\<lparr>enc_output_packet := None\<rparr>,
          mem_write mem data (le16 (htol16 (of_int in_len))), PACKETPROTO_ENCLEN in_len))"

text \<open>
  One packet through the encoder: the consumer offers its buffer \<open>mem\<close>, the input writes \<open>p\<close>
  where it is asked to, and the consumer reads as many bytes as are reported.
\<close>

definition encoder_packet :: "byte list \<Rightarrow> byte list \<Rightarrow> byte list option" where
  "encoder_packet mem p =
     (case enc_output_handler_recv \<lparr>enc_output_packet = None\<rparr> 0 of (enc, addr) \<Rightarrow>
        map_option (\<lambda>(enc', mem', n). mem_read mem' 0 (nat n))
          (enc_input_handler_done enc (mem_write mem addr p) (int (length p))))"

definition encode :: "byte list \<Rightarrow> byte list" where
  "encode p = le16 (of_nat (length p)) @ p"

lemma encoder_packet_eq:
  assumes "2 + length p \<le> length mem"
  shows "encoder_packet mem p = Some (encode p)"
  using assms
  by (simp add: encoder_packet_def enc_output_handler_recv_def enc_input_handler_done_def encode_def
      PACKETPROTO_ENCLEN_def htol16_def nat_add_distrib mem_read_def mem_write_def)

section \<open>Decoder\<close>

record PacketProtoDecoder =
  dec_output_mtu :: int
  buf_size :: int
  buf_start :: int
  buf_used :: int
  dec_buf :: "byte list"

text \<open>The calls the decoder makes: receive into its buffer, send a packet, report an error.\<close>

datatype dec_action = Dec_Recv int int | Dec_Send "byte list" | Dec_Error

definition recv_action :: "PacketProtoDecoder \<Rightarrow> dec_action" where
  "recv_action enc = Dec_Recv (buf_start enc + buf_used enc) (buf_size enc - (buf_start enc + buf_used enc))"

definition process_data :: "PacketProtoDecoder \<Rightarrow> PacketProtoDecoder \<times> dec_action list" where
  "process_data enc =
     (let wrap = (\<lambda>enc. if buf_start enc + buf_used enc = buf_size enc
            then enc\<lparr>dec_buf := mem_write (dec_buf enc) 0 (mem_read (dec_buf enc) (nat (buf_start enc)) (nat (buf_used enc))),
                     buf_start := 0\<rparr>
            else enc);
          wait = (let enc1 = wrap enc in (enc1, [recv_action enc1]));
          data = nat (buf_start enc);
          left = buf_used enc
      in if left < 2 then wait
      else let data_len = uint (ltoh16 (un_le16 (drop data (dec_buf enc)))); left = left - 2
      in if data_len > dec_output_mtu enc then
           (let enc1 = enc\<lparr>buf_start := 0, buf_used := 0\<rparr> in (enc1, [recv_action enc1, Dec_Error]))
         else if left < data_len then wait
         else (enc\<lparr>buf_start := buf_start enc + (2 + data_len), buf_used := buf_used enc - (2 + data_len)\<rparr>,
               [Dec_Send (mem_read (dec_buf enc) (data + 2) (nat data_len))]))"

definition dec_input_handler_done :: "PacketProtoDecoder \<Rightarrow> int \<Rightarrow> PacketProtoDecoder \<times> dec_action list" where
  "dec_input_handler_done enc data_len = process_data (enc\<lparr>buf_used := buf_used enc + data_len\<rparr>)"

definition dec_output_handler_done :: "PacketProtoDecoder \<Rightarrow> PacketProtoDecoder \<times> dec_action list" where
  "dec_output_handler_done enc = process_data enc"

text \<open>\<open>mem\<close> is what \<^verbatim>\<open>malloc\<close> returns: \<open>None\<close> for \<open>NULL\<close>.\<close>

definition PacketProtoDecoder_Init ::
    "int \<Rightarrow> (nat \<Rightarrow> byte list option) \<Rightarrow> (PacketProtoDecoder \<times> dec_action list) option" where
  "PacketProtoDecoder_Init out_mtu malloc =
     (let output_mtu = min out_mtu PACKETPROTO_MAXPAYLOAD;
          size = PACKETPROTO_ENCLEN output_mtu
      in map_option (\<lambda>mem. (\<lparr>dec_output_mtu = output_mtu, buf_size = size, buf_start = 0, buf_used = 0,
             dec_buf = mem\<rparr>, [Dec_Recv 0 size])) (malloc (nat size)))"

definition PacketProtoDecoder_Reset :: "PacketProtoDecoder \<Rightarrow> PacketProtoDecoder" where
  "PacketProtoDecoder_Reset enc = enc\<lparr>buf_start := buf_start enc + buf_used enc, buf_used := 0\<rparr>"

section \<open>The decoder in its environment\<close>

text \<open>
  Between two handler calls the decoder waits either for data, to be written where it asked, or
  for the output to finish the packet it was given.  A step is a completion of what it waits
  for; the provider of data delivers between one byte and what was asked.
\<close>

datatype dec_wait = Wait_Recv int int | Wait_Send

datatype dec_op = Input_Data "byte list" | Output_Done | Decoder_Reset

datatype dec_event = Out_Packet "byte list" | Out_Error

fun dec_events :: "dec_action list \<Rightarrow> dec_event list" where
  "dec_events [] = []"
| "dec_events (Dec_Send p # as) = Out_Packet p # dec_events as"
| "dec_events (Dec_Error # as) = Out_Error # dec_events as"
| "dec_events (Dec_Recv _ _ # as) = dec_events as"

fun dec_waits :: "dec_action list \<Rightarrow> dec_wait" where
  "dec_waits (Dec_Recv off n # _) = Wait_Recv off n"
| "dec_waits _ = Wait_Send"

type_synonym dec_state = "PacketProtoDecoder \<times> dec_wait"

definition dec_result :: "PacketProtoDecoder \<times> dec_action list \<Rightarrow> dec_state \<times> dec_event list" where
  "dec_result r = ((fst r, dec_waits (snd r)), dec_events (snd r))"

fun dec_step :: "dec_op \<Rightarrow> dec_state \<Rightarrow> (dec_state \<times> dec_event list) option" where
  "dec_step (Input_Data bs) (enc, Wait_Recv off n) =
     (if bs = [] \<or> n < int (length bs) then None
      else Some (dec_result (dec_input_handler_done
             (enc\<lparr>dec_buf := mem_write (dec_buf enc) (nat off) bs\<rparr>) (int (length bs)))))"
| "dec_step Output_Done (enc, Wait_Send) = Some (dec_result (dec_output_handler_done enc))"
| "dec_step Decoder_Reset (enc, w) = Some ((PacketProtoDecoder_Reset enc, w), [])"
| "dec_step _ _ = None"

section \<open>The framing as a parser of the received bytes\<close>

datatype frame = Need_More | Too_Large | Frame "byte list" "byte list"

definition next_frame :: "int \<Rightarrow> byte list \<Rightarrow> frame" where
  "next_frame mtu d =
     (if length d < 2 then Need_More
      else let n = unat (un_le16 d) in
        if int n > mtu then Too_Large
        else if length d < 2 + n then Need_More
        else Frame (take n (drop 2 d)) (drop (2 + n) d))"

text \<open>The abstract decoder: the bytes received and not yet delivered, and whether a packet is out.\<close>

type_synonym spec_state = "byte list \<times> bool"

definition spec_process :: "int \<Rightarrow> byte list \<Rightarrow> spec_state \<times> dec_event list" where
  "spec_process mtu d =
     (case next_frame mtu d of
        Need_More \<Rightarrow> ((d, False), [])
      | Too_Large \<Rightarrow> (([], False), [Out_Error])
      | Frame p r \<Rightarrow> ((r, True), [Out_Packet p]))"

fun spec_step :: "int \<Rightarrow> dec_op \<Rightarrow> spec_state \<Rightarrow> (spec_state \<times> dec_event list) option" where
  "spec_step mtu (Input_Data bs) (d, False) = Some (spec_process mtu (d @ bs))"
| "spec_step mtu Output_Done (d, True) = Some (spec_process mtu d)"
| "spec_step mtu Decoder_Reset (d, b) = Some (([], b), [])"
| "spec_step mtu _ _ = None"

definition dec_ok :: "int \<Rightarrow> byte list \<Rightarrow> PacketProtoDecoder \<Rightarrow> bool" where
  "dec_ok mtu d enc \<longleftrightarrow> dec_output_mtu enc = mtu \<and> 0 \<le> mtu \<and> mtu \<le> PACKETPROTO_MAXPAYLOAD \<and>
     buf_size enc = 2 + mtu \<and> int (length (dec_buf enc)) = buf_size enc \<and>
     0 \<le> buf_start enc \<and> 0 \<le> buf_used enc \<and> buf_start enc + buf_used enc \<le> buf_size enc \<and>
     d = mem_read (dec_buf enc) (nat (buf_start enc)) (nat (buf_used enc))"

fun dec_rel :: "int \<Rightarrow> spec_state \<Rightarrow> dec_state \<Rightarrow> bool" where
  "dec_rel mtu (d, True) (enc, w) = (dec_ok mtu d enc \<and> w = Wait_Send)"
| "dec_rel mtu (d, False) (enc, w) = (dec_ok mtu d enc \<and> buf_start enc + buf_used enc < buf_size enc \<and>
     w = Wait_Recv (buf_start enc + buf_used enc) (buf_size enc - (buf_start enc + buf_used enc)))"

lemma dec_ok_length: "dec_ok mtu d enc \<Longrightarrow> int (length d) = buf_used enc"
  by (auto simp: dec_ok_def mem_read_def)

lemma un_le16_mem_read: "2 \<le> n \<Longrightarrow> un_le16 (mem_read m off n) = un_le16 (drop off m)"
proof -
  assume "2 \<le> n"
  then obtain k where "n = Suc (Suc k)" by (metis add_2_eq_Suc le_Suc_ex)
  then show ?thesis
    by (cases "drop off m" rule: un_le16.cases) (auto simp: mem_read_def)
qed

lemma dec_ok_drop:
  assumes "dec_ok mtu d enc" "k \<le> length d"
  shows "dec_ok mtu (drop k d) (enc\<lparr>buf_start := buf_start enc + int k, buf_used := buf_used enc - int k\<rparr>)"
proof -
  have u: "int k \<le> buf_used enc" using dec_ok_length [OF assms(1)] assms(2) by linarith
  then have "nat (buf_used enc - int k) = nat (buf_used enc) - k"
    "nat (buf_start enc + int k) = nat (buf_start enc) + k"
    using assms(1) by (simp_all add: dec_ok_def nat_add_distrib nat_diff_distrib)
  with assms u show ?thesis by (auto simp: dec_ok_def mem_read_suffix)
qed

lemma dec_ok_take:
  assumes "dec_ok mtu d enc" "2 + n \<le> length d"
  shows "take n (drop 2 d) = mem_read (dec_buf enc) (nat (buf_start enc) + 2) n"
proof -
  have "n \<le> nat (buf_used enc) - 2" using dec_ok_length [OF assms(1)] assms(2) by linarith
  with assms(1) show ?thesis by (simp add: dec_ok_def mem_read_suffix mem_read_prefix)
qed

lemma process_data_refines:
  assumes ok: "dec_ok mtu d enc"
  shows "(case dec_result (process_data enc) of (s, evs) \<Rightarrow>
    dec_rel mtu (fst (spec_process mtu d)) s \<and> evs = snd (spec_process mtu d))"
proof -
  let ?a = "buf_start enc" and ?u = "buf_used enc" and ?n = "unat (un_le16 d)"
  have len: "int (length d) = ?u" using dec_ok_length [OF ok] .
  have hdr: "un_le16 (drop (nat ?a) (dec_buf enc)) = un_le16 d" if "2 \<le> ?u"
    using ok that un_le16_mem_read [of "nat ?u"] by (simp add: dec_ok_def)
  have full: "\<not> ?a + ?u < buf_size enc \<Longrightarrow> ?a + ?u = buf_size enc" using ok by (simp add: dec_ok_def)
  have wrapped: "dec_ok mtu d (enc\<lparr>dec_buf := mem_write (dec_buf enc) 0 d, buf_start := 0\<rparr>)"
    using ok len by (auto simp: dec_ok_def mem_read_def mem_write_def)
  note defs = process_data_def dec_result_def spec_process_def next_frame_def recv_action_def Let_def
    ltoh16_def htol16_def
  consider (short) "length d < 2" | (large) "2 \<le> length d" "int ?n > mtu"
    | (part) "2 \<le> length d" "int ?n \<le> mtu" "length d < 2 + ?n"
    | (full) "2 \<le> length d" "int ?n \<le> mtu" "2 + ?n \<le> length d" by linarith
  then show ?thesis
  proof cases
    case short
    with ok len wrapped show ?thesis by (auto simp: defs dec_ok_def)
  next
    case large
    with ok len hdr show ?thesis by (auto simp: defs dec_ok_def)
  next
    case part
    then have "?u - 2 < int ?n" using len by linarith
    moreover have "next_frame mtu d = Need_More" using part by (simp add: next_frame_def Let_def)
    moreover have "dec_output_mtu enc = mtu" "buf_size enc = 2 + mtu"
      using ok by (auto simp: dec_ok_def)
    moreover have "?u < 2 + mtu" using part len by linarith
    ultimately show ?thesis
      using part ok len hdr wrapped full by (auto simp: process_data_def dec_result_def spec_process_def
          recv_action_def Let_def ltoh16_def htol16_def dec_ok_def)
  next
    case full
    have "2 + int ?n \<le> ?u" "2 \<le> ?u" using full len by linarith+
    moreover have "dec_ok mtu (drop (2 + ?n) d) (enc\<lparr>buf_start := ?a + (2 + int ?n), buf_used := ?u - (2 + int ?n)\<rparr>)"
      using dec_ok_drop [OF ok full(3)] by (simp add: add.commute add.left_commute)
    moreover have "next_frame mtu d = Frame (take ?n (drop 2 d)) (drop (2 + ?n) d)"
      using full by (simp add: next_frame_def Let_def)
    moreover have "dec_output_mtu enc = mtu" using ok by (simp add: dec_ok_def)
    ultimately show ?thesis
      using full hdr dec_ok_take [OF ok full(3)]
      by (auto simp: process_data_def dec_result_def spec_process_def Let_def ltoh16_def htol16_def)
  qed
qed

lemma process_data_step:
  assumes "dec_ok mtu d enc" "dec_result (process_data enc) = (t, evs)"
  shows "\<exists>s. spec_process mtu d = (s, evs) \<and> dec_rel mtu s t"
  using process_data_refines [OF assms(1)] assms(2) by (cases "spec_process mtu d") auto

lemma dec_ok_append:
  assumes "dec_ok mtu d enc" "int (length bs) \<le> buf_size enc - (buf_start enc + buf_used enc)"
  shows "dec_ok mtu (d @ bs)
    (enc\<lparr>dec_buf := mem_write (dec_buf enc) (nat (buf_start enc + buf_used enc)) bs,
         buf_used := buf_used enc + int (length bs)\<rparr>)"
proof -
  let ?a = "nat (buf_start enc)" and ?u = "nat (buf_used enc)"
  have n: "nat (buf_start enc + buf_used enc) = ?a + ?u" "nat (buf_used enc + int (length bs)) = ?u + length bs"
    using assms(1) by (simp_all add: dec_ok_def nat_add_distrib)
  have l: "?a + ?u + length bs \<le> length (dec_buf enc)" using assms unfolding dec_ok_def by linarith
  have "mem_read (mem_write (dec_buf enc) (?a + ?u) bs) ?a (?u + length bs) = mem_read (dec_buf enc) ?a ?u @ bs"
    using l by (subst mem_read_append) (simp_all add: mem_simps)
  with assms n l show ?thesis by (auto simp: dec_ok_def)
qed

text \<open>
  Every step of the decoder is a step of the parser with the same packets and errors; the roles
  of the two machines in the simulation are exchanged, so that the decoder's runs are matched.
\<close>

interpretation dec: simulation "dec_rel mtu" "spec_step mtu" dec_step for mtu :: int
proof unfold_locales
  fix s :: spec_state and t t' :: dec_state and x evs
  assume rel: "dec_rel mtu s t" and st: "dec_step x t = Some (t', evs)"
  obtain d b enc w where st_eq: "s = (d, b)" "t = (enc, w)" by fastforce
  show "\<exists>s'. spec_step mtu x s = Some (s', evs) \<and> dec_rel mtu s' t'"
  proof (cases x)
    case (Input_Data bs)
    with rel st st_eq have b: "b = False" "bs \<noteq> []" and
      w: "w = Wait_Recv (buf_start enc + buf_used enc) (buf_size enc - (buf_start enc + buf_used enc))"
      by (cases b; auto)+
    let ?enc = "enc\<lparr>dec_buf := mem_write (dec_buf enc) (nat (buf_start enc + buf_used enc)) bs,
         buf_used := buf_used enc + int (length bs)\<rparr>"
    have "dec_ok mtu (d @ bs) ?enc"
      using rel st st_eq b w Input_Data by (intro dec_ok_append) (auto split: if_splits)
    from process_data_step [OF this] show ?thesis
      using st st_eq b w Input_Data by (auto simp: dec_input_handler_done_def split: if_splits)
  next
    case Output_Done
    with rel st st_eq have "b = True" "dec_ok mtu d enc" by (cases b; auto)+
    with process_data_step [of mtu d enc] st st_eq Output_Done rel show ?thesis
      by (auto simp: dec_output_handler_done_def)
  next
    case Decoder_Reset
    have "dec_ok mtu [] (PacketProtoDecoder_Reset enc)" if "dec_ok mtu d enc"
      using that by (auto simp: dec_ok_def PacketProtoDecoder_Reset_def mem_read_def)
    with rel st st_eq Decoder_Reset show ?thesis
      by (cases b) (auto simp: PacketProtoDecoder_Reset_def)
  qed
qed

section \<open>Decoding what was encoded\<close>

lemma next_frame_encode:
  assumes "int (length p) \<le> mtu" "mtu \<le> PACKETPROTO_MAXPAYLOAD"
  shows "next_frame mtu (encode p @ r) = Frame p r"
proof -
  have "unat (of_nat (length p) :: u16) = length p"
    using assms by (simp add: unsigned_of_nat take_bit_eq_mod)
  with assms show ?thesis by (simp add: next_frame_def encode_def)
qed

lemma next_frame_prefix:
  assumes "int (length p) \<le> mtu" "mtu \<le> PACKETPROTO_MAXPAYLOAD" "d @ r = encode p" "r \<noteq> []"
  shows "next_frame mtu d = Need_More"
proof (cases "length d < 2")
  case False
  then obtain a b d' where d: "d = a # b # d'" by (cases d rule: un_le16.cases) auto
  have n: "unat (of_nat (length p) :: u16) = length p"
    using assms by (simp add: unsigned_of_nat take_bit_eq_mod)
  have "un_le16 d = un_le16 (d @ r)" by (simp add: d)
  also have "\<dots> = of_nat (length p)" unfolding assms(3) encode_def by simp
  finally have "un_le16 d = of_nat (length p)" .
  moreover have "length d < 2 + length p"
    using arg_cong [OF assms(3), of length] assms(4) by (cases r) (simp_all add: encode_def)
  ultimately show ?thesis using assms(1) n by (simp add: next_frame_def Let_def)
qed (simp add: next_frame_def)

fun op_input :: "dec_op \<Rightarrow> byte list" where
  "op_input (Input_Data bs) = bs"
| "op_input _ = []"

text \<open>
  A run of the parser over an encoded stream: with \<open>done_ps\<close> delivered and \<open>d\<close> held back, the
  bytes still to come complete \<open>d\<close> to the encoding of the packets that are left.
\<close>

lemma spec_process_stream:
  assumes "\<forall>p \<in> set ps. int (length p) \<le> mtu" "mtu \<le> PACKETPROTO_MAXPAYLOAD"
    and "d @ rest = concat (map encode ps)" "spec_process mtu d = ((d', b), evs)"
  shows "(b = False \<and> d' = d \<and> evs = [] \<and> next_frame mtu d = Need_More) \<or>
    (\<exists>p ps'. ps = p # ps' \<and> b = True \<and> evs = [Out_Packet p] \<and> d' @ rest = concat (map encode ps'))"
proof (cases ps)
  case Nil
  with assms(3,4) show ?thesis by (auto simp: spec_process_def next_frame_def)
next
  case (Cons p ps')
  then have enc: "d @ rest = encode p @ concat (map encode ps')" and p: "int (length p) \<le> mtu"
    using assms(1,3) by auto
  then consider (short) r where "d @ r = encode p" "r \<noteq> []"
    | (long) r where "d = encode p @ r" "r @ rest = concat (map encode ps')"
    by (auto simp: append_eq_append_conv2)
       (metis append_Nil2 append_self_conv)
  then show ?thesis
  proof cases
    case short
    then show ?thesis
      using next_frame_prefix [OF p assms(2) short(1,2)] assms(4) by (auto simp: spec_process_def)
  next
    case long
    then show ?thesis
      using next_frame_encode [OF p assms(2)] assms(4) Cons by (auto simp: spec_process_def)
  qed
qed

lemma spec_run_stream:
  assumes "\<forall>p \<in> set ps. int (length p) \<le> mtu" "mtu \<le> PACKETPROTO_MAXPAYLOAD"
    and "Decoder_Reset \<notin> set ops" "run_ops (spec_step mtu) ops (d, b) = Some ((d', b'), evs)"
    and "d @ concat (map op_input ops) @ rest = concat (map encode ps)"
    and "b = False \<Longrightarrow> next_frame mtu d = Need_More"
  shows "\<exists>qs ps'. ps = qs @ ps' \<and> evs = map Out_Packet qs \<and> d' @ rest = concat (map encode ps') \<and>
    (b' = False \<longrightarrow> next_frame mtu d' = Need_More)"
  using assms
proof (induction ops arbitrary: d b ps evs)
  case Nil
  then show ?case by (intro exI [of _ "[]"] exI [of _ ps]) simp
next
  case (Cons x ops)
  from Cons.prems(4) obtain d1 b1 e1 e2
    where st: "spec_step mtu x (d, b) = Some ((d1, b1), e1)"
      "run_ops (spec_step mtu) ops (d1, b1) = Some ((d', b'), e2)" "evs = e1 @ e2"
    by (auto split: option.splits prod.splits)
  let ?rest = "concat (map op_input ops) @ rest"
  have proc: "spec_process mtu (d @ op_input x) = ((d1, b1), e1)"
    using st(1) Cons.prems(3) by (cases x; cases b) auto
  have "(d @ op_input x) @ ?rest = concat (map encode ps)" using Cons.prems(5) by simp
  from spec_process_stream [OF Cons.prems(1,2) this proc] show ?case
  proof (elim disjE exE conjE)
    assume "b1 = False" "d1 = d @ op_input x" "e1 = []" "next_frame mtu (d @ op_input x) = Need_More"
    with Cons.IH [OF Cons.prems(1,2) _ st(2)] Cons.prems(3,5) st(3) show ?thesis by auto
  next
    fix p ps' assume p: "ps = p # ps'" "b1 = True" "e1 = [Out_Packet p]" "d1 @ ?rest = concat (map encode ps')"
    with Cons.IH [OF _ Cons.prems(2) _ st(2), of ps'] Cons.prems(1,3)
    obtain qs ps'' where "ps' = qs @ ps''" "e2 = map Out_Packet qs" "d' @ rest = concat (map encode ps'')"
      "b' = False \<longrightarrow> next_frame mtu d' = Need_More" by auto
    with p st(3) show ?thesis by (intro exI [of _ "p # qs"] exI [of _ ps'']) simp
  qed
qed

lemma spec_process_mtu:
  "spec_process mtu d = (s, evs) \<Longrightarrow> Out_Packet p \<in> set evs \<Longrightarrow> int (length p) \<le> mtu"
  by (auto simp: spec_process_def next_frame_def Let_def split: frame.splits if_splits)

lemma spec_step_mtu:
  "spec_step mtu x s = Some (s', evs) \<Longrightarrow> Out_Packet p \<in> set evs \<Longrightarrow> int (length p) \<le> mtu"
  by (cases s; cases x; cases "snd s") (auto dest: spec_process_mtu)

lemma spec_run_mtu:
  "run_ops (spec_step mtu) ops s = Some (s', evs) \<Longrightarrow> Out_Packet p \<in> set evs \<Longrightarrow> int (length p) \<le> mtu"
proof (induction ops arbitrary: s evs)
  case (Cons x ops)
  then obtain s1 e1 e2 where "spec_step mtu x s = Some (s1, e1)" "run_ops (spec_step mtu) ops s1 = Some (s', e2)"
    "evs = e1 @ e2" by (auto split: option.splits prod.splits)
  with Cons.IH [of s1 e2] Cons.prems(2) spec_step_mtu [of mtu x s s1 e1 p] show ?case by auto
qed simp

section \<open>Properties\<close>

lemma decoder_start:
  assumes "PacketProtoDecoder_Init out_mtu malloc = Some (dec, acts)" "0 \<le> out_mtu"
    and "\<And>n m. malloc n = Some m \<Longrightarrow> length m = n"
  shows "dec_rel (min out_mtu PACKETPROTO_MAXPAYLOAD) ([], False) (dec, dec_waits acts)"
  using assms(1,2) assms(3) [of "nat (2 + min out_mtu PACKETPROTO_MAXPAYLOAD)"]
  by (auto simp: PacketProtoDecoder_Init_def PACKETPROTO_ENCLEN_def dec_ok_def Let_def)

definition ex_ops :: "dec_op list" where
  "ex_ops = [Input_Data [2, 0, 1], Input_Data [2, 1, 0, 3], Output_Done, Output_Done]"

definition ex_dec :: "byte list \<Rightarrow> PacketProtoDecoder" where
  "ex_dec m = \<lparr>dec_output_mtu = 5, buf_size = 7, buf_start = 0, buf_used = 0, dec_buf = m\<rparr>"

lemma ex_init: "PacketProtoDecoder_Init 5 (\<lambda>n. Some (replicate n 0)) = Some (ex_dec (replicate 7 0), [Dec_Recv 0 7])"
  by (simp add: PacketProtoDecoder_Init_def PACKETPROTO_ENCLEN_def ex_dec_def)

lemma ex_run: "run_ops dec_step ex_ops (ex_dec (replicate 7 0), dec_waits [Dec_Recv 0 7]) =
    Some ((ex_dec [2, 0, 1, 2, 1, 0, 3], Wait_Recv 0 7), [Out_Packet [1, 2], Out_Packet [3]])"
  by code_simp

text \<open>C3: what the encoder makes of packets the decoder delivers, in order and unchanged, however the stream is cut
  into pieces: the packets submitted so far are always the first ones that were encoded, no error
  is reported, and once the whole stream has been received and no packet is with the output, all
  of them have been submitted.\<close>

theorem PacketProto_roundtrip:
  assumes "PacketProtoDecoder_Init out_mtu malloc = Some (dec, acts)" "0 \<le> out_mtu"
    and "\<And>n m. malloc n = Some m \<Longrightarrow> length m = n"
    and "\<forall>p \<in> set ps. int (length p) \<le> min out_mtu PACKETPROTO_MAXPAYLOAD \<and> 2 + length p \<le> length mem"
    and "Decoder_Reset \<notin> set ops" "run_ops dec_step ops (dec, dec_waits acts) = Some ((dec', w), evs)"
    and "concat (map op_input ops) @ rest = concat (map (\<lambda>p. the (encoder_packet mem p)) ps)"
  shows "\<exists>qs ps'. ps = qs @ ps' \<and> evs = map Out_Packet qs \<and> (rest = [] \<longrightarrow> w \<noteq> Wait_Send \<longrightarrow> ps' = [])"
proof -
  let ?mtu = "min out_mtu PACKETPROTO_MAXPAYLOAD"
  have "map (\<lambda>p. the (encoder_packet mem p)) ps = map encode ps"
    using assms(4) by (intro map_cong) (auto simp: encoder_packet_eq)
  with assms(7) have enc: "[] @ concat (map op_input ops) @ rest = concat (map encode ps)" by simp
  from dec.run_sim [OF decoder_start [OF assms(1-3)] assms(6)] obtain d b
    where run: "run_ops (spec_step ?mtu) ops ([], False) = Some ((d, b), evs)" "dec_rel ?mtu (d, b) (dec', w)"
    by (metis surj_pair)
  have ps: "\<forall>p \<in> set ps. int (length p) \<le> ?mtu" using assms(4) by blast
  from spec_run_stream [OF ps _ assms(5) run(1) enc] obtain qs ps'
    where q: "ps = qs @ ps'" "evs = map Out_Packet qs" "d @ rest = concat (map encode ps')"
      "b = False \<longrightarrow> next_frame ?mtu d = Need_More" by (auto simp: next_frame_def)
  have "ps' = []" if "rest = []" "w \<noteq> Wait_Send"
  proof (rule ccontr)
    assume "ps' \<noteq> []"
    then obtain p r where p: "ps' = p # r" by (cases ps') auto
    then have "next_frame ?mtu d = Frame p (concat (map encode r))"
      using q(3) that(1) next_frame_encode [of p ?mtu] ps q(1) by simp
    moreover have "b = False" using run(2) that(2) by (cases b) auto
    ultimately show False using q(4) by simp
  qed
  with q show ?thesis by blast
qed

theorem PacketProto_roundtrip_witness:
  "\<exists>qs ps'. [[1, 2], [3]] = qs @ ps' \<and> [Out_Packet [1, 2], Out_Packet [3]] = map Out_Packet qs \<and>
    ([] = ([] :: byte list) \<longrightarrow> Wait_Recv 0 7 \<noteq> Wait_Send \<longrightarrow> ps' = [])"
  by (rule PacketProto_roundtrip [OF ex_init _ _ _ _ ex_run, where mem = "replicate 9 0"])
     (auto simp: ex_ops_def encoder_packet_eq encode_def le16_def)

text \<open>Whatever bytes the decoder receives, in whatever pieces, it stays inside its buffer, asks for at least one byte
  when it waits for data, and submits only packets within the output's MTU; its packets and errors
  are those of the framing applied to the bytes received since the last error.\<close>

theorem PacketProtoDecoder_safe:
  assumes "PacketProtoDecoder_Init out_mtu malloc = Some (dec, acts)" "0 \<le> out_mtu"
    and "\<And>n m. malloc n = Some m \<Longrightarrow> length m = n"
    and "run_ops dec_step ops (dec, dec_waits acts) = Some ((dec', w), evs)"
  shows "0 \<le> buf_start dec' \<and> 0 \<le> buf_used dec' \<and> buf_start dec' + buf_used dec' \<le> int (length (dec_buf dec')) \<and>
    (\<forall>off n. w = Wait_Recv off n \<longrightarrow> 0 < n \<and> 0 \<le> off \<and> off + n = int (length (dec_buf dec'))) \<and>
    (\<forall>p. Out_Packet p \<in> set evs \<longrightarrow> int (length p) \<le> min out_mtu PACKETPROTO_MAXPAYLOAD) \<and>
    (\<exists>d b. run_ops (spec_step (min out_mtu PACKETPROTO_MAXPAYLOAD)) ops ([], False) = Some ((d, b), evs))"
proof -
  let ?mtu = "min out_mtu PACKETPROTO_MAXPAYLOAD"
  from dec.run_sim [OF decoder_start [OF assms(1-3)] assms(4)] obtain d b
    where run: "run_ops (spec_step ?mtu) ops ([], False) = Some ((d, b), evs)" "dec_rel ?mtu (d, b) (dec', w)"
    by (metis surj_pair)
  from run(2) have "dec_ok ?mtu d dec'" by (cases b) auto
  moreover from run(2) have "w = Wait_Recv off n \<longrightarrow>
      0 < n \<and> 0 \<le> off \<and> off + n = int (length (dec_buf dec'))" for off n
    by (cases b) (auto simp: dec_ok_def)
  ultimately show ?thesis using run(1) spec_run_mtu [OF run(1)] by (auto simp: dec_ok_def)
qed

theorem PacketProtoDecoder_safe_witness:
  "0 \<le> buf_start (ex_dec [2, 0, 1, 2, 1, 0, 3]) \<and> 0 \<le> buf_used (ex_dec [2, 0, 1, 2, 1, 0, 3]) \<and>
    buf_start (ex_dec [2, 0, 1, 2, 1, 0, 3]) + buf_used (ex_dec [2, 0, 1, 2, 1, 0, 3]) \<le>
      int (length (dec_buf (ex_dec [2, 0, 1, 2, 1, 0, 3]))) \<and>
    (\<exists>d b. run_ops (spec_step (min 5 PACKETPROTO_MAXPAYLOAD)) ex_ops ([], False) =
      Some ((d, b), [Out_Packet [1, 2], Out_Packet [3]]))"
  using PacketProtoDecoder_safe [OF ex_init _ _ ex_run] by auto

end
