(* ===== verification/Ip_Udp.thy ===== *)
theory Ip_Udp
  imports Misc_Arith
begin

text \<open>
  The packet headers of \<^verbatim>\<open>badvpn/misc/ipv4_proto.h\<close>, \<^verbatim>\<open>ipv6_proto.h\<close> and \<^verbatim>\<open>udp_proto.h\<close>: their packed layouts,
  the checks that a received packet passes, and the checksums.  A packet is the list of its
  bytes; the packed 16- and 32-bit fields are read as the little-endian target reads them, and
  hold network byte order.  Checksum arithmetic is on 32-bit words as in the code and is related
  to the sum of the 16-bit big-endian words of the data.
\<close>

section \<open>Headers\<close>

record ipv4_header =
  version4_ihl4 :: byte
  ds :: byte
  total_length :: u16
  identification :: u16
  flags3_fragmentoffset13 :: u16
  ttl :: byte
  protocol :: byte
  ip_checksum :: u16
  source_address :: u32
  destination_address :: u32

definition ipv4_header_bytes :: "ipv4_header \<Rightarrow> byte list" where
  "ipv4_header_bytes h =
     [version4_ihl4 h, ds h] @ le16 (total_length h) @ le16 (identification h) @
     le16 (flags3_fragmentoffset13 h) @ [ttl h, protocol h] @ le16 (ip_checksum h) @
     le32 (source_address h) @ le32 (destination_address h)"

definition ipv4_header_of :: "byte list \<Rightarrow> ipv4_header" where
  "ipv4_header_of d =
     \<lparr>version4_ihl4 = d ! 0, ds = d ! 1, total_length = un_le16 (drop 2 d),
      identification = un_le16 (drop 4 d), flags3_fragmentoffset13 = un_le16 (drop 6 d),
      ttl = d ! 8, protocol = d ! 9, ip_checksum = un_le16 (drop 10 d),
      source_address = un_le32 (drop 12 d), destination_address = un_le32 (drop 16 d)\<rparr>"

record udp_header =
  source_port :: u16
  dest_port :: u16
  udp_len :: u16
  udp_cksum :: u16

definition udp_header_bytes :: "udp_header \<Rightarrow> byte list" where
  "udp_header_bytes h = le16 (source_port h) @ le16 (dest_port h) @ le16 (udp_len h) @ le16 (udp_cksum h)"

definition udp_header_of :: "byte list \<Rightarrow> udp_header" where
  "udp_header_of d =
     \<lparr>source_port = un_le16 d, dest_port = un_le16 (drop 2 d), udp_len = un_le16 (drop 4 d),
      udp_cksum = un_le16 (drop 6 d)\<rparr>"

record ipv6_header =
  version4_tc4 :: byte
  tc4_fl4 :: byte
  fl :: u16
  payload_length :: u16
  next_header :: byte
  hop_limit :: byte
  ip6_source_address :: "byte list"
  ip6_destination_address :: "byte list"

definition ipv6_header_bytes :: "ipv6_header \<Rightarrow> byte list" where
  "ipv6_header_bytes h =
     [version4_tc4 h, tc4_fl4 h] @ le16 (fl h) @ le16 (payload_length h) @ [next_header h, hop_limit h] @
     ip6_source_address h @ ip6_destination_address h"

definition ipv6_header_of :: "byte list \<Rightarrow> ipv6_header" where
  "ipv6_header_of d =
     \<lparr>version4_tc4 = d ! 0, tc4_fl4 = d ! 1, fl = un_le16 (drop 2 d), payload_length = un_le16 (drop 4 d),
      next_header = d ! 6, hop_limit = d ! 7, ip6_source_address = take 16 (drop 8 d),
      ip6_destination_address = take 16 (drop 24 d)\<rparr>"

lemma length_header_bytes [simp]:
  "length (ipv4_header_bytes h) = 20" "length (udp_header_bytes u) = 8"
  by (simp_all add: ipv4_header_bytes_def udp_header_bytes_def)

lemma ipv4_header_of_bytes [simp]: "ipv4_header_of (ipv4_header_bytes h @ r) = h"
  by (simp add: ipv4_header_of_def ipv4_header_bytes_def le16_def le32_def)
     (simp add: un_layouts_exact [unfolded le16_def le32_def, simplified])

lemma udp_header_of_bytes [simp]: "udp_header_of (udp_header_bytes h @ r) = h"
  by (simp add: udp_header_of_def udp_header_bytes_def le16_def)
     (simp add: un_layouts_exact [unfolded le16_def, simplified])

section \<open>Checksums\<close>

text \<open>The summing loops: add the first \<open>n\<close> big-endian words of \<open>data\<close> to \<open>t\<close>.\<close>

primrec be16_loop :: "byte list \<Rightarrow> nat \<Rightarrow> u32 \<Rightarrow> u32" where
  "be16_loop data 0 t = t"
| "be16_loop data (Suc i) t = be16_loop data i t + ucast (badvpn_read_be16 (drop (2 * i) data))"

text \<open>The folding loop \<^verbatim>\<open>while (t >> 16) t = (t & 0xFFFF) + (t >> 16)\<close>.\<close>

lemma fold_carry_less:
  assumes "drop_bit 16 t \<noteq> (0 :: u32)"
  shows "unat ((t AND 0xFFFF) + drop_bit 16 t) < unat t"
    and "unat ((t AND 0xFFFF) + drop_bit 16 t) = unat t mod 65536 + unat t div 65536"
proof -
  have "t AND 0xFFFF = take_bit 16 t"
    by (simp add: take_bit_eq_mask mask_eq_exp_minus_1)
  then have m: "unat (t AND 0xFFFF) = unat t mod 65536"
    by (simp add: unat_mod_distrib take_bit_eq_mod)
  have d: "unat (drop_bit 16 t) = unat t div 65536"
    by (simp add: unat_div_distrib drop_bit_eq_div)
  have t: "unat t < 4294967296" using unsigned_less [of t, where ?'a = nat] by simp
  have pos: "0 < unat t div 65536" using assms d by (metis gr0I unat_eq_zero)
  have "unat t mod 65536 + unat t div 65536 < 4294967296" using t by simp
  then show *: "unat ((t AND 0xFFFF) + drop_bit 16 t) = unat t mod 65536 + unat t div 65536"
    by (simp add: unat_word_ariths m d)
  show "unat ((t AND 0xFFFF) + drop_bit 16 t) < unat t"
    unfolding * using pos mult_div_mod_eq [of 65536 "unat t"] by linarith
qed

function fold_carry :: "u32 \<Rightarrow> u32" where
  "fold_carry t = (if drop_bit 16 t \<noteq> 0 then fold_carry ((t AND 0xFFFF) + drop_bit 16 t) else t)"
  by auto
termination
  by (relation "measure unat") (use fold_carry_less(1) in auto)

declare fold_carry.simps [simp del]

text \<open>\<^verbatim>\<open>hton16(~t)\<close>: the complement is taken on 32 bits and the argument conversion keeps the low 16.\<close>

definition ipv4_checksum :: "ipv4_header \<Rightarrow> byte list \<Rightarrow> u16 \<Rightarrow> u16" where
  "ipv4_checksum header extra extra_len =
     (let t = be16_loop (ipv4_header_bytes header) 10 0;
          t = be16_loop extra (unat extra_len div 2) t
      in hton16 (ucast (NOT (fold_carry t))))"

definition udp_checksum_summer :: "byte list \<Rightarrow> u16 \<Rightarrow> u32" where
  "udp_checksum_summer data len = be16_loop data (unat len div 2) 0"

definition udp_payload_sum :: "byte list \<Rightarrow> u16 \<Rightarrow> u32" where
  "udp_payload_sum payload payload_len =
     (if unat payload_len mod 2 = 0 then udp_checksum_summer payload payload_len
      else udp_checksum_summer payload (payload_len - 1) +
        udp_checksum_summer (le16 (hton16 (push_bit 8 (ucast (payload ! (unat payload_len - 1)))))) 2)"

text \<open>The test for zero after the complement is on the 32-bit value.\<close>

definition udp_finish :: "u32 \<Rightarrow> u16" where
  "udp_finish t =
     (let t = NOT (fold_carry t);
          t = (if t = 0 then 0xFFFF else t)
      in hton16 (ucast t))"

definition udp_checksum :: "udp_header \<Rightarrow> byte list \<Rightarrow> u16 \<Rightarrow> u32 \<Rightarrow> u32 \<Rightarrow> u16" where
  "udp_checksum header payload payload_len source_addr dest_addr =
     udp_finish
      (udp_checksum_summer (le32 source_addr) 4 + udp_checksum_summer (le32 dest_addr) 4 +
       udp_checksum_summer (le16 (hton16 17)) 2 +
       udp_checksum_summer (le16 (hton16 (8 + payload_len))) 2 +
       udp_checksum_summer (udp_header_bytes header) 8 +
       udp_payload_sum payload payload_len)"

definition udp_ip6_checksum :: "udp_header \<Rightarrow> byte list \<Rightarrow> u16 \<Rightarrow> byte list \<Rightarrow> byte list \<Rightarrow> u16" where
  "udp_ip6_checksum header payload payload_len source_addr dest_addr =
     udp_finish
      (udp_checksum_summer source_addr 16 + udp_checksum_summer dest_addr 16 +
       udp_checksum_summer (le32 (hton32 (8 + ucast payload_len))) 4 +
       udp_checksum_summer (le32 (hton32 17)) 4 +
       udp_checksum_summer (udp_header_bytes header) 8 +
       udp_payload_sum payload payload_len)"

section \<open>Checks of received packets\<close>

text \<open>
  Each check takes the bytes of a packet and returns, when it accepts, the header it copied out,
  the offset of the payload and the payload's length.
\<close>

definition IPV4_GET_VERSION :: "ipv4_header \<Rightarrow> int" where
  "IPV4_GET_VERSION h = uint (drop_bit 4 (version4_ihl4 h AND 0xF0))"

definition IPV4_GET_IHL :: "ipv4_header \<Rightarrow> int" where
  "IPV4_GET_IHL h = uint (version4_ihl4 h AND 0x0F)"

definition ipv4_check :: "byte list \<Rightarrow> (ipv4_header \<times> nat \<times> int) option" where
  "ipv4_check data =
     (let data_len = int (length data) in
      if data_len < 20 then None
      else let out_header = ipv4_header_of data in
      if IPV4_GET_VERSION out_header \<noteq> 4 then None
      else let header_len = IPV4_GET_IHL out_header * 4 in
      if header_len < 20 then None
      else if header_len > data_len then None
      else let total_len = uint (ntoh16 (total_length out_header)) in
      if total_len < header_len then None
      else if total_len > data_len then None
      else let checksum_computed =
             ipv4_checksum (out_header\<lparr>ip_checksum := hton16 0\<rparr>) (drop 20 data) (of_int (header_len - 20)) in
      if ip_checksum out_header \<noteq> checksum_computed then None
      else Some (out_header, nat header_len, total_len - header_len))"

definition ipv6_check :: "byte list \<Rightarrow> (ipv6_header \<times> nat \<times> int) option" where
  "ipv6_check data =
     (let data_len = int (length data) in
      if data_len < 40 then None
      else let out_header = ipv6_header_of data in
      if uint (drop_bit 4 (version4_tc4 out_header)) \<noteq> 6 then None
      else let payload_len = uint (ntoh16 (payload_length out_header)) in
      if payload_len > data_len - 40 then None
      else Some (out_header, 40, payload_len))"

definition udp_check :: "byte list \<Rightarrow> (udp_header \<times> nat \<times> int) option" where
  "udp_check data =
     (let data_len = int (length data) in
      if data_len < 8 then None
      else let out_header = udp_header_of data; data_len = data_len - 8;
               udp_length = uint (ntoh16 (udp_len out_header)) in
      if udp_length < 8 then None
      else if udp_length > 8 + data_len then None
      else Some (out_header, 8, udp_length - 8))"

section \<open>The Internet checksum\<close>

text \<open>The sum of the big-endian 16-bit words of some bytes, an odd last byte padded with zero.\<close>

fun sum16 :: "byte list \<Rightarrow> nat" where
  "sum16 (a # b # r) = 256 * unat a + unat b + sum16 r"
| "sum16 [a] = 256 * unat a"
| "sum16 [] = 0"

lemma sum16_append: "even (length xs) \<Longrightarrow> sum16 (xs @ ys) = sum16 xs + sum16 ys"
  by (induction xs rule: sum16.induct) auto

lemma sum16_bound: "sum16 xs \<le> 65535 * ((length xs + 1) div 2)"
proof (induction xs rule: sum16.induct)
  case (1 a b r)
  then show ?case using unat_byte_less [of a] unat_byte_less [of b] by simp
next
  case (2 a)
  then show ?case using unat_byte_less [of a] by simp
qed simp

lemma sum16_be16: "length d \<ge> 2 \<Longrightarrow> unat (badvpn_read_be16 d) = sum16 (take 2 d)"
  by (cases d rule: sum16.cases) (auto simp: badvpn_read_be16_def unat_word16_of)

lemma be16_loop_eq:
  "2 * n \<le> length data \<Longrightarrow> be16_loop data n t = t + of_nat (sum16 (take (2 * n) data))"
proof (induction n)
  case (Suc n)
  have "take (2 * Suc n) data = take (2 * n) data @ take 2 (drop (2 * n) data)"
    by (simp add: take_add [of "2 * n" 2, symmetric])
  then have "sum16 (take (2 * Suc n) data) = sum16 (take (2 * n) data) + unat (badvpn_read_be16 (drop (2 * n) data))"
    using Suc.prems by (simp add: sum16_append sum16_be16 min_def)
  then show ?case
    using Suc by simp
qed simp

lemma summer_eq:
  "unat len \<le> length data \<Longrightarrow> even (unat len) \<Longrightarrow>
    udp_checksum_summer data len = of_nat (sum16 (take (unat len) data))"
  by (simp add: udp_checksum_summer_def be16_loop_eq)

text \<open>Folding the carries computes the representative modulo 65535, which is 0 only for 0.\<close>

lemma fold_carry_props:
  "unat (fold_carry t) < 65536 \<and> unat (fold_carry t) mod 65535 = unat t mod 65535 \<and>
   (unat (fold_carry t) = 0 \<longleftrightarrow> unat t = 0)"
proof (induction t rule: fold_carry.induct)
  case (1 t)
  show ?case
  proof (cases "drop_bit 16 t = 0")
    case True
    have "unat t div 65536 = unat (drop_bit 16 t)"
      by (simp add: unat_div_distrib drop_bit_eq_div)
    then have "unat t div 65536 = 0" using True by simp
    then have "unat t < 65536" by (simp add: div_eq_0_iff)
    then show ?thesis using True by (simp add: fold_carry.simps [of t])
  next
    case False
    let ?t = "(t AND 0xFFFF) + drop_bit 16 t"
    have u: "unat ?t = unat t mod 65536 + unat t div 65536" using fold_carry_less(2) [OF False] .
    have "unat t = 65535 * (unat t div 65536) + (unat t mod 65536 + unat t div 65536)"
      using mult_div_mod_eq [of 65536 "unat t"] by linarith
    then have "unat t mod 65535 = unat ?t mod 65535" unfolding u
      by (metis mod_mult_self4 add.commute)
    moreover have "unat ?t = 0 \<longleftrightarrow> unat t = 0" unfolding u
      using mult_div_mod_eq [of 65536 "unat t"] by auto
    ultimately show ?thesis using 1 False by (simp add: fold_carry.simps [of t])
  qed
qed

definition ocsum :: "nat \<Rightarrow> nat" where
  "ocsum n = (if n = 0 then 0 else (n - 1) mod 65535 + 1)"

lemma ocsum_unique:
  assumes "x < 65536" "x mod 65535 = n mod 65535" "x = 0 \<longleftrightarrow> n = 0"
  shows "x = ocsum n"
proof (cases "n = 0")
  case False
  with assms(3) obtain y m where xm: "x = Suc y" "n = Suc m"
    by (metis not0_implies_Suc)
  have "(Suc y) mod 65535 = (Suc m) mod 65535" using assms(2) xm by simp
  then have "y mod 65535 = m mod 65535"
    by (auto simp: mod_Suc split: if_splits)
  then show ?thesis using assms(1) xm by (simp add: ocsum_def)
qed (use assms in \<open>simp add: ocsum_def\<close>)

lemma fold_carry_ocsum: "unat (fold_carry t) = ocsum (unat t)"
  using fold_carry_props [of t] by (intro ocsum_unique) auto

lemma ocsum_bounds: "ocsum n \<le> 65535" "0 < n \<Longrightarrow> 0 < ocsum n" "ocsum n mod 65535 = n mod 65535"
  using mod_less_divisor [of 65535 "n - 1"] by (auto simp: ocsum_def mod_Suc_eq split: if_splits)

text \<open>The complement of a folded sum, as it is stored in the packet.\<close>

lemma complement_value:
  assumes "unat f < 65536"
  shows "unat (ucast (NOT (f :: u32)) :: u16) = 65535 - unat f"
proof -
  have "unat (NOT f) = 4294967295 - unat f"
    using unat_sub [of f "- 1"]
    by (simp add: not_eq_complement unsigned_minus_1_eq_mask mask_eq_exp_minus_1 minus_diff_commute)
  also have "\<dots> = 65535 - unat f + 65536 * 65535" using assms by simp
  finally have "unat (NOT f) mod 65536 = 65535 - unat f"
    by (simp only: mod_mult_self2) simp
  then show ?thesis by (simp add: unsigned_ucast_eq take_bit_eq_mod)
qed

section \<open>What the checksums compute\<close>

lemma sum16_le16 [simp]: "sum16 (le16 w @ r) = unat (ntoh16 w) + sum16 r" "sum16 (le16 w) = unat (ntoh16 w)"
proof -
  have "unat (ntoh16 w) = sum16 (le16 w)"
    using ntoh16_un_le16 [of "le16 w"] sum16_be16 [of "le16 w"] by simp
  then show "sum16 (le16 w) = unat (ntoh16 w)" "sum16 (le16 w @ r) = unat (ntoh16 w) + sum16 r"
    by (simp_all add: sum16_append)
qed

lemma sum16_ipv4_header:
  "sum16 (ipv4_header_bytes h) = sum16 (ipv4_header_bytes (h\<lparr>ip_checksum := hton16 0\<rparr>)) + unat (ntoh16 (ip_checksum h))"
  by (simp add: ipv4_header_bytes_def)

lemma ipv4_header_bytes_of:
  assumes "20 \<le> length d"
  shows "ipv4_header_bytes (ipv4_header_of d) = take 20 d"
  using assms
  by (auto simp: eval_nat_numeral Suc_le_length_iff ipv4_header_bytes_def ipv4_header_of_def
      le16_un_le16 le32_un_le32)

lemma unat_of_nat_u32: "n < 2 ^ 32 \<Longrightarrow> unat (of_nat n :: u32) = n"
  by (simp add: unsigned_of_nat take_bit_eq_mod)

lemma finish_value:
  assumes "t = of_nat n" "n < 2 ^ 32"
  shows "unat (ntoh16 (hton16 (ucast (NOT (fold_carry t))))) = 65535 - ocsum n"
  using assms fold_carry_props [of t]
  by (simp add: complement_value fold_carry_ocsum unat_of_nat_u32)

lemma ipv4_checksum_value:
  assumes "unat extra_len \<le> length extra" "even (unat extra_len)"
  shows "unat (ntoh16 (ipv4_checksum h extra extra_len)) =
    65535 - ocsum (sum16 (ipv4_header_bytes h) + sum16 (take (unat extra_len) extra))"
proof -
  let ?S = "sum16 (ipv4_header_bytes h) + sum16 (take (unat extra_len) extra)"
  have "sum16 (ipv4_header_bytes h) \<le> 65535 * 10"
    using sum16_bound [of "ipv4_header_bytes h"] by simp
  moreover have "sum16 (take (unat extra_len) extra) \<le> 65535 * 32768"
    using sum16_bound [of "take (unat extra_len) extra"] unat_u16_less [of extra_len] assms(1) by simp
  ultimately have S: "?S < 2 ^ 32" by simp
  have t: "be16_loop extra (unat extra_len div 2) (be16_loop (ipv4_header_bytes h) 10 0) = of_nat ?S"
    using assms by (simp add: be16_loop_eq)
  show ?thesis
    unfolding ipv4_checksum_def Let_def by (rule finish_value [OF t S])
qed

text \<open>A stored checksum equals the complement of the sum of the rest exactly when the whole sum is
  a multiple of 65535 and the stored value is not \<^verbatim>\<open>0xFFFF\<close>.\<close>

lemma complement_iff:
  assumes "0 < rest" "c < 65536"
  shows "c = 65535 - ocsum rest \<longleftrightarrow> 65535 dvd rest + c \<and> c \<noteq> 65535"
proof -
  note b = ocsum_bounds(1,3) [of rest] ocsum_bounds(2) [OF assms(1)]
  have dvd: "65535 dvd rest + c \<longleftrightarrow> 65535 dvd ocsum rest + c"
    unfolding dvd_eq_mod_eq_0 using mod_add_cong [OF b(2) refl, of c] by simp
  show ?thesis
  proof
    assume "c = 65535 - ocsum rest"
    then have "ocsum rest + c = 65535" using b(1) by simp
    with dvd b(3) show "65535 dvd rest + c \<and> c \<noteq> 65535" by auto
  next
    assume c: "65535 dvd rest + c \<and> c \<noteq> 65535"
    then obtain k where k: "ocsum rest + c = 65535 * k" using dvd by (auto elim: dvdE)
    have "0 < ocsum rest + c" "ocsum rest + c < 65535 * 2" using b c assms(2) by auto
    then have "k = 1" unfolding k by auto
    with k show "c = 65535 - ocsum rest" by simp
  qed
qed

lemma ntoh16_zero: "ntoh16 0 = 0"
  by (simp add: ntoh16_def hton16_def badvpn_reverse16_def word16_of_def)

lemma unat_of_int_u16: "0 \<le> k \<Longrightarrow> k < 65536 \<Longrightarrow> unat (of_int k :: u16) = nat k"
  by (simp add: unsigned_of_int take_bit_eq_mod)

lemma ntoh16_eq_iff: "x = y \<longleftrightarrow> unat (ntoh16 x) = unat (ntoh16 y)"
  by (metis hton16_ntoh16 unsigned_word_eqI)

lemma version_sum_pos:
  assumes "20 \<le> length d" "IPV4_GET_VERSION (ipv4_header_of d) = 4"
  shows "0 < sum16 (ipv4_header_bytes ((ipv4_header_of d)\<lparr>ip_checksum := v\<rparr>))"
proof -
  have "version4_ihl4 (ipv4_header_of d) \<noteq> 0"
    using assms(2) by (auto simp: IPV4_GET_VERSION_def)
  then have "0 < unat (version4_ihl4 (ipv4_header_of d))" by (simp add: unat_gt_0)
  then show ?thesis by (simp add: ipv4_header_bytes_def)
qed

lemma ipv4_check_sum_iff:
  assumes "20 \<le> length d" "IPV4_GET_VERSION (ipv4_header_of d) = 4" "20 \<le> hl" "hl \<le> int (length d)"
    and "even hl" "hl < 65536"
  shows "ip_checksum (ipv4_header_of d) =
      ipv4_checksum ((ipv4_header_of d)\<lparr>ip_checksum := hton16 0\<rparr>) (drop 20 d) (of_int (hl - 20)) \<longleftrightarrow>
    65535 dvd sum16 (take (nat hl) d) \<and> unat (ntoh16 (ip_checksum (ipv4_header_of d))) \<noteq> 65535"
proof -
  let ?h = "ipv4_header_of d" and ?e = "of_int (hl - 20) :: u16"
  have e: "unat ?e = nat hl - 20"
    using assms(3,6) unat_of_int_u16 [of "hl - 20"] by (simp add: nat_diff_distrib)
  have ev: "even (nat hl - 20)" using assms(3,5) by (simp add: even_nat_iff)
  let ?rest = "sum16 (ipv4_header_bytes (?h\<lparr>ip_checksum := hton16 0\<rparr>)) + sum16 (take (nat hl - 20) (drop 20 d))"
  have "take (nat hl) d = take 20 d @ take (nat hl - 20) (drop 20 d)"
    using assms(3) take_add [of 20 "nat hl - 20" d] by simp
  then have sum: "sum16 (take (nat hl) d) = ?rest + unat (ntoh16 (ip_checksum ?h))"
    using assms(1) sum16_ipv4_header [of ?h] by (simp add: sum16_append ipv4_header_bytes_of)
  have "0 < ?rest" using version_sum_pos [OF assms(1,2)] by simp
  note iff = complement_iff [OF this unat_u16_less [of "ntoh16 (ip_checksum ?h)"]]
  have "unat (ntoh16 (ipv4_checksum (?h\<lparr>ip_checksum := hton16 0\<rparr>) (drop 20 d) ?e)) = 65535 - ocsum ?rest"
    using ipv4_checksum_value [of ?e "drop 20 d" "?h\<lparr>ip_checksum := hton16 0\<rparr>"] e ev assms(4) by simp
  then show ?thesis
    unfolding ntoh16_eq_iff [of "ip_checksum ?h"] sum using iff by (simp only:)
qed

lemma IPV4_GET_IHL_bounds: "0 \<le> IPV4_GET_IHL h" "IPV4_GET_IHL h < 16"
proof -
  have "version4_ihl4 h AND 0x0F = take_bit 4 (version4_ihl4 h)"
    by (simp add: take_bit_eq_mask mask_eq_exp_minus_1)
  then have "uint (version4_ihl4 h AND 0x0F) = uint (version4_ihl4 h) mod 16"
    by (simp add: uint_mod_distrib take_bit_eq_mod)
  then show "0 \<le> IPV4_GET_IHL h" "IPV4_GET_IHL h < 16" by (simp_all add: IPV4_GET_IHL_def)
qed

lemma ipv4_check_iff:
  "ipv4_check d = Some (h, off, n) \<longleftrightarrow>
     20 \<le> length d \<and> h = ipv4_header_of d \<and> IPV4_GET_VERSION h = 4 \<and>
     off = nat (4 * IPV4_GET_IHL h) \<and> 20 \<le> off \<and>
     int off \<le> uint (ntoh16 (total_length h)) \<and> uint (ntoh16 (total_length h)) \<le> int (length d) \<and>
     n = uint (ntoh16 (total_length h)) - int off \<and>
     65535 dvd sum16 (take off d) \<and> unat (ntoh16 (ip_checksum h)) \<noteq> 65535"
    (is "?L \<longleftrightarrow> ?R")
proof -
  let ?h = "ipv4_header_of d" and ?hl = "4 * IPV4_GET_IHL (ipv4_header_of d)"
  let ?tl = "uint (ntoh16 (total_length (ipv4_header_of d)))"
  let ?ok = "20 \<le> length d \<and> IPV4_GET_VERSION ?h = 4 \<and> 20 \<le> ?hl \<and> ?hl \<le> ?tl \<and> ?tl \<le> int (length d)"
  have hl: "0 \<le> ?hl" "?hl < 65536" "even ?hl" using IPV4_GET_IHL_bounds [of ?h] by auto
  show ?thesis
  proof (cases ?ok)
    case True
    then have "?hl \<le> int (length d)" by linarith
    with True hl ipv4_check_sum_iff [of d ?hl] show ?thesis
      by (auto simp: ipv4_check_def Let_def mult.commute)
  next
    case False
    then have "\<not> ?L" by (auto simp: ipv4_check_def Let_def split: if_splits)
    moreover have "\<not> ?R" using False hl by auto
    ultimately show ?thesis by blast
  qed
qed

text \<open>The complement of a folded sum has its high half set, so the zero test never succeeds.\<close>

lemma udp_finish_eq: "udp_finish t = hton16 (ucast (NOT (fold_carry t)))"
proof -
  have "NOT (fold_carry t) \<noteq> 0"
  proof
    assume "NOT (fold_carry t) = 0"
    then have "fold_carry t = NOT 0" by (metis bit.double_compl)
    then have "unat (fold_carry t) = 4294967295"
      by (simp add: unsigned_minus_1_eq_mask mask_eq_exp_minus_1)
    with fold_carry_props [of t] show False by simp
  qed
  then show ?thesis by (simp add: udp_finish_def Let_def)
qed

lemma sum16_be16_list [simp]: "sum16 (be16 w) = unat w" "sum16 (be16 w @ r) = unat w + sum16 r"
proof -
  show w: "sum16 (be16 w) = unat w"
    using sum16_be16 [of "be16 w"] by (simp add: badvpn_read_be16_def)
  show "sum16 (be16 w @ r) = unat w + sum16 r" using w by (simp add: sum16_append)
qed

lemma udp_payload_sum_eq:
  assumes "length payload = unat payload_len"
  shows "udp_payload_sum payload payload_len = of_nat (sum16 payload)"
proof (cases "even (unat payload_len)")
  case True
  then show ?thesis using assms by (simp add: udp_payload_sum_def summer_eq even_iff_mod_2_eq_zero)
next
  case False
  then have pos: "0 < unat payload_len" by (cases "unat payload_len") auto
  then have len: "unat (payload_len - 1) = unat payload_len - 1"
    by (subst unat_sub) (auto simp: word_le_nat_alt)
  obtain p b where pb: "payload = p @ [b]" "length p = unat payload_len - 1"
    using assms pos by (cases payload rule: rev_cases) auto
  have "unat (push_bit 8 (ucast b) :: u16) = 256 * unat b"
    using unat_word16_of [of 0 b] by (simp add: word16_of_def)
  then have last: "udp_checksum_summer (le16 (hton16 (push_bit 8 (ucast b)))) 2 = of_nat (sum16 [b])"
    by (simp add: summer_eq)
  have "udp_checksum_summer payload (payload_len - 1) = of_nat (sum16 p)"
    using False pb len by (simp add: summer_eq)
  with last pb False have "udp_payload_sum payload payload_len = of_nat (sum16 p) + of_nat (sum16 [b])"
    by (simp add: udp_payload_sum_def nth_append even_iff_mod_2_eq_zero)
  moreover have "even (length p)" using False pb by simp
  ultimately show ?thesis using pb by (simp add: sum16_append)
qed

text \<open>The bytes a UDP checksum covers: pseudo header, UDP header, payload.\<close>

definition udp4_covered :: "udp_header \<Rightarrow> byte list \<Rightarrow> u32 \<Rightarrow> u32 \<Rightarrow> byte list" where
  "udp4_covered header payload src dst =
     le32 src @ le32 dst @ be16 17 @ be16 (of_nat (8 + length payload)) @ udp_header_bytes header @ payload"

definition udp6_covered :: "udp_header \<Rightarrow> byte list \<Rightarrow> byte list \<Rightarrow> byte list \<Rightarrow> byte list" where
  "udp6_covered header payload src dst =
     src @ dst @ rev (le32 (of_nat (8 + length payload))) @ rev (le32 17) @ udp_header_bytes header @ payload"

lemma udp_checksum_value:
  assumes "length payload = unat payload_len"
  shows "unat (ntoh16 (udp_checksum header payload payload_len src dst)) =
    65535 - ocsum (sum16 (udp4_covered header payload src dst))"
proof -
  let ?c = "udp4_covered header payload src dst"
  have l: "length ?c = 20 + length payload" by (simp add: udp4_covered_def)
  have plen: "8 + payload_len = of_nat (8 + length payload)" using assms by simp
  have t: "udp_checksum_summer (le32 src) 4 + udp_checksum_summer (le32 dst) 4 +
      udp_checksum_summer (le16 (hton16 17)) 2 + udp_checksum_summer (le16 (hton16 (8 + payload_len))) 2 +
      udp_checksum_summer (udp_header_bytes header) 8 + udp_payload_sum payload payload_len = of_nat (sum16 ?c)"
    unfolding plen udp_payload_sum_eq [OF assms]
    by (simp add: summer_eq udp4_covered_def sum16_append layout_simps)
  have "sum16 ?c < 2 ^ 32"
    using sum16_bound [of ?c] unat_u16_less [of payload_len] assms l by simp
  then show ?thesis
    unfolding udp_checksum_def udp_finish_eq by (rule finish_value [OF t])
qed

lemma udp_ip6_checksum_value:
  assumes "length payload = unat payload_len" "length src = 16" "length dst = 16"
  shows "unat (ntoh16 (udp_ip6_checksum header payload payload_len src dst)) =
    65535 - ocsum (sum16 (udp6_covered header payload src dst))"
proof -
  let ?c = "udp6_covered header payload src dst"
  have l: "length ?c = 48 + length payload" using assms by (simp add: udp6_covered_def)
  have plen: "8 + ucast payload_len = (of_nat (8 + length payload) :: u32)" using assms by simp
  have t: "udp_checksum_summer src 16 + udp_checksum_summer dst 16 +
      udp_checksum_summer (le32 (hton32 (8 + ucast payload_len))) 4 + udp_checksum_summer (le32 (hton32 17)) 4 +
      udp_checksum_summer (udp_header_bytes header) 8 + udp_payload_sum payload payload_len = of_nat (sum16 ?c)"
    unfolding plen udp_payload_sum_eq [OF assms(1)] using assms(2,3)
    by (simp add: summer_eq udp6_covered_def sum16_append hton32_def le32_reverse)
  have "sum16 ?c < 2 ^ 32"
    using sum16_bound [of ?c] unat_u16_less [of payload_len] assms l by simp
  then show ?thesis
    unfolding udp_ip6_checksum_def udp_finish_eq by (rule finish_value [OF t])
qed

lemma sum16_udp4_covered:
  "sum16 (udp4_covered header payload src dst) =
   sum16 (udp4_covered (header\<lparr>udp_cksum := 0\<rparr>) payload src dst) + unat (ntoh16 (udp_cksum header))"
  "0 < sum16 (udp4_covered header payload src dst)"
  by (simp_all add: udp4_covered_def udp_header_bytes_def sum16_append ntoh16_zero)

lemma sum16_udp6_covered:
  assumes "length src = 16" "length dst = 16"
  shows "sum16 (udp6_covered header payload src dst) =
   sum16 (udp6_covered (header\<lparr>udp_cksum := 0\<rparr>) payload src dst) + unat (ntoh16 (udp_cksum header))"
  and "0 < sum16 (udp6_covered header payload src dst)"
proof -
  have "sum16 (rev (le32 17)) = 17" by (simp add: le32_def)
  then show "sum16 (udp6_covered header payload src dst) =
      sum16 (udp6_covered (header\<lparr>udp_cksum := 0\<rparr>) payload src dst) + unat (ntoh16 (udp_cksum header))"
    "0 < sum16 (udp6_covered header payload src dst)"
    using assms by (simp_all add: udp6_covered_def udp_header_bytes_def sum16_append ntoh16_zero)
qed

section \<open>Properties\<close>

text \<open>C13: \<^verbatim>\<open>ipv4_check\<close> accepts a packet exactly when its header and total length fit in the data, the version is 4
  and the 16-bit words of the header sum to a multiple of 65535 (the Internet checksum) with a
  stored checksum other than \<^verbatim>\<open>0xFFFF\<close>; then it returns the header, and the part of the data
  between header length and total length as the payload.\<close>

theorem ipv4_check_accepts:
  "ipv4_check d = Some (h, off, n) \<longleftrightarrow>
     20 \<le> length d \<and> h = ipv4_header_of d \<and> IPV4_GET_VERSION h = 4 \<and>
     off = nat (4 * IPV4_GET_IHL h) \<and> 20 \<le> off \<and>
     int off \<le> uint (ntoh16 (total_length h)) \<and> uint (ntoh16 (total_length h)) \<le> int (length d) \<and>
     n = uint (ntoh16 (total_length h)) - int off \<and>
     65535 dvd sum16 (take off d) \<and> unat (ntoh16 (ip_checksum h)) \<noteq> 65535"
  by (rule ipv4_check_iff)

text \<open>A UDP header that carries the checksum \<^verbatim>\<open>udp_checksum\<close> computes over it with a zero checksum field makes
  the 16-bit words of pseudo header, header and payload sum to a multiple of 65535, for every
  payload whose length fits the length argument, of odd or even length.\<close>

theorem udp_checksum_verifies:
  assumes "length payload = unat payload_len"
  shows "65535 dvd sum16 (udp4_covered
    (header\<lparr>udp_cksum := udp_checksum (header\<lparr>udp_cksum := 0\<rparr>) payload payload_len src dst\<rparr>) payload src dst)"
proof -
  let ?z = "header\<lparr>udp_cksum := 0\<rparr>" and ?c = "udp_checksum (header\<lparr>udp_cksum := 0\<rparr>) payload payload_len src dst"
  have "unat (ntoh16 ?c) = 65535 - ocsum (sum16 (udp4_covered ?z payload src dst))"
    using assms by (rule udp_checksum_value)
  then have "65535 dvd sum16 (udp4_covered ?z payload src dst) + unat (ntoh16 ?c)"
    using complement_iff [OF sum16_udp4_covered(2) unat_u16_less] by blast
  then show ?thesis using sum16_udp4_covered(1) [of "header\<lparr>udp_cksum := ?c\<rparr>"] by simp
qed

theorem udp_checksum_verifies_witness:
  "65535 dvd sum16 (udp4_covered
    (\<lparr>source_port = 5, dest_port = 7, udp_len = hton16 11, udp_cksum = 9\<rparr>
      \<lparr>udp_cksum := udp_checksum (\<lparr>source_port = 5, dest_port = 7, udp_len = hton16 11, udp_cksum = 9\<rparr>
        \<lparr>udp_cksum := 0\<rparr>) [1, 2, 3] 3 0x0100007F 0x0200000A\<rparr>) [1, 2, 3] 0x0100007F 0x0200000A)"
  by (rule udp_checksum_verifies) simp

text \<open>The same for \<^verbatim>\<open>udp_ip6_checksum\<close> and the IPv6 pseudo header.\<close>

theorem udp_ip6_checksum_verifies:
  assumes "length payload = unat payload_len" "length src = 16" "length dst = 16"
  shows "65535 dvd sum16 (udp6_covered
    (header\<lparr>udp_cksum := udp_ip6_checksum (header\<lparr>udp_cksum := 0\<rparr>) payload payload_len src dst\<rparr>) payload src dst)"
proof -
  let ?z = "header\<lparr>udp_cksum := 0\<rparr>" and ?c = "udp_ip6_checksum (header\<lparr>udp_cksum := 0\<rparr>) payload payload_len src dst"
  have "unat (ntoh16 ?c) = 65535 - ocsum (sum16 (udp6_covered ?z payload src dst))"
    using assms by (rule udp_ip6_checksum_value)
  then have "65535 dvd sum16 (udp6_covered ?z payload src dst) + unat (ntoh16 ?c)"
    using complement_iff [OF sum16_udp6_covered(2) [OF assms(2,3)] unat_u16_less] by blast
  then show ?thesis using sum16_udp6_covered(1) [OF assms(2,3), of "header\<lparr>udp_cksum := ?c\<rparr>"] by simp
qed

theorem udp_ip6_checksum_verifies_witness:
  "65535 dvd sum16 (udp6_covered
    (\<lparr>source_port = 5, dest_port = 7, udp_len = hton16 10, udp_cksum = 9\<rparr>
      \<lparr>udp_cksum := udp_ip6_checksum (\<lparr>source_port = 5, dest_port = 7, udp_len = hton16 10, udp_cksum = 9\<rparr>
        \<lparr>udp_cksum := 0\<rparr>) [1, 2] 2 (replicate 16 1) (replicate 16 254)\<rparr>) [1, 2] (replicate 16 1) (replicate 16 254))"
  by (rule udp_ip6_checksum_verifies) simp_all

text \<open>\<^verbatim>\<open>udp_checksum\<close> can return 0, which in a UDP header means that there is no checksum; the code that
  replaces a zero result by \<^verbatim>\<open>0xFFFF\<close> has no effect.\<close>

theorem udp_checksum_zero:
  "udp_checksum \<lparr>source_port = hton16 65502, dest_port = 0, udp_len = hton16 8, udp_cksum = 0\<rparr> [] 0 0 0 = 0"
proof -
  let ?h = "\<lparr>source_port = hton16 65502, dest_port = 0, udp_len = hton16 8, udp_cksum = 0\<rparr>"
  have "sum16 (udp4_covered ?h [] 0 0) = 65535"
    by (simp add: udp4_covered_def udp_header_bytes_def sum16_append ntoh16_zero le32_def)
  then have "unat (ntoh16 (udp_checksum ?h [] 0 0 0)) = 0"
    by (simp add: udp_checksum_value ocsum_def)
  then have "ntoh16 (udp_checksum ?h [] 0 0 0) = ntoh16 0"
    by (simp add: ntoh16_zero unat_eq_zero)
  then show ?thesis by (metis hton16_ntoh16)
qed

end
