(* ===== verification/Parse_Number.thy ===== *)
theory Parse_Number
  imports Prelude
begin

text \<open>
  Decimal and hexadecimal numbers as text: \<^verbatim>\<open>badvpn/misc/parse_number.h\<close>.  A \<^verbatim>\<open>MemRef\<close> is the string it
  refers to; \<^verbatim>\<open>uintmax_t\<close> is a 64-bit word.  The parser detects overflow before it accumulates, the
  generator writes digits from the right.
\<close>

section \<open>Digits\<close>

definition char_code :: "char \<Rightarrow> int" where
  "char_code c = int (of_char c)"

definition decode_decimal_digit :: "char \<Rightarrow> int" where
  "decode_decimal_digit c =
     (if char_code c \<ge> char_code CHR ''0'' \<and> char_code c \<le> char_code CHR ''9''
      then char_code c - char_code CHR ''0'' else -1)"

definition decode_hex_digit :: "char \<Rightarrow> int" where
  "decode_hex_digit c =
     (if char_code c \<ge> char_code CHR ''0'' \<and> char_code c \<le> char_code CHR ''9''
      then char_code c - char_code CHR ''0''
      else if char_code c \<ge> char_code CHR ''A'' \<and> char_code c \<le> char_code CHR ''F''
      then char_code c - char_code CHR ''A'' + 10
      else if char_code c \<ge> char_code CHR ''a'' \<and> char_code c \<le> char_code CHR ''f''
      then char_code c - char_code CHR ''a'' + 10
      else -1)"

definition is_digit :: "char \<Rightarrow> bool" where
  "is_digit c \<longleftrightarrow> 48 \<le> char_code c \<and> char_code c \<le> 57"

definition digit_val :: "char \<Rightarrow> nat" where
  "digit_val c = nat (char_code c - 48)"

lemma char_code_consts [simp]:
  "char_code CHR ''0'' = 48" "char_code CHR ''9'' = 57" "char_code CHR ''A'' = 65" "char_code CHR ''F'' = 70"
  "char_code CHR ''a'' = 97" "char_code CHR ''f'' = 102" "char_code CHR ''1'' = 49"
  by (simp_all add: char_code_def)

lemma digit_val_less: "is_digit c \<Longrightarrow> digit_val c < 10"
  by (auto simp: is_digit_def digit_val_def)

section \<open>Comparing memory\<close>

text \<open>\<^verbatim>\<open>memcmp\<close> and \<^verbatim>\<open>B_COMPARE\<close>: only the sign of the result of \<^verbatim>\<open>memcmp\<close> is specified.\<close>

definition B_COMPARE :: "'a :: linorder \<Rightarrow> 'a \<Rightarrow> int" where
  "B_COMPARE a b = of_bool (a > b) - of_bool (a < b)"

fun list_cmp :: "'a :: linorder list \<Rightarrow> 'a list \<Rightarrow> int" where
  "list_cmp (x # xs) (y # ys) = (if B_COMPARE x y \<noteq> 0 then B_COMPARE x y else list_cmp xs ys)"
| "list_cmp [] [] = 0"
| "list_cmp [] (_ # _) = -1"
| "list_cmp (_ # _) [] = 1"

lemma B_COMPARE_simps [simp]:
  "B_COMPARE a a = 0" "B_COMPARE a b = 0 \<longleftrightarrow> a = b" "0 < B_COMPARE a b \<longleftrightarrow> b < a"
  "B_COMPARE a b < 0 \<longleftrightarrow> a < b" "- B_COMPARE a b = B_COMPARE b a"
  by (auto simp: B_COMPARE_def of_bool_def)

lemma list_cmp_refl [simp]: "list_cmp xs xs = 0"
  by (induction xs) auto

lemma list_cmp_eq_0: "list_cmp xs ys = 0 \<longleftrightarrow> xs = ys"
  by (induction xs ys rule: list_cmp.induct) auto

lemma list_cmp_swap: "list_cmp ys xs = - list_cmp xs ys"
  by (induction xs ys rule: list_cmp.induct) auto

lemma list_cmp_trans: "list_cmp xs ys \<le> 0 \<Longrightarrow> list_cmp ys zs \<le> 0 \<Longrightarrow> list_cmp xs zs \<le> 0"
proof (induction xs ys arbitrary: zs rule: list_cmp.induct)
  case (1 x xs y ys)
  show ?case
  proof (cases zs)
    case (Cons z zs')
    have le: "B_COMPARE a b \<le> 0 \<longleftrightarrow> a \<le> b" for a b :: 'a by (auto simp: B_COMPARE_def of_bool_def)
    show ?thesis using 1 Cons by (auto simp: le split: if_splits)
  qed (use 1 in auto)
next
  case (3 y ys)
  then show ?case by (cases zs) auto
qed auto

lemma list_cmp_append:
  "length xs = length ys \<Longrightarrow>
    list_cmp (xs @ us) (ys @ vs) = (if list_cmp xs ys \<noteq> 0 then list_cmp xs ys else list_cmp us vs)"
  by (induction xs ys rule: list_induct2) auto

section \<open>Parsing\<close>

text \<open>\<^verbatim>\<open>n\<close> is the value accumulated so far; the sum wraps at 64 bits.\<close>

fun parse__no_overflow :: "string \<Rightarrow> u64 \<Rightarrow> u64 option" where
  "parse__no_overflow [] n = Some n"
| "parse__no_overflow (c # str) n =
     (if char_code c < char_code CHR ''0'' \<or> char_code c > char_code CHR ''9'' then None
      else parse__no_overflow str (10 * n + of_int (char_code c - char_code CHR ''0'')))"

definition parse_number__uintmax_max_str :: string where
  "parse_number__uintmax_max_str = ''18446744073709551615''"

definition parse_unsigned_integer :: "string \<Rightarrow> u64 option" where
  "parse_unsigned_integer str =
     (if length str = 0 then None
      else let str = dropWhile (\<lambda>c. c = CHR ''0'') str;
               max_len = length parse_number__uintmax_max_str
      in if length str > max_len \<or>
            (length str = max_len \<and> list_cmp (map char_code str) (map char_code parse_number__uintmax_max_str) > 0)
         then None
         else parse__no_overflow str 0)"

fun parse_hex_loop :: "string \<Rightarrow> u64 \<Rightarrow> u64 option" where
  "parse_hex_loop [] n = Some n"
| "parse_hex_loop (c # str) n =
     (let digit = decode_hex_digit c in
      if digit < 0 then None
      else if n > (- 1) div 16 then None
      else let n = n * 16 in
      if of_int digit > - 1 - n then None
      else parse_hex_loop str (n + of_int digit))"

definition parse_unsigned_hex_integer :: "string \<Rightarrow> u64 option" where
  "parse_unsigned_hex_integer str = (if length str = 0 then None else parse_hex_loop str 0)"

definition parse_signmag_integer :: "string \<Rightarrow> (int \<times> u64) option" where
  "parse_signmag_integer str =
     (let (sign, str) = (if length str > 0 \<and> (str ! 0 = CHR ''+'' \<or> str ! 0 = CHR ''-'')
            then (1 - 2 * of_bool (str ! 0 = CHR ''-''), tl str) else (1, str))
      in map_option (\<lambda>mag. (sign, mag)) (parse_unsigned_integer str))"

section \<open>Generating\<close>

text \<open>\<^verbatim>\<open>do { ...; x /= 10; } while (x > 0)\<close>; \<open>out\<close> is what has been written to the right.\<close>

lemma div10_less: "(x :: u64) div 10 > 0 \<Longrightarrow> unat (x div 10) < unat x"
  by (simp add: unat_div_distrib word_less_nat_alt)

function compute_decimal_repr_size :: "u64 \<Rightarrow> nat" where
  "compute_decimal_repr_size x = (if x div 10 > 0 then 1 + compute_decimal_repr_size (x div 10) else 1)"
  by auto
termination by (relation "measure unat") (use div10_less in auto)

function generate_loop :: "u64 \<Rightarrow> string \<Rightarrow> string" where
  "generate_loop x out =
     (let out = char_of (48 + unat (x mod 10)) # out in
      if x div 10 > 0 then generate_loop (x div 10) out else out)"
  by auto
termination by (relation "measure (unat \<circ> fst)") (use div10_less in auto)

declare compute_decimal_repr_size.simps [simp del] generate_loop.simps [simp del]

definition generate_decimal_repr :: "u64 \<Rightarrow> string" where
  "generate_decimal_repr x = generate_loop x []"

text \<open>The string it writes, without the final zero byte, and the size it returns.\<close>

definition generate_decimal_repr_string :: "u64 \<Rightarrow> string \<times> nat" where
  "generate_decimal_repr_string x = (generate_decimal_repr x, compute_decimal_repr_size x)"

section \<open>The value of a numeral\<close>

definition dec_val :: "string \<Rightarrow> nat" where
  "dec_val str = foldl (\<lambda>n c. 10 * n + digit_val c) 0 str"

definition all_digits :: "string \<Rightarrow> bool" where
  "all_digits str \<longleftrightarrow> (\<forall>c \<in> set str. is_digit c)"

lemma dec_val_append1: "dec_val (str @ [c]) = 10 * dec_val str + digit_val c"
  by (simp add: dec_val_def)

lemma foldl_dec: "foldl (\<lambda>n c. 10 * n + digit_val c) k str = k * 10 ^ length str + dec_val str"
proof (induction str rule: rev_induct)
  case (snoc c str)
  then show ?case by (simp add: dec_val_append1 algebra_simps)
qed (simp add: dec_val_def)

lemma dec_val_Cons: "dec_val (c # str) = digit_val c * 10 ^ length str + dec_val str"
  using foldl_dec [of "digit_val c" str] by (simp add: dec_val_def)

lemma dec_val_less: "all_digits str \<Longrightarrow> dec_val str < 10 ^ length str"
proof (induction str)
  case (Cons c str)
  then have "digit_val c \<le> 9" using digit_val_less [of c] by (simp add: all_digits_def)
  then have "digit_val c * 10 ^ length str \<le> 9 * 10 ^ length str" by (rule mult_right_mono) simp
  moreover have "dec_val str < 10 ^ length str" using Cons by (simp add: all_digits_def)
  ultimately show ?case unfolding dec_val_Cons length_Cons power_Suc by linarith
qed (simp add: dec_val_def)

lemma dec_val_compare:
  "length s = length t \<Longrightarrow> all_digits s \<Longrightarrow> all_digits t \<Longrightarrow>
    list_cmp (map char_code s) (map char_code t) > 0 \<longleftrightarrow> dec_val s > dec_val t"
proof (induction s t rule: list_induct2)
  case (Cons c s d t)
  then have b: "dec_val s < 10 ^ length t" "dec_val t < 10 ^ length t"
    using dec_val_less [of s] dec_val_less [of t] by (auto simp: all_digits_def)
  have lt: "dec_val (c # s) < dec_val (d # t)"
    if "char_code c < char_code d" "length s = length t" "is_digit c" "is_digit d" "dec_val s < 10 ^ length t" for c d s t
  proof -
    have "digit_val c + 1 \<le> digit_val d" using that by (auto simp: digit_val_def is_digit_def)
    then have "(digit_val c + 1) * 10 ^ length t \<le> digit_val d * 10 ^ length t" by (rule mult_right_mono) simp
    with that show ?thesis by (simp add: dec_val_Cons algebra_simps)
  qed
  consider "char_code c < char_code d" | "char_code c = char_code d" | "char_code d < char_code c" by linarith
  then show ?case
  proof cases
    case 1
    with lt [of c d s t] Cons b show ?thesis by (auto simp: all_digits_def B_COMPARE_def)
  next
    case 2
    then have "digit_val c = digit_val d" by (simp add: digit_val_def)
    with 2 Cons show ?thesis by (simp add: dec_val_Cons all_digits_def)
  next
    case 3
    with lt [of d c t s] Cons b show ?thesis by (auto simp: all_digits_def B_COMPARE_def)
  qed
qed (simp add: dec_val_def)

lemma parse__no_overflow_eq:
  "parse__no_overflow str n =
    (if all_digits str then Some (n * 10 ^ length str + of_nat (dec_val str)) else None)"
proof (induction str arbitrary: n)
  case (Cons c str)
  show ?case
  proof (cases "is_digit c")
    case True
    then have "(of_int (char_code c - 48) :: u64) = of_nat (digit_val c)"
      by (simp add: is_digit_def digit_val_def)
    with True Cons [of "10 * n + of_nat (digit_val c)"] show ?thesis
      by (auto simp: is_digit_def all_digits_def dec_val_Cons algebra_simps)
  qed (auto simp: is_digit_def all_digits_def)
qed (simp add: all_digits_def dec_val_def)

lemma strip_zeros:
  "all_digits (dropWhile (\<lambda>c. c = CHR ''0'') str) \<longleftrightarrow> all_digits str"
  "dec_val (dropWhile (\<lambda>c. c = CHR ''0'') str) = dec_val str"
  by (induction str) (auto simp: all_digits_def is_digit_def dec_val_Cons digit_val_def)

lemma strip_zeros_large:
  assumes "all_digits str" "length (dropWhile (\<lambda>c. c = CHR ''0'') str) > k"
  shows "10 ^ k \<le> dec_val str"
proof -
  obtain c s where cs: "dropWhile (\<lambda>c. c = CHR ''0'') str = c # s"
    using assms(2) by (cases "dropWhile (\<lambda>c. c = CHR ''0'') str") auto
  then have "c \<noteq> CHR ''0''" "is_digit c"
    using assms(1) strip_zeros(1) [of str] hd_dropWhile [of "\<lambda>c. c = CHR ''0''" str]
    by (auto simp: all_digits_def)
  then have "char_code c \<noteq> 48" by (simp add: char_code_def) (metis char_of_eq_iff of_char_eq_iff of_nat_numeral char_code_consts(1) char_code_def of_char_of of_nat_eq_iff)
  then have "1 \<le> digit_val c" using \<open>is_digit c\<close> unfolding digit_val_def is_digit_def by linarith
  then have "1 * 10 ^ length s \<le> digit_val c * 10 ^ length s" by (rule mult_right_mono) simp
  then have "10 ^ length s \<le> dec_val (c # s)" unfolding dec_val_Cons by linarith
  moreover have "(10::nat) ^ k \<le> 10 ^ length s" using assms(2) cs by (intro power_increasing) auto
  ultimately show ?thesis unfolding strip_zeros(2) [of str, symmetric] cs by linarith
qed

lemma uintmax_max_str:
  "length parse_number__uintmax_max_str = 20" "all_digits parse_number__uintmax_max_str"
  "dec_val parse_number__uintmax_max_str = 18446744073709551615"
  by (simp_all add: parse_number__uintmax_max_str_def all_digits_def is_digit_def dec_val_def digit_val_def char_code_def)

lemma parse_unsigned_integer_eq:
  "parse_unsigned_integer str =
    (if str \<noteq> [] \<and> all_digits str \<and> dec_val str < 2 ^ 64 then Some (of_nat (dec_val str)) else None)"
proof (cases "str = []")
  case False
  let ?s = "dropWhile (\<lambda>c. c = CHR ''0'') str"
  let ?ovf = "length ?s > 20 \<or> (length ?s = 20 \<and>
    list_cmp (map char_code ?s) (map char_code parse_number__uintmax_max_str) > 0)"
  have ovf: "?ovf \<longleftrightarrow> \<not> dec_val str < 2 ^ 64" if d: "all_digits str"
  proof -
    consider "length ?s > 20" | "length ?s = 20" | "length ?s < 20" by linarith
    then show ?thesis
    proof cases
      case 1
      with strip_zeros_large [OF d 1] show ?thesis by simp
    next
      case 2
      then show ?thesis
        using dec_val_compare [of ?s parse_number__uintmax_max_str] uintmax_max_str d strip_zeros [of str] by auto
    next
      case 3
      have "dec_val ?s < 10 ^ length ?s" using d strip_zeros(1) [of str] by (simp add: dec_val_less)
      also have "\<dots> \<le> 10 ^ 19" using 3 by (intro power_increasing) auto
      finally show ?thesis using 3 strip_zeros(2) [of str] by simp
    qed
  qed
  have "parse_unsigned_integer str = (if ?ovf then None else parse__no_overflow ?s 0)"
    using False uintmax_max_str(1) by (simp add: parse_unsigned_integer_def Let_def)
  also have "\<dots> = (if all_digits str \<and> dec_val str < 2 ^ 64 then Some (of_nat (dec_val str)) else None)"
    using ovf strip_zeros [of str] by (cases "all_digits str") (simp_all add: parse__no_overflow_eq)
  finally show ?thesis using False by simp
qed (simp add: parse_unsigned_integer_def)

text \<open>What the generator writes.\<close>

lemma digit_char: "n < 10 \<Longrightarrow> is_digit (char_of (48 + n)) \<and> digit_val (char_of (48 + n)) = n"
proof -
  assume n: "n < 10"
  have "char_code (char_of (48 + n)) = int ((48 + n) mod 256)" unfolding char_code_def of_char_of ..
  also have "\<dots> = 48 + int n" using n by simp
  finally show ?thesis using n by (simp add: is_digit_def digit_val_def)
qed

lemma generate_loop_props:
  "\<exists>ds. generate_loop x out = ds @ out \<and> ds \<noteq> [] \<and> all_digits ds \<and> dec_val ds = unat x \<and>
    length ds = compute_decimal_repr_size x"
proof (induction x out rule: generate_loop.induct)
  case (1 x out)
  let ?c = "char_of (48 + unat (x mod 10)) :: char"
  have m: "unat (x mod 10) = unat x mod 10" "unat (x div 10) = unat x div 10"
    by (simp_all add: unat_mod_distrib unat_div_distrib)
  have c: "is_digit ?c" "digit_val ?c = unat x mod 10" using digit_char [of "unat x mod 10"] m by auto
  show ?case
  proof (cases "x div 10 > 0")
    case True
    from 1 [OF refl True] obtain ds where ds: "generate_loop (x div 10) (?c # out) = ds @ ?c # out" "ds \<noteq> []"
      "all_digits ds" "dec_val ds = unat x div 10" "length ds = compute_decimal_repr_size (x div 10)"
      using m by auto
    have "generate_loop x out = (ds @ [?c]) @ out"
      using ds(1) True by (simp add: generate_loop.simps [of x] Let_def)
    moreover have "all_digits (ds @ [?c])" using ds(3) c by (auto simp: all_digits_def)
    moreover have "dec_val (ds @ [?c]) = unat x" using ds(4) c by (simp add: dec_val_append1)
    moreover have "length (ds @ [?c]) = compute_decimal_repr_size x"
      using ds(5) True by (simp add: compute_decimal_repr_size.simps [of x])
    ultimately show ?thesis by blast
  next
    case False
    then have "x div 10 = 0" by (simp add: word_gt_0)
    then have "unat x div 10 = 0" using m(2) by simp
    then have "unat x < 10" by simp
    then have "all_digits [?c] \<and> dec_val [?c] = unat x" using c by (simp add: all_digits_def dec_val_def)
    moreover have "generate_loop x out = [?c] @ out" "compute_decimal_repr_size x = length [?c]"
      using False by (simp_all add: generate_loop.simps [of x] compute_decimal_repr_size.simps [of x] Let_def)
    ultimately show ?thesis by (metis not_Cons_self2)
  qed
qed

section \<open>Properties\<close>

text \<open>\<^verbatim>\<open>parse_unsigned_integer\<close> accepts exactly the non-empty strings of decimal digits, with any number of leading
  zeros, whose value is at most \<^verbatim>\<open>UINTMAX_MAX\<close>, and returns that value: the textual overflow test
  is exact.\<close>

theorem parse_unsigned_integer_correct:
  "parse_unsigned_integer str =
    (if str \<noteq> [] \<and> all_digits str \<and> dec_val str < 2 ^ 64 then Some (of_nat (dec_val str)) else None)"
  by (rule parse_unsigned_integer_eq)

text \<open>The text \<^verbatim>\<open>generate_decimal_repr_string\<close> writes for a number has the size \<^verbatim>\<open>compute_decimal_repr_size\<close>
  computes, and \<^verbatim>\<open>parse_unsigned_integer\<close> reads the number back from it.\<close>

theorem decimal_repr_roundtrip:
  "length (fst (generate_decimal_repr_string x)) = snd (generate_decimal_repr_string x) \<and>
   parse_unsigned_integer (fst (generate_decimal_repr_string x)) = Some x"
proof -
  obtain ds where "generate_decimal_repr x = ds" "ds \<noteq> []" "all_digits ds" "dec_val ds = unat x"
    "length ds = compute_decimal_repr_size x"
    using generate_loop_props [of x "[]"] by (auto simp: generate_decimal_repr_def)
  moreover have "unat x < 2 ^ 64" using unsigned_less [of x, where ?'a = nat] by simp
  ultimately show ?thesis by (simp add: generate_decimal_repr_string_def parse_unsigned_integer_eq)
qed

end
