(* ===== verification/BAddr.thy ===== *)
theory BAddr
  imports Misc_Arith Parse_Number
begin

text \<open>
  Socket addresses: \<^verbatim>\<open>badvpn/system/BAddr.h\<close>, and the IPv4 helpers of \<^verbatim>\<open>badvpn/misc/ipaddr.h\<close>.  An address is a
  tagged union and becomes a datatype; an IPv4 address and a port are words in network byte
  order, an IPv6 address the list of its 16 bytes.  Name resolution (\<^verbatim>\<open>getaddrinfo\<close>) is a parameter.
\<close>

section \<open>Addresses\<close>

datatype BIPAddr = BIPAddr_None | BIPAddr_IPv4 u32 | BIPAddr_IPv6 "byte list"

datatype BAddr =
  BAddr_None | BAddr_IPv4 u32 u16 | BAddr_IPv6 "byte list" u16
| BAddr_Packet u16 int int int "byte list"

definition BAddr_type :: "BAddr \<Rightarrow> int" where
  "BAddr_type addr = (case addr of BAddr_None \<Rightarrow> 0 | BAddr_IPv4 _ _ \<Rightarrow> 1 | BAddr_IPv6 _ _ \<Rightarrow> 2
     | BAddr_Packet _ _ _ _ _ \<Rightarrow> 5)"

definition BAddr_wf :: "BAddr \<Rightarrow> bool" where
  "BAddr_wf addr = (case addr of BAddr_IPv6 ip _ \<Rightarrow> length ip = 16 | _ \<Rightarrow> True)"

definition BIPAddr_InitInvalid :: BIPAddr where "BIPAddr_InitInvalid = BIPAddr_None"

definition BIPAddr_InitIPv4 :: "u32 \<Rightarrow> BIPAddr" where "BIPAddr_InitIPv4 ip = BIPAddr_IPv4 ip"

definition BIPAddr_InitIPv6 :: "byte list \<Rightarrow> BIPAddr" where "BIPAddr_InitIPv6 ip = BIPAddr_IPv6 (take 16 ip)"

definition BIPAddr_IsInvalid :: "BIPAddr \<Rightarrow> bool" where
  "BIPAddr_IsInvalid addr = (addr = BIPAddr_None)"

definition BIPAddr_Compare :: "BIPAddr \<Rightarrow> BIPAddr \<Rightarrow> bool" where
  "BIPAddr_Compare addr1 addr2 = (case (addr1, addr2) of
     (BIPAddr_None, BIPAddr_None) \<Rightarrow> False
   | (BIPAddr_IPv4 ip1, BIPAddr_IPv4 ip2) \<Rightarrow> ip1 = ip2
   | (BIPAddr_IPv6 ip1, BIPAddr_IPv6 ip2) \<Rightarrow> list_cmp ip1 ip2 = 0
   | _ \<Rightarrow> False)"

definition BAddr_MakeNone :: BAddr where "BAddr_MakeNone = BAddr_None"

definition BAddr_MakeIPv4 :: "u32 \<Rightarrow> u16 \<Rightarrow> BAddr" where "BAddr_MakeIPv4 ip port = BAddr_IPv4 ip port"

definition BAddr_MakeIPv6 :: "byte list \<Rightarrow> u16 \<Rightarrow> BAddr" where
  "BAddr_MakeIPv6 ip port = BAddr_IPv6 (take 16 ip) port"

definition BAddr_MakeFromIpaddrAndPort :: "BIPAddr \<Rightarrow> u16 \<Rightarrow> BAddr" where
  "BAddr_MakeFromIpaddrAndPort ipaddr port = (case ipaddr of
     BIPAddr_None \<Rightarrow> BAddr_MakeNone
   | BIPAddr_IPv4 ip \<Rightarrow> BAddr_MakeIPv4 ip port
   | BIPAddr_IPv6 ip \<Rightarrow> BAddr_MakeIPv6 ip port)"

definition BAddr_IsInvalid :: "BAddr \<Rightarrow> bool" where
  "BAddr_IsInvalid addr = (addr = BAddr_None)"

definition BAddr_GetPort :: "BAddr \<Rightarrow> u16" where
  "BAddr_GetPort addr = (case addr of BAddr_IPv4 _ port \<Rightarrow> port | BAddr_IPv6 _ port \<Rightarrow> port | _ \<Rightarrow> 0)"

definition BAddr_GetIPAddr :: "BAddr \<Rightarrow> BIPAddr" where
  "BAddr_GetIPAddr addr = (case addr of
     BAddr_IPv4 ip _ \<Rightarrow> BIPAddr_InitIPv4 ip
   | BAddr_IPv6 ip _ \<Rightarrow> BIPAddr_InitIPv6 ip
   | _ \<Rightarrow> BIPAddr_InitInvalid)"

definition BAddr_SetPort :: "BAddr \<Rightarrow> u16 \<Rightarrow> BAddr" where
  "BAddr_SetPort addr port = (case addr of
     BAddr_IPv4 ip _ \<Rightarrow> BAddr_IPv4 ip port
   | BAddr_IPv6 ip _ \<Rightarrow> BAddr_IPv6 ip port
   | _ \<Rightarrow> addr)"

definition BAddr_Compare :: "BAddr \<Rightarrow> BAddr \<Rightarrow> bool" where
  "BAddr_Compare addr1 addr2 = (case (addr1, addr2) of
     (BAddr_IPv4 ip1 port1, BAddr_IPv4 ip2 port2) \<Rightarrow> ip1 = ip2 \<and> port1 = port2
   | (BAddr_IPv6 ip1 port1, BAddr_IPv6 ip2 port2) \<Rightarrow> list_cmp ip1 ip2 = 0 \<and> port1 = port2
   | _ \<Rightarrow> False)"

definition BAddr_CompareOrder :: "BAddr \<Rightarrow> BAddr \<Rightarrow> int" where
  "BAddr_CompareOrder addr1 addr2 =
     (let cmp = B_COMPARE (BAddr_type addr1) (BAddr_type addr2) in
      if cmp \<noteq> 0 then cmp
      else case (addr1, addr2) of
        (BAddr_IPv4 ip1 port1, BAddr_IPv4 ip2 port2) \<Rightarrow>
          (let cmp = B_COMPARE (ntoh32 ip1) (ntoh32 ip2) in
           if cmp \<noteq> 0 then cmp else B_COMPARE (ntoh16 port1) (ntoh16 port2))
      | (BAddr_IPv6 ip1 port1, BAddr_IPv6 ip2 port2) \<Rightarrow>
          (let cmp = list_cmp ip1 ip2 in
           if cmp \<noteq> 0 then B_COMPARE cmp 0 else B_COMPARE (ntoh16 port1) (ntoh16 port2))
      | _ \<Rightarrow> 0)"

section \<open>Parsing an address and a port\<close>

text \<open>\<^verbatim>\<open>strtol(s, &err, 10)\<close>: the value of the longest prefix of white space, sign and digits, and the rest.\<close>

definition is_space :: "char \<Rightarrow> bool" where
  "is_space c \<longleftrightarrow> char_code c = 32 \<or> (9 \<le> char_code c \<and> char_code c \<le> 13)"

definition strtol10 :: "string \<Rightarrow> int \<times> string" where
  "strtol10 str =
     (let s = dropWhile is_space str;
          (sign, s1) = (case s of c # r \<Rightarrow> if c = CHR ''-'' then (-1, r) else if c = CHR ''+'' then (1, r) else (1, s)
                        | [] \<Rightarrow> (1, s));
          ds = takeWhile is_digit s1
      in if ds = [] then (0, str) else (sign * int (dec_val ds), dropWhile is_digit s1))"

text \<open>
  \<^verbatim>\<open>BAddr_Parse2\<close> on the characters before the terminating zero.  \<open>resolve\<close> is \<^verbatim>\<open>getaddrinfo\<close> for the
  address family (\<open>True\<close> for IPv6) and the flag \<open>noresolve\<close>; \<open>name_len\<close> is \<open>None\<close> for no name buffer.
  The result is the address and the host part.
\<close>

definition BAddr_split :: "string \<Rightarrow> (bool \<times> string \<times> string) option" where
  "BAddr_split str =
     (let len = length str in
      if str ! 0 = CHR ''['' then
        (let i = 1 + length (takeWhile (\<lambda>c. c \<noteq> CHR '']'') (drop 1 str)) in
         if i \<ge> len then None
         else if i + 1 \<ge> len \<or> str ! (i + 1) \<noteq> CHR '':'' then None
         else Some (True, take (i - 1) (drop 1 str), drop (i + 2) str))
      else
        (let i = length (takeWhile (\<lambda>c. c \<noteq> CHR '':'') str) in
         if i \<ge> len then None
         else Some (False, take i str, drop (i + 1) str)))"

definition parse_port :: "string \<Rightarrow> u16 option" where
  "parse_port port_str =
     (let (conv_res, err) = strtol10 port_str in
      if port_str = [] \<or> err \<noteq> [] then None
      else if conv_res < 0 \<or> conv_res > 65535 then None
      else Some (hton16 (of_int conv_res)))"

definition BAddr_Parse2 ::
    "(bool \<Rightarrow> bool \<Rightarrow> string \<Rightarrow> BIPAddr option) \<Rightarrow> string \<Rightarrow> nat option \<Rightarrow> bool \<Rightarrow> (BAddr \<times> string) option" where
  "BAddr_Parse2 resolve str name_len noresolve =
     (if length str < 1 \<or> length str > 1000 then None
      else case BAddr_split str of
        None \<Rightarrow> None
      | Some (v6, addr_str, port_str) \<Rightarrow>
          if length addr_str \<ge> 128 then None
          else if length port_str \<ge> 6 then None
          else case parse_port port_str of
            None \<Rightarrow> None
          | Some port \<Rightarrow>
              (case resolve v6 noresolve addr_str of
                 None \<Rightarrow> None
               | Some ipaddr \<Rightarrow>
                   (case name_len of
                      Some n \<Rightarrow> if length addr_str \<ge> n then None
                        else Some (BAddr_MakeFromIpaddrAndPort ipaddr port, addr_str)
                    | None \<Rightarrow> Some (BAddr_MakeFromIpaddrAndPort ipaddr port, addr_str))))"

definition BAddr_Parse ::
    "(bool \<Rightarrow> bool \<Rightarrow> string \<Rightarrow> BIPAddr option) \<Rightarrow> string \<Rightarrow> nat option \<Rightarrow> (BAddr \<times> string) option" where
  "BAddr_Parse resolve str name_len = BAddr_Parse2 resolve str name_len False"

section \<open>IPv4 helpers\<close>

text \<open>
  The loop over the four parts of a dotted address: \<open>i\<close> is the number of the part, \<open>name\<close> the text
  that is left, \<open>out\<close> the bytes written so far.
\<close>

function parse_ipv4_loop :: "nat \<Rightarrow> string \<Rightarrow> byte list \<Rightarrow> byte list option" where
  "parse_ipv4_loop i name out =
     (let j = length (takeWhile (\<lambda>c. c \<noteq> CHR ''.'') name) in
      if (j = length name \<and> i < 3) \<or> (j < length name \<and> i = 3) then None
      else if j < 1 \<or> j > 3 then None
      else case parse_unsigned_integer (take j name) of
        None \<Rightarrow> None
      | Some d \<Rightarrow>
          if d > 255 then None
          else if i \<ge> 3 then Some (out @ [ucast d])
          else parse_ipv4_loop (i + 1) (drop (j + 1) name) (out @ [ucast d]))"
  by auto
termination by (relation "measure (\<lambda>(i, _, _). 3 - i)") auto

declare parse_ipv4_loop.simps [simp del]

definition ipaddr_parse_ipv4_addr :: "string \<Rightarrow> u32 option" where
  "ipaddr_parse_ipv4_addr name = map_option un_le32 (parse_ipv4_loop 0 name [])"

definition ipaddr_parse_ipv4_prefix :: "string \<Rightarrow> int option" where
  "ipaddr_parse_ipv4_prefix str =
     (case parse_unsigned_integer str of
        None \<Rightarrow> None
      | Some d \<Rightarrow> if d > 32 then None else Some (uint d))"

definition ipaddr_parse_ipv4_ifaddr :: "string \<Rightarrow> (u32 \<times> int) option" where
  "ipaddr_parse_ipv4_ifaddr str =
     (let slash_pos = length (takeWhile (\<lambda>c. c \<noteq> CHR ''/'') str) in
      if slash_pos \<ge> length str then None
      else case ipaddr_parse_ipv4_addr (take slash_pos str) of
        None \<Rightarrow> None
      | Some addr \<Rightarrow> map_option (\<lambda>prefix. (addr, prefix)) (ipaddr_parse_ipv4_prefix (drop (slash_pos + 1) str)))"

text \<open>The mask after \<open>i\<close> rounds of \<^verbatim>\<open>t |= 1 << (32 - i - 1)\<close>.\<close>

primrec mask_bits :: "nat \<Rightarrow> u32" where
  "mask_bits 0 = 0"
| "mask_bits (Suc i) = mask_bits i OR push_bit (31 - i) 1"

definition ipaddr_ipv4_mask_from_prefix :: "nat \<Rightarrow> u32" where
  "ipaddr_ipv4_mask_from_prefix prefix = hton32 (mask_bits prefix)"

fun prefix_loop :: "nat \<Rightarrow> u32 \<Rightarrow> nat option" where
  "prefix_loop 0 msk = (if ntoh32 msk = mask_bits 32 then Some 32 else None)"
| "prefix_loop (Suc k) msk = (if ntoh32 msk = mask_bits (31 - k) then Some (31 - k) else prefix_loop k msk)"

text \<open>The loop runs \<open>i\<close> from 0 to 32; \<open>prefix_loop k\<close> is the round with \<open>i = 32 - k\<close>.\<close>

definition ipaddr_ipv4_prefix_from_mask :: "u32 \<Rightarrow> nat option" where
  "ipaddr_ipv4_prefix_from_mask msk = prefix_loop 32 msk"

definition ipaddr_ipv4_ifaddr_from_addr_mask :: "u32 \<Rightarrow> u32 \<Rightarrow> (u32 \<times> nat) option" where
  "ipaddr_ipv4_ifaddr_from_addr_mask addr msk =
     map_option (\<lambda>prefix. (addr, prefix)) (ipaddr_ipv4_prefix_from_mask msk)"

definition ipaddr_ipv4_addrs_in_network :: "u32 \<Rightarrow> u32 \<Rightarrow> nat \<Rightarrow> bool" where
  "ipaddr_ipv4_addrs_in_network addr1 addr2 netprefix =
     (let msk = ipaddr_ipv4_mask_from_prefix netprefix in addr1 AND msk = addr2 AND msk)"

text \<open>\<^verbatim>\<open>sprintf\<close> with \<^verbatim>\<open>PRIu8\<close> writes the decimal representation of a byte.\<close>

definition print_u8 :: "byte \<Rightarrow> string" where
  "print_u8 b = generate_decimal_repr (ucast b)"

definition ipaddr_print_addr :: "u32 \<Rightarrow> string" where
  "ipaddr_print_addr addr =
     (let b = le32 addr in
      print_u8 (b ! 0) @ ''.'' @ print_u8 (b ! 1) @ ''.'' @ print_u8 (b ! 2) @ ''.'' @ print_u8 (b ! 3))"

section \<open>The order on addresses\<close>

text \<open>Addresses compare as these lists do.\<close>

definition baddr_key :: "BAddr \<Rightarrow> int list" where
  "baddr_key addr = (case addr of
     BAddr_IPv4 ip port \<Rightarrow> [1, uint (ntoh32 ip), uint (ntoh16 port)]
   | BAddr_IPv6 ip port \<Rightarrow> 2 # map uint ip @ [uint (ntoh16 port)]
   | _ \<Rightarrow> [BAddr_type addr])"

lemma B_COMPARE_less: "a < b \<Longrightarrow> B_COMPARE a b = -1" "b < a \<Longrightarrow> B_COMPARE a b = 1"
  by (auto simp: B_COMPARE_def)

lemma B_COMPARE_word: "B_COMPARE (a :: 'w :: len word) b = B_COMPARE (uint a) (uint b)"
  by (simp add: B_COMPARE_def word_less_alt)

lemma list_cmp_word: "list_cmp (xs :: 'w :: len word list) ys = list_cmp (map uint xs) (map uint ys)"
  by (induction xs ys rule: list_cmp.induct) (auto simp: B_COMPARE_word)

lemma list_cmp_sign: "B_COMPARE (list_cmp xs ys) 0 = list_cmp xs ys"
  by (induction xs ys rule: list_cmp.induct) (auto simp: B_COMPARE_def of_bool_def)

lemma CompareOrder_key:
  assumes "BAddr_wf a" "BAddr_wf b"
  shows "BAddr_CompareOrder a b = list_cmp (baddr_key a) (baddr_key b)"
  using assms
  by (cases a; cases b)
     (auto simp: BAddr_CompareOrder_def baddr_key_def BAddr_type_def BAddr_wf_def B_COMPARE_word
       list_cmp_word list_cmp_sign list_cmp_append Let_def B_COMPARE_less)

lemma ntoh_inject: "ntoh16 x = ntoh16 y \<longleftrightarrow> x = y" "ntoh32 u = ntoh32 v \<longleftrightarrow> u = v"
  by (metis hton16_ntoh16) (metis ntoh32_def ntoh32_hton32)

lemma map_uint_inject: "map uint xs = map uint (ys :: 'w :: len word list) \<longleftrightarrow> xs = ys"
  by (rule inj_map_eq_map) (auto simp: inj_def intro: unsigned_word_eqI)

section \<open>Masks\<close>

lemma bit_mask_bits: "i \<le> 32 \<Longrightarrow> bit (mask_bits i) n \<longleftrightarrow> 32 - i \<le> n \<and> n < 32"
proof (induction i)
  case (Suc i)
  then show ?case by (auto simp: bit_or_iff bit_exp_iff)
qed auto

lemma mask_bits_inject: "i \<le> 32 \<Longrightarrow> j \<le> 32 \<Longrightarrow> mask_bits i = mask_bits j \<longleftrightarrow> i = j"
proof -
  have "i \<le> j" if "i \<le> 32" "j \<le> 32" "mask_bits i = mask_bits j" for i j
  proof (cases "i = 0")
    case False
    then have "bit (mask_bits i) (32 - i)" using that(1) by (simp add: bit_mask_bits)
    then have "bit (mask_bits j) (32 - i)" unfolding that(3) .
    then have "32 - j \<le> 32 - i" using that(2) bit_mask_bits [of j "32 - i"] by blast
    then show ?thesis using that by linarith
  qed simp
  then show "i \<le> 32 \<Longrightarrow> j \<le> 32 \<Longrightarrow> mask_bits i = mask_bits j \<longleftrightarrow> i = j" by (metis order_antisym)
qed

lemma prefix_loop_find:
  "k \<le> 32 \<Longrightarrow> 32 - k \<le> p \<Longrightarrow> p \<le> 32 \<Longrightarrow> ntoh32 msk = mask_bits p \<Longrightarrow> prefix_loop k msk = Some p"
proof (induction k)
  case (Suc k)
  then show ?case by (cases "p = 31 - k") (auto simp: mask_bits_inject)
qed auto

lemma bit_word32_of:
  "n < 32 \<Longrightarrow> bit (word32_of a b c d) n =
    (if n < 8 then bit a n else if n < 16 then bit b (n - 8) else if n < 24 then bit c (n - 16) else bit d (n - 24))"
  by (auto simp: word32_of_def bit_simps)

lemma ntoh32_and: "ntoh32 (x AND y) = ntoh32 x AND ntoh32 y"
proof (rule bit_word_eqI)
  fix n assume "n < LENGTH(32)"
  then have n: "n < 32" by simp
  then show "bit (ntoh32 (x AND y)) n = bit (ntoh32 x AND ntoh32 y) n"
    by (auto simp: ntoh32_def hton32_def badvpn_reverse32_def bit_word32_of bit_simps)
qed

lemma and_mask_bits:
  assumes "p \<le> 32"
  shows "x AND mask_bits p = y AND mask_bits p \<longleftrightarrow> drop_bit (32 - p) x = drop_bit (32 - p) y"
proof
  assume eq: "x AND mask_bits p = y AND mask_bits p"
  show "drop_bit (32 - p) x = drop_bit (32 - p) y"
  proof (rule bit_word_eqI)
    fix n
    show "bit (drop_bit (32 - p) x) n = bit (drop_bit (32 - p) y) n"
    proof (cases "32 - p + n < 32")
      case True
      have "bit (x AND mask_bits p) (32 - p + n) = bit (y AND mask_bits p) (32 - p + n)" using eq by simp
      moreover have "32 - p \<le> 32 + n - p" using assms by linarith
      ultimately show ?thesis using True assms by (simp add: bit_simps bit_mask_bits)
    qed (auto simp: bit_simps dest: bit_imp_le_length)
  qed
next
  assume eq: "drop_bit (32 - p) x = drop_bit (32 - p) y"
  show "x AND mask_bits p = y AND mask_bits p"
  proof (rule bit_word_eqI)
    fix n
    show "bit (x AND mask_bits p) n = bit (y AND mask_bits p) n"
    proof (cases "32 - p \<le> n")
      case True
      have "bit (drop_bit (32 - p) x) (n - (32 - p)) = bit (drop_bit (32 - p) y) (n - (32 - p))" using eq by simp
      with True show ?thesis by (simp add: bit_simps)
    qed (use assms in \<open>simp add: bit_simps bit_mask_bits\<close>)
  qed
qed

section \<open>Dotted addresses\<close>

lemma print_u8_props:
  obtains ds where "print_u8 b = ds" "ds \<noteq> []" "all_digits ds" "dec_val ds = unat b" "length ds \<le> 3"
proof -
  have u: "unat (ucast b :: u64) = unat b"
    using unat_byte_less [of b] by (simp add: unsigned_ucast_eq take_bit_eq_mod)
  let ?x = "ucast b :: u64"
  have "unat (?x div 10 div 10 div 10) = 0"
    using unat_byte_less [of b] by (simp add: unat_div_distrib u)
  then have "?x div 10 div 10 div 10 = 0" by (simp add: unat_eq_zero)
  then have "compute_decimal_repr_size ?x \<le> 3"
    by (simp add: compute_decimal_repr_size.simps [of ?x] compute_decimal_repr_size.simps [of "?x div 10"]
        compute_decimal_repr_size.simps [of "?x div 10 div 10"])
  with generate_loop_props [of ?x "[]"] u that show thesis
    by (auto simp: print_u8_def generate_decimal_repr_def)
qed

lemma digits_no_dot: "all_digits ds \<Longrightarrow> takeWhile (\<lambda>c. c \<noteq> CHR ''.'') (ds @ r) = ds @ takeWhile (\<lambda>c. c \<noteq> CHR ''.'') r"
  by (rule takeWhile_append2) (auto simp: all_digits_def is_digit_def char_code_def)

lemma parse_part:
  shows "i < 3 \<Longrightarrow> parse_ipv4_loop i (print_u8 b @ ''.'' @ r) out = parse_ipv4_loop (i + 1) r (out @ [b])"
    and "parse_ipv4_loop 3 (print_u8 b) out = Some (out @ [b])"
proof -
  obtain ds where ds: "print_u8 b = ds" "ds \<noteq> []" "all_digits ds" "dec_val ds = unat b" "length ds \<le> 3"
    by (rule print_u8_props)
  have p: "parse_unsigned_integer ds = Some (ucast b)"
    using ds unat_byte_less [of b] by (simp add: parse_unsigned_integer_eq)
  have le: "\<not> (ucast b :: u64) > 255"
    using unat_byte_less [of b] by (simp add: word_less_nat_alt unsigned_ucast_eq take_bit_eq_mod)
  have c: "ucast (ucast b :: u64) = b" by (rule bit_word_eqI) (simp add: bit_simps)
  have len: "1 \<le> length ds" using ds(2) by (cases ds) auto
  show "i < 3 \<Longrightarrow> parse_ipv4_loop i (print_u8 b @ ''.'' @ r) out = parse_ipv4_loop (i + 1) r (out @ [b])"
    using p le c len ds by (simp add: parse_ipv4_loop.simps [of i] digits_no_dot Let_def)
  show "parse_ipv4_loop 3 (print_u8 b) out = Some (out @ [b])"
  proof -
    have tw: "takeWhile (\<lambda>c. c \<noteq> CHR ''.'') ds = ds" using digits_no_dot [OF ds(3), of "[]"] by simp
    show ?thesis
      using p le c len ds(2,5) unfolding ds(1) parse_ipv4_loop.simps [of 3] Let_def tw by simp
  qed
qed

section \<open>Properties\<close>

text \<open>\<^verbatim>\<open>BAddr_CompareOrder\<close> is a total order on well-formed addresses: antisymmetric, transitive, and its zero is
  the equality \<^verbatim>\<open>BAddr_Compare\<close> tests on IPv4 and IPv6 addresses.\<close>

theorem BAddr_CompareOrder_total:
  assumes "BAddr_wf a" "BAddr_wf b" "BAddr_wf c"
  shows "BAddr_CompareOrder b a = - BAddr_CompareOrder a b \<and>
    (BAddr_CompareOrder a b \<le> 0 \<longrightarrow> BAddr_CompareOrder b c \<le> 0 \<longrightarrow> BAddr_CompareOrder a c \<le> 0) \<and>
    (BAddr_type a = 1 \<or> BAddr_type a = 2 \<longrightarrow> (BAddr_CompareOrder a b = 0 \<longleftrightarrow> BAddr_Compare a b) \<and> (BAddr_Compare a b \<longleftrightarrow> a = b))"
proof -
  note keys = CompareOrder_key [OF assms(1,2)] CompareOrder_key [OF assms(2,1)] CompareOrder_key [OF assms(2,3)]
    CompareOrder_key [OF assms(1,3)]
  have "BAddr_Compare a b \<longleftrightarrow> a = b" if "BAddr_type a = 1 \<or> BAddr_type a = 2"
    using that by (cases a; cases b) (auto simp: BAddr_type_def BAddr_Compare_def list_cmp_eq_0)
  moreover have "baddr_key a = baddr_key b \<longleftrightarrow> a = b" if "BAddr_type a = 1 \<or> BAddr_type a = 2"
    using that by (cases a; cases b)
      (auto simp: BAddr_type_def baddr_key_def ntoh_inject map_uint_inject dest: unsigned_word_eqI)
  ultimately show ?thesis
    unfolding keys
    using list_cmp_swap [of "baddr_key b" "baddr_key a"] list_cmp_trans [of "baddr_key a" "baddr_key b" "baddr_key c"]
      list_cmp_eq_0 [of "baddr_key a" "baddr_key b"] by blast
qed

theorem BAddr_CompareOrder_total_witness:
  "BAddr_CompareOrder (BAddr_IPv6 (replicate 16 1) 0) (BAddr_IPv4 1 2) =
      - BAddr_CompareOrder (BAddr_IPv4 1 2) (BAddr_IPv6 (replicate 16 1) 0) \<and>
    BAddr_CompareOrder (BAddr_IPv4 1 2) (BAddr_IPv6 (replicate 16 2) 0) \<le> 0 \<and>
    BAddr_CompareOrder (BAddr_IPv4 1 2) (BAddr_IPv6 (replicate 16 1) 0) \<noteq> 0"
proof -
  have "BAddr_wf (BAddr_IPv4 1 2)" "BAddr_wf (BAddr_IPv6 (replicate 16 1) 0)" "BAddr_wf (BAddr_IPv6 (replicate 16 2) 0)"
    "BAddr_type (BAddr_IPv4 1 2) = 1" "\<not> BAddr_Compare (BAddr_IPv4 1 2) (BAddr_IPv6 (replicate 16 1) 0)"
    "BAddr_CompareOrder (BAddr_IPv4 1 2) (BAddr_IPv6 (replicate 16 1) 0) \<le> 0"
    "BAddr_CompareOrder (BAddr_IPv6 (replicate 16 1) 0) (BAddr_IPv6 (replicate 16 2) 0) \<le> 0"
    by code_simp+
  with BAddr_CompareOrder_total [OF this(1-3)] show ?thesis by simp
qed

text \<open>An IPv4 address that \<^verbatim>\<open>ipaddr_print_addr\<close> wrote is read back by \<^verbatim>\<open>ipaddr_parse_ipv4_addr\<close>.\<close>

theorem ipaddr_print_parse:
  "ipaddr_parse_ipv4_addr (ipaddr_print_addr addr) = Some addr"
proof -
  obtain b0 b1 b2 b3 where b: "le32 addr = [b0, b1, b2, b3]" by (simp add: le32_def)
  have print: "ipaddr_print_addr addr =
      print_u8 b0 @ ''.'' @ print_u8 b1 @ ''.'' @ print_u8 b2 @ ''.'' @ print_u8 b3"
    by (simp add: ipaddr_print_addr_def b)
  have "parse_ipv4_loop 0 (ipaddr_print_addr addr) [] = Some [b0, b1, b2, b3]"
    using parse_part(1) [of 0 b0 _ "[]"] parse_part(1) [of 1 b1 _ "[b0]"] parse_part(1) [of 2 b2 _ "[b0, b1]"]
      parse_part(2) [of b3 "[b0, b1, b2]"]
    by (simp add: print eval_nat_numeral)
  then show ?thesis
    unfolding ipaddr_parse_ipv4_addr_def using b un_layouts_exact(3) [of addr] by simp
qed

text \<open>For every prefix length from 0 to 32, the prefix is recovered from its mask, and two addresses are in the same
  network exactly when the first \<open>p\<close> bits of their host-order values agree.\<close>

theorem ipv4_prefix_mask:
  assumes "p \<le> 32"
  shows "ipaddr_ipv4_prefix_from_mask (ipaddr_ipv4_mask_from_prefix p) = Some p \<and>
    (ipaddr_ipv4_addrs_in_network a b p \<longleftrightarrow> drop_bit (32 - p) (ntoh32 a) = drop_bit (32 - p) (ntoh32 b))"
proof -
  let ?m = "ipaddr_ipv4_mask_from_prefix p"
  have m: "ntoh32 ?m = mask_bits p" by (simp add: ipaddr_ipv4_mask_from_prefix_def)
  have "ipaddr_ipv4_prefix_from_mask ?m = Some p"
    unfolding ipaddr_ipv4_prefix_from_mask_def using assms m by (intro prefix_loop_find) auto
  moreover have "ipaddr_ipv4_addrs_in_network a b p \<longleftrightarrow> ntoh32 (a AND ?m) = ntoh32 (b AND ?m)"
    by (simp add: ipaddr_ipv4_addrs_in_network_def ntoh_inject Let_def)
  ultimately show ?thesis using and_mask_bits [OF assms] by (simp add: ntoh32_and m)
qed

theorem ipv4_prefix_mask_witness:
  "ipaddr_ipv4_prefix_from_mask (ipaddr_ipv4_mask_from_prefix 24) = Some 24 \<and>
    (ipaddr_ipv4_addrs_in_network 0x0100000A 0x0200000A 24 \<longleftrightarrow>
      drop_bit (32 - 24) (ntoh32 0x0100000A) = drop_bit (32 - 24) (ntoh32 0x0200000A))"
  by (rule ipv4_prefix_mask) simp

end
