(* ===== verification/BSocksClient.thy ===== *)
theory BSocksClient
  imports BAddr
begin

text \<open>
  The SOCKS5 client \<^verbatim>\<open>badvpn/socksclient/BSocksClient.c\<close>: a state machine driven by the connector, the completion
  of sends and receives, and connection errors.  A handler takes the client and returns it with
  the calls it makes: sends, receives into its buffer, and events for the user.  The set-up and
  release of its I/O objects is tracked in the state, and a set-up or release out of order makes
  the handler's result \<open>None\<close>.  \<^verbatim>\<open>BRealloc\<close> is a parameter of the handlers that call it.
\<close>

section \<open>State\<close>

datatype sc_state = STATE_CONNECTING | STATE_SENDING_HELLO | STATE_SENT_HELLO | STATE_SENDING_PASSWORD
  | STATE_SENT_PASSWORD | STATE_SENDING_REQUEST | STATE_SENT_REQUEST | STATE_RECEIVED_REPLY_HEADER | STATE_UP

datatype sc_io = Io_None | Io_Control | Io_Up

record auth_info =
  auth_type :: int
  auth_username :: "byte list"
  auth_password :: "byte list"

record BSocksClient =
  sc_auth_info :: "auth_info list"
  sc_dest_addr :: BAddr
  sc_state :: sc_state
  sc_buffer :: "byte list option"
  sc_connector :: bool
  sc_con :: bool
  sc_io :: sc_io
  sc_recv_dest :: int
  sc_recv_len :: int
  sc_recv_total :: int

datatype sc_event = SC_ERROR | SC_UP | SC_ERROR_CLOSED

datatype sc_action = Sc_Send "byte list" | Sc_Recv int int | Sc_Event sc_event

type_synonym sc_result = "(BSocksClient \<times> sc_action list) option"

text \<open>\<^verbatim>\<open>BRealloc\<close> maps the old buffer and a size to the new buffer, \<open>None\<close> on failure.\<close>

type_synonym realloc = "byte list option \<Rightarrow> nat \<Rightarrow> byte list option"

definition BSocksClient_auth_none :: auth_info where
  "BSocksClient_auth_none = \<lparr>auth_type = 0, auth_username = [], auth_password = []\<rparr>"

definition BSocksClient_auth_password :: "byte list \<Rightarrow> byte list \<Rightarrow> auth_info" where
  "BSocksClient_auth_password username password =
     \<lparr>auth_type = 2, auth_username = username, auth_password = password\<rparr>"

section \<open>Helpers\<close>

definition report_error :: "BSocksClient \<Rightarrow> sc_event \<Rightarrow> sc_result" where
  "report_error c error = Some (c, [Sc_Event error])"

definition init_control_io :: "BSocksClient \<Rightarrow> BSocksClient option" where
  "init_control_io c = (if sc_con c \<and> sc_io c = Io_None then Some (c\<lparr>sc_io := Io_Control\<rparr>) else None)"

definition free_control_io :: "BSocksClient \<Rightarrow> BSocksClient option" where
  "free_control_io c = (if sc_con c \<and> sc_io c = Io_Control then Some (c\<lparr>sc_io := Io_None\<rparr>) else None)"

definition init_up_io :: "BSocksClient \<Rightarrow> BSocksClient option" where
  "init_up_io c = (if sc_con c \<and> sc_io c = Io_None then Some (c\<lparr>sc_io := Io_Up\<rparr>) else None)"

definition free_up_io :: "BSocksClient \<Rightarrow> BSocksClient option" where
  "free_up_io c = (if sc_con c \<and> sc_io c = Io_Up then Some (c\<lparr>sc_io := Io_None\<rparr>) else None)"

definition free_con :: "BSocksClient \<Rightarrow> BSocksClient option" where
  "free_con c = (if sc_con c \<and> sc_io c = Io_None then Some (c\<lparr>sc_con := False\<rparr>) else None)"

definition reserve_buffer :: "realloc \<Rightarrow> BSocksClient \<Rightarrow> bsize_t \<Rightarrow> BSocksClient option" where
  "reserve_buffer realloc c sz =
     (if is_overflow sz then None
      else case realloc (sc_buffer c) (unat (bvalue sz)) of
        None \<Rightarrow> None
      | Some buffer \<Rightarrow> Some (c\<lparr>sc_buffer := Some buffer\<rparr>))"

text \<open>The buffer after \<^verbatim>\<open>memcpy\<close> of \<open>bs\<close> to offset \<open>off\<close>, and the first \<open>n\<close> bytes of it.\<close>

definition buf_write :: "BSocksClient \<Rightarrow> nat \<Rightarrow> byte list \<Rightarrow> BSocksClient" where
  "buf_write c off bs = c\<lparr>sc_buffer := map_option (\<lambda>b. mem_write b off bs) (sc_buffer c)\<rparr>"

definition buf_read :: "BSocksClient \<Rightarrow> nat \<Rightarrow> nat \<Rightarrow> byte list" where
  "buf_read c off n = (case sc_buffer c of None \<Rightarrow> [] | Some b \<Rightarrow> mem_read b off n)"

definition do_receive :: "BSocksClient \<Rightarrow> sc_action" where
  "do_receive c = Sc_Recv (sc_recv_dest c + sc_recv_len c) (sc_recv_total c - sc_recv_len c)"

definition start_receive :: "BSocksClient \<Rightarrow> int \<Rightarrow> int \<Rightarrow> BSocksClient \<times> sc_action" where
  "start_receive c dest tot =
     (let c1 = c\<lparr>sc_recv_dest := dest, sc_recv_len := 0, sc_recv_total := tot\<rparr> in (c1, do_receive c1))"

section \<open>Handlers\<close>

definition hello_size :: "nat \<Rightarrow> bsize_t" where
  "hello_size n = bsize_add (bsize_fromsize 2) (bsize_mul (bsize_fromsize (of_nat n)) (bsize_fromsize 1))"

text \<open>\<open>con_ok\<close> is the result of \<^verbatim>\<open>BConnection_Init\<close>.\<close>

definition connector_handler :: "realloc \<Rightarrow> BSocksClient \<Rightarrow> bool \<Rightarrow> bool \<Rightarrow> sc_result" where
  "connector_handler realloc c is_error con_ok =
     (if is_error then report_error c SC_ERROR
      else if \<not> con_ok then report_error c SC_ERROR
      else case init_control_io (c\<lparr>sc_con := True\<rparr>) of
        None \<Rightarrow> None
      | Some c1 \<Rightarrow>
          (let n = length (sc_auth_info c1);
               fail1 = (case free_control_io c1 of
                   None \<Rightarrow> None
                 | Some c2 \<Rightarrow> (case free_con c2 of None \<Rightarrow> None | Some c3 \<Rightarrow> report_error c3 SC_ERROR));
               sz = hello_size n
           in if n = 0 \<or> n > 255 then fail1
              else case reserve_buffer realloc c1 sz of
                None \<Rightarrow> fail1
              | Some c2 \<Rightarrow>
                  (let c3 = buf_write c2 0 [5, of_nat n];
                       c4 = buf_write c3 2 (map (\<lambda>ai. of_int (auth_type ai)) (sc_auth_info c3))
                   in Some (c4\<lparr>sc_state := STATE_SENDING_HELLO\<rparr>,
                            [Sc_Send (buf_read c4 0 (unat (bvalue sz)))]))))"

definition connection_handler :: "BSocksClient \<Rightarrow> bool \<Rightarrow> sc_result" where
  "connection_handler c recvclosed =
     (if sc_state c = STATE_UP \<and> recvclosed then report_error c SC_ERROR_CLOSED else report_error c SC_ERROR)"

definition request_addr :: "BAddr \<Rightarrow> byte list" where
  "request_addr addr = (case addr of
     BAddr_IPv4 ip port \<Rightarrow> le32 ip @ le16 port
   | BAddr_IPv6 ip port \<Rightarrow> ip @ le16 port
   | _ \<Rightarrow> [])"

definition request_atyp :: "BAddr \<Rightarrow> byte" where
  "request_atyp addr = (case addr of BAddr_IPv4 _ _ \<Rightarrow> 1 | BAddr_IPv6 _ _ \<Rightarrow> 4 | _ \<Rightarrow> 0)"

definition request_size :: "BAddr \<Rightarrow> bsize_t" where
  "request_size addr = (case addr of
     BAddr_IPv4 _ _ \<Rightarrow> bsize_add (bsize_fromsize 4) (bsize_fromsize 6)
   | BAddr_IPv6 _ _ \<Rightarrow> bsize_add (bsize_fromsize 4) (bsize_fromsize 18)
   | _ \<Rightarrow> bsize_fromsize 4)"

definition auth_finished :: "realloc \<Rightarrow> BSocksClient \<Rightarrow> sc_result" where
  "auth_finished realloc c =
     (let sz = request_size (sc_dest_addr c) in
      case reserve_buffer realloc c sz of
        None \<Rightarrow> report_error c SC_ERROR
      | Some c1 \<Rightarrow>
          (let c2 = buf_write c1 4 (request_addr (sc_dest_addr c1));
               c3 = buf_write c2 0 [5, 1, 0, request_atyp (sc_dest_addr c2)]
           in Some (c3\<lparr>sc_state := STATE_SENDING_REQUEST\<rparr>, [Sc_Send (buf_read c3 0 (unat (bvalue sz)))])))"

definition password_packet :: "auth_info \<Rightarrow> byte list" where
  "password_packet ai =
     [1, of_nat (length (auth_username ai))] @ auth_username ai @
     [of_nat (length (auth_password ai))] @ auth_password ai"

definition send_password :: "realloc \<Rightarrow> BSocksClient \<Rightarrow> auth_info \<Rightarrow> sc_result" where
  "send_password realloc c ai =
     (let sz = bsize_fromsize (1 + 1 + of_nat (length (auth_username ai)) + 1 + of_nat (length (auth_password ai)))
      in case reserve_buffer realloc c sz of
           None \<Rightarrow> report_error c SC_ERROR
         | Some c1 \<Rightarrow>
             (let c2 = buf_write c1 0 (password_packet ai)
              in Some (c2\<lparr>sc_state := STATE_SENDING_PASSWORD\<rparr>, [Sc_Send (buf_read c2 0 (unat (bvalue sz)))])))"

definition recv_hello :: "realloc \<Rightarrow> BSocksClient \<Rightarrow> sc_result" where
  "recv_hello realloc c =
     (let imsg = buf_read c 0 2 in
      if imsg ! 0 \<noteq> 5 then report_error c SC_ERROR
      else case find (\<lambda>ai. auth_type ai = uint (imsg ! 1)) (sc_auth_info c) of
        None \<Rightarrow> report_error c SC_ERROR
      | Some ai \<Rightarrow>
          if auth_type ai = 0 then auth_finished realloc c
          else if auth_type ai = 2 then
            (if length (auth_username ai) = 0 \<or> length (auth_username ai) > 255 \<or>
                length (auth_password ai) = 0 \<or> length (auth_password ai) > 255
             then report_error c SC_ERROR
             else send_password realloc c ai)
          else Some (c, []))"

definition recv_reply_header :: "BSocksClient \<Rightarrow> sc_result" where
  "recv_reply_header c =
     (let imsg = buf_read c 0 4 in
      if imsg ! 0 \<noteq> 5 then report_error c SC_ERROR
      else if imsg ! 1 \<noteq> 0 then report_error c SC_ERROR
      else if imsg ! 3 = 1 then
        (case start_receive c 4 6 of (c1, act) \<Rightarrow> Some (c1\<lparr>sc_state := STATE_RECEIVED_REPLY_HEADER\<rparr>, [act]))
      else if imsg ! 3 = 4 then
        (case start_receive c 4 18 of (c1, act) \<Rightarrow> Some (c1\<lparr>sc_state := STATE_RECEIVED_REPLY_HEADER\<rparr>, [act]))
      else report_error c SC_ERROR)"

definition recv_reply_rest :: "BSocksClient \<Rightarrow> sc_result" where
  "recv_reply_rest c =
     (case free_control_io (c\<lparr>sc_buffer := None\<rparr>) of
        None \<Rightarrow> None
      | Some c1 \<Rightarrow> (case init_up_io c1 of
            None \<Rightarrow> None
          | Some c2 \<Rightarrow> Some (c2\<lparr>sc_state := STATE_UP\<rparr>, [Sc_Event SC_UP])))"

text \<open>A state in which no receive is in progress falls through the switch.\<close>

definition recv_complete :: "realloc \<Rightarrow> BSocksClient \<Rightarrow> sc_result" where
  "recv_complete realloc c =
     (case sc_state c of
        STATE_SENT_HELLO \<Rightarrow> recv_hello realloc c
      | STATE_SENT_REQUEST \<Rightarrow> recv_reply_header c
      | STATE_SENT_PASSWORD \<Rightarrow>
          (let b = buf_read c 0 2 in
           if b ! 0 \<noteq> 1 then report_error c SC_ERROR
           else if b ! 1 \<noteq> 0 then report_error c SC_ERROR
           else auth_finished realloc c)
      | STATE_RECEIVED_REPLY_HEADER \<Rightarrow> recv_reply_rest c
      | _ \<Rightarrow> Some (c, []))"

definition recv_handler_done :: "realloc \<Rightarrow> BSocksClient \<Rightarrow> int \<Rightarrow> sc_result" where
  "recv_handler_done realloc c data_len =
     (let c1 = c\<lparr>sc_recv_len := sc_recv_len c + data_len\<rparr> in
      if sc_recv_len c1 < sc_recv_total c1 then Some (c1, [do_receive c1])
      else recv_complete realloc c1)"

definition sent_next :: "realloc \<Rightarrow> BSocksClient \<Rightarrow> bsize_t \<Rightarrow> int \<Rightarrow> sc_state \<Rightarrow> sc_result" where
  "sent_next realloc c sz tot st =
     (case reserve_buffer realloc c sz of
        None \<Rightarrow> report_error c SC_ERROR
      | Some c1 \<Rightarrow> (case start_receive c1 0 tot of (c2, act) \<Rightarrow> Some (c2\<lparr>sc_state := st\<rparr>, [act])))"

definition send_handler_done :: "realloc \<Rightarrow> BSocksClient \<Rightarrow> sc_result" where
  "send_handler_done realloc c =
     (case sc_state c of
        STATE_SENDING_HELLO \<Rightarrow> sent_next realloc c (bsize_fromsize 2) 2 STATE_SENT_HELLO
      | STATE_SENDING_REQUEST \<Rightarrow>
          sent_next realloc c (bsize_add (bsize_fromsize 4) (bsize_max (bsize_fromsize 6) (bsize_fromsize 18)))
            4 STATE_SENT_REQUEST
      | STATE_SENDING_PASSWORD \<Rightarrow> sent_next realloc c (bsize_fromsize 2) 2 STATE_SENT_PASSWORD
      | _ \<Rightarrow> Some (c, []))"

section \<open>Life cycle\<close>

definition BSocksClient_Init :: "auth_info list \<Rightarrow> BAddr \<Rightarrow> bool \<Rightarrow> BSocksClient option" where
  "BSocksClient_Init auth dest connector_ok =
     (if \<not> connector_ok then None
      else Some \<lparr>sc_auth_info = auth, sc_dest_addr = dest, sc_state = STATE_CONNECTING, sc_buffer = None,
        sc_connector = True, sc_con = False, sc_io = Io_None, sc_recv_dest = 0, sc_recv_len = 0, sc_recv_total = 0\<rparr>)"

definition BSocksClient_Free :: "BSocksClient \<Rightarrow> BSocksClient option" where
  "BSocksClient_Free c =
     (let released = (if sc_state c \<noteq> STATE_CONNECTING
            then (case (if sc_state c = STATE_UP then free_up_io c else free_control_io c) of
                    None \<Rightarrow> None | Some c1 \<Rightarrow> free_con c1)
            else Some c)
      in case released of
           None \<Rightarrow> None
         | Some c1 \<Rightarrow> if sc_connector c1 then Some (c1\<lparr>sc_connector := False, sc_buffer := None\<rparr>) else None)"

section \<open>The client in its environment\<close>

text \<open>
  What the client waits for: the connector, the end of a send, data at the address it asked for,
  nothing more than the connection's end once it is up, or nothing after it reported an error.
  A step delivers one of these; the observations are the bytes the client sends, the bytes it is
  given, and its events.
\<close>

datatype sc_wait = Wait_Connect | Wait_Sent | Wait_Data int int | Wait_Up | Wait_Free

datatype sc_op =
  Op_Connected bool bool realloc | Op_Sent realloc | Op_Data "byte list" realloc | Op_Closed bool

datatype sc_obs = Obs_Sent "byte list" | Obs_Rcvd "byte list" | Obs_Event sc_event

fun sc_next :: "sc_wait \<Rightarrow> sc_action list \<Rightarrow> sc_wait \<times> sc_obs list" where
  "sc_next w [] = (w, [])"
| "sc_next w (Sc_Send bs # as) = (case sc_next Wait_Sent as of (w', obs) \<Rightarrow> (w', Obs_Sent bs # obs))"
| "sc_next w (Sc_Recv off n # as) = sc_next (Wait_Data off n) as"
| "sc_next w (Sc_Event e # as) =
     (case sc_next (if e = SC_UP then Wait_Up else Wait_Free) as of (w', obs) \<Rightarrow> (w', Obs_Event e # obs))"

type_synonym sc_conf = "BSocksClient \<times> sc_wait"

definition sc_after :: "sc_wait \<Rightarrow> sc_obs list \<Rightarrow> sc_result \<Rightarrow> (sc_conf \<times> sc_obs list) option" where
  "sc_after w obs r = (case r of None \<Rightarrow> None
     | Some (c, acts) \<Rightarrow> (case sc_next w acts of (w', obs') \<Rightarrow> Some ((c, w'), obs @ obs')))"

fun sc_step :: "sc_op \<Rightarrow> sc_conf \<Rightarrow> (sc_conf \<times> sc_obs list) option" where
  "sc_step (Op_Connected is_error con_ok realloc) (c, w) =
     (if w = Wait_Connect then sc_after w [] (connector_handler realloc c is_error con_ok) else None)"
| "sc_step (Op_Sent realloc) (c, w) =
     (if w = Wait_Sent then sc_after w [] (send_handler_done realloc c) else None)"
| "sc_step (Op_Data bs realloc) (c, w) =
     (case w of
        Wait_Data off n \<Rightarrow>
          if bs = [] \<or> n < int (length bs) then None
          else sc_after w [Obs_Rcvd bs]
            (recv_handler_done realloc (buf_write c (nat off) bs) (int (length bs)))
      | _ \<Rightarrow> None)"
| "sc_step (Op_Closed recvclosed) (c, w) =
     (if w = Wait_Connect \<or> w = Wait_Free then None else sc_after w [] (connection_handler c recvclosed))"

fun obs_sent :: "sc_obs \<Rightarrow> byte list" where
  "obs_sent (Obs_Sent bs) = bs"
| "obs_sent _ = []"

fun obs_rcvd :: "sc_obs \<Rightarrow> byte list" where
  "obs_rcvd (Obs_Rcvd bs) = bs"
| "obs_rcvd _ = []"

definition sent :: "sc_obs list \<Rightarrow> byte list" where "sent obs = concat (map obs_sent obs)"

definition rcvd :: "sc_obs list \<Rightarrow> byte list" where "rcvd obs = concat (map obs_rcvd obs)"

text \<open>\<^verbatim>\<open>BRealloc\<close> returns a buffer of the size it was asked for.\<close>

definition realloc_ok :: "realloc \<Rightarrow> bool" where
  "realloc_ok r \<longleftrightarrow> (\<forall>b n m. r b n = Some m \<longrightarrow> length m = n)"

fun op_ok :: "sc_op \<Rightarrow> bool" where
  "op_ok (Op_Connected _ _ r) = realloc_ok r"
| "op_ok (Op_Sent r) = realloc_ok r"
| "op_ok (Op_Data _ r) = realloc_ok r"
| "op_ok (Op_Closed _) = True"

section \<open>The conversation\<close>

definition hello_msg :: "auth_info list \<Rightarrow> byte list" where
  "hello_msg ais = [5, of_nat (length ais)] @ map (\<lambda>ai. of_int (auth_type ai)) ais"

definition request_msg :: "BAddr \<Rightarrow> byte list" where
  "request_msg dest = [5, 1, 0, request_atyp dest] @ request_addr dest"

text \<open>The authentication part for the method the server chose: what is sent and what is received.\<close>

definition auth_sent :: "auth_info \<Rightarrow> byte list" where
  "auth_sent ai = (if auth_type ai = 2 then password_packet ai else [])"

definition auth_rcvd :: "auth_info \<Rightarrow> byte list" where
  "auth_rcvd ai = (if auth_type ai = 2 then [1, 0] else [])"

definition method_msg :: "auth_info \<Rightarrow> byte list" where
  "method_msg ai = [5, of_int (auth_type ai)]"

definition reply_header_ok :: "byte list \<Rightarrow> bool" where
  "reply_header_ok h \<longleftrightarrow> length h = 4 \<and> h ! 0 = 5 \<and> h ! 1 = 0 \<and> (h ! 3 = 1 \<or> h ! 3 = 4)"

definition reply_addr_len :: "byte list \<Rightarrow> nat" where
  "reply_addr_len h = (if h ! 3 = 1 then 6 else 18)"

text \<open>The client's configuration: what \<^verbatim>\<open>BSocksClient_Init\<close> asserts.\<close>

definition conf_ok :: "auth_info list \<Rightarrow> BAddr \<Rightarrow> bool" where
  "conf_ok ais dest \<longleftrightarrow> (\<forall>ai \<in> set ais. auth_type ai = 0 \<or> auth_type ai = 2) \<and>
     BAddr_wf dest \<and> (BAddr_type dest = 1 \<or> BAddr_type dest = 2)"

text \<open>
  The invariant: in each state, the bytes sent and received so far, what is in the buffer, which
  I/O objects exist and what the client waits for.  \<open>part\<close> is the part of a message received so far.
\<close>

definition receiving :: "BSocksClient \<Rightarrow> sc_wait \<Rightarrow> nat \<Rightarrow> int \<Rightarrow> int \<Rightarrow> byte list \<Rightarrow> bool" where
  "receiving c w len dest tot part \<longleftrightarrow>
     (\<exists>b. sc_buffer c = Some b \<and> length b = len \<and> 0 \<le> dest \<and> dest + tot \<le> int len \<and>
        sc_recv_dest c = dest \<and> sc_recv_total c = tot \<and> sc_recv_len c = int (length part) \<and>
        int (length part) < tot \<and> mem_read b (nat dest) (length part) = part) \<and>
     w = Wait_Data (dest + int (length part)) (tot - int (length part))"

definition sc_inv :: "auth_info list \<Rightarrow> BAddr \<Rightarrow> byte list \<Rightarrow> byte list \<Rightarrow> sc_conf \<Rightarrow> bool" where
  "sc_inv ais dest sent' rcvd' cw \<longleftrightarrow> (case cw of (c, w) \<Rightarrow>
     sc_auth_info c = ais \<and> sc_dest_addr c = dest \<and> sc_connector c \<and>
     (if sc_state c = STATE_CONNECTING then \<not> sc_con c \<and> sc_io c = Io_None
      else sc_con c \<and> sc_io c = (if sc_state c = STATE_UP then Io_Up else Io_Control)) \<and>
     (w = Wait_Free \<or>
      (case sc_state c of
         STATE_CONNECTING \<Rightarrow> w = Wait_Connect \<and> sent' = [] \<and> rcvd' = []
       | STATE_SENDING_HELLO \<Rightarrow> w = Wait_Sent \<and> sent' = hello_msg ais \<and> rcvd' = []
       | STATE_SENT_HELLO \<Rightarrow> sent' = hello_msg ais \<and> receiving c w 2 0 2 rcvd'
       | STATE_SENDING_PASSWORD \<Rightarrow> (\<exists>ai \<in> set ais. w = Wait_Sent \<and> auth_type ai = 2 \<and>
           sent' = hello_msg ais @ password_packet ai \<and> rcvd' = method_msg ai)
       | STATE_SENT_PASSWORD \<Rightarrow> (\<exists>ai \<in> set ais. \<exists>part. auth_type ai = 2 \<and>
           sent' = hello_msg ais @ password_packet ai \<and> rcvd' = method_msg ai @ part \<and> receiving c w 2 0 2 part)
       | STATE_SENDING_REQUEST \<Rightarrow> (\<exists>ai \<in> set ais. w = Wait_Sent \<and>
           sent' = hello_msg ais @ auth_sent ai @ request_msg dest \<and> rcvd' = method_msg ai @ auth_rcvd ai)
       | STATE_SENT_REQUEST \<Rightarrow> (\<exists>ai \<in> set ais. \<exists>part.
           sent' = hello_msg ais @ auth_sent ai @ request_msg dest \<and>
           rcvd' = method_msg ai @ auth_rcvd ai @ part \<and> receiving c w 22 0 4 part)
       | STATE_RECEIVED_REPLY_HEADER \<Rightarrow> (\<exists>ai \<in> set ais. \<exists>h part.
           sent' = hello_msg ais @ auth_sent ai @ request_msg dest \<and>
           rcvd' = method_msg ai @ auth_rcvd ai @ h @ part \<and> reply_header_ok h \<and>
           receiving c w 22 4 (int (reply_addr_len h)) part)
       | STATE_UP \<Rightarrow> w = Wait_Up \<and> (\<exists>ai \<in> set ais. \<exists>h addr.
           sent' = hello_msg ais @ auth_sent ai @ request_msg dest \<and>
           rcvd' = method_msg ai @ auth_rcvd ai @ h @ addr \<and> reply_header_ok h \<and>
           length addr = reply_addr_len h))))"

section \<open>The invariant holds\<close>

definition sc_base :: "auth_info list \<Rightarrow> BAddr \<Rightarrow> BSocksClient \<Rightarrow> bool" where
  "sc_base ais dest c \<longleftrightarrow> sc_auth_info c = ais \<and> sc_dest_addr c = dest \<and> sc_connector c \<and> sc_con c \<and>
     sc_io c = Io_Control \<and> sc_state c \<noteq> STATE_CONNECTING \<and> sc_state c \<noteq> STATE_UP"

text \<open>\<open>sc_good sent' rcvd' r\<close>: the handler's result \<open>r\<close> is defined and the invariant holds after it.\<close>

definition sc_good :: "auth_info list \<Rightarrow> BAddr \<Rightarrow> byte list \<Rightarrow> byte list \<Rightarrow> (sc_conf \<times> sc_obs list) option \<Rightarrow> bool" where
  "sc_good ais dest sent' rcvd' r \<longleftrightarrow>
     (case r of None \<Rightarrow> False | Some (cw, obs) \<Rightarrow> sc_inv ais dest (sent' @ sent obs) (rcvd' @ rcvd obs) cw)"

lemma obs_simps [simp]:
  "sent [] = []" "rcvd [] = []" "sent (Obs_Sent bs # obs) = bs @ sent obs" "rcvd (Obs_Sent bs # obs) = rcvd obs"
  "sent (Obs_Rcvd bs # obs) = sent obs" "rcvd (Obs_Rcvd bs # obs) = bs @ rcvd obs"
  "sent (Obs_Event e # obs) = sent obs" "rcvd (Obs_Event e # obs) = rcvd obs"
  "sent (obs @ obs') = sent obs @ sent obs'" "rcvd (obs @ obs') = rcvd obs @ rcvd obs'"
  by (simp_all add: sent_def rcvd_def)

lemma sc_after_simps [simp]:
  "sc_after w obs (Some (c, [])) = Some ((c, w), obs)"
  "sc_after w obs (Some (c, [Sc_Send bs])) = Some ((c, Wait_Sent), obs @ [Obs_Sent bs])"
  "sc_after w obs (Some (c, [Sc_Recv off n])) = Some ((c, Wait_Data off n), obs)"
  "sc_after w obs (Some (c, [Sc_Event e])) =
     Some ((c, if e = SC_UP then Wait_Up else Wait_Free), obs @ [Obs_Event e])"
  by (simp_all add: sc_after_def)

lemma bsize_val_SomeD: "bsize_val s = Some v \<Longrightarrow> \<not> is_overflow s \<and> unat (bvalue s) = v"
  by (auto simp: bsize_val_def split: if_splits)

lemma reserve_cases:
  assumes "realloc_ok r" "bsize_val sz = Some n"
  obtains "reserve_buffer r c sz = None"
  | b where "reserve_buffer r c sz = Some (c\<lparr>sc_buffer := Some b\<rparr>)" "length b = n"
proof (cases "r (sc_buffer c) n")
  case None
  then show thesis using bsize_val_SomeD [OF assms(2)] that(1) by (simp add: reserve_buffer_def)
next
  case (Some b)
  then have "length b = n" using assms(1) unfolding realloc_ok_def by blast
  then show thesis using Some bsize_val_SomeD [OF assms(2)] that(2) by (simp add: reserve_buffer_def)
qed

lemma size_vals:
  "n \<le> 255 \<Longrightarrow> bsize_val (hello_size n) = Some (2 + n)"
  "BAddr_type dest = 1 \<Longrightarrow> bsize_val (request_size dest) = Some 10"
  "BAddr_type dest = 2 \<Longrightarrow> bsize_val (request_size dest) = Some 22"
  "bsize_val (bsize_add (bsize_fromsize 4) (bsize_max (bsize_fromsize 6) (bsize_fromsize 18))) = Some 22"
  "bsize_val (bsize_fromsize 2) = Some 2"
  by (auto simp: hello_size_def request_size_def BAddr_type_def bsize_val_add bsize_val_mul bsize_val_max lift_size_def
      unsigned_of_nat take_bit_eq_mod split: BAddr.splits)

lemma sc_good_error:
  "sc_base ais dest c \<Longrightarrow> sc_good ais dest s r (sc_after w obs (report_error c SC_ERROR))"
  by (auto simp: sc_good_def report_error_def sc_inv_def sc_base_def)

lemma request_msg_length:
  assumes "conf_ok ais dest"
  shows "bsize_val (request_size dest) = Some (length (request_msg dest))"
  using assms size_vals(2,3) [of dest]
  by (auto simp: conf_ok_def BAddr_type_def BAddr_wf_def request_msg_def request_addr_def split: BAddr.splits)

lemma auth_finished_good:
  assumes conf: "conf_ok ais dest" and r: "realloc_ok r" and base: "sc_base ais dest c" and ai: "ai \<in> set ais"
    and s: "s @ sent obs = hello_msg ais @ auth_sent ai" and rc: "rc @ rcvd obs = method_msg ai @ auth_rcvd ai"
  shows "sc_good ais dest s rc (sc_after w obs (auth_finished r c))"
proof -
  have dest: "sc_dest_addr c = dest" using base by (simp add: sc_base_def)
  note len = request_msg_length [OF conf]
  from reserve_cases [OF r len, of c] show ?thesis
  proof cases
    case 1
    then show ?thesis using sc_good_error [OF base] by (simp add: auth_finished_def dest)
  next
    case (2 b)
    have "mem_read (mem_write (mem_write b 4 (request_addr dest)) 0 [5, 1, 0, request_atyp dest]) 0
        (length (request_msg dest)) = request_msg dest"
      using 2(2) by (simp add: request_msg_def mem_read_def mem_write_def)
    with 2 base ai s rc bsize_val_SomeD [OF len] show ?thesis
      by (auto simp: auth_finished_def dest sc_good_def sc_inv_def sc_base_def buf_write_def buf_read_def)
  qed
qed

lemma receiving_data:
  assumes "receiving c (Wait_Data off n) len dest tot part" "int (length bs) \<le> n"
  obtains b where "(buf_write c (nat off) bs)\<lparr>sc_recv_len := sc_recv_len c + int (length bs)\<rparr> =
      c\<lparr>sc_buffer := Some b, sc_recv_len := int (length (part @ bs))\<rparr>"
    "length b = len" "mem_read b (nat dest) (length (part @ bs)) = part @ bs"
    "sc_recv_dest c = dest" "sc_recv_total c = tot" "int (length (part @ bs)) \<le> tot" "0 \<le> dest" "dest + tot \<le> int len"
proof -
  from assms(1) obtain b where b: "sc_buffer c = Some b" "length b = len" "0 \<le> dest" "dest + tot \<le> int len"
    "sc_recv_dest c = dest" "sc_recv_total c = tot" "sc_recv_len c = int (length part)"
    "mem_read b (nat dest) (length part) = part" and w: "off = dest + int (length part)" "n = tot - int (length part)"
    by (auto simp: receiving_def)
  let ?b = "mem_write b (nat dest + length part) bs"
  have off: "nat off = nat dest + length part" using w(1) b(3) by (simp add: nat_add_distrib)
  have fit: "nat dest + length part + length bs \<le> length b" using b(2-4) w(2) assms(2) by linarith
  then have "mem_read ?b (nat dest) (length part + length bs) = part @ bs"
    using b(8) by (subst mem_read_append) (simp_all add: mem_simps)
  then show thesis
    using b w(2) assms(2) fit by (intro that [of ?b]) (simp_all add: buf_write_def off)
qed

lemma recv_more:
  assumes "sc_recv_len c + int (length bs) < sc_recv_total c"
  shows "recv_handler_done r (buf_write c off bs) (int (length bs)) =
    Some ((buf_write c off bs)\<lparr>sc_recv_len := sc_recv_len c + int (length bs)\<rparr>,
      [Sc_Recv (sc_recv_dest c + (sc_recv_len c + int (length bs)))
        (sc_recv_total c - (sc_recv_len c + int (length bs)))])"
  using assms by (simp add: recv_handler_done_def Let_def do_receive_def buf_write_def)

lemma receiving_more:
  assumes "receiving c (Wait_Data off n) len dest tot part" "int (length bs) \<le> n" "int (length (part @ bs)) < tot"
  obtains c' where "sc_after w obs (recv_handler_done r (buf_write c (nat off) bs) (int (length bs))) =
      Some ((c', Wait_Data (dest + int (length (part @ bs))) (tot - int (length (part @ bs)))), obs)"
    "receiving c' (Wait_Data (dest + int (length (part @ bs))) (tot - int (length (part @ bs)))) len dest tot (part @ bs)"
    "sc_auth_info c' = sc_auth_info c" "sc_dest_addr c' = sc_dest_addr c" "sc_connector c' = sc_connector c"
    "sc_con c' = sc_con c" "sc_io c' = sc_io c" "sc_state c' = sc_state c"
proof -
  have len: "sc_recv_len c = int (length part)" "sc_recv_total c = tot" "sc_recv_dest c = dest"
    using assms(1) by (auto simp: receiving_def)
  from receiving_data [OF assms(1,2)] obtain b where
    b: "(buf_write c (nat off) bs)\<lparr>sc_recv_len := sc_recv_len c + int (length bs)\<rparr> =
      c\<lparr>sc_buffer := Some b, sc_recv_len := int (length (part @ bs))\<rparr>"
    "length b = len" "mem_read b (nat dest) (length (part @ bs)) = part @ bs" "0 \<le> dest" "dest + tot \<le> int len" by blast
  let ?c = "c\<lparr>sc_buffer := Some b, sc_recv_len := int (length (part @ bs))\<rparr>"
  have "recv_handler_done r (buf_write c (nat off) bs) (int (length bs)) =
      Some (?c, [Sc_Recv (dest + int (length (part @ bs))) (tot - int (length (part @ bs)))])"
    using recv_more [of c bs r "nat off"] assms(3) len b(1) by simp
  then show thesis
    using assms(3) b len by (intro that [of ?c]) (simp_all add: receiving_def)
qed

text \<open>The last piece of a message has arrived: the client with the whole message in its buffer.\<close>

lemma receiving_last:
  assumes "receiving c (Wait_Data off n) len dest tot part" "int (length bs) \<le> n" "\<not> int (length (part @ bs)) < tot"
  obtains c' b where "sc_buffer c' = Some b" "length b = len" "mem_read b (nat dest) (nat tot) = part @ bs"
    "int (length (part @ bs)) = tot" "sc_auth_info c' = sc_auth_info c" "sc_dest_addr c' = sc_dest_addr c" "sc_connector c' = sc_connector c"
    "sc_con c' = sc_con c" "sc_io c' = sc_io c" "sc_state c' = sc_state c"
    "recv_handler_done r (buf_write c (nat off) bs) (int (length bs)) = recv_complete r c'"
proof -
  have len: "sc_recv_len c = int (length part)" "sc_recv_total c = tot" using assms(1) by (auto simp: receiving_def)
  from receiving_data [OF assms(1,2)] obtain b where
    b: "(buf_write c (nat off) bs)\<lparr>sc_recv_len := sc_recv_len c + int (length bs)\<rparr> =
      c\<lparr>sc_buffer := Some b, sc_recv_len := int (length (part @ bs))\<rparr>"
    "length b = len" "mem_read b (nat dest) (length (part @ bs)) = part @ bs" "int (length (part @ bs)) \<le> tot" by blast
  let ?c = "c\<lparr>sc_buffer := Some b, sc_recv_len := int (length (part @ bs))\<rparr>"
  have tot: "int (length (part @ bs)) = tot" using b(4) assms(3) by simp
  have eq: "(buf_write c (nat off) bs)\<lparr>sc_recv_len := sc_recv_len (buf_write c (nat off) bs) + int (length bs)\<rparr> = ?c"
    using b(1) by (simp add: buf_write_def)
  show thesis
    using b(2,3) tot [symmetric] len assms(3)
    by (intro that [of ?c b])
      (simp_all add: recv_handler_done_def eq Let_def nat_add_distrib)
qed

lemma list2: "length (xs::'a list) = 2 \<Longrightarrow> xs = [xs ! 0, xs ! 1]"
  by (cases xs; cases "tl xs") auto

lemma password_good:
  assumes r: "realloc_ok r" and base: "sc_base ais dest c" and ai: "ai \<in> set ais" "auth_type ai = 2"
    and lens: "length (auth_username ai) \<le> 255" "length (auth_password ai) \<le> 255"
    and s: "s @ sent obs = hello_msg ais" and rc: "rc @ rcvd obs = method_msg ai"
  shows "sc_good ais dest s rc (sc_after w obs (send_password r c ai))"
proof -
  let ?sz = "bsize_fromsize (1 + 1 + of_nat (length (auth_username ai)) + 1 + of_nat (length (auth_password ai)))"
  have "?sz = bsize_fromsize (of_nat (length (password_packet ai)))"
    by (simp add: password_packet_def algebra_simps)
  moreover have "length (password_packet ai) < 2 ^ 32" using lens by (simp add: password_packet_def)
  ultimately have len: "bsize_val ?sz = Some (length (password_packet ai))"
    by (simp only: bsize_val_def bsize_fromsize_def) (simp add: unsigned_of_nat take_bit_eq_mod)
  from reserve_cases [OF r len, of c] show ?thesis
  proof cases
    case 1
    then show ?thesis using sc_good_error [OF base] unfolding send_password_def Let_def by simp
  next
    case (2 b)
    then have "mem_read (mem_write b 0 (password_packet ai)) 0 (length (password_packet ai)) = password_packet ai"
      by (simp add: mem_read_def mem_write_def)
    with 2 base ai s rc bsize_val_SomeD [OF len] show ?thesis
      unfolding send_password_def Let_def by (auto simp: sc_good_def sc_inv_def sc_base_def buf_write_def buf_read_def)
  qed
qed

lemma recv_hello_good:
  assumes conf: "conf_ok ais dest" and r: "realloc_ok r" and base: "sc_base ais dest c"
    and b: "sc_buffer c = Some b" "mem_read b 0 2 = msg" "length msg = 2"
    and s: "s @ sent obs = hello_msg ais" and rc: "rc @ rcvd obs = msg"
  shows "sc_good ais dest s rc (sc_after w obs (recv_hello r c))"
proof (cases "msg ! 0 = 5")
  case False
  then show ?thesis using sc_good_error [OF base] b by (simp add: recv_hello_def buf_read_def Let_def)
next
  case True
  have ais: "sc_auth_info c = ais" using base by (simp add: sc_base_def)
  show ?thesis
  proof (cases "find (\<lambda>ai. auth_type ai = uint (msg ! 1)) ais")
    case None
    then show ?thesis using True sc_good_error [OF base] b by (simp add: recv_hello_def buf_read_def Let_def ais)
  next
    case (Some ai)
    then have ai: "ai \<in> set ais" "auth_type ai = uint (msg ! 1)"
      unfolding find_Some_iff by (auto simp: in_set_conv_nth)
    then have msg: "msg = method_msg ai" using list2 [OF b(3)] True by (simp add: method_msg_def)
    consider "auth_type ai = 0" | "auth_type ai = 2" using conf ai(1) by (auto simp: conf_ok_def)
    then show ?thesis
    proof cases
      case 1
      have "sc_good ais dest s rc (sc_after w obs (auth_finished r c))"
        using 1 s rc msg by (intro auth_finished_good [OF conf r base ai(1)]) (simp_all add: auth_sent_def auth_rcvd_def)
      then show ?thesis using 1 True b Some by (simp add: recv_hello_def buf_read_def Let_def ais)
    next
      case 2
      note pw = password_good [OF r base ai(1) 2 _ _ s rc [unfolded msg], of w]
      show ?thesis
        using 2 True b Some sc_good_error [OF base] pw
        by (auto simp: recv_hello_def buf_read_def Let_def ais)
    qed
  qed
qed

lemma connector_handler_good:
  assumes conf: "conf_ok ais dest" and r: "realloc_ok r" and inv: "sc_inv ais dest s rc (c, Wait_Connect)"
  shows "sc_good ais dest s rc (sc_after Wait_Connect [] (connector_handler r c is_error con_ok))"
proof -
  have c: "sc_auth_info c = ais" "sc_dest_addr c = dest" "sc_connector c" "sc_state c = STATE_CONNECTING"
    "\<not> sc_con c" "sc_io c = Io_None" "s = []" "rc = []"
    using inv by (auto simp: sc_inv_def receiving_def split: sc_state.splits if_splits)
  let ?c1 = "c\<lparr>sc_con := True, sc_io := Io_Control\<rparr>"
  have err: "sc_good ais dest s rc (sc_after w obs (report_error c SC_ERROR))" for w obs
    using c by (simp add: sc_good_def report_error_def sc_inv_def)
  have fail1: "(case free_control_io ?c1 of None \<Rightarrow> None
      | Some c2 \<Rightarrow> (case free_con c2 of None \<Rightarrow> None | Some c3 \<Rightarrow> report_error c3 SC_ERROR)) = report_error c SC_ERROR"
    using c by (cases c) (simp add: free_control_io_def free_con_def)
  have init: "init_control_io (c\<lparr>sc_con := True\<rparr>) = Some ?c1" using c by (simp add: init_control_io_def)
  show ?thesis
  proof (cases "is_error \<or> \<not> con_ok \<or> ais = [] \<or> length ais > 255")
    case True
    then show ?thesis using err c by (auto simp: connector_handler_def init fail1 Let_def)
  next
    case False
    then have n: "ais \<noteq> []" "length ais \<le> 255" by auto
    have len: "bsize_val (hello_size (length ais)) = Some (length (hello_msg ais))"
      using size_vals(1) [OF n(2)] by (simp add: hello_msg_def)
    from reserve_cases [OF r len, of ?c1] show ?thesis
    proof cases
      case 1
      then show ?thesis using False err c by (auto simp: connector_handler_def init fail1 Let_def)
    next
      case (2 b)
      have "mem_read (mem_write (mem_write b 0 [5, of_nat (length ais)]) 2 (map (\<lambda>ai. of_int (auth_type ai)) ais)) 0
          (length (hello_msg ais)) = hello_msg ais"
        using 2(2) by (simp add: hello_msg_def mem_read_def mem_write_def)
      with 2 c n False bsize_val_SomeD [OF len] show ?thesis
        by (auto simp: connector_handler_def init Let_def sc_good_def sc_inv_def buf_write_def buf_read_def)
    qed
  qed
qed

lemma sent_next_cases:
  assumes "realloc_ok r" "bsize_val sz = Some len" "0 < tot" "tot \<le> int len"
  obtains "sent_next r c sz tot st = report_error c SC_ERROR"
  | c' where "sc_after w [] (sent_next r c sz tot st) = Some ((c', Wait_Data 0 tot), [])"
      "receiving c' (Wait_Data 0 tot) len 0 tot []" "sc_state c' = st"
      "sc_auth_info c' = sc_auth_info c" "sc_dest_addr c' = sc_dest_addr c" "sc_connector c' = sc_connector c"
      "sc_con c' = sc_con c" "sc_io c' = sc_io c"
  using reserve_cases [OF assms(1,2), of c]
proof cases
  case 1
  then show thesis using that(1) by (simp add: sent_next_def)
next
  case (2 b)
  let ?c = "c\<lparr>sc_buffer := Some b, sc_recv_dest := 0, sc_recv_len := 0, sc_recv_total := tot, sc_state := st\<rparr>"
  have "sent_next r c sz tot st = Some (?c, [Sc_Recv 0 tot])"
    using 2 by (simp add: sent_next_def start_receive_def do_receive_def)
  then show thesis
    using 2 assms(3,4) by (intro that(2) [of ?c]) (simp_all add: receiving_def mem_read_def)
qed

lemma sc_inv_base:
  "sc_inv ais dest s rc (c, w) \<Longrightarrow> w \<noteq> Wait_Free \<Longrightarrow> w \<noteq> Wait_Connect \<Longrightarrow> w \<noteq> Wait_Up \<Longrightarrow> sc_base ais dest c"
  by (auto simp: sc_inv_def sc_base_def split: if_splits)

lemma send_handler_done_good:
  assumes r: "realloc_ok r" and inv: "sc_inv ais dest s rc (c, Wait_Sent)"
  shows "sc_good ais dest s rc (sc_after Wait_Sent [] (send_handler_done r c))"
proof -
  have base: "sc_base ais dest c" using inv by (auto intro: sc_inv_base)
  from inv consider "sc_state c = STATE_SENDING_HELLO" | "sc_state c = STATE_SENDING_REQUEST"
    | "sc_state c = STATE_SENDING_PASSWORD"
    by (auto simp: sc_inv_def receiving_def split: sc_state.splits)
  then show ?thesis
  proof cases
    case 1
    show ?thesis
      by (rule sent_next_cases [OF r size_vals(5), where c = c and tot = 2 and st = STATE_SENT_HELLO and w = Wait_Sent])
        (use 1 inv base sc_good_error [OF base] in \<open>auto simp: send_handler_done_def sc_good_def sc_inv_def sc_base_def\<close>)
  next
    case 2
    show ?thesis
      by (rule sent_next_cases [OF r size_vals(4), where c = c and tot = 4 and st = STATE_SENT_REQUEST and w = Wait_Sent])
        (use 2 inv base sc_good_error [OF base] in \<open>auto simp: send_handler_done_def sc_good_def sc_inv_def sc_base_def\<close>)
  next
    case 3
    show ?thesis
      by (rule sent_next_cases [OF r size_vals(5), where c = c and tot = 2 and st = STATE_SENT_PASSWORD and w = Wait_Sent])
        (use 3 inv base sc_good_error [OF base] in \<open>auto simp: send_handler_done_def sc_good_def sc_inv_def sc_base_def\<close>)
  qed
qed

lemma receiving_good:
  assumes rec: "receiving c (Wait_Data off n) len d tot part" and n: "int (length bs) \<le> n"
    and more: "\<And>c'. int (length (part @ bs)) < tot \<Longrightarrow>
        receiving c' (Wait_Data (d + int (length (part @ bs))) (tot - int (length (part @ bs)))) len d tot (part @ bs) \<Longrightarrow>
        sc_base ais dest c' \<Longrightarrow> sc_state c' = sc_state c \<Longrightarrow>
        sc_inv ais dest s (rc @ bs) (c', Wait_Data (d + int (length (part @ bs))) (tot - int (length (part @ bs))))"
    and last: "\<And>c' b. sc_buffer c' = Some b \<Longrightarrow> length b = len \<Longrightarrow> mem_read b (nat d) (nat tot) = part @ bs \<Longrightarrow>
        int (length (part @ bs)) = tot \<Longrightarrow> sc_base ais dest c' \<Longrightarrow> sc_state c' = sc_state c \<Longrightarrow>
        sc_good ais dest s rc (sc_after (Wait_Data off n) [Obs_Rcvd bs] (recv_complete r c'))"
    and base: "sc_base ais dest c"
  shows "sc_good ais dest s rc (sc_after (Wait_Data off n) [Obs_Rcvd bs]
     (recv_handler_done r (buf_write c (nat off) bs) (int (length bs))))"
proof (cases "int (length (part @ bs)) < tot")
  case True
  from receiving_more [OF rec n True, of "Wait_Data off n" "[Obs_Rcvd bs]" r] obtain c' where
    c': "sc_after (Wait_Data off n) [Obs_Rcvd bs] (recv_handler_done r (buf_write c (nat off) bs) (int (length bs))) =
      Some ((c', Wait_Data (d + int (length (part @ bs))) (tot - int (length (part @ bs)))), [Obs_Rcvd bs])"
    "receiving c' (Wait_Data (d + int (length (part @ bs))) (tot - int (length (part @ bs)))) len d tot (part @ bs)"
    "sc_base ais dest c'" "sc_state c' = sc_state c"
    using base by (metis (no_types, lifting) sc_base_def)
  show ?thesis using more [OF True c'(2-4)] by (simp add: sc_good_def c'(1) del: length_append)
next
  case False
  from receiving_last [OF rec n False, of r] base obtain c' b where
    c': "sc_buffer c' = Some b" "length b = len" "mem_read b (nat d) (nat tot) = part @ bs"
    "int (length (part @ bs)) = tot" "sc_base ais dest c'" "sc_state c' = sc_state c"
    "recv_handler_done r (buf_write c (nat off) bs) (int (length bs)) = recv_complete r c'"
    unfolding sc_base_def by metis
  show ?thesis unfolding c'(7) by (rule last [OF c'(1-6)])
qed

lemma recv_reply_header_good:
  assumes base: "sc_base ais dest c" and b: "sc_buffer c = Some b" "length b = 22" "mem_read b 0 4 = h" "length h = 4"
    and ai: "ai \<in> set ais" and s: "s @ sent obs = hello_msg ais @ auth_sent ai @ request_msg dest"
    and rc: "rc @ rcvd obs = method_msg ai @ auth_rcvd ai @ h"
  shows "sc_good ais dest s rc (sc_after w obs (recv_reply_header c))"
proof (cases "reply_header_ok h")
  case False
  then show ?thesis
    using sc_good_error [OF base] b by (auto simp: reply_header_ok_def recv_reply_header_def buf_read_def Let_def)
next
  case True
  then have hdr: "h ! 0 = 5" "h ! 1 = 0" by (simp_all add: reply_header_ok_def)
  let ?tot = "int (reply_addr_len h)"
  let ?c = "c\<lparr>sc_recv_dest := 4, sc_recv_len := 0, sc_recv_total := ?tot, sc_state := STATE_RECEIVED_REPLY_HEADER\<rparr>"
  have eq: "recv_reply_header c = Some (?c, [Sc_Recv 4 ?tot])"
    using True b by (auto simp: reply_header_ok_def recv_reply_header_def buf_read_def Let_def reply_addr_len_def
        start_receive_def do_receive_def)
  have "receiving ?c (Wait_Data 4 ?tot) 22 4 ?tot []"
    using b by (simp add: receiving_def mem_read_def reply_addr_len_def)
  then show ?thesis
    using True base s rc unfolding eq
    by (simp add: sc_good_def sc_inv_def sc_base_def)
      (rule bexI [OF _ ai], rule conjI, simp, rule exI [of _ h], rule exI [of _ "[]"], simp)
qed

lemma recv_reply_rest_good:
  assumes base: "sc_base ais dest c" and ai: "ai \<in> set ais" and h: "reply_header_ok h"
    and s: "s @ sent obs = hello_msg ais @ auth_sent ai @ request_msg dest"
    and rc: "rc @ rcvd obs = method_msg ai @ auth_rcvd ai @ h @ addr" "length addr = reply_addr_len h"
  shows "sc_good ais dest s rc (sc_after w obs (recv_reply_rest c))"
proof -
  have "recv_reply_rest c = Some (c\<lparr>sc_buffer := None, sc_io := Io_Up, sc_state := STATE_UP\<rparr>, [Sc_Event SC_UP])"
    using base by (simp add: recv_reply_rest_def free_control_io_def init_up_io_def sc_base_def)
  then show ?thesis using base ai s rc h by (auto simp: sc_good_def sc_inv_def sc_base_def)
qed

lemma recv_handler_done_good:
  assumes conf: "conf_ok ais dest" and r: "realloc_ok r" and inv: "sc_inv ais dest s rc (c, Wait_Data off n)"
    and n: "int (length bs) \<le> n"
  shows "sc_good ais dest s rc (sc_after (Wait_Data off n) [Obs_Rcvd bs]
     (recv_handler_done r (buf_write c (nat off) bs) (int (length bs))))"
proof -
  have base: "sc_base ais dest c" using inv by (auto intro: sc_inv_base)
  from inv consider
      "sc_state c = STATE_SENT_HELLO" "s = hello_msg ais" "receiving c (Wait_Data off n) 2 0 2 rc"
    | ai part where "sc_state c = STATE_SENT_PASSWORD" "ai \<in> set ais" "auth_type ai = 2"
        "s = hello_msg ais @ password_packet ai" "rc = method_msg ai @ part" "receiving c (Wait_Data off n) 2 0 2 part"
    | ai part where "sc_state c = STATE_SENT_REQUEST" "ai \<in> set ais" "s = hello_msg ais @ auth_sent ai @ request_msg dest"
        "rc = method_msg ai @ auth_rcvd ai @ part" "receiving c (Wait_Data off n) 22 0 4 part"
    | ai h part where "sc_state c = STATE_RECEIVED_REPLY_HEADER" "ai \<in> set ais"
        "s = hello_msg ais @ auth_sent ai @ request_msg dest" "rc = method_msg ai @ auth_rcvd ai @ h @ part"
        "reply_header_ok h" "receiving c (Wait_Data off n) 22 4 (int (reply_addr_len h)) part"
    by (auto simp: sc_inv_def split: sc_state.splits)
  then show ?thesis
  proof cases
    case 1
    show ?thesis
    proof (rule receiving_good [OF 1(3) n _ _ base], goal_cases)
      case (1 c') then show ?case using \<open>sc_state c = _\<close> \<open>s = _\<close> by (simp add: sc_inv_def sc_base_def)
    next
      case (2 c' b)
      then have "length (rc @ bs) = 2" by linarith
      with 2 show ?case
        using \<open>sc_state c = _\<close> \<open>s = _\<close> by (simp add: recv_complete_def, intro recv_hello_good [OF conf r]) simp_all
    qed
  next
    case (2 ai part)
    show ?thesis
    proof (rule receiving_good [OF 2(6) n _ _ base], goal_cases)
      case (1 c') then show ?case using 2 by (auto simp: sc_inv_def sc_base_def)
    next
      case (2 c' b)
      then have "length (part @ bs) = 2" by linarith
      note msg = list2 [OF this]
      have fin: "sc_good ais dest s rc (sc_after w [Obs_Rcvd bs] (auth_finished r c'))"
        if "(part @ bs) ! 0 = 1" "(part @ bs) ! 1 = 0" for w
        using msg [unfolded that] \<open>rc = _\<close> \<open>s = _\<close> \<open>auth_type ai = 2\<close>
        by (intro auth_finished_good [OF conf r \<open>sc_base ais dest c'\<close> \<open>ai \<in> set ais\<close>])
          (simp_all add: auth_sent_def auth_rcvd_def)
      then show ?case
        using fin 2 sc_good_error [OF \<open>sc_base ais dest c'\<close>] \<open>sc_state c = _\<close> by (simp add: recv_complete_def buf_read_def Let_def)
    qed
  next
    case (3 ai part)
    show ?thesis
    proof (rule receiving_good [OF 3(5) n _ _ base], goal_cases)
      case (1 c') then show ?case using 3 by (auto simp: sc_inv_def sc_base_def)
    next
      case (2 c' b)
      then have "length (part @ bs) = 4" by linarith
      with 2 3(1-4) show ?case by (simp add: recv_complete_def, intro recv_reply_header_good) simp_all
    qed
  next
    case (4 ai h part)
    show ?thesis
    proof (rule receiving_good [OF 4(6) n _ _ base], goal_cases)
      case (1 c') then show ?case using 4 by (simp add: sc_inv_def sc_base_def) blast
    next
      case (2 c' b)
      then have "length (part @ bs) = reply_addr_len h" by linarith
      with 2 4(1-5) show ?case by (simp add: recv_complete_def, intro recv_reply_rest_good [where h = h and addr = "part @ bs"]) simp_all
    qed
  qed
qed

definition sc_history :: "sc_obs list \<Rightarrow> sc_conf \<Rightarrow> bool" where
  "sc_history obs cw \<longleftrightarrow> (case cw of (c, w) \<Rightarrow> conf_ok (sc_auth_info c) (sc_dest_addr c) \<and>
     sc_inv (sc_auth_info c) (sc_dest_addr c) (sent obs) (rcvd obs) (c, w))"

lemma sc_good_history:
  assumes "sc_good ais dest (sent h) (rcvd h) (Some ((c, w), obs))" "conf_ok ais dest"
  shows "sc_history (h @ obs) (c, w) \<and> sc_auth_info c = ais \<and> sc_dest_addr c = dest"
proof -
  have inv: "sc_inv ais dest (sent (h @ obs)) (rcvd (h @ obs)) (c, w)" using assms(1) by (simp add: sc_good_def)
  then have "sc_auth_info c = ais" "sc_dest_addr c = dest" by (simp_all add: sc_inv_def)
  with inv assms(2) show ?thesis unfolding sc_history_def by blast
qed

lemma sc_step_good:
  assumes h: "sc_history h (c, w)" and ok: "op_ok x"
    and enabled: "case x of Op_Connected _ _ _ \<Rightarrow> w = Wait_Connect | Op_Sent _ \<Rightarrow> w = Wait_Sent
      | Op_Data bs _ \<Rightarrow> bs \<noteq> [] \<and> (\<exists>off n. w = Wait_Data off n \<and> int (length bs) \<le> n)
      | Op_Closed _ \<Rightarrow> w \<noteq> Wait_Connect \<and> w \<noteq> Wait_Free"
  shows "sc_good (sc_auth_info c) (sc_dest_addr c) (sent h) (rcvd h) (sc_step x (c, w))"
proof -
  have conf: "conf_ok (sc_auth_info c) (sc_dest_addr c)"
    and inv: "sc_inv (sc_auth_info c) (sc_dest_addr c) (sent h) (rcvd h) (c, w)"
    using h by (simp_all add: sc_history_def)
  show ?thesis
  proof (cases x)
    case (Op_Connected e k r)
    then show ?thesis using connector_handler_good [OF conf] inv ok enabled by simp
  next
    case (Op_Sent r)
    then show ?thesis using send_handler_done_good inv ok enabled by simp
  next
    case (Op_Data bs r)
    with enabled obtain off n where "bs \<noteq> []" "w = Wait_Data off n" "int (length bs) \<le> n" by auto
    then show ?thesis using recv_handler_done_good [OF conf] inv ok Op_Data by simp
  next
    case (Op_Closed e)
    then have "sc_step x (c, w) = sc_after w [] (connection_handler c e)" using enabled by auto
    then show ?thesis
      using inv by (auto simp: connection_handler_def report_error_def sc_good_def sc_inv_def)
  qed
qed

lemma sc_step_enabled:
  assumes "sc_step x (c, w) = Some r"
  shows "case x of Op_Connected _ _ _ \<Rightarrow> w = Wait_Connect | Op_Sent _ \<Rightarrow> w = Wait_Sent
      | Op_Data bs _ \<Rightarrow> bs \<noteq> [] \<and> (\<exists>off n. w = Wait_Data off n \<and> int (length bs) \<le> n)
      | Op_Closed _ \<Rightarrow> w \<noteq> Wait_Connect \<and> w \<noteq> Wait_Free"
  using assms by (cases x) (auto split: if_splits sc_wait.splits)

interpretation sch: history_invariant "\<lambda>obs cw. sc_history obs cw \<and> sc_auth_info (fst cw) = ais \<and> sc_dest_addr (fst cw) = dest"
  op_ok sc_step for ais dest
proof
  fix h s x s' as
  assume h: "sc_history h s \<and> sc_auth_info (fst s) = ais \<and> sc_dest_addr (fst s) = dest"
    and ok: "op_ok x" and st: "sc_step x s = Some (s', as)"
  obtain c w c' w' where s: "s = (c, w)" "s' = (c', w')" by fastforce
  have "sc_good ais dest (sent h) (rcvd h) (Some ((c', w'), as))"
    using sc_step_good [of h c w, OF _ ok sc_step_enabled [OF st [unfolded s]]] h unfolding st [unfolded s] s by auto
  moreover have "conf_ok ais dest" using h s by (auto simp: sc_history_def)
  ultimately have "sc_history (h @ as) (c', w') \<and> sc_auth_info c' = ais \<and> sc_dest_addr c' = dest"
    by (rule sc_good_history)
  then show "sc_history (h @ as) s' \<and> sc_auth_info (fst s') = ais \<and> sc_dest_addr (fst s') = dest" by (simp add: s)
qed

lemma sc_history_Init:
  assumes "conf_ok ais dest" "BSocksClient_Init ais dest True = Some c"
  shows "sc_history [] (c, Wait_Connect) \<and> sc_auth_info c = ais \<and> sc_dest_addr c = dest"
  using assms by (auto simp: BSocksClient_Init_def sc_history_def sc_inv_def)

lemma sc_run_history:
  assumes "conf_ok ais dest" "list_all op_ok ops" "BSocksClient_Init ais dest True = Some c"
    "run_ops sc_step ops (c, Wait_Connect) = Some ((c', w'), obs)"
  shows "sc_history obs (c', w') \<and> sc_auth_info c' = ais \<and> sc_dest_addr c' = dest"
  using sch.run_history [OF _ assms(2,4), of "[]" ais dest] sc_history_Init [OF assms(1,3)] by simp

section \<open>What the client guarantees\<close>

definition ex_auth :: "auth_info list" where
  "ex_auth = [BSocksClient_auth_none, BSocksClient_auth_password [117, 115] [112]]"

definition ex_dest :: BAddr where "ex_dest = BAddr_IPv4 0x04030201 0x5000"

definition ex_alloc :: realloc where "ex_alloc b n = Some (replicate n 0)"

definition ex_dialogue :: "sc_op list" where
  "ex_dialogue = [Op_Connected False True ex_alloc, Op_Sent ex_alloc, Op_Data [5] ex_alloc, Op_Data [2] ex_alloc,
     Op_Sent ex_alloc, Op_Data [1, 0] ex_alloc, Op_Sent ex_alloc, Op_Data [5, 0, 0, 1] ex_alloc,
     Op_Data [9, 9, 9] ex_alloc, Op_Data [9, 0, 1] ex_alloc]"

definition ex_client :: BSocksClient where "ex_client = the (BSocksClient_Init ex_auth ex_dest True)"

lemma ex_alloc_ok: "realloc_ok ex_alloc"
  by (simp add: realloc_ok_def ex_alloc_def)

lemma ex_dialogue_facts:
  "conf_ok ex_auth ex_dest" "list_all op_ok ex_dialogue" "BSocksClient_Init ex_auth ex_dest True = Some ex_client"
  by (simp_all add: conf_ok_def ex_auth_def ex_dest_def BSocksClient_auth_none_def BSocksClient_auth_password_def
      BAddr_wf_def BAddr_type_def ex_dialogue_def ex_alloc_ok ex_client_def BSocksClient_Init_def)

text \<open>C2: when the client reports that it is up, however the server's bytes were cut into pieces, it has
  sent exactly the method list, the authentication exchange of a method it offered, and the CONNECT
  request for the destination, and it has consumed exactly the server's method choice, its
  authentication reply and a success reply with an address of the announced type: no byte of the
  tunnelled stream is lost or left in front of it.\<close>

theorem BSocksClient_conversation:
  assumes "conf_ok ais dest" "list_all op_ok ops" "BSocksClient_Init ais dest True = Some c"
    "run_ops sc_step ops (c, Wait_Connect) = Some ((c', w'), obs)" "sc_state c' = STATE_UP" "w' \<noteq> Wait_Free"
  shows "\<exists>ai \<in> set ais. \<exists>h addr. sent obs = hello_msg ais @ auth_sent ai @ request_msg dest \<and>
    rcvd obs = method_msg ai @ auth_rcvd ai @ h @ addr \<and> reply_header_ok h \<and> length addr = reply_addr_len h"
  using sc_run_history [OF assms(1-4)] assms(5,6) by (auto simp: sc_history_def sc_inv_def)

theorem BSocksClient_conversation_witness:
  "(\<exists>ai \<in> set ex_auth. \<exists>h addr. sent (snd (the (run_ops sc_step ex_dialogue (ex_client, Wait_Connect)))) =
      hello_msg ex_auth @ auth_sent ai @ request_msg ex_dest \<and>
    rcvd (snd (the (run_ops sc_step ex_dialogue (ex_client, Wait_Connect)))) = method_msg ai @ auth_rcvd ai @ h @ addr \<and>
    reply_header_ok h \<and> length addr = reply_addr_len h)"
proof -
  let ?r = "the (run_ops sc_step ex_dialogue (ex_client, Wait_Connect))"
  have "run_ops sc_step ex_dialogue (ex_client, Wait_Connect) \<noteq> None" "sc_state (fst (fst ?r)) = STATE_UP" "snd (fst ?r) \<noteq> Wait_Free"
    by code_simp+
  then show ?thesis
    using BSocksClient_conversation [OF ex_dialogue_facts, of "fst (fst ?r)" "snd (fst ?r)" "snd ?r"] by auto
qed

text \<open>C10: the client never gets stuck and never misuses its parts: after any exchange, whatever it waits for
  is handled when it comes (the receive windows it asks for are never empty), and the client can be
  freed at any moment, which releases the connection, the I/O interfaces, the connector and the
  buffer, each exactly once.\<close>

theorem BSocksClient_safe:
  assumes "conf_ok ais dest" "list_all op_ok ops" "BSocksClient_Init ais dest True = Some c"
    "run_ops sc_step ops (c, Wait_Connect) = Some ((c', w'), obs)" "realloc_ok r"
  shows "(case w' of
        Wait_Connect \<Rightarrow> (\<forall>e k. sc_step (Op_Connected e k r) (c', w') \<noteq> None)
      | Wait_Sent \<Rightarrow> sc_step (Op_Sent r) (c', w') \<noteq> None
      | Wait_Data off n \<Rightarrow> 0 < n \<and>
          (\<forall>bs. bs \<noteq> [] \<and> int (length bs) \<le> n \<longrightarrow> sc_step (Op_Data bs r) (c', w') \<noteq> None)
      | _ \<Rightarrow> True) \<and>
    (w' \<noteq> Wait_Connect \<and> w' \<noteq> Wait_Free \<longrightarrow> (\<forall>e. sc_step (Op_Closed e) (c', w') \<noteq> None)) \<and>
    (\<exists>f. BSocksClient_Free c' = Some f \<and> \<not> sc_con f \<and> sc_io f = Io_None \<and> \<not> sc_connector f \<and> sc_buffer f = None)"
proof -
  note hist = conjunct1 [OF sc_run_history [OF assms(1-4)]]
  have good: "sc_step x (c', w') \<noteq> None" if "op_ok x" "case x of Op_Connected _ _ _ \<Rightarrow> w' = Wait_Connect | Op_Sent _ \<Rightarrow> w' = Wait_Sent
      | Op_Data bs _ \<Rightarrow> bs \<noteq> [] \<and> (\<exists>off n. w' = Wait_Data off n \<and> int (length bs) \<le> n)
      | Op_Closed _ \<Rightarrow> w' \<noteq> Wait_Connect \<and> w' \<noteq> Wait_Free" for x
    using sc_step_good [OF hist that] by (auto simp: sc_good_def split: option.splits)
  have window: "0 < n" if "w' = Wait_Data off n" for off n
    using hist that by (auto simp: sc_history_def sc_inv_def receiving_def split: sc_state.splits)
  have free: "\<exists>f. BSocksClient_Free c' = Some f \<and> \<not> sc_con f \<and> sc_io f = Io_None \<and> \<not> sc_connector f \<and> sc_buffer f = None"
    using hist by (auto simp: sc_history_def sc_inv_def BSocksClient_Free_def free_up_io_def free_control_io_def
        free_con_def Let_def)
  show ?thesis
    using window free good [of "Op_Connected e k r" for e k] good [of "Op_Sent r"] good [of "Op_Data bs r" for bs]
      good [of "Op_Closed e" for e] assms(5)
    by (simp split: sc_wait.split del: sc_step.simps) blast
qed

theorem BSocksClient_safe_witness:
  "\<exists>f. BSocksClient_Free (fst (fst (the (run_ops sc_step ex_dialogue (ex_client, Wait_Connect))))) = Some f \<and>
     \<not> sc_con f \<and> sc_io f = Io_None \<and> \<not> sc_connector f \<and> sc_buffer f = None"
proof -
  let ?r = "the (run_ops sc_step ex_dialogue (ex_client, Wait_Connect))"
  have "run_ops sc_step ex_dialogue (ex_client, Wait_Connect) \<noteq> None" by code_simp
  then show ?thesis
    using BSocksClient_safe [OF ex_dialogue_facts, of "fst (fst ?r)" "snd (fst ?r)" "snd ?r", OF _ ex_alloc_ok] by auto
qed

section \<open>A server that follows the protocol\<close>

definition sending :: "auth_info list \<Rightarrow> BAddr \<Rightarrow> sc_state \<Rightarrow> sc_conf \<Rightarrow> bool" where
  "sending ais dest st cw \<longleftrightarrow> (case cw of (c, w) \<Rightarrow> sc_base ais dest c \<and> sc_state c = st \<and> w = Wait_Sent)"

definition reading :: "auth_info list \<Rightarrow> BAddr \<Rightarrow> sc_state \<Rightarrow> nat \<Rightarrow> int \<Rightarrow> int \<Rightarrow> sc_conf \<Rightarrow> bool" where
  "reading ais dest st len d tot cw \<longleftrightarrow>
     (case cw of (c, w) \<Rightarrow> sc_base ais dest c \<and> sc_state c = st \<and> receiving c w len d tot [])"

definition alloc_succeeds :: "realloc \<Rightarrow> bool" where
  "alloc_succeeds r \<longleftrightarrow> realloc_ok r \<and> (\<forall>b n. r b n \<noteq> None)"

lemma reserve_succeeds:
  assumes "alloc_succeeds r" "bsize_val sz = Some n"
  obtains b where "reserve_buffer r c sz = Some (c\<lparr>sc_buffer := Some b\<rparr>)"
proof -
  have "r (sc_buffer c) (unat (bvalue sz)) \<noteq> None" using assms(1) by (simp add: alloc_succeeds_def)
  then show thesis using bsize_val_SomeD [OF assms(2)] that by (auto simp: reserve_buffer_def)
qed

lemma sent_next_reading:
  assumes r: "alloc_succeeds r" and sz: "bsize_val sz = Some len" and tot: "0 < tot" "tot \<le> int len"
    and base: "sc_base ais dest c" and st: "st \<noteq> STATE_CONNECTING" "st \<noteq> STATE_UP"
  shows "\<exists>cw as. sc_after w [] (sent_next r c sz tot st) = Some (cw, as) \<and> reading ais dest st len 0 tot cw"
proof -
  have ok: "realloc_ok r" using r by (simp add: alloc_succeeds_def)
  from sent_next_cases [OF ok sz tot, where c = c and st = st and w = w] show ?thesis
  proof cases
    case 1
    obtain b where "reserve_buffer r c sz = Some (c\<lparr>sc_buffer := Some b\<rparr>)" using reserve_succeeds [OF r sz] .
    with 1 show ?thesis by (simp add: sent_next_def report_error_def start_receive_def do_receive_def)
  next
    case (2 c')
    with base st show ?thesis by (simp add: reading_def sc_base_def)
  qed
qed

lemma chunks_run:
  assumes "receiving c w len d tot part" "sc_base ais dest c" "sc_state c = st" "[] \<notin> set chs"
    "int (length (part @ concat chs)) = tot"
    and complete: "\<And>c' b w obs. sc_buffer c' = Some b \<Longrightarrow> length b = len \<Longrightarrow>
      mem_read b (nat d) (nat tot) = part @ concat chs \<Longrightarrow> sc_base ais dest c' \<Longrightarrow> sc_state c' = st \<Longrightarrow>
      \<exists>cw as. sc_after w obs (recv_complete r c') = Some (cw, as) \<and> Q cw"
  shows "\<exists>cw as. run_ops sc_step (map (\<lambda>bs. Op_Data bs r) chs) (c, w) = Some (cw, as) \<and> Q cw"
  using assms
proof (induction chs arbitrary: c w part)
  case Nil
  then show ?case by (auto simp: receiving_def)
next
  case (Cons bs chs)
  obtain off n where w: "w = Wait_Data off n" "n = tot - int (length part)" using Cons.prems(1) by (auto simp: receiving_def)
  have n: "bs \<noteq> []" "int (length bs) \<le> n" using Cons.prems(4,5) w(2) by auto
  show ?case
  proof (cases "int (length (part @ bs)) < tot")
    case True
    obtain c' w' where c': "sc_after w [Obs_Rcvd bs] (recv_handler_done r (buf_write c (nat off) bs) (int (length bs))) =
        Some ((c', w'), [Obs_Rcvd bs])" "receiving c' w' len d tot (part @ bs)" "sc_base ais dest c'" "sc_state c' = st"
      using receiving_more [OF Cons.prems(1) [unfolded w(1)] n(2) True, of w "[Obs_Rcvd bs]" r] Cons.prems(2,3)
      unfolding sc_base_def by metis
    have "\<exists>cw as. run_ops sc_step (map (\<lambda>bs. Op_Data bs r) chs) (c', w') = Some (cw, as) \<and> Q cw"
      by (rule Cons.IH [OF c'(2-4)]) (use Cons.prems(4-6) in \<open>simp_all\<close>)
    then show ?thesis using c'(1) n w(1) by auto
  next
    case False
    then have "length (concat chs) = 0" using Cons.prems(5) by (simp del: length_0_conv)
    then have "concat chs = []" by simp
    then have chs: "chs = []" using Cons.prems(4) by (cases chs) auto
    from receiving_last [OF Cons.prems(1) [unfolded w(1)] n(2) False, of r] Cons.prems(2,3)
    obtain c' b where c': "sc_buffer c' = Some b" "length b = len" "mem_read b (nat d) (nat tot) = part @ concat (bs # chs)"
      "sc_base ais dest c'" "sc_state c' = st"
      "recv_handler_done r (buf_write c (nat off) bs) (int (length bs)) = recv_complete r c'"
      unfolding sc_base_def chs by (metis append_Nil2 concat.simps(1) concat.simps(2))
    from Cons.prems(6) [OF c'(1-5), of w "[Obs_Rcvd bs]"] show ?thesis using c'(6) n w(1) chs by auto
  qed
qed

lemma reading_chunks:
  assumes "[] \<notin> set chs" "int (length (concat chs)) = tot"
    and "\<And>c' b w obs. sc_buffer c' = Some b \<Longrightarrow> length b = len \<Longrightarrow> mem_read b (nat d) (nat tot) = concat chs \<Longrightarrow>
      sc_base ais dest c' \<Longrightarrow> sc_state c' = st \<Longrightarrow>
      \<exists>cw as. sc_after w obs (recv_complete r c') = Some (cw, as) \<and> Q cw"
  shows "reaches sc_step (map (\<lambda>bs. Op_Data bs r) chs) (reading ais dest st len d tot) Q"
  unfolding reaches_def reading_def
  using chunks_run [where part = "[]" and st = st and ais = ais and dest = dest and r = r and Q = Q, OF _ _ _ assms(1) _ assms(3)] assms(2)
  by fastforce

lemma send_done_reading:
  assumes r: "alloc_succeeds r"
  shows "reaches sc_step [Op_Sent r] (sending ais dest STATE_SENDING_HELLO) (reading ais dest STATE_SENT_HELLO 2 0 2)"
    and "reaches sc_step [Op_Sent r] (sending ais dest STATE_SENDING_PASSWORD) (reading ais dest STATE_SENT_PASSWORD 2 0 2)"
    and "reaches sc_step [Op_Sent r] (sending ais dest STATE_SENDING_REQUEST) (reading ais dest STATE_SENT_REQUEST 22 0 4)"
  using sent_next_reading [OF r size_vals(5), of 2 ais dest] sent_next_reading [OF r size_vals(4), of 4 ais dest]
  by (auto intro!: reaches_single simp: sending_def send_handler_done_def)

lemma auth_finished_sending:
  assumes "conf_ok ais dest" "alloc_succeeds r" "sc_base ais dest c"
  shows "\<exists>cw as. sc_after w obs (auth_finished r c) = Some (cw, as) \<and> sending ais dest STATE_SENDING_REQUEST cw"
proof -
  have dest: "sc_dest_addr c = dest" using assms(3) by (simp add: sc_base_def)
  obtain b where "reserve_buffer r c (request_size dest) = Some (c\<lparr>sc_buffer := Some b\<rparr>)"
    using reserve_succeeds [OF assms(2) request_msg_length [OF assms(1)]] .
  then show ?thesis using assms(3) by (simp add: auth_finished_def dest sending_def sc_base_def buf_write_def Let_def)
qed

text \<open>The server's answer to the method list, and what the client does next.\<close>

definition after_hello :: "auth_info \<Rightarrow> sc_state" where
  "after_hello ai = (if auth_type ai = 2 then STATE_SENDING_PASSWORD else STATE_SENDING_REQUEST)"

definition auth_usable :: "auth_info \<Rightarrow> bool" where
  "auth_usable ai \<longleftrightarrow> auth_type ai = 0 \<or> auth_type ai = 2 \<and>
     0 < length (auth_username ai) \<and> length (auth_username ai) \<le> 255 \<and>
     0 < length (auth_password ai) \<and> length (auth_password ai) \<le> 255"

lemma recv_hello_sending:
  assumes conf: "conf_ok ais dest" and r: "alloc_succeeds r" and base: "sc_base ais dest c"
    and b: "sc_buffer c = Some b" "mem_read b 0 2 = method_msg ai"
    and ai: "find (\<lambda>a. auth_type a = auth_type ai) ais = Some ai" "auth_usable ai"
  shows "\<exists>cw as. sc_after w obs (recv_hello r c) = Some (cw, as) \<and> sending ais dest (after_hello ai) cw"
proof -
  have ais: "sc_auth_info c = ais" using base by (simp add: sc_base_def)
  have ty: "uint (of_int (auth_type ai) :: byte) = auth_type ai" using ai(2) by (auto simp: auth_usable_def)
  show ?thesis
  proof (cases "auth_type ai = 0")
    case True
    then have "recv_hello r c = auth_finished r c"
      using b ai ty by (simp add: recv_hello_def method_msg_def buf_read_def Let_def ais)
    then show ?thesis using auth_finished_sending [OF conf r base] True by (simp add: after_hello_def)
  next
    case False
    then have pw: "auth_type ai = 2" "auth_username ai \<noteq> []" "auth_password ai \<noteq> []"
      "length (auth_username ai) \<le> 255" "length (auth_password ai) \<le> 255" using ai(2) by (auto simp: auth_usable_def)
    let ?sz = "bsize_fromsize (1 + 1 + of_nat (length (auth_username ai)) + 1 + of_nat (length (auth_password ai)))"
    have eq: "recv_hello r c = send_password r c ai"
      using b ai(1) ty pw by (simp add: recv_hello_def method_msg_def buf_read_def Let_def ais linorder_not_less)
    obtain b' where "reserve_buffer r c ?sz = Some (c\<lparr>sc_buffer := Some b'\<rparr>)"
      using reserve_succeeds [OF r bsize_val_fromsize] .
    then show ?thesis
      using base pw(1) unfolding eq send_password_def Let_def
      by (simp add: sending_def sc_base_def buf_write_def after_hello_def)
  qed
qed

lemma hello_reaches:
  assumes "conf_ok ais dest" "alloc_succeeds r" "find (\<lambda>a. auth_type a = auth_type ai) ais = Some ai" "auth_usable ai"
    "[] \<notin> set chs" "concat chs = method_msg ai"
  shows "reaches sc_step (map (\<lambda>bs. Op_Data bs r) chs) (reading ais dest STATE_SENT_HELLO 2 0 2) (sending ais dest (after_hello ai))"
  by (rule reading_chunks) (use assms recv_hello_sending in \<open>auto simp: recv_complete_def method_msg_def\<close>)

lemma password_reaches:
  assumes "conf_ok ais dest" "alloc_succeeds r" "[] \<notin> set chs" "concat chs = [1, 0]"
  shows "reaches sc_step (map (\<lambda>bs. Op_Data bs r) chs) (reading ais dest STATE_SENT_PASSWORD 2 0 2) (sending ais dest STATE_SENDING_REQUEST)"
  by (rule reading_chunks)
    (use assms auth_finished_sending [OF assms(1,2)] in \<open>auto simp: recv_complete_def buf_read_def\<close>)

lemma header_reaches:
  assumes "[] \<notin> set chs" "reply_header_ok (concat chs)"
  shows "reaches sc_step (map (\<lambda>bs. Op_Data bs r) chs) (reading ais dest STATE_SENT_REQUEST 22 0 4)
    (reading ais dest STATE_RECEIVED_REPLY_HEADER 22 4 (int (reply_addr_len (concat chs))))"
  by (rule reading_chunks)
    (use assms in \<open>auto simp: recv_complete_def reply_header_ok_def recv_reply_header_def buf_read_def Let_def reply_addr_len_def
        start_receive_def do_receive_def reading_def receiving_def mem_read_def sc_base_def\<close>)

lemma address_reaches:
  assumes "[] \<notin> set chs" "length (concat chs) = n"
  shows "reaches sc_step (map (\<lambda>bs. Op_Data bs r) chs) (reading ais dest STATE_RECEIVED_REPLY_HEADER 22 4 (int n))
    (\<lambda>(c, w). sc_state c = STATE_UP \<and> w = Wait_Up)"
  by (rule reading_chunks)
    (use assms in \<open>auto simp: recv_complete_def recv_reply_rest_def sc_base_def free_control_io_def init_up_io_def\<close>)

lemma connect_reaches:
  assumes "conf_ok ais dest" "alloc_succeeds r" "ais \<noteq> []" "length ais \<le> 255"
  shows "reaches sc_step [Op_Connected False True r] (\<lambda>cw. BSocksClient_Init ais dest True = Some (fst cw) \<and> snd cw = Wait_Connect)
    (sending ais dest STATE_SENDING_HELLO)"
proof (rule reaches_single)
  fix cw assume cw: "BSocksClient_Init ais dest True = Some (fst cw) \<and> snd cw = Wait_Connect"
  obtain c w where c: "cw = (c, w)" by (cases cw)
  let ?c1 = "c\<lparr>sc_con := True, sc_io := Io_Control\<rparr>"
  have init: "sc_auth_info c = ais" "sc_dest_addr c = dest" "sc_connector c" "sc_io c = Io_None" "w = Wait_Connect"
    using cw c by (auto simp: BSocksClient_Init_def)
  obtain b where "reserve_buffer r ?c1 (hello_size (length ais)) = Some (?c1\<lparr>sc_buffer := Some b\<rparr>)"
    using reserve_succeeds [OF assms(2) size_vals(1) [OF assms(4)]] .
  then show "\<exists>s' as. sc_step (Op_Connected False True r) cw = Some (s', as) \<and> sending ais dest STATE_SENDING_HELLO s'"
    using init assms(3,4)
    by (simp add: c connector_handler_def init_control_io_def Let_def sending_def sc_base_def buf_write_def)
qed

text \<open>The steps of a session with a server that chooses the method of \<open>ai\<close>; the four lists are the
  pieces in which its method choice, its answer to the password, its reply header and the bound
  address arrive.\<close>

definition session :: "realloc \<Rightarrow> auth_info \<Rightarrow> byte list list \<Rightarrow> byte list list \<Rightarrow> byte list list \<Rightarrow> byte list list \<Rightarrow> sc_op list" where
  "session r ai method pw hdr addr =
     [Op_Connected False True r] @ [Op_Sent r] @ map (\<lambda>bs. Op_Data bs r) method @
     (if auth_type ai = 2 then [Op_Sent r] @ map (\<lambda>bs. Op_Data bs r) pw else []) @
     [Op_Sent r] @ map (\<lambda>bs. Op_Data bs r) hdr @ map (\<lambda>bs. Op_Data bs r) addr"



end
