(* ===== verification/Tcp_Client.thy ===== *)
theory Tcp_Client
  imports BSocksClient "HOL-Library.Monad_Syntax"
begin

text \<open>
  The TCP clients of \<^verbatim>\<open>tun2socks.c\<close>: a TCP connection accepted by the user space TCP stack (lwIP) is
  joined with a connection through a SOCKS server.  The model is one client with its surroundings:
  the protocol control block (pcb) of lwIP and the callbacks registered on it, the \<^verbatim>\<open>BSocksClient\<close> and
  the operations in progress on its stream interfaces, the client list and counter, and the variable
  of the running callback that a kill of \<^verbatim>\<open>dead_aborted\<close> writes.  Every operation that would touch a
  freed object, start an operation while one is in progress or violate an assertion of the source
  gives \<open>None\<close>.  What lwIP answers is an argument of the handlers.
\<close>

section \<open>State\<close>

definition TCP_WND :: int where "TCP_WND = 4 * 1460"

definition CLIENT_SOCKS_RECV_BUF_SIZE :: int where "CLIENT_SOCKS_RECV_BUF_SIZE = 8192"

text \<open>\<open>dead_aborted\<close>: whether the pointer of that name is not null.\<close>

record tcp_client =
  aborted :: bool
  dead_aborted :: bool
  client_closed :: bool
  tc_buf :: "byte list"
  buf_used :: int
  socks_up :: bool
  socks_closed :: bool
  socks_recv_buf :: "byte list"
  socks_recv_buf_used :: int
  socks_recv_buf_sent :: int
  socks_recv_waiting :: bool
  socks_recv_tcp_pending :: int

text \<open>
  The surroundings.  \<open>w_dead\<close> is the variable \<^verbatim>\<open>badvpn__dead\<close> of the running callback.  \<open>w_unacked\<close> counts the
  bytes lwIP was given and has not confirmed.  The byte lists are the bytes taken from and given to
  each side so far, \<open>w_recved\<close> the bytes confirmed to lwIP, \<open>w_aborts\<close> the calls of \<^verbatim>\<open>tcp_abort\<close>, and the
  two last flags record that a side was lost, so that what was buffered for it cannot be delivered.
\<close>

record world =
  w_client :: tcp_client
  w_alive :: bool
  w_dead :: "int option"
  w_pcb :: bool
  w_cb_err :: bool
  w_cb_recv :: bool
  w_cb_sent :: bool
  w_socks :: bool
  w_sending :: "int option"
  w_receiving :: bool
  w_listed :: bool
  num_clients :: int
  w_unacked :: int
  w_from_tcp :: "byte list"
  w_to_socks :: "byte list"
  w_from_socks :: "byte list"
  w_to_tcp :: "byte list"
  w_recved :: int
  w_aborts :: int
  w_socks_lost :: bool
  w_tcp_lost :: bool

datatype lw_err = ERR_OK | ERR_MEM | ERR_ABRT | ERR_OTHER

text \<open>lwIP's answers: whether \<^verbatim>\<open>tcp_close\<close> succeeds, the send buffer space and the result of \<^verbatim>\<open>tcp_write\<close> in each
  round of the loop, and whether \<^verbatim>\<open>tcp_output\<close> succeeds.\<close>

record lwip =
  lw_close_ok :: bool
  lw_sndbuf :: "nat \<Rightarrow> nat"
  lw_write :: "nat \<Rightarrow> lw_err"
  lw_output_ok :: bool

definition upd :: "(tcp_client \<Rightarrow> tcp_client) \<Rightarrow> world \<Rightarrow> world" where
  "upd f w = w\<lparr>w_client := f (w_client w)\<rparr>"

definition need :: "bool \<Rightarrow> unit option" where
  "need b = (if b then Some () else None)"

section \<open>Closing\<close>

definition DEAD_KILL_WITH :: "int \<Rightarrow> world \<Rightarrow> world option" where
  "DEAD_KILL_WITH val w =
     (if dead_aborted (w_client w) then map_option (\<lambda>_. w\<lparr>w_dead := Some val\<rparr>) (w_dead w) else Some w)"

definition remove_callbacks :: "world \<Rightarrow> world option" where
  "remove_callbacks w = (if w_pcb w then Some (w\<lparr>w_cb_err := False, w_cb_recv := False, w_cb_sent := False\<rparr>) else None)"

definition client_abort_pcb :: "world \<Rightarrow> world option" where
  "client_abort_pcb w = do {
     need (w_alive w \<and> \<not> aborted (w_client w) \<and> w_pcb w);
     let w1 = w\<lparr>w_pcb := False, w_aborts := w_aborts w + 1\<rparr>;
     let w2 = upd (aborted_update (\<lambda>_. True)) w1;
     DEAD_KILL_WITH 1 w2
   }"

definition client_dealloc :: "world \<Rightarrow> world option" where
  "client_dealloc w = do {
     need (w_alive w \<and> client_closed (w_client w) \<and> socks_closed (w_client w));
     need (num_clients w > 0 \<and> w_listed w);
     let w1 = w\<lparr>num_clients := num_clients w - 1, w_listed := False\<rparr>;
     w2 \<leftarrow> (if \<not> aborted (w_client w1) then DEAD_KILL_WITH (- 1) w1 else Some w1);
     Some (w2\<lparr>w_alive := False\<rparr>)
   }"

definition BSocksClient_Free_world :: "world \<Rightarrow> world option" where
  "BSocksClient_Free_world w =
     (if w_socks w then Some (w\<lparr>w_socks := False, w_sending := None, w_receiving := False\<rparr>) else None)"

lemma need_Some [simp]: "need b = Some u \<longleftrightarrow> b"
  by (simp add: need_def)

lemma need_bind [simp]: "Option.bind (need b) f = (if b then f () else None)"
  by (simp add: need_def)

lemma DEAD_KILL_WITH_client: "DEAD_KILL_WITH val w = Some w' \<Longrightarrow> w_client w' = w_client w"
  by (auto simp: DEAD_KILL_WITH_def split: if_splits)

lemma client_abort_pcb_flags:
  "client_abort_pcb w = Some w' \<Longrightarrow> client_closed (w_client w') = client_closed (w_client w)"
  "client_abort_pcb w = Some w' \<Longrightarrow> socks_closed (w_client w') = socks_closed (w_client w)"
  by (auto simp: client_abort_pcb_def upd_def Let_def dest!: DEAD_KILL_WITH_client split: if_splits)

lemma remove_callbacks_client: "remove_callbacks w = Some w' \<Longrightarrow> w_client w' = w_client w"
  by (auto simp: remove_callbacks_def split: if_splits)

lemma BSocksClient_Free_world_client: "BSocksClient_Free_world w = Some w' \<Longrightarrow> w_client w' = w_client w"
  by (auto simp: BSocksClient_Free_world_def split: if_splits)

text \<open>The two sides close each other: the functions call each other until both sides are closed.\<close>

function client_handle_freed_client :: "lwip \<Rightarrow> world \<Rightarrow> world option"
  and client_free_client :: "lwip \<Rightarrow> world \<Rightarrow> world option"
  and client_free_socks :: "lwip \<Rightarrow> world \<Rightarrow> world option"
where
  "client_handle_freed_client lw w = do {
     need (w_alive w \<and> \<not> client_closed (w_client w));
     let w1 = upd (client_closed_update (\<lambda>_. True)) w;
     if buf_used (w_client w1) > 0 \<and> \<not> socks_closed (w_client w1) then Some w1
     else if \<not> socks_closed (w_client w1) then client_free_socks lw w1
     else client_dealloc w1
   }"
| "client_free_client lw w = do {
     need (w_alive w \<and> \<not> client_closed (w_client w));
     w1 \<leftarrow> remove_callbacks w;
     w2 \<leftarrow> (if lw_close_ok lw then Some (w1\<lparr>w_pcb := False\<rparr>) else client_abort_pcb w1);
     client_handle_freed_client lw w2
   }"
| "client_free_socks lw w = do {
     need (w_alive w \<and> \<not> socks_closed (w_client w));
     w1 \<leftarrow> (if socks_up (w_client w) \<and> \<not> client_closed (w_client w) then
              do { need (w_pcb w); Some (w\<lparr>w_cb_recv := False\<rparr>) }
            else Some w);
     w2 \<leftarrow> BSocksClient_Free_world w1;
     let w3 = upd (socks_closed_update (\<lambda>_. True)) w2;
     let c = w_client w3;
     if socks_up c \<and> (socks_recv_buf_used c \<ge> 0 \<or> socks_recv_tcp_pending c > 0) \<and> \<not> client_closed c then Some w3
     else if \<not> client_closed c then client_free_client lw w3
     else client_dealloc w3
   }"
  by pat_completeness auto
termination
proof (relation "measure (\<lambda>x. case x of
      Inl (_, w) \<Rightarrow> 2 * of_bool (\<not> client_closed (w_client w)) + 2 * of_bool (\<not> socks_closed (w_client w))
    | Inr (Inl (_, w)) \<Rightarrow> 2 * of_bool (\<not> client_closed (w_client w)) + 2 * of_bool (\<not> socks_closed (w_client w)) + 1
    | Inr (Inr (_, w)) \<Rightarrow> 2 * of_bool (\<not> client_closed (w_client w)) + 2 * of_bool (\<not> socks_closed (w_client w)))",
    goal_cases)
  case (3 lw w u w1 w2)
  then show ?case
    using remove_callbacks_client [of w w1] client_abort_pcb_flags [of w1 w2] by (auto split: if_splits)
next
  case (4 lw w u w1 w2)
  then show ?case
    using BSocksClient_Free_world_client [of w1 w2] by (auto simp: upd_def split: if_splits)
qed (auto simp: upd_def)

definition client_abort_client :: "lwip \<Rightarrow> world \<Rightarrow> world option" where
  "client_abort_client lw w = do {
     need (w_alive w \<and> \<not> client_closed (w_client w));
     w1 \<leftarrow> remove_callbacks w;
     w2 \<leftarrow> client_abort_pcb w1;
     client_handle_freed_client lw (w2\<lparr>w_tcp_lost := True\<rparr>)
   }"

definition client_murder :: "world \<Rightarrow> world option" where
  "client_murder w = do {
     need (w_alive w);
     w1 \<leftarrow> (if \<not> client_closed (w_client w) then do {
              w1 \<leftarrow> remove_callbacks w;
              w2 \<leftarrow> client_abort_pcb w1;
              Some (upd (client_closed_update (\<lambda>_. True)) w2)
            } else Some w);
     w2 \<leftarrow> (if \<not> socks_closed (w_client w1) then do {
              w2 \<leftarrow> BSocksClient_Free_world w1;
              Some (upd (socks_closed_update (\<lambda>_. True)) w2)
            } else Some w1);
     client_dealloc w2
   }"

definition client_err_func :: "lwip \<Rightarrow> world \<Rightarrow> world option" where
  "client_err_func lw w = client_handle_freed_client lw w"

section \<open>Moving data\<close>

definition Sender_Send_world :: "int \<Rightarrow> world \<Rightarrow> world option" where
  "Sender_Send_world data_len w = do {
     need (w_socks w \<and> w_sending w = None \<and> data_len > 0);
     Some (w\<lparr>w_sending := Some data_len\<rparr>)
   }"

definition client_send_to_socks :: "world \<Rightarrow> world option" where
  "client_send_to_socks w = do {
     need (w_alive w \<and> \<not> socks_closed (w_client w) \<and> socks_up (w_client w) \<and> buf_used (w_client w) > 0);
     Sender_Send_world (buf_used (w_client w)) w
   }"

definition client_socks_send_handler_done :: "lwip \<Rightarrow> int \<Rightarrow> world \<Rightarrow> world option" where
  "client_socks_send_handler_done lw data_len w = do {
     let c = w_client w;
     need (w_alive w \<and> \<not> socks_closed c \<and> socks_up c \<and> buf_used c > 0 \<and> data_len > 0 \<and> data_len \<le> buf_used c);
     let rest = mem_read (tc_buf c) (nat data_len) (nat (buf_used c - data_len));
     let w1 = upd (\<lambda>c. c\<lparr>tc_buf := mem_write (tc_buf c) 0 rest, buf_used := buf_used c - data_len\<rparr>) w;
     w2 \<leftarrow> (if \<not> client_closed (w_client w1)
            then do { need (w_pcb w1); Some (w1\<lparr>w_recved := w_recved w1 + data_len\<rparr>) }
            else Some w1);
     if buf_used (w_client w2) > 0 then Sender_Send_world (buf_used (w_client w2)) w2
     else if client_closed (w_client w2) then client_free_socks lw w2
     else Some w2
   }"

definition client_socks_recv_initiate :: "world \<Rightarrow> world option" where
  "client_socks_recv_initiate w = do {
     let c = w_client w;
     need (w_alive w \<and> \<not> client_closed c \<and> \<not> socks_closed c \<and> socks_up c \<and> socks_recv_buf_used c = -1);
     need (w_socks w \<and> \<not> w_receiving w);
     Some (w\<lparr>w_receiving := True\<rparr>)
   }"

text \<open>A successful \<^verbatim>\<open>tcp_write\<close> of \<open>n\<close> bytes of the receive buffer, and the counters updated after it.\<close>

definition after_write :: "int \<Rightarrow> world \<Rightarrow> world" where
  "after_write n w = upd (\<lambda>c. c\<lparr>socks_recv_buf_sent := socks_recv_buf_sent c + n, socks_recv_tcp_pending := socks_recv_tcp_pending c + n\<rparr>)
     (w\<lparr>w_to_tcp := w_to_tcp w @ mem_read (socks_recv_buf (w_client w)) (nat (socks_recv_buf_sent (w_client w))) (nat n),
        w_unacked := w_unacked w + n\<rparr>)"

text \<open>The loop of \<^verbatim>\<open>client_socks_recv_send_out\<close>; the first component is the value to return when it is \<open>-1\<close>.\<close>

function send_out_loop :: "lwip \<Rightarrow> nat \<Rightarrow> world \<Rightarrow> (int \<times> world) option" where
  "send_out_loop lw i w = do {
     let c = w_client w;
     need (w_pcb w \<and> socks_recv_buf_sent c < socks_recv_buf_used c);
     let to_write = min (socks_recv_buf_used c - socks_recv_buf_sent c) (int (lw_sndbuf lw i));
     if to_write = 0 then Some (0, w)
     else case lw_write lw i of
       ERR_OK \<Rightarrow>
         (let w1 = after_write to_write w in
          if socks_recv_buf_sent (w_client w1) < socks_recv_buf_used (w_client w1) then send_out_loop lw (i + 1) w1
          else Some (0, w1))
     | ERR_MEM \<Rightarrow> Some (0, w)
     | _ \<Rightarrow> do { w1 \<leftarrow> client_abort_client lw w; Some (-1, w1) }
   }"
  by pat_completeness auto
termination
  by (relation "measure (\<lambda>(lw, i, w). nat (socks_recv_buf_used (w_client w) - socks_recv_buf_sent (w_client w)))")
    (auto simp: after_write_def upd_def)

definition client_socks_recv_send_out :: "lwip \<Rightarrow> world \<Rightarrow> (int \<times> world) option" where
  "client_socks_recv_send_out lw w = do {
     let c = w_client w;
     need (w_alive w \<and> \<not> client_closed c \<and> socks_up c \<and> socks_recv_buf_used c > 0 \<and>
       socks_recv_buf_sent c < socks_recv_buf_used c \<and> \<not> socks_recv_waiting c);
     (r, w1) \<leftarrow> send_out_loop lw 0 w;
     if r < 0 then Some (-1, w1)
     else do {
       need (w_alive w1 \<and> w_pcb w1);
       if \<not> lw_output_ok lw then do { w2 \<leftarrow> client_abort_client lw w1; Some (-1, w2) }
       else if socks_recv_buf_sent (w_client w1) < socks_recv_buf_used (w_client w1) then
         (if socks_recv_tcp_pending (w_client w1) = 0
          then do { w2 \<leftarrow> client_abort_client lw w1; Some (-1, w2) }
          else Some (0, upd (socks_recv_waiting_update (\<lambda>_. True)) w1))
       else Some (0, upd (socks_recv_buf_used_update (\<lambda>_. -1)) w1)
     }
   }"

definition client_socks_recv_handler_done :: "lwip \<Rightarrow> int \<Rightarrow> world \<Rightarrow> world option" where
  "client_socks_recv_handler_done lw data_len w = do {
     let c = w_client w;
     need (w_alive w \<and> data_len > 0 \<and> data_len \<le> CLIENT_SOCKS_RECV_BUF_SIZE \<and> \<not> socks_closed c \<and> socks_up c \<and>
       socks_recv_buf_used c = -1);
     if client_closed c then Some w
     else do {
       let w1 = upd (\<lambda>c. c\<lparr>socks_recv_buf_used := data_len, socks_recv_buf_sent := 0, socks_recv_waiting := False\<rparr>) w;
       (r, w2) \<leftarrow> client_socks_recv_send_out lw w1;
       if r < 0 then Some w2
       else do {
         need (w_alive w2);
         if socks_recv_buf_used (w_client w2) = -1 then client_socks_recv_initiate w2 else Some w2
       }
     }
   }"

definition client_socks_handler :: "lwip \<Rightarrow> sc_event \<Rightarrow> world \<Rightarrow> world option" where
  "client_socks_handler lw event w = do {
     need (w_alive w \<and> \<not> socks_closed (w_client w));
     case event of
       SC_ERROR \<Rightarrow> client_free_socks lw w
     | SC_UP \<Rightarrow> do {
         need (\<not> socks_up (w_client w) \<and> w_socks w);
         let w1 = upd (\<lambda>c. c\<lparr>socks_recv_buf_used := -1, socks_recv_tcp_pending := 0\<rparr>) w;
         w2 \<leftarrow> (if \<not> client_closed (w_client w1) then do { need (w_pcb w1); Some (w1\<lparr>w_cb_sent := True\<rparr>) } else Some w1);
         let w3 = upd (socks_up_update (\<lambda>_. True)) w2;
         w4 \<leftarrow> (if buf_used (w_client w3) > 0 then client_send_to_socks w3 else Some w3);
         if \<not> client_closed (w_client w4) then client_socks_recv_initiate w4 else Some w4
       }
     | SC_ERROR_CLOSED \<Rightarrow> do { need (socks_up (w_client w)); client_free_socks lw w }
   }"

section \<open>Events\<close>

text \<open>
  What the SOCKS side can do: report an event (it is up at most once, and closed by the peer only when
  up), complete part of the send in progress, or deliver data to the receive in progress.  A disabled
  event does not happen.
\<close>

datatype socks_op = Socks_Event sc_event lwip | Send_Done int lwip | Recv_Done "byte list" lwip

fun socks_enabled :: "socks_op \<Rightarrow> world \<Rightarrow> bool" where
  "socks_enabled (Socks_Event e _) w \<longleftrightarrow>
     w_socks w \<and> (e = SC_UP \<longrightarrow> \<not> socks_up (w_client w)) \<and> (e = SC_ERROR_CLOSED \<longrightarrow> socks_up (w_client w))"
| "socks_enabled (Send_Done n _) w \<longleftrightarrow> (case w_sending w of None \<Rightarrow> False | Some len \<Rightarrow> 0 < n \<and> n \<le> len)"
| "socks_enabled (Recv_Done bs _) w \<longleftrightarrow> w_receiving w \<and> bs \<noteq> [] \<and> int (length bs) \<le> CLIENT_SOCKS_RECV_BUF_SIZE"

fun socks_handler :: "socks_op \<Rightarrow> world \<Rightarrow> world option" where
  "socks_handler (Socks_Event e lw) w =
     client_socks_handler lw e (if e = SC_UP then w else w\<lparr>w_socks_lost := True\<rparr>)"
| "socks_handler (Send_Done n lw) w =
     client_socks_send_handler_done lw n
       (w\<lparr>w_sending := None, w_to_socks := w_to_socks w @ mem_read (tc_buf (w_client w)) 0 (nat n)\<rparr>)"
| "socks_handler (Recv_Done bs lw) w =
     client_socks_recv_handler_done lw (int (length bs))
       (upd (\<lambda>c. c\<lparr>socks_recv_buf := mem_write (socks_recv_buf c) 0 bs\<rparr>)
         (w\<lparr>w_receiving := False, w_from_socks := w_from_socks w @ bs\<rparr>))"

definition socks_step :: "socks_op \<Rightarrow> world \<Rightarrow> world option" where
  "socks_step x w = (if socks_enabled x w then socks_handler x w else Some w)"

definition DEAD_ENTER :: "world \<Rightarrow> world" where
  "DEAD_ENTER w = upd (dead_aborted_update (\<lambda>_. True)) (w\<lparr>w_dead := Some 0\<rparr>)"

text \<open>\<open>DEAD_LEAVE2 prev\<close> restores the pointer unless it was killed; the result is the value of the variable.\<close>

definition DEAD_LEAVE2 :: "bool \<Rightarrow> world \<Rightarrow> (int \<times> world) option" where
  "DEAD_LEAVE2 prev w = do {
     d \<leftarrow> w_dead w;
     need (d = 0 \<longrightarrow> w_alive w);
     need (\<not> prev);
     let w1 = (if d = 0 then upd (dead_aborted_update (\<lambda>_. prev)) w else w);
     Some (d, w1\<lparr>w_dead := None\<rparr>)
   }"

text \<open>The jobs that \<^verbatim>\<open>SYNC_COMMIT\<close> runs are events of the SOCKS side.\<close>

abbreviation SYNC_COMMIT :: "socks_op list \<Rightarrow> world \<Rightarrow> world option" where
  "SYNC_COMMIT jobs \<equiv> run_all socks_step jobs"

definition client_recv_func :: "lwip \<Rightarrow> socks_op list \<Rightarrow> byte list option \<Rightarrow> world \<Rightarrow> (lw_err \<times> world) option" where
  "client_recv_func lw jobs p w = do {
     need (w_alive w \<and> \<not> client_closed (w_client w));
     let prev = dead_aborted (w_client w);
     let w1 = DEAD_ENTER w;
     case p of
       None \<Rightarrow> do {
         w2 \<leftarrow> client_free_client lw w1;
         (d, w3) \<leftarrow> DEAD_LEAVE2 prev w2;
         Some (if d > 0 then ERR_ABRT else ERR_OK, w3)
       }
     | Some bs \<Rightarrow> do {
         let c = w_client w1;
         if int (length bs) > TCP_WND - buf_used c then do { (d, w2) \<leftarrow> DEAD_LEAVE2 prev w1; Some (ERR_MEM, w2) }
         else do {
           let w2 = upd (\<lambda>c. c\<lparr>tc_buf := mem_write (tc_buf c) (nat (buf_used c)) bs, buf_used := buf_used c + int (length bs)\<rparr>)
             (w1\<lparr>w_from_tcp := w_from_tcp w1 @ bs\<rparr>);
           w3 \<leftarrow> (if buf_used (w_client w2) = int (length bs) \<and> socks_up (w_client w2)
                  then do { w3 \<leftarrow> client_send_to_socks w2; SYNC_COMMIT jobs w3 }
                  else Some w2);
           (d, w4) \<leftarrow> DEAD_LEAVE2 prev w3;
           Some (if d > 0 then ERR_ABRT else ERR_OK, w4)
         }
       }
   }"

text \<open>The part of \<^verbatim>\<open>client_sent_func\<close> between entering and leaving the dead catching.\<close>

definition sent_continue :: "lwip \<Rightarrow> socks_op list \<Rightarrow> world \<Rightarrow> world option" where
  "sent_continue lw jobs w =
     (if socks_recv_buf_used (w_client w) > 0 then do {
        need (socks_recv_waiting (w_client w));
        (r, w1) \<leftarrow> client_socks_recv_send_out lw (upd (socks_recv_waiting_update (\<lambda>_. False)) w);
        if r < 0 then Some w1
        else do {
          need (w_alive w1 \<and> socks_recv_tcp_pending (w_client w1) > 0);
          if socks_recv_buf_used (w_client w1) = -1 \<and> \<not> socks_closed (w_client w1)
          then do { w2 \<leftarrow> client_socks_recv_initiate w1; SYNC_COMMIT jobs w2 }
          else Some w1
        }
      }
      else if socks_closed (w_client w) \<and> socks_recv_tcp_pending (w_client w) = 0 then client_free_client lw w
      else Some w)"

definition client_sent_func :: "lwip \<Rightarrow> socks_op list \<Rightarrow> int \<Rightarrow> world \<Rightarrow> (lw_err \<times> world) option" where
  "client_sent_func lw jobs len w = do {
     need (w_alive w \<and> \<not> client_closed (w_client w) \<and> socks_up (w_client w) \<and> len > 0 \<and>
       len \<le> socks_recv_tcp_pending (w_client w));
     let prev = dead_aborted (w_client w);
     w1 \<leftarrow> sent_continue lw jobs
       (upd (\<lambda>c. c\<lparr>socks_recv_tcp_pending := socks_recv_tcp_pending c - len\<rparr>) (DEAD_ENTER w));
     (d, w2) \<leftarrow> DEAD_LEAVE2 prev w1;
     Some (if d > 0 then ERR_ABRT else ERR_OK, w2)
   }"

text \<open>The client a successful \<^verbatim>\<open>listener_accept_func\<close> sets up, when \<open>n\<close> clients exist.\<close>

definition new_client :: "byte list \<Rightarrow> byte list \<Rightarrow> int \<Rightarrow> world" where
  "new_client buf rbuf n =
     \<lparr>w_client = \<lparr>aborted = False, dead_aborted = False, client_closed = False, tc_buf = buf, buf_used = 0,
        socks_up = False, socks_closed = False, socks_recv_buf = rbuf, socks_recv_buf_used = 0,
        socks_recv_buf_sent = 0, socks_recv_waiting = False, socks_recv_tcp_pending = 0\<rparr>,
      w_alive = True, w_dead = None, w_pcb = True, w_cb_err = True, w_cb_recv = True, w_cb_sent = False,
      w_socks = True, w_sending = None, w_receiving = False, w_listed = True, num_clients = n + 1, w_unacked = 0,
      w_from_tcp = [], w_to_socks = [], w_from_socks = [], w_to_tcp = [], w_recved = 0, w_aborts = 0,
      w_socks_lost = False, w_tcp_lost = False\<rparr>"

definition listener_accept_func ::
    "bool \<Rightarrow> bool \<Rightarrow> bool \<Rightarrow> byte list \<Rightarrow> byte list \<Rightarrow> socks_op list \<Rightarrow> int \<Rightarrow> (lw_err \<times> world option) option" where
  "listener_accept_func malloc_ok username_ok socks_ok buf rbuf jobs n =
     (if \<not> malloc_ok \<or> \<not> username_ok \<or> \<not> socks_ok then Some (ERR_MEM, None)
      else do {
        w1 \<leftarrow> SYNC_COMMIT jobs (DEAD_ENTER (new_client buf rbuf n));
        (d, w2) \<leftarrow> DEAD_LEAVE2 False w1;
        Some (if d > 0 then ERR_ABRT else ERR_OK, Some w2)
      })"

text \<open>
  What happens to a client: lwIP reports an error (and has freed the pcb), delivers data or the end of
  the stream, or confirms data; something happens on the SOCKS side; the program tears down.
\<close>

datatype tc_op =
  Tcp_Err lwip | Tcp_Recv "byte list option" lwip "socks_op list" | Tcp_Sent int lwip "socks_op list" | Socks socks_op | Murder

fun tc_enabled :: "tc_op \<Rightarrow> world \<Rightarrow> bool" where
  "tc_enabled (Tcp_Err _) w \<longleftrightarrow> w_cb_err w"
| "tc_enabled (Tcp_Recv p _ _) w \<longleftrightarrow> w_cb_recv w \<and> p \<noteq> Some []"
| "tc_enabled (Tcp_Sent n _ _) w \<longleftrightarrow> w_cb_sent w \<and> 0 < n \<and> n \<le> w_unacked w"
| "tc_enabled (Socks x) w \<longleftrightarrow> socks_enabled x w"
| "tc_enabled Murder w \<longleftrightarrow> w_alive w"

fun tc_handler :: "tc_op \<Rightarrow> world \<Rightarrow> world option" where
  "tc_handler (Tcp_Err lw) w =
     client_err_func lw (w\<lparr>w_pcb := False, w_cb_err := False, w_cb_recv := False, w_cb_sent := False, w_tcp_lost := True\<rparr>)"
| "tc_handler (Tcp_Recv p lw jobs) w =
     map_option snd (client_recv_func lw jobs p (if p = None then w\<lparr>w_tcp_lost := True\<rparr> else w))"
| "tc_handler (Tcp_Sent n lw jobs) w =
     map_option snd (client_sent_func lw jobs n (w\<lparr>w_unacked := w_unacked w - n\<rparr>))"
| "tc_handler (Socks x) w = socks_handler x w"
| "tc_handler Murder w = client_murder (w\<lparr>w_socks_lost := True, w_tcp_lost := True\<rparr>)"

definition tc_step :: "tc_op \<Rightarrow> world \<Rightarrow> world option" where
  "tc_step x w = (if tc_enabled x w then tc_handler x w else Some w)"

section \<open>The closing functions in closed form\<close>

text \<open>The results of the mutually recursive functions, written without recursion.\<close>

definition drop_client :: "world \<Rightarrow> world" where
  "drop_client w = w\<lparr>num_clients := num_clients w - 1, w_listed := False, w_alive := False,
     w_dead := (if \<not> aborted (w_client w) \<and> dead_aborted (w_client w) then Some (- 1) else w_dead w)\<rparr>"

definition drop_socks :: "world \<Rightarrow> world" where
  "drop_socks w = upd (socks_closed_update (\<lambda>_. True)) (w\<lparr>w_socks := False, w_sending := None, w_receiving := False\<rparr>)"

definition drop_pcb :: "bool \<Rightarrow> world \<Rightarrow> world" where
  "drop_pcb ab w =
     (let w1 = w\<lparr>w_pcb := False, w_cb_err := False, w_cb_recv := False, w_cb_sent := False\<rparr> in
      if ab then upd (aborted_update (\<lambda>_. True))
        (w1\<lparr>w_aborts := w_aborts w + 1, w_dead := (if dead_aborted (w_client w) then Some 1 else w_dead w)\<rparr>)
      else w1)"

definition close_client :: "world \<Rightarrow> world" where
  "close_client w =
     (let w1 = upd (client_closed_update (\<lambda>_. True)) w in
      if buf_used (w_client w) > 0 \<and> \<not> socks_closed (w_client w) then w1
      else drop_client (if socks_closed (w_client w) then w1 else drop_socks w1))"

definition close_socks :: "lwip \<Rightarrow> world \<Rightarrow> world" where
  "close_socks lw w =
     (let c = w_client w;
          w1 = drop_socks (if socks_up c \<and> \<not> client_closed c then w\<lparr>w_cb_recv := False\<rparr> else w)
      in if client_closed c then drop_client w1
         else if socks_up c \<and> (socks_recv_buf_used c \<ge> 0 \<or> socks_recv_tcp_pending c > 0) then w1
         else close_client (drop_pcb (\<not> lw_close_ok lw) w1))"

definition tc_base :: "world \<Rightarrow> bool" where
  "tc_base w \<longleftrightarrow> w_alive w \<and> w_listed w \<and> num_clients w > 0 \<and>
     (dead_aborted (w_client w) \<and> \<not> aborted (w_client w) \<longrightarrow> w_dead w \<noteq> None)"

lemma DEAD_KILL_eq:
  "(dead_aborted (w_client w) \<Longrightarrow> w_dead w \<noteq> None) \<Longrightarrow>
   DEAD_KILL_WITH v w = Some (w\<lparr>w_dead := (if dead_aborted (w_client w) then Some v else w_dead w)\<rparr>)"
  by (auto simp: DEAD_KILL_WITH_def)

lemma client_dealloc_eq:
  "tc_base w \<Longrightarrow> client_closed (w_client w) \<Longrightarrow> socks_closed (w_client w) \<Longrightarrow> client_dealloc w = Some (drop_client w)"
  by (auto simp: client_dealloc_def tc_base_def drop_client_def DEAD_KILL_WITH_def Let_def intro!: world.equality)

lemma tc_base_upd [simp]:
  "tc_base (upd (client_closed_update f) w) = tc_base w" "tc_base (upd (socks_closed_update f) w) = tc_base w"
  "tc_base (w\<lparr>w_cb_recv := b\<rparr>) = tc_base w" "tc_base (drop_socks w) = tc_base w" "tc_base (w\<lparr>w_tcp_lost := b\<rparr>) = tc_base w"
  by (simp_all add: tc_base_def upd_def drop_socks_def)

lemma tc_base_drop_pcb [simp]: "tc_base w \<Longrightarrow> \<not> aborted (w_client w) \<Longrightarrow> tc_base (drop_pcb ab w)"
  by (auto simp: tc_base_def upd_def drop_pcb_def Let_def)

lemma drop_simps [simp]:
  "w_client (drop_socks w) = (w_client w)\<lparr>socks_closed := True\<rparr>" "w_pcb (drop_socks w) = w_pcb w"
  "client_closed (w_client (drop_pcb ab w)) = client_closed (w_client w)" "socks_closed (w_client (drop_pcb ab w)) = socks_closed (w_client w)"
  "buf_used (w_client (drop_pcb ab w)) = buf_used (w_client w)" "socks_up (w_client (drop_pcb ab w)) = socks_up (w_client w)"
  "w_socks (drop_pcb ab w) = w_socks w" "w_alive (drop_pcb ab w) = w_alive w"
  by (simp_all add: drop_socks_def drop_pcb_def upd_def Let_def)

lemma client_free_socks_closed:
  assumes "tc_base w" "w_socks w" "\<not> socks_closed (w_client w)" "client_closed (w_client w)"
  shows "client_free_socks lw w = Some (drop_client (drop_socks w))"
  using assms client_dealloc_eq [of "drop_socks w"]
  by (simp add: BSocksClient_Free_world_def drop_socks_def tc_base_def upd_def)

lemma client_handle_freed_client_eq:
  assumes "tc_base w" "\<not> client_closed (w_client w)" "\<not> socks_closed (w_client w) \<Longrightarrow> w_socks w"
  shows "client_handle_freed_client lw w = Some (close_client w)"
proof -
  let ?w = "upd (client_closed_update (\<lambda>_. True)) w"
  have w: "w_alive w" "tc_base ?w" using assms(1) by (simp_all add: tc_base_def upd_def)
  show ?thesis
  proof (cases "socks_closed (w_client w)")
    case True
    then show ?thesis
      using assms(2) w client_dealloc_eq [of ?w] by (simp add: close_client_def upd_def Let_def)
  next
    case False
    then show ?thesis
      using assms w client_free_socks_closed [of ?w lw]
      by (simp add: close_client_def upd_def Let_def del: client_free_socks.simps)
  qed
qed

lemma remove_callbacks_eq: "w_pcb w \<Longrightarrow>
    remove_callbacks w = Some (w\<lparr>w_cb_err := False, w_cb_recv := False, w_cb_sent := False\<rparr>)"
  by (simp add: remove_callbacks_def)

lemma abort_pcb_eq:
  assumes "tc_base w" "w_pcb w" "\<not> aborted (w_client w)"
  shows "client_abort_pcb (w\<lparr>w_cb_err := False, w_cb_recv := False, w_cb_sent := False\<rparr>) = Some (drop_pcb True w)"
  using assms
  by (auto simp: client_abort_pcb_def tc_base_def upd_def drop_pcb_def DEAD_KILL_WITH_def Let_def intro!: world.equality)

lemma client_free_client_eq:
  assumes "tc_base w" "w_pcb w" "\<not> aborted (w_client w)" "\<not> client_closed (w_client w)" "\<not> socks_closed (w_client w) \<Longrightarrow> w_socks w"
  shows "client_free_client lw w = Some (close_client (drop_pcb (\<not> lw_close_ok lw) w))"
proof -
  have alive: "w_alive w" using assms(1) by (simp add: tc_base_def)
  have "(if lw_close_ok lw then Some (w\<lparr>w_cb_err := False, w_cb_recv := False, w_cb_sent := False, w_pcb := False\<rparr>)
      else client_abort_pcb (w\<lparr>w_cb_err := False, w_cb_recv := False, w_cb_sent := False\<rparr>)) = Some (drop_pcb (\<not> lw_close_ok lw) w)"
    using abort_pcb_eq [OF assms(1-3)] by (simp add: drop_pcb_def)
  then show ?thesis
    using assms alive client_handle_freed_client_eq [of "drop_pcb (\<not> lw_close_ok lw) w" lw]
    by (simp add: remove_callbacks_eq del: client_handle_freed_client.simps)
qed

lemma client_abort_client_eq:
  assumes "tc_base w" "w_pcb w" "\<not> aborted (w_client w)" "\<not> client_closed (w_client w)" "\<not> socks_closed (w_client w) \<Longrightarrow> w_socks w"
  shows "client_abort_client lw w = Some (close_client ((drop_pcb True w)\<lparr>w_tcp_lost := True\<rparr>))"
proof -
  have "w_alive w" using assms(1) by (simp add: tc_base_def)
  then show ?thesis
    using assms abort_pcb_eq [OF assms(1-3)] client_handle_freed_client_eq [of "(drop_pcb True w)\<lparr>w_tcp_lost := True\<rparr>" lw]
    by (simp add: client_abort_client_def remove_callbacks_eq del: client_handle_freed_client.simps)
qed

lemma client_free_socks_eq:
  assumes "tc_base w" "w_socks w" "\<not> socks_closed (w_client w)"
    "\<not> client_closed (w_client w) \<Longrightarrow> w_pcb w \<and> \<not> aborted (w_client w)"
  shows "client_free_socks lw w = Some (close_socks lw w)"
proof (cases "client_closed (w_client w)")
  case True
  then show ?thesis using client_free_socks_closed [OF assms(1-3)] by (simp add: close_socks_def del: client_free_socks.simps)
next
  case False
  let ?w1 = "if socks_up (w_client w) then w\<lparr>w_cb_recv := False\<rparr> else w"
  have alive: "w_alive w" and base: "tc_base ?w1" using assms(1) by (simp_all add: tc_base_def)
  have pcb: "w_pcb w" "\<not> aborted (w_client w)" using assms(4) [OF False] by auto
  have c: "w_client ?w1 = w_client w" "w_pcb ?w1" "w_socks ?w1" using pcb assms(2) by auto
  have free: "BSocksClient_Free_world ?w1 = Some (?w1\<lparr>w_socks := False, w_sending := None, w_receiving := False\<rparr>)"
    using c by (simp add: BSocksClient_Free_world_def)
  have fc: "client_free_client lw (drop_socks ?w1) = Some (close_client (drop_pcb (\<not> lw_close_ok lw) (drop_socks ?w1)))"
    using base c pcb False by (intro client_free_client_eq) simp_all
  have "client_free_socks lw w = (let w3 = drop_socks ?w1; c = w_client w3 in
     if socks_up c \<and> (socks_recv_buf_used c \<ge> 0 \<or> socks_recv_tcp_pending c > 0) \<and> \<not> client_closed c then Some w3
     else if \<not> client_closed c then client_free_client lw w3
     else client_dealloc w3)"
    using alive pcb False assms(3) free
    by (cases "socks_up (w_client w)") (simp_all add: drop_socks_def upd_def Let_def del: client_free_client.simps)
  then show ?thesis using fc False c(1) by (simp add: close_socks_def Let_def del: client_free_client.simps)
qed

declare client_handle_freed_client.simps [simp del] client_free_client.simps [simp del] client_free_socks.simps [simp del]
  send_out_loop.simps [simp del]

section \<open>The invariant\<close>

text \<open>
  Resources: which objects and callbacks exist in which state.  The \<open>dead\<close> variable: set exactly while a
  callback runs (\<open>cb\<close>), and zero until the client is aborted or freed.  Upstream and downstream: what was taken from one
  side is what was given to the other followed by what is buffered, and what happens to the buffered
  data when a side is closed.
\<close>

definition res_inv :: "world \<Rightarrow> bool" where
  "res_inv w \<longleftrightarrow> (let c = w_client w in
     if w_alive w then w_listed w \<and> 0 < num_clients w \<and> w_pcb w = (\<not> client_closed c) \<and> w_cb_err w = (\<not> client_closed c) \<and>
       w_cb_sent w = (\<not> client_closed c \<and> socks_up c) \<and> w_socks w = (\<not> socks_closed c)
     else \<not> w_listed w \<and> 0 \<le> num_clients w \<and> \<not> w_pcb w \<and> \<not> w_cb_err w \<and> \<not> w_cb_recv w \<and> \<not> w_cb_sent w \<and> \<not> w_socks w \<and>
       client_closed c \<and> socks_closed c)"

definition dead_inv :: "bool \<Rightarrow> world \<Rightarrow> bool" where
  "dead_inv cb w \<longleftrightarrow> (let c = w_client w in
     (w_dead w \<noteq> None) = cb \<and> w_aborts w = of_bool (aborted c) \<and> (aborted c \<longrightarrow> client_closed c) \<and>
     (if aborted c then w_dead w = None \<or> w_dead w = Some 1
      else if w_alive w then w_dead w = (if dead_aborted c then Some 0 else None)
      else w_dead w = None \<or> w_dead w = Some (- 1)))"

definition up_inv :: "world \<Rightarrow> bool" where
  "up_inv w \<longleftrightarrow> (let c = w_client w in
     int (length (tc_buf c)) = TCP_WND \<and> 0 \<le> buf_used c \<and> buf_used c \<le> TCP_WND \<and>
     (\<exists>rest. w_from_tcp w = w_to_socks w @ rest) \<and>
     (if socks_closed c then w_sending w = None \<and> (w_socks_lost w \<or> w_from_tcp w = w_to_socks w)
      else w_from_tcp w = w_to_socks w @ mem_read (tc_buf c) 0 (nat (buf_used c)) \<and>
        (if socks_up c \<and> 0 < buf_used c then \<exists>n. w_sending w = Some n \<and> 0 < n \<and> n \<le> buf_used c
         else w_sending w = None) \<and>
        (client_closed c \<or> w_recved w = int (length (w_to_socks w)))))"

definition down_base :: "world \<Rightarrow> bool" where
  "down_base w \<longleftrightarrow> (let c = w_client w in
     int (length (socks_recv_buf c)) = CLIENT_SOCKS_RECV_BUF_SIZE \<and>
     (\<exists>rest. w_from_socks w = w_to_tcp w @ rest) \<and>
     (w_receiving w \<longrightarrow> socks_recv_buf_used c = -1 \<and> \<not> socks_closed c \<and> socks_up c) \<and>
     (\<not> socks_up c \<longrightarrow> w_from_socks w = [] \<and> w_to_tcp w = [] \<and> w_unacked w = 0))"

definition down_inv :: "world \<Rightarrow> bool" where
  "down_inv w \<longleftrightarrow> down_base w \<and> (let c = w_client w in
     (if client_closed c then w_tcp_lost w \<or> w_from_socks w = w_to_tcp w \<and> w_unacked w = 0
      else socks_up c \<longrightarrow> socks_recv_tcp_pending c = w_unacked w \<and> 0 \<le> w_unacked w \<and>
        (if socks_recv_buf_used c = -1 then w_from_socks w = w_to_tcp w \<and> (socks_closed c \<or> w_receiving w)
         else 0 \<le> socks_recv_buf_sent c \<and> socks_recv_buf_sent c < socks_recv_buf_used c \<and>
           socks_recv_buf_used c \<le> CLIENT_SOCKS_RECV_BUF_SIZE \<and> socks_recv_waiting c \<and> 0 < w_unacked w \<and>
           w_from_socks w = w_to_tcp w @ mem_read (socks_recv_buf c) (nat (socks_recv_buf_sent c))
             (nat (socks_recv_buf_used c - socks_recv_buf_sent c)))))"

definition tc_core :: "bool \<Rightarrow> world \<Rightarrow> bool" where
  "tc_core cb w \<longleftrightarrow> res_inv w \<and> dead_inv cb w \<and> up_inv w \<and> down_inv w"

text \<open>What closing the client needs.\<close>

definition closable :: "bool \<Rightarrow> world \<Rightarrow> bool" where
  "closable cb w \<longleftrightarrow> res_inv w \<and> dead_inv cb w \<and> up_inv w \<and> down_base w \<and> w_alive w \<and> \<not> client_closed (w_client w)"

text \<open>Between events, moreover: a client both of whose sides are closed is gone; a side closed first leaves
  the other open only as long as there is something to deliver.\<close>

definition rest_inv :: "world \<Rightarrow> bool" where
  "rest_inv w \<longleftrightarrow> (let c = w_client w in w_alive w \<longrightarrow>
     w_cb_recv w = (\<not> client_closed c \<and> \<not> socks_closed c) \<and>
     (client_closed c \<longrightarrow> \<not> socks_closed c \<and> 0 < buf_used c \<and> w_tcp_lost w) \<and>
     (socks_closed c \<longrightarrow> socks_up c \<and> (0 \<le> socks_recv_buf_used c \<or> 0 < socks_recv_tcp_pending c)))"

definition tc_inv :: "bool \<Rightarrow> world \<Rightarrow> bool" where
  "tc_inv cb w \<longleftrightarrow> tc_core cb w \<and> rest_inv w"

lemma core_closable: "tc_core cb w \<Longrightarrow> w_alive w \<Longrightarrow> \<not> client_closed (w_client w) \<Longrightarrow> closable cb w"
  by (simp add: tc_core_def closable_def down_inv_def)

lemma core_base: "tc_core cb w \<Longrightarrow> w_alive w \<Longrightarrow> tc_base w"
  by (auto simp: tc_core_def res_inv_def dead_inv_def tc_base_def Let_def split: if_splits)

lemma closable_open:
  assumes "closable cb w"
  shows "tc_base w" "w_pcb w" "\<not> aborted (w_client w)" "\<not> client_closed (w_client w)" "\<not> socks_closed (w_client w) \<Longrightarrow> w_socks w"
  using assms by (auto simp: closable_def res_inv_def dead_inv_def tc_base_def Let_def split: if_splits)

lemma core_open:
  assumes "tc_core cb w" "w_alive w" "\<not> client_closed (w_client w)"
  shows "w_pcb w" "\<not> aborted (w_client w)" "\<not> socks_closed (w_client w) \<Longrightarrow> w_socks w"
  using closable_open [OF core_closable [OF assms]] by auto

lemma drop_socks_core:
  assumes core: "tc_core cb w" and alive: "w_alive w" and lost: "w_socks_lost w \<or> w_from_tcp w = w_to_socks w"
  shows "tc_core cb (drop_socks w)"
proof -
  have "res_inv (drop_socks w)" "dead_inv cb (drop_socks w)"
    using core alive by (simp_all add: tc_core_def res_inv_def dead_inv_def drop_socks_def upd_def Let_def)
  moreover have "up_inv (drop_socks w)"
    using core lost by (auto simp: tc_core_def up_inv_def drop_socks_def upd_def Let_def)
  moreover have "down_inv (drop_socks w)"
    using core by (auto simp: tc_core_def down_inv_def down_base_def drop_socks_def upd_def Let_def)
  ultimately show ?thesis by (simp add: tc_core_def)
qed

lemma drop_client_inv:
  assumes "tc_core cb w" "w_alive w" "client_closed (w_client w)" "socks_closed (w_client w)" "\<not> w_cb_recv w"
  shows "tc_inv cb (drop_client w)"
proof -
  have "res_inv (drop_client w)" "dead_inv cb (drop_client w)"
    using assms by (auto simp: tc_core_def res_inv_def dead_inv_def drop_client_def Let_def split: if_splits)
  moreover have "up_inv (drop_client w)" "down_inv (drop_client w)"
    using assms by (simp_all add: tc_core_def up_inv_def down_inv_def down_base_def drop_client_def Let_def)
  ultimately show ?thesis by (simp add: tc_inv_def tc_core_def rest_inv_def drop_client_def)
qed

text \<open>The state in which \<^verbatim>\<open>client_handle_freed_client\<close> has marked the client closed.\<close>

definition mark_closed :: "bool \<Rightarrow> bool \<Rightarrow> world \<Rightarrow> world" where
  "mark_closed ab lost w = upd (client_closed_update (\<lambda>_. True)) ((drop_pcb ab w)\<lparr>w_tcp_lost := lost\<rparr>)"

lemma mark_closed_core:
  assumes closable: "closable cb w" and lost: "lost \<or> w_from_socks w = w_to_tcp w \<and> w_unacked w = 0"
  shows "tc_core cb (mark_closed ab lost w)"
proof -
  note sm = mark_closed_def drop_pcb_def upd_def Let_def
  have "res_inv (mark_closed ab lost w)"
    using closable by (auto simp: closable_def res_inv_def sm)
  moreover have "dead_inv cb (mark_closed ab lost w)"
    using closable by (auto simp: closable_def dead_inv_def sm split: if_splits)
  moreover have "up_inv (mark_closed ab lost w)"
    using closable by (auto simp: closable_def up_inv_def sm)
  moreover have "down_inv (mark_closed ab lost w)"
    using closable lost by (auto simp: closable_def down_inv_def down_base_def sm)
  ultimately show ?thesis by (simp add: tc_core_def)
qed

lemma close_client_eq:
  "close_client ((drop_pcb ab w)\<lparr>w_tcp_lost := lost\<rparr>) =
    (let w1 = mark_closed ab lost w in
     if buf_used (w_client w) > 0 \<and> \<not> socks_closed (w_client w) then w1
     else drop_client (if socks_closed (w_client w) then w1 else drop_socks w1))"
  by (simp add: close_client_def mark_closed_def Let_def)

lemma drop_pcb_lost: "(drop_pcb ab w)\<lparr>w_tcp_lost := w_tcp_lost w\<rparr> = drop_pcb ab w"
  by (rule world.equality) (simp_all add: drop_pcb_def upd_def Let_def)

lemma core_cb_recv: "w_alive w \<Longrightarrow> tc_core cb (w\<lparr>w_cb_recv := b\<rparr>) = tc_core cb w"
  by (simp add: tc_core_def res_inv_def dead_inv_def up_inv_def down_inv_def down_base_def)

lemma mark_closed_simps [simp]:
  "w_alive (mark_closed ab lost w) = w_alive w" "client_closed (w_client (mark_closed ab lost w))"
  "\<not> w_cb_recv (mark_closed ab lost w)" "socks_closed (w_client (mark_closed ab lost w)) = socks_closed (w_client w)"
  "buf_used (w_client (mark_closed ab lost w)) = buf_used (w_client w)" "w_from_tcp (mark_closed ab lost w) = w_from_tcp w"
  "w_to_socks (mark_closed ab lost w) = w_to_socks w" "w_tcp_lost (mark_closed ab lost w) = lost"
  by (simp_all add: mark_closed_def drop_pcb_def upd_def Let_def)

lemma drop_socks_simps [simp]:
  "w_alive (drop_socks w) = w_alive w" "w_cb_recv (drop_socks w) = w_cb_recv w" "w_unacked (drop_socks w) = w_unacked w"
  "w_from_socks (drop_socks w) = w_from_socks w" "w_to_tcp (drop_socks w) = w_to_tcp w" "w_tcp_lost (drop_socks w) = w_tcp_lost w"
  by (simp_all add: drop_socks_def upd_def)

lemma close_client_inv:
  assumes closable: "closable cb w"
    and lost: "lost \<or> w_from_socks w = w_to_tcp w \<and> w_unacked w = 0 \<and> socks_closed (w_client w)"
  shows "tc_inv cb (close_client ((drop_pcb ab w)\<lparr>w_tcp_lost := lost\<rparr>))"
proof -
  let ?w = "mark_closed ab lost w"
  have c: "tc_core cb ?w" using lost by (intro mark_closed_core [OF closable]) auto
  have alive: "w_alive w" using closable by (simp add: closable_def)
  consider "0 < buf_used (w_client w)" "\<not> socks_closed (w_client w)" | "socks_closed (w_client w)"
    | "buf_used (w_client w) = 0" "\<not> socks_closed (w_client w)"
    using closable by (force simp: closable_def up_inv_def Let_def)
  then show ?thesis
  proof cases
    case 1
    with c lost show ?thesis by (simp add: close_client_eq tc_inv_def rest_inv_def)
  next
    case 2
    with c alive show ?thesis by (simp add: close_client_eq drop_client_inv)
  next
    case 3
    then have "w_from_tcp ?w = w_to_socks ?w" using closable by (simp add: closable_def up_inv_def mem_read_def Let_def)
    with c alive have "tc_core cb (drop_socks ?w)" by (intro drop_socks_core) simp_all
    with 3 alive show ?thesis by (simp add: close_client_eq drop_client_inv)
  qed
qed

lemma core_delivered:
  assumes "tc_core cb w" "\<not> client_closed (w_client w)"
    "\<not> (socks_up (w_client w) \<and> (0 \<le> socks_recv_buf_used (w_client w) \<or> 0 < socks_recv_tcp_pending (w_client w)))"
  shows "w_from_socks w = w_to_tcp w \<and> w_unacked w = 0"
  using assms by (auto simp: tc_core_def down_inv_def down_base_def Let_def split: if_splits)

lemma close_socks_inv:
  assumes core: "tc_core cb w" and alive: "w_alive w" and o: "\<not> socks_closed (w_client w)"
    and cb: "client_closed (w_client w) \<Longrightarrow> \<not> w_cb_recv w"
    and lost: "w_socks_lost w \<or> w_from_tcp w = w_to_socks w"
  shows "tc_inv cb (close_socks lw w)"
proof (cases "client_closed (w_client w)")
  case True
  with drop_socks_core [OF core alive lost] alive cb show ?thesis
    by (simp add: close_socks_def drop_client_inv)
next
  case False
  let ?w = "if socks_up (w_client w) then w\<lparr>w_cb_recv := False\<rparr> else w"
  have fields: "w_client ?w = w_client w" "w_alive ?w = w_alive w" by auto
  have "tc_core cb ?w"
    using core alive by (simp add: core_cb_recv)
  then have c: "tc_core cb (drop_socks ?w)" using alive lost by (intro drop_socks_core) auto
  show ?thesis
  proof (cases "socks_up (w_client w) \<and> (socks_recv_buf_used (w_client w) \<ge> 0 \<or> socks_recv_tcp_pending (w_client w) > 0)")
    case True
    with False have "close_socks lw w = drop_socks ?w" by (simp add: close_socks_def)
    then show ?thesis using c True False by (simp add: tc_inv_def rest_inv_def)
  next
    case wait: False
    then have eq: "close_socks lw w = close_client ((drop_pcb (\<not> lw_close_ok lw) (drop_socks ?w))\<lparr>w_tcp_lost := w_tcp_lost (drop_socks ?w)\<rparr>)"
      unfolding drop_pcb_lost using False by (auto simp: close_socks_def Let_def)
    show ?thesis
      unfolding eq using c alive False wait fields core_delivered [OF c] core_closable [OF c] by (intro close_client_inv) auto
  qed
qed

lemma murder_inv:
  assumes inv: "tc_inv cb w" and alive: "w_alive w" and lost: "w_socks_lost w" "w_tcp_lost w"
  shows "\<exists>w'. client_murder w = Some w' \<and> tc_inv cb w'"
proof -
  have core: "tc_core cb w" and rest: "rest_inv w" using inv by (simp_all add: tc_inv_def)
  let ?w1 = "if client_closed (w_client w) then w else mark_closed True True w"
  have w1: "tc_core cb ?w1" "w_alive ?w1" "w_socks_lost ?w1" "client_closed (w_client ?w1)" "\<not> w_cb_recv ?w1"
    using core alive lost mark_closed_core [OF core_closable [OF core alive], of True True] rest
    by (auto simp: rest_inv_def Let_def mark_closed_def drop_pcb_def upd_def)
  let ?w2 = "if socks_closed (w_client ?w1) then ?w1 else drop_socks ?w1"
  have w2: "tc_core cb ?w2" "w_alive ?w2" "client_closed (w_client ?w2)" "\<not> w_cb_recv ?w2" "socks_closed (w_client ?w2)"
    using w1 drop_socks_core [OF w1(1,2)] by auto
  have step1: "(if \<not> client_closed (w_client w) then do {
              w1 \<leftarrow> remove_callbacks w;
              w2 \<leftarrow> client_abort_pcb w1;
              Some (upd (client_closed_update (\<lambda>_. True)) w2)
            } else Some w) = Some ?w1"
    using core_open [OF core alive] core_base [OF core alive] abort_pcb_eq [of w] lost(2)
    by (auto simp: remove_callbacks_eq mark_closed_def drop_pcb_def upd_def Let_def)
  have "w_socks ?w1" if "\<not> socks_closed (w_client ?w1)"
    using w1(1,2) that unfolding tc_core_def res_inv_def by (simp add: Let_def)
  then have step2: "(if \<not> socks_closed (w_client ?w1) then do {
              w2 \<leftarrow> BSocksClient_Free_world ?w1;
              Some (upd (socks_closed_update (\<lambda>_. True)) w2)
            } else Some ?w1) = Some ?w2"
    by (simp add: BSocksClient_Free_world_def drop_socks_def)
  have "client_murder w = Some (drop_client ?w2)"
    unfolding client_murder_def step1 using alive client_dealloc_eq [OF core_base [OF w2(1,2)] w2(3,5)]
    by (simp only: need_bind Option.bind.simps if_True step2)
  then show ?thesis using drop_client_inv [OF w2(1,2,3,5,4)] by blast
qed

section \<open>Data to the SOCKS side\<close>

lemma mem_read_int_split:
  assumes "0 \<le> off" "0 \<le> n" "n \<le> u" "off + u \<le> int (length b)"
  shows "mem_read b (nat off) (nat u) = mem_read b (nat off) (nat n) @ mem_read b (nat (off + n)) (nat (u - n))"
proof -
  have "nat u = nat n + nat (u - n)" "nat (off + n) = nat off + nat n" using assms by linarith+
  moreover have "nat off + nat n + nat (u - n) \<le> length b" using assms by linarith
  ultimately show ?thesis using mem_read_append [of "nat off" "nat n" "nat (u - n)" b] by simp
qed

lemma sending_facts:
  assumes "tc_inv cb w" "w_sending w = Some len" "0 < n" "n \<le> len"
  shows "w_alive w" "\<not> socks_closed (w_client w)" "socks_up (w_client w)" "n \<le> buf_used (w_client w)"
    "w_socks w" "client_closed (w_client w) \<longrightarrow> \<not> w_cb_recv w" "\<not> client_closed (w_client w) \<longrightarrow> w_pcb w"
proof -
  have res: "res_inv w" and up: "up_inv w" and rest: "rest_inv w" using assms(1) by (simp_all add: tc_inv_def tc_core_def)
  show o: "\<not> socks_closed (w_client w)" using up assms(2) by (auto simp: up_inv_def Let_def)
  with up assms(2,3) show "socks_up (w_client w)" "n \<le> buf_used (w_client w)" using assms(4)
    by (auto simp: up_inv_def Let_def split: if_splits)
  show alive: "w_alive w" using res o by (auto simp: res_inv_def Let_def split: if_splits)
  show "w_socks w" "client_closed (w_client w) \<longrightarrow> \<not> w_cb_recv w" "\<not> client_closed (w_client w) \<longrightarrow> w_pcb w"
    using res rest o alive by (auto simp: res_inv_def rest_inv_def Let_def)
qed

text \<open>The state after \<open>n\<close> bytes were sent and removed from the buffer.\<close>

definition after_send :: "int \<Rightarrow> world \<Rightarrow> world" where
  "after_send n w = upd (\<lambda>c. c\<lparr>tc_buf := mem_write (tc_buf c) 0 (mem_read (tc_buf c) (nat n) (nat (buf_used c - n))),
       buf_used := buf_used c - n\<rparr>)
     (w\<lparr>w_sending := (if n < buf_used (w_client w) then Some (buf_used (w_client w) - n) else None),
        w_to_socks := w_to_socks w @ mem_read (tc_buf (w_client w)) 0 (nat n),
        w_recved := (if client_closed (w_client w) then w_recved w else w_recved w + n)\<rparr>)"

lemma after_send_core:
  assumes inv: "tc_inv cb w" and snd: "w_sending w = Some len" "0 < n" "n \<le> len"
  shows "tc_core cb (after_send n w)"
proof -
  note f = sending_facts [OF assms]
  let ?c = "w_client w" let ?b = "tc_buf (w_client w)" let ?u = "buf_used (w_client w)"
  have core: "tc_core cb w" using inv by (simp add: tc_inv_def)
  have b: "int (length ?b) = TCP_WND" "?u \<le> TCP_WND" "w_from_tcp w = w_to_socks w @ mem_read ?b 0 (nat ?u)"
    using core f(2) by (simp_all add: tc_core_def up_inv_def Let_def)
  have le: "nat n + nat (?u - n) \<le> length ?b" using b(1,2) f(4) snd(2) by linarith
  have len: "length (mem_read ?b (nat n) (nat (?u - n))) = nat (?u - n)" using le by (rule length_mem_read)
  have split: "mem_read ?b 0 (nat ?u) = mem_read ?b 0 (nat n) @ mem_read ?b (nat n) (nat (?u - n))"
    using mem_read_int_split [of 0 n ?u ?b] b(1,2) f(4) snd(2) by simp
  have rest: "mem_read (mem_write ?b 0 (mem_read ?b (nat n) (nat (?u - n)))) 0 (nat (?u - n)) = mem_read ?b (nat n) (nat (?u - n))"
    using le by (intro mem_read_write_same) (simp_all add: len)
  have "length (mem_read ?b 0 (nat n)) = nat n" using le by simp
  then have len0: "int (length (mem_read ?b 0 (nat n))) = n" using snd(2) by simp
  have wnd: "int (length (mem_write ?b 0 (mem_read ?b (nat n) (nat (?u - n))))) = TCP_WND"
    using le len b(1) by (subst length_mem_write) simp_all
  have from_tcp: "w_from_tcp w = (w_to_socks w @ mem_read ?b 0 (nat n)) @ mem_read ?b (nat n) (nat (?u - n))"
    using b(3) split by simp
  have up: "client_closed ?c \<or> w_recved w = int (length (w_to_socks w))" "0 \<le> ?u"
    using core f(2) by (simp_all add: tc_core_def up_inv_def Let_def)
  have "up_inv (after_send n w)"
    unfolding up_inv_def after_send_def Let_def upd_def
    using f(2-4) snd(2) wnd rest b(2) from_tcp by simp (use up len0 in auto)
  moreover have "res_inv (after_send n w)" "dead_inv cb (after_send n w)" "down_inv (after_send n w)"
    using core by (simp_all add: tc_core_def res_inv_def dead_inv_def down_inv_def down_base_def after_send_def upd_def Let_def)
  ultimately show ?thesis by (simp add: tc_core_def)
qed

lemma send_done_inv:
  assumes inv: "tc_inv cb w" and en: "socks_enabled (Send_Done n lw) w"
  shows "\<exists>w'. socks_handler (Send_Done n lw) w = Some w' \<and> tc_inv cb w'"
proof -
  from en obtain len where snd: "w_sending w = Some len" "0 < n" "n \<le> len" by (auto split: option.splits)
  note f = sending_facts [OF inv snd]
  have core: "tc_core cb (after_send n w)" by (rule after_send_core [OF inv snd])
  have fields: "w_alive (after_send n w)" "\<not> socks_closed (w_client (after_send n w))" "w_socks (after_send n w)"
    "client_closed (w_client (after_send n w)) = client_closed (w_client w)" "w_cb_recv (after_send n w) = w_cb_recv w"
    using f by (simp_all add: after_send_def upd_def)
  have open_facts: "\<not> client_closed (w_client w) \<Longrightarrow> w_pcb (after_send n w) \<and> \<not> aborted (w_client (after_send n w))"
    using core_open [OF core fields(1)] fields(4) by simp
  show ?thesis
  proof (cases "n = buf_used (w_client w) \<and> client_closed (w_client w)")
    case True
    have sent_all: "w_from_tcp (after_send n w) = w_to_socks (after_send n w)"
      using core True fields(2) by (simp add: tc_core_def up_inv_def after_send_def upd_def Let_def)
    have "socks_handler (Send_Done n lw) w = client_free_socks lw (after_send n w)"
      using True f snd(2) by (simp add: client_socks_send_handler_done_def after_send_def upd_def Let_def)
    also have "\<dots> = Some (close_socks lw (after_send n w))"
      using core_base [OF core fields(1)] fields True by (intro client_free_socks_eq) auto
    finally show ?thesis using close_socks_inv [OF core fields(1,2)] sent_all fields(4,5) f(6) by simp
  next
    case False
    have "socks_handler (Send_Done n lw) w = Some (after_send n w)"
      using False f snd(2)
      by (auto simp: client_socks_send_handler_done_def Sender_Send_world_def after_send_def upd_def Let_def intro!: world.equality)
    moreover have "rest_inv (after_send n w)"
      using inv f False snd(2) by (auto simp: tc_inv_def rest_inv_def after_send_def upd_def Let_def)
    ultimately show ?thesis using core by (simp add: tc_inv_def)
  qed
qed

section \<open>Data to the TCP side\<close>

text \<open>The state while received data is being passed to lwIP.\<close>

definition out_inv :: "bool \<Rightarrow> world \<Rightarrow> bool" where
  "out_inv cb w \<longleftrightarrow> closable cb w \<and> \<not> w_receiving w \<and> (let c = w_client w in
     socks_up c \<and> w_cb_recv w = (\<not> socks_closed c) \<and> \<not> socks_recv_waiting c \<and>
     socks_recv_tcp_pending c = w_unacked w \<and> 0 \<le> w_unacked w \<and>
     0 \<le> socks_recv_buf_sent c \<and> socks_recv_buf_sent c \<le> socks_recv_buf_used c \<and> 0 < socks_recv_buf_used c \<and>
     socks_recv_buf_used c \<le> CLIENT_SOCKS_RECV_BUF_SIZE \<and>
     w_from_socks w = w_to_tcp w @ mem_read (socks_recv_buf c) (nat (socks_recv_buf_sent c))
       (nat (socks_recv_buf_used c - socks_recv_buf_sent c)))"

lemma after_write_out:
  assumes out: "out_inv cb w" and n: "0 < n" "n \<le> socks_recv_buf_used (w_client w) - socks_recv_buf_sent (w_client w)"
  shows "out_inv cb (after_write n w)"
proof -
  let ?c = "w_client w" let ?s = "socks_recv_buf_sent (w_client w)" let ?u = "socks_recv_buf_used (w_client w)"
  have closable: "closable cb w" using out by (simp add: out_inv_def)
  have b: "int (length (socks_recv_buf ?c)) = CLIENT_SOCKS_RECV_BUF_SIZE" "?u \<le> CLIENT_SOCKS_RECV_BUF_SIZE" "0 \<le> ?s"
    using out by (simp_all add: out_inv_def closable_def down_base_def Let_def)
  have from_socks: "w_from_socks w = w_to_tcp w @ mem_read (socks_recv_buf ?c) (nat ?s) (nat (?u - ?s))"
    using out by (simp add: out_inv_def Let_def)
  also have "mem_read (socks_recv_buf ?c) (nat ?s) (nat (?u - ?s)) =
      mem_read (socks_recv_buf ?c) (nat ?s) (nat n) @ mem_read (socks_recv_buf ?c) (nat (?s + n)) (nat (?u - (?s + n)))"
    using mem_read_int_split [of ?s n "?u - ?s" "socks_recv_buf ?c"] b n by (simp add: algebra_simps)
  finally have split: "w_from_socks w = (w_to_tcp w @ mem_read (socks_recv_buf ?c) (nat ?s) (nat n)) @
      mem_read (socks_recv_buf ?c) (nat (?s + n)) (nat (?u - (?s + n)))" by simp
  have up: "socks_up ?c" using out by (simp add: out_inv_def Let_def)
  have "res_inv (after_write n w) = res_inv w" "dead_inv cb (after_write n w) = dead_inv cb w" "up_inv (after_write n w) = up_inv w"
    by (simp_all add: res_inv_def dead_inv_def up_inv_def after_write_def upd_def Let_def)
  moreover have "down_base (after_write n w)"
    using closable split up by (simp add: closable_def down_base_def after_write_def upd_def Let_def)
  ultimately have "closable cb (after_write n w)"
    using closable by (simp add: closable_def after_write_def upd_def)
  then show ?thesis
    using out n b split by (simp add: out_inv_def after_write_def upd_def Let_def)
qed

lemma abort_client_inv:
  assumes "closable cb w"
  shows "\<exists>w'. client_abort_client lw w = Some w' \<and> tc_inv cb w'"
  using client_abort_client_eq [OF closable_open [OF assms]] close_client_inv [OF assms, of True True] by simp

lemma send_out_loop_inv:
  assumes "out_inv cb w" "socks_recv_buf_sent (w_client w) < socks_recv_buf_used (w_client w)"
  shows "\<exists>r w'. send_out_loop lw i w = Some (r, w') \<and> (r = -1 \<and> tc_inv cb w' \<or>
    r = 0 \<and> out_inv cb w' \<and> w_unacked w' - socks_recv_buf_sent (w_client w') = w_unacked w - socks_recv_buf_sent (w_client w) \<and>
      socks_recv_buf_used (w_client w') = socks_recv_buf_used (w_client w) \<and> socks_closed (w_client w') = socks_closed (w_client w))"
  using assms
proof (induction lw i w rule: send_out_loop.induct)
  case (1 lw i w)
  let ?c = "w_client w"
  define n where "n = min (socks_recv_buf_used ?c - socks_recv_buf_sent ?c) (int (lw_sndbuf lw i))"
  have closable: "closable cb w" using "1.prems"(1) by (simp add: out_inv_def)
  have pcb: "w_pcb w" using closable_open [OF closable] by simp
  have n: "0 \<le> n" "n \<le> socks_recv_buf_used ?c - socks_recv_buf_sent ?c" using "1.prems"(2) by (simp_all add: n_def)
  have un: "send_out_loop lw i w = (if n = 0 then Some (0, w) else case lw_write lw i of
       ERR_OK \<Rightarrow> if socks_recv_buf_sent (w_client (after_write n w)) < socks_recv_buf_used (w_client (after_write n w))
         then send_out_loop lw (i + 1) (after_write n w) else Some (0, after_write n w)
     | ERR_MEM \<Rightarrow> Some (0, w)
     | _ \<Rightarrow> do { w1 \<leftarrow> client_abort_client lw w; Some (-1, w1) })"
    using pcb "1.prems"(2) by (subst send_out_loop.simps) (simp add: n_def [symmetric] Let_def split: lw_err.split)
  show ?case
  proof (cases "n \<noteq> 0 \<and> lw_write lw i = ERR_OK")
    case True
    then have out: "out_inv cb (after_write n w)" using after_write_out [OF "1.prems"(1)] n by simp
    have keep: "w_unacked (after_write n w) - socks_recv_buf_sent (w_client (after_write n w)) = w_unacked w - socks_recv_buf_sent ?c"
      "socks_recv_buf_used (w_client (after_write n w)) = socks_recv_buf_used ?c"
      "socks_closed (w_client (after_write n w)) = socks_closed ?c"
      by (simp_all add: after_write_def upd_def)
    show ?thesis
    proof (cases "socks_recv_buf_sent (w_client (after_write n w)) < socks_recv_buf_used (w_client (after_write n w))")
      case more: True
      have "\<exists>r w'. send_out_loop lw (i + 1) (after_write n w) = Some (r, w') \<and> (r = -1 \<and> tc_inv cb w' \<or>
          r = 0 \<and> out_inv cb w' \<and> w_unacked w' - socks_recv_buf_sent (w_client w') =
              w_unacked (after_write n w) - socks_recv_buf_sent (w_client (after_write n w)) \<and>
            socks_recv_buf_used (w_client w') = socks_recv_buf_used (w_client (after_write n w)) \<and>
            socks_closed (w_client w') = socks_closed (w_client (after_write n w)))"
        using True pcb "1.prems"(2) more out
        by (intro "1.IH" [OF refl _ n_def _ _ refl]) simp_all
      then show ?thesis using True more keep un by simp
    next
      case False
      then show ?thesis using True un out keep by simp
    qed
  next
    case False
    then consider "send_out_loop lw i w = Some (0, w)"
      | "send_out_loop lw i w = do { w1 \<leftarrow> client_abort_client lw w; Some (-1, w1) }"
      using un by (cases "lw_write lw i") (auto split: if_splits)
    then show ?thesis
    proof cases
      case 1 then show ?thesis using "1.prems"(1) by simp
    next
      case 2 then show ?thesis using abort_client_inv [OF closable, of lw] by auto
    qed
  qed
qed

text \<open>Everything received was passed on; the next receive is not yet started.\<close>

definition idle_inv :: "bool \<Rightarrow> world \<Rightarrow> bool" where
  "idle_inv cb w \<longleftrightarrow> closable cb w \<and> \<not> w_receiving w \<and> (let c = w_client w in
     socks_up c \<and> w_cb_recv w = (\<not> socks_closed c) \<and> socks_recv_buf_used c = -1 \<and> w_from_socks w = w_to_tcp w \<and>
     socks_recv_tcp_pending c = w_unacked w \<and> 0 \<le> w_unacked w)"

lemma idle_closed_inv: "idle_inv cb w \<Longrightarrow> socks_closed (w_client w) \<Longrightarrow> 0 < w_unacked w \<Longrightarrow> tc_inv cb w"
  by (simp add: idle_inv_def closable_def tc_inv_def tc_core_def down_inv_def rest_inv_def Let_def)

lemma recv_initiate_inv:
  assumes idle: "idle_inv cb w" and o: "\<not> socks_closed (w_client w)"
  shows "\<exists>w'. client_socks_recv_initiate w = Some w' \<and> tc_inv cb w' \<and> w_alive w'"
proof -
  have closable: "closable cb w" using idle by (simp add: idle_inv_def)
  have eq: "client_socks_recv_initiate w = Some (w\<lparr>w_receiving := True\<rparr>)"
    using idle o closable_open [OF closable] by (simp add: client_socks_recv_initiate_def idle_inv_def closable_def Let_def)
  have "res_inv (w\<lparr>w_receiving := True\<rparr>) = res_inv w" "dead_inv cb (w\<lparr>w_receiving := True\<rparr>) = dead_inv cb w"
    "up_inv (w\<lparr>w_receiving := True\<rparr>) = up_inv w"
    by (simp_all add: res_inv_def dead_inv_def up_inv_def)
  then have "tc_inv cb (w\<lparr>w_receiving := True\<rparr>)"
    using idle o
    by (simp add: tc_inv_def tc_core_def idle_inv_def closable_def down_inv_def down_base_def rest_inv_def Let_def)
  then show ?thesis using eq idle by (simp add: idle_inv_def closable_def)
qed

lemma send_out_inv:
  assumes out: "out_inv cb w" and less: "socks_recv_buf_sent (w_client w) < socks_recv_buf_used (w_client w)"
  shows "\<exists>r w'. client_socks_recv_send_out lw w = Some (r, w') \<and> (r = -1 \<and> tc_inv cb w' \<or>
    r = 0 \<and> w_alive w' \<and> 0 < w_unacked w' \<and> 0 < socks_recv_tcp_pending (w_client w') \<and>
     socks_closed (w_client w') = socks_closed (w_client w) \<and>
     (socks_recv_buf_used (w_client w') \<noteq> -1 \<and> tc_inv cb w' \<or> socks_recv_buf_used (w_client w') = -1 \<and> idle_inv cb w'))"
proof -
  have pre: "w_alive w" "\<not> client_closed (w_client w)" "socks_up (w_client w)" "0 < socks_recv_buf_used (w_client w)"
    "\<not> socks_recv_waiting (w_client w)" using out by (simp_all add: out_inv_def closable_def Let_def)
  from send_out_loop_inv [OF assms, of lw 0] obtain r w1 where loop: "send_out_loop lw 0 w = Some (r, w1)"
    and cs: "r = -1 \<and> tc_inv cb w1 \<or> r = 0 \<and> out_inv cb w1 \<and>
      w_unacked w1 - socks_recv_buf_sent (w_client w1) = w_unacked w - socks_recv_buf_sent (w_client w) \<and>
      socks_recv_buf_used (w_client w1) = socks_recv_buf_used (w_client w) \<and>
      socks_closed (w_client w1) = socks_closed (w_client w)" by blast
  show ?thesis
  proof (cases "r = 0")
    case False
    then show ?thesis using cs loop pre less by (simp add: client_socks_recv_send_out_def)
  next
    case True
    with cs have w1: "out_inv cb w1" and un: "w_unacked w1 - socks_recv_buf_sent (w_client w1) = w_unacked w - socks_recv_buf_sent (w_client w)"
      "socks_recv_buf_used (w_client w1) = socks_recv_buf_used (w_client w)"
      "socks_closed (w_client w1) = socks_closed (w_client w)" by auto
    have closable: "closable cb w1" using w1 by (simp add: out_inv_def)
    obtain wa where ab: "client_abort_client lw w1 = Some wa" "tc_inv cb wa" using abort_client_inv [OF closable] by blast
    have eq: "client_socks_recv_send_out lw w =
       (if \<not> lw_output_ok lw then Some (-1, wa)
        else if socks_recv_buf_sent (w_client w1) < socks_recv_buf_used (w_client w1) then
          (if socks_recv_tcp_pending (w_client w1) = 0 then Some (-1, wa)
           else Some (0, upd (socks_recv_waiting_update (\<lambda>_. True)) w1))
        else Some (0, upd (socks_recv_buf_used_update (\<lambda>_. -1)) w1))"
      using True loop pre less ab(1) closable_open [OF closable] closable
      by (simp add: client_socks_recv_send_out_def closable_def)
    have frame: "res_inv (upd (socks_recv_waiting_update f) w1) = res_inv w1" "dead_inv cb (upd (socks_recv_waiting_update f) w1) = dead_inv cb w1"
      "up_inv (upd (socks_recv_waiting_update f) w1) = up_inv w1" "res_inv (upd (socks_recv_buf_used_update g) w1) = res_inv w1"
      "dead_inv cb (upd (socks_recv_buf_used_update g) w1) = dead_inv cb w1" "up_inv (upd (socks_recv_buf_used_update g) w1) = up_inv w1" for f g
      by (simp_all add: res_inv_def dead_inv_def up_inv_def upd_def Let_def)
    have waiting: "tc_inv cb (upd (socks_recv_waiting_update (\<lambda>_. True)) w1)"
      if "socks_recv_buf_sent (w_client w1) < socks_recv_buf_used (w_client w1)" "w_unacked w1 \<noteq> 0"
      using w1 that frame
      by (simp add: tc_inv_def tc_core_def out_inv_def closable_def down_inv_def down_base_def rest_inv_def upd_def Let_def)
    have queued: "idle_inv cb (upd (socks_recv_buf_used_update (\<lambda>_. -1)) w1)"
      if "\<not> socks_recv_buf_sent (w_client w1) < socks_recv_buf_used (w_client w1)"
      using w1 that frame by (simp add: idle_inv_def out_inv_def closable_def down_base_def upd_def Let_def)
    have "0 < w_unacked w1" if "\<not> socks_recv_buf_sent (w_client w1) < socks_recv_buf_used (w_client w1)"
      using un that less out by (simp add: out_inv_def Let_def)
    then show ?thesis
      using eq ab(2) waiting queued w1 un(3) by (auto simp: out_inv_def closable_def upd_def Let_def)
  qed
qed

lemma recv_done_inv:
  assumes inv: "tc_inv cb w" and en: "socks_enabled (Recv_Done bs lw) w"
  shows "\<exists>w'. socks_handler (Recv_Done bs lw) w = Some w' \<and> tc_inv cb w'"
proof -
  let ?c = "w_client w"
  have bs: "w_receiving w" "bs \<noteq> []" "int (length bs) \<le> CLIENT_SOCKS_RECV_BUF_SIZE" using en by auto
  have core: "tc_core cb w" and rest: "rest_inv w" using inv by (simp_all add: tc_inv_def)
  have base: "down_base w" and res: "res_inv w" using core by (simp_all add: tc_core_def down_inv_def)
  have f: "socks_recv_buf_used ?c = -1" "\<not> socks_closed ?c" "socks_up ?c" "int (length (socks_recv_buf ?c)) = CLIENT_SOCKS_RECV_BUF_SIZE"
    using base bs(1) by (simp_all add: down_base_def Let_def)
  have alive: "w_alive w" using res f(2) by (auto simp: res_inv_def Let_def split: if_splits)
  let ?w0 = "upd (\<lambda>c. c\<lparr>socks_recv_buf := mem_write (socks_recv_buf c) 0 bs\<rparr>)
         (w\<lparr>w_receiving := False, w_from_socks := w_from_socks w @ bs\<rparr>)"
  let ?w1 = "upd (\<lambda>c. c\<lparr>socks_recv_buf_used := int (length bs), socks_recv_buf_sent := 0, socks_recv_waiting := False\<rparr>) ?w0"
  have len: "length (mem_write (socks_recv_buf ?c) 0 bs) = length (socks_recv_buf ?c)" using bs(3) f(4) by simp
  have frame: "res_inv ?w0 = res_inv w" "dead_inv cb ?w0 = dead_inv cb w" "up_inv ?w0 = up_inv w"
    "res_inv ?w1 = res_inv w" "dead_inv cb ?w1 = dead_inv cb w" "up_inv ?w1 = up_inv w"
    by (simp_all add: res_inv_def dead_inv_def up_inv_def upd_def Let_def)
  have db: "down_base ?w0" "down_base ?w1" using base len f by (auto simp: down_base_def upd_def Let_def)
  show ?thesis
  proof (cases "client_closed ?c")
    case True
    have "socks_handler (Recv_Done bs lw) w = Some ?w0"
      using True alive bs f by (simp add: client_socks_recv_handler_done_def upd_def Let_def)
    moreover have "w_tcp_lost w" using rest alive True by (simp add: rest_inv_def Let_def)
    ultimately show ?thesis
      using core rest frame db True by (auto simp: tc_inv_def tc_core_def down_inv_def rest_inv_def upd_def Let_def)
  next
    case False
    have down: "w_from_socks w = w_to_tcp w" "socks_recv_tcp_pending ?c = w_unacked w" "0 \<le> w_unacked w"
      using core False f by (simp_all add: tc_core_def down_inv_def Let_def)
    have rd: "mem_read (mem_write (socks_recv_buf ?c) 0 bs) 0 (length bs) = bs"
      using bs(3) f(4) by (intro mem_read_write_same) auto
    have cb: "w_cb_recv w" using rest alive False f by (simp add: rest_inv_def Let_def)
    have out: "out_inv cb ?w1"
      using core frame db False f alive down rd bs cb
      by (simp add: out_inv_def closable_def tc_core_def upd_def Let_def)
    have less: "socks_recv_buf_sent (w_client ?w1) < socks_recv_buf_used (w_client ?w1)" using bs(2) by (simp add: upd_def)
    from send_out_inv [OF out less, of lw] obtain r w2 where w2: "client_socks_recv_send_out lw ?w1 = Some (r, w2)"
      "r = -1 \<and> tc_inv cb w2 \<or> r = 0 \<and> w_alive w2 \<and> socks_closed (w_client w2) = socks_closed (w_client ?w1) \<and>
       (socks_recv_buf_used (w_client w2) \<noteq> -1 \<and> tc_inv cb w2 \<or> socks_recv_buf_used (w_client w2) = -1 \<and> idle_inv cb w2)" by blast
    have eq: "socks_handler (Recv_Done bs lw) w =
       (if r < 0 then Some w2
        else do { need (w_alive w2);
          if socks_recv_buf_used (w_client w2) = -1 then client_socks_recv_initiate w2 else Some w2 })"
      using False alive bs f w2(1) by (simp add: client_socks_recv_handler_done_def upd_def Let_def)
    show ?thesis
    proof (cases "r = 0 \<and> socks_recv_buf_used (w_client w2) = -1")
      case True
      with w2(2) f(2) have "idle_inv cb w2" "\<not> socks_closed (w_client w2)" "w_alive w2" by (auto simp: upd_def)
      with recv_initiate_inv [OF this(1,2)] True eq show ?thesis by auto
    next
      case False
      with w2(2) eq show ?thesis by auto
    qed
  qed
qed

section \<open>Every event is handled\<close>

lemma socks_open:
  assumes "tc_inv cb w" "w_socks w"
  shows "w_alive w" "\<not> socks_closed (w_client w)" "tc_core cb w" "tc_base w"
    "\<not> client_closed (w_client w) \<Longrightarrow> w_pcb w \<and> \<not> aborted (w_client w)" "client_closed (w_client w) \<Longrightarrow> \<not> w_cb_recv w"
proof -
  show core: "tc_core cb w" using assms(1) by (simp add: tc_inv_def)
  then show alive: "w_alive w" "\<not> socks_closed (w_client w)"
    using assms(2) by (auto simp: tc_core_def res_inv_def Let_def split: if_splits)
  show "tc_base w" by (rule core_base [OF core alive(1)])
  show "\<not> client_closed (w_client w) \<Longrightarrow> w_pcb w \<and> \<not> aborted (w_client w)"
    using core_open [OF core alive(1)] by simp
  show "client_closed (w_client w) \<Longrightarrow> \<not> w_cb_recv w" using assms(1) alive by (simp add: tc_inv_def rest_inv_def Let_def)
qed

lemma socks_lost_inv: "tc_inv cb w \<Longrightarrow> tc_inv cb (w\<lparr>w_socks_lost := True\<rparr>)"
  by (auto simp: tc_inv_def tc_core_def res_inv_def dead_inv_def up_inv_def down_inv_def down_base_def rest_inv_def Let_def)

lemma free_socks_inv:
  assumes "tc_inv cb w" "w_socks w" "w_socks_lost w"
  shows "\<exists>w'. client_free_socks lw w = Some w' \<and> tc_inv cb w'"
  using client_free_socks_eq [of w lw] close_socks_inv [of cb w lw] socks_open [OF assms(1,2)] assms(2,3) by simp

lemma up_event_inv:
  assumes inv: "tc_inv cb w" and socks: "w_socks w" and notup: "\<not> socks_up (w_client w)"
  shows "\<exists>w'. client_socks_handler lw SC_UP w = Some w' \<and> tc_inv cb w'"
proof -
  note o = socks_open [OF inv socks]
  let ?c = "w_client w"
  let ?w4 = "upd (\<lambda>c. c\<lparr>socks_recv_buf_used := -1, socks_recv_tcp_pending := 0, socks_up := True\<rparr>)
     (w\<lparr>w_cb_sent := (if client_closed ?c then w_cb_sent w else True),
        w_sending := (if 0 < buf_used ?c then Some (buf_used ?c) else w_sending w)\<rparr>)"
  have none: "w_sending w = None" "\<not> w_receiving w" using o(2,3) notup
    by (auto simp: tc_core_def up_inv_def down_inv_def down_base_def Let_def)
  have eq: "client_socks_handler lw SC_UP w = (if client_closed ?c then Some ?w4 else client_socks_recv_initiate ?w4)"
    using o notup socks none
    by (auto simp: client_socks_handler_def client_send_to_socks_def Sender_Send_world_def upd_def Let_def
        intro!: arg_cong [where f = client_socks_recv_initiate] world.equality)
  have res: "res_inv ?w4" using o by (auto simp: tc_core_def res_inv_def upd_def Let_def)
  have "dead_inv cb ?w4 = dead_inv cb w" by (simp add: dead_inv_def upd_def Let_def)
  then have dead: "dead_inv cb ?w4" using o by (simp add: tc_core_def)
  have up: "up_inv ?w4" using o none notup by (auto simp: tc_core_def up_inv_def upd_def Let_def)
  have down: "down_base ?w4" "w_from_socks w = []" "w_to_tcp w = []" "w_unacked w = 0"
    using o none notup by (auto simp: tc_core_def down_inv_def down_base_def upd_def Let_def)
  show ?thesis
  proof (cases "client_closed ?c")
    case True
    then have "tc_inv cb ?w4"
      using inv res dead up down o by (simp add: tc_inv_def tc_core_def down_inv_def rest_inv_def upd_def Let_def)
    then show ?thesis using eq True by simp
  next
    case False
    then have "idle_inv cb ?w4" "\<not> socks_closed (w_client ?w4)"
      using inv res dead up down o none by (simp_all add: idle_inv_def closable_def tc_inv_def rest_inv_def upd_def Let_def)
    then show ?thesis using recv_initiate_inv [of cb ?w4] eq False by auto
  qed
qed

lemma socks_event_inv:
  assumes inv: "tc_inv cb w" and en: "socks_enabled (Socks_Event e lw) w"
  shows "\<exists>w'. socks_handler (Socks_Event e lw) w = Some w' \<and> tc_inv cb w'"
proof (cases "e = SC_UP")
  case True
  then show ?thesis using up_event_inv [OF inv] en by simp
next
  case False
  let ?w = "w\<lparr>w_socks_lost := True\<rparr>"
  have w: "tc_inv cb ?w" "w_socks ?w" "w_socks_lost ?w" using socks_lost_inv [OF inv] en by simp_all
  have "socks_handler (Socks_Event e lw) w = client_free_socks lw ?w"
    using False en socks_open [OF w(1,2)] by (cases e) (simp_all add: client_socks_handler_def)
  then show ?thesis using free_socks_inv [OF w] by simp
qed

interpretation sock: total_machine "tc_inv cb" socks_step for cb
proof
  fix w x assume inv: "tc_inv cb w"
  show "\<exists>w'. socks_step x w = Some w' \<and> tc_inv cb w'"
  proof (cases "socks_enabled x w")
    case True
    then show ?thesis
      using inv socks_event_inv send_done_inv recv_done_inv
      by (cases x) (simp_all add: socks_step_def del: socks_enabled.simps socks_handler.simps)
  next
    case False
    then show ?thesis using inv by (simp add: socks_step_def)
  qed
qed

lemma SYNC_COMMIT_inv: "tc_inv cb w \<Longrightarrow> \<exists>w'. SYNC_COMMIT jobs w = Some w' \<and> tc_inv cb w'"
  by (rule sock.run_total)

lemma DEAD_ENTER_inv:
  assumes "tc_inv False w" "w_alive w" "\<not> client_closed (w_client w)"
  shows "tc_inv True (DEAD_ENTER w)" "\<not> dead_aborted (w_client w)" "w_aborts w = 0"
proof -
  have "\<not> aborted (w_client w)" using assms by (auto simp: tc_inv_def tc_core_def dead_inv_def Let_def)
  then have "dead_inv True (DEAD_ENTER w)" "\<not> dead_aborted (w_client w)" "w_aborts w = 0"
    using assms by (auto simp: tc_inv_def tc_core_def dead_inv_def DEAD_ENTER_def upd_def Let_def split: if_splits)
  moreover have "res_inv (DEAD_ENTER w) = res_inv w" "up_inv (DEAD_ENTER w) = up_inv w" "down_inv (DEAD_ENTER w) = down_inv w"
    "rest_inv (DEAD_ENTER w) = rest_inv w"
    by (simp_all add: res_inv_def up_inv_def down_inv_def down_base_def rest_inv_def DEAD_ENTER_def upd_def Let_def)
  ultimately show "tc_inv True (DEAD_ENTER w)" "\<not> dead_aborted (w_client w)" "w_aborts w = 0"
    using assms by (simp_all add: tc_inv_def tc_core_def)
qed

lemma DEAD_LEAVE2_inv:
  assumes "tc_inv True w"
  obtains d w' where "DEAD_LEAVE2 False w = Some (d, w')" "tc_inv False w'" "w_aborts w' = w_aborts w" "0 < d \<longleftrightarrow> w_aborts w \<noteq> 0"
proof -
  have dead: "dead_inv True w" using assms by (simp add: tc_inv_def tc_core_def)
  then obtain d where d: "w_dead w = Some d" "d = 0 \<longrightarrow> w_alive w \<and> \<not> aborted (w_client w)" "0 < d \<longleftrightarrow> w_aborts w \<noteq> 0"
    by (auto simp: dead_inv_def Let_def split: if_splits)
  let ?w = "(if d = 0 then upd (dead_aborted_update (\<lambda>_. False)) w else w)\<lparr>w_dead := None\<rparr>"
  have "dead_inv False ?w" using dead d by (auto simp: dead_inv_def upd_def Let_def split: if_splits)
  moreover have "res_inv ?w = res_inv w" "up_inv ?w = up_inv w" "down_inv ?w = down_inv w" "rest_inv ?w = rest_inv w"
    by (simp_all add: res_inv_def up_inv_def down_inv_def down_base_def rest_inv_def upd_def Let_def)
  ultimately have "tc_inv False ?w" using assms by (simp add: tc_inv_def tc_core_def)
  then show thesis using d by (intro that [of d ?w]) (auto simp: DEAD_LEAVE2_def upd_def Let_def)
qed

lemma free_client_inv:
  assumes inv: "tc_inv cb w" and o: "w_alive w" "\<not> client_closed (w_client w)"
    and lost: "w_tcp_lost w \<or> w_from_socks w = w_to_tcp w \<and> w_unacked w = 0 \<and> socks_closed (w_client w)"
  shows "\<exists>w'. client_free_client lw w = Some w' \<and> tc_inv cb w'"
proof -
  have closable: "closable cb w" using inv o by (intro core_closable) (simp_all add: tc_inv_def)
  have "client_free_client lw w = Some (close_client ((drop_pcb (\<not> lw_close_ok lw) w)\<lparr>w_tcp_lost := w_tcp_lost w\<rparr>))"
    unfolding drop_pcb_lost by (rule client_free_client_eq [OF closable_open [OF closable]])
  then show ?thesis using close_client_inv [OF closable lost] by simp
qed

lemma tcp_lost_inv: "tc_inv cb w \<Longrightarrow> tc_inv cb (w\<lparr>w_tcp_lost := True\<rparr>)"
  by (auto simp: tc_inv_def tc_core_def res_inv_def dead_inv_def up_inv_def down_inv_def down_base_def rest_inv_def Let_def)

text \<open>Data put behind what is in the buffer.\<close>

definition after_recv :: "byte list \<Rightarrow> world \<Rightarrow> world" where
  "after_recv bs w = upd (\<lambda>c. c\<lparr>tc_buf := mem_write (tc_buf c) (nat (buf_used c)) bs, buf_used := buf_used c + int (length bs)\<rparr>)
     (w\<lparr>w_from_tcp := w_from_tcp w @ bs\<rparr>)"

lemma after_recv_inv:
  assumes inv: "tc_inv cb w" and o: "w_alive w" "\<not> client_closed (w_client w)" "\<not> socks_closed (w_client w)"
    and bs: "bs \<noteq> []" "int (length bs) \<le> TCP_WND - buf_used (w_client w)"
    and s: "s = (if buf_used (w_client w) = 0 \<and> socks_up (w_client w) then Some (int (length bs)) else w_sending w)"
  shows "tc_inv cb ((after_recv bs w)\<lparr>w_sending := s\<rparr>)"
proof -
  let ?c = "w_client w" let ?b = "tc_buf (w_client w)" let ?u = "buf_used (w_client w)"
  let ?w = "(after_recv bs w)\<lparr>w_sending := s\<rparr>"
  have up: "up_inv w" using inv by (simp add: tc_inv_def tc_core_def)
  then have b: "int (length ?b) = TCP_WND" "0 \<le> ?u" "w_from_tcp w = w_to_socks w @ mem_read ?b 0 (nat ?u)"
    "w_recved w = int (length (w_to_socks w))"
    "if socks_up ?c \<and> 0 < ?u then \<exists>n. w_sending w = Some n \<and> 0 < n \<and> n \<le> ?u else w_sending w = None"
    using o by (simp_all add: up_inv_def Let_def)
  have fit: "nat ?u + length bs \<le> length ?b" using b(1,2) bs(2) by linarith
  have nat: "nat (?u + int (length bs)) = nat ?u + length bs" using b(2) by linarith
  have "mem_read (mem_write ?b (nat ?u) bs) 0 (nat ?u + length bs) =
      mem_read (mem_write ?b (nat ?u) bs) 0 (nat ?u) @ mem_read (mem_write ?b (nat ?u) bs) (nat ?u) (length bs)"
    using fit mem_read_append [of 0 "nat ?u" "length bs" "mem_write ?b (nat ?u) bs"] by simp
  also have "\<dots> = mem_read ?b 0 (nat ?u) @ bs" using fit by (simp add: mem_simps)
  finally have rd: "mem_read (mem_write ?b (nat ?u) bs) 0 (nat (?u + int (length bs))) = mem_read ?b 0 (nat ?u) @ bs"
    by (simp add: nat)
  have snd: "if socks_up ?c then \<exists>n. s = Some n \<and> 0 < n \<and> n \<le> ?u + int (length bs) else s = None"
    using s b(2,5) bs(1) by (auto split: if_splits)
  have pos: "0 < ?u + int (length bs)" using b(2) bs(1) by (simp add: add_nonneg_pos)
  have "up_inv ?w"
    unfolding up_inv_def after_recv_def upd_def Let_def
    using b(1-4) o bs(2) fit rd snd pos by simp
  moreover have "res_inv ?w = res_inv w" "dead_inv cb ?w = dead_inv cb w" "down_inv ?w = down_inv w"
    by (simp_all add: res_inv_def dead_inv_def down_inv_def down_base_def after_recv_def upd_def Let_def)
  moreover have "rest_inv ?w"
    using inv o by (simp add: tc_inv_def rest_inv_def after_recv_def upd_def Let_def)
  ultimately show ?thesis using inv by (simp add: tc_inv_def tc_core_def)
qed

lemma client_recv_func_inv:
  assumes inv: "tc_inv False w" and en: "w_cb_recv w" "p \<noteq> Some []"
  obtains e w' where "client_recv_func lw jobs p (if p = None then w\<lparr>w_tcp_lost := True\<rparr> else w) = Some (e, w')"
    "tc_inv False w'" "e = ERR_ABRT \<longleftrightarrow> w_aborts w' \<noteq> w_aborts w"
    "e = ERR_MEM \<longrightarrow> p \<noteq> None \<and> TCP_WND - buf_used (w_client w) < int (length (the p))"
proof -
  have o: "w_alive w" "\<not> client_closed (w_client w)" "\<not> socks_closed (w_client w)"
    using inv en(1) by (auto simp: tc_inv_def tc_core_def res_inv_def rest_inv_def Let_def split: if_splits)
  show thesis
  proof (cases p)
    case None
    let ?w = "w\<lparr>w_tcp_lost := True\<rparr>"
    have e: "tc_inv True (DEAD_ENTER ?w)" "\<not> dead_aborted (w_client ?w)" "w_aborts ?w = 0"
      using DEAD_ENTER_inv [OF tcp_lost_inv [OF inv]] o by auto
    from free_client_inv [OF e(1), of lw] o obtain w2 where w2: "client_free_client lw (DEAD_ENTER ?w) = Some w2" "tc_inv True w2"
      by (auto simp: DEAD_ENTER_def upd_def)
    from DEAD_LEAVE2_inv [OF w2(2)] obtain d w3 where
      "DEAD_LEAVE2 False w2 = Some (d, w3)" "tc_inv False w3" "w_aborts w3 = w_aborts w2" "0 < d \<longleftrightarrow> w_aborts w2 \<noteq> 0" .
    then show thesis
      using None o e w2(1) by (intro that [of "if 0 < d then ERR_ABRT else ERR_OK" w3]) (simp_all add: client_recv_func_def)
  next
    case (Some bs)
    let ?w1 = "DEAD_ENTER w"
    have e: "tc_inv True ?w1" "\<not> dead_aborted (w_client w)" "w_aborts w = 0" by (rule DEAD_ENTER_inv [OF inv o(1,2)])+
    have fields: "w_alive ?w1" "\<not> client_closed (w_client ?w1)" "\<not> socks_closed (w_client ?w1)" "buf_used (w_client ?w1) = buf_used (w_client w)"
      "socks_up (w_client ?w1) = socks_up (w_client w)" "w_aborts ?w1 = w_aborts w" "w_sending ?w1 = w_sending w"
      using o by (simp_all add: DEAD_ENTER_def upd_def)
    show thesis
    proof (cases "int (length bs) > TCP_WND - buf_used (w_client w)")
      case True
      from DEAD_LEAVE2_inv [OF e(1)] obtain d w2 where
        "DEAD_LEAVE2 False ?w1 = Some (d, w2)" "tc_inv False w2" "w_aborts w2 = w_aborts ?w1" "0 < d \<longleftrightarrow> w_aborts ?w1 \<noteq> 0" .
      then show thesis
        using Some True o e fields by (intro that [of ERR_MEM w2]) (simp_all add: client_recv_func_def)
    next
      case False
      let ?first = "buf_used (w_client w) = 0 \<and> socks_up (w_client w)"
      let ?w2 = "after_recv bs ?w1"
      have bs: "bs \<noteq> []" "int (length bs) \<le> TCP_WND - buf_used (w_client ?w1)" using en(2) Some False fields(4) by auto
      have used: "buf_used (w_client ?w2) = buf_used (w_client w) + int (length bs)" "socks_up (w_client ?w2) = socks_up (w_client w)"
        using fields by (simp_all add: after_recv_def upd_def)
      have inv2: "tc_inv True (?w2\<lparr>w_sending := (if ?first then Some (int (length bs)) else w_sending w)\<rparr>)"
        using fields by (intro after_recv_inv [OF e(1) fields(1-3) bs]) simp
      have none: "?first \<longrightarrow> w_sending w = None"
        using inv o by (simp add: tc_inv_def tc_core_def up_inv_def Let_def)
      have socks: "w_socks w" using inv o by (simp add: tc_inv_def tc_core_def res_inv_def Let_def)
      have "\<exists>w3. (if ?first then do { w3 \<leftarrow> client_send_to_socks ?w2; SYNC_COMMIT jobs w3 } else Some ?w2) = Some w3 \<and> tc_inv True w3"
      proof (cases ?first)
        case True
        have "client_send_to_socks ?w2 = Some (?w2\<lparr>w_sending := Some (int (length bs))\<rparr>)"
          using True none socks bs(1) o
          by (simp add: client_send_to_socks_def Sender_Send_world_def after_recv_def DEAD_ENTER_def upd_def)
        then show ?thesis using True inv2 SYNC_COMMIT_inv [of True _ jobs] by simp
      next
        case False
        have "?w2\<lparr>w_sending := w_sending w\<rparr> = ?w2" by (rule world.equality) (simp_all add: after_recv_def DEAD_ENTER_def upd_def)
        then show ?thesis using inv2 False by auto
      qed
      then obtain w3 where w3: "(if ?first then do { w3 \<leftarrow> client_send_to_socks ?w2; SYNC_COMMIT jobs w3 } else Some ?w2) = Some w3"
        "tc_inv True w3" by blast
      from DEAD_LEAVE2_inv [OF w3(2)] obtain d w4 where
        w4: "DEAD_LEAVE2 False w3 = Some (d, w4)" "tc_inv False w4" "w_aborts w4 = w_aborts w3" "0 < d \<longleftrightarrow> w_aborts w3 \<noteq> 0" .
      have "client_recv_func lw jobs p w = Some (if 0 < d then ERR_ABRT else ERR_OK, w4)"
        using Some False o e fields w3(1) w4(1) used
        by (simp add: client_recv_func_def after_recv_def [symmetric] Let_def)
      then show thesis using w4 Some e by (intro that [of "if 0 < d then ERR_ABRT else ERR_OK" w4]) simp_all
    qed
  qed
qed

lemma sent_state:
  assumes inv: "tc_inv False w" and en: "w_cb_sent w" "0 < n" "n \<le> w_unacked w"
  shows "w_alive w" "\<not> client_closed (w_client w)" "socks_up (w_client w)" "socks_recv_tcp_pending (w_client w) = w_unacked w"
  using assms
  by (auto simp: tc_inv_def tc_core_def res_inv_def down_inv_def Let_def split: if_splits)

text \<open>The state in which \<^verbatim>\<open>client_sent_func\<close> has subtracted the confirmed bytes.\<close>

definition after_ack :: "int \<Rightarrow> world \<Rightarrow> world" where
  "after_ack n w = upd (\<lambda>c. c\<lparr>socks_recv_tcp_pending := socks_recv_tcp_pending c - n\<rparr>) (w\<lparr>w_unacked := w_unacked w - n\<rparr>)"

lemma after_ack_frame:
  "res_inv (after_ack n w) = res_inv w" "dead_inv cb (after_ack n w) = dead_inv cb w" "up_inv (after_ack n w) = up_inv w"
  "w_alive (after_ack n w) = w_alive w" "w_cb_recv (after_ack n w) = w_cb_recv w" "w_receiving (after_ack n w) = w_receiving w"
  by (simp_all add: res_inv_def dead_inv_def up_inv_def after_ack_def upd_def Let_def)

lemma sent_continue_inv:
  assumes inv: "tc_inv True w" and o: "w_alive w" "\<not> client_closed (w_client w)" "socks_up (w_client w)"
    and n: "0 < n" "n \<le> w_unacked w"
  shows "\<exists>w'. sent_continue lw jobs (after_ack n w) = Some w' \<and> tc_inv True w'"
proof (cases "socks_recv_buf_used (w_client w) = -1")
  case True
  let ?w = "after_ack n w"
  have down: "w_from_socks w = w_to_tcp w" "socks_closed (w_client w) \<or> w_receiving w" "socks_recv_tcp_pending (w_client w) = w_unacked w"
    using inv o True by (simp_all add: tc_inv_def tc_core_def down_inv_def Let_def)
  have u: "socks_recv_buf_used (w_client ?w) = -1" "socks_recv_tcp_pending (w_client ?w) = w_unacked w - n"
    "socks_closed (w_client ?w) = socks_closed (w_client w)" "client_closed (w_client ?w) = client_closed (w_client w)"
    using True down by (simp_all add: after_ack_def upd_def)
  have core: "tc_core True ?w"
    using inv o n True down
    by (simp add: tc_inv_def tc_core_def after_ack_frame) (simp add: down_inv_def down_base_def after_ack_def upd_def Let_def)
  show ?thesis
  proof (cases "socks_closed (w_client w) \<and> w_unacked w = n")
    case fin: True
    have closable: "closable True ?w" using core o u by (intro core_closable) (simp_all add: after_ack_frame)
    have all: "w_from_socks ?w = w_to_tcp ?w \<and> w_unacked ?w = 0 \<and> socks_closed (w_client ?w)"
      using down fin by (simp add: after_ack_def upd_def)
    have "client_free_client lw ?w = Some (close_client ((drop_pcb (\<not> lw_close_ok lw) ?w)\<lparr>w_tcp_lost := w_tcp_lost ?w\<rparr>))"
      unfolding drop_pcb_lost by (rule client_free_client_eq [OF closable_open [OF closable]])
    then show ?thesis using u fin all close_client_inv [OF closable disjI2 [OF all]] by (simp add: sent_continue_def)
  next
    case False
    have "rest_inv ?w"
      using inv o n False down(3) True by (auto simp: tc_inv_def rest_inv_def after_ack_def upd_def Let_def)
    then show ?thesis using u core False by (auto simp: sent_continue_def tc_inv_def)
  qed
next
  case False
  let ?w = "upd (socks_recv_waiting_update (\<lambda>_. False)) (after_ack n w)"
  have core: "tc_core True w" and rest: "rest_inv w" using inv by (simp_all add: tc_inv_def)
  have down: "0 \<le> socks_recv_buf_sent (w_client w)" "socks_recv_buf_sent (w_client w) < socks_recv_buf_used (w_client w)"
    "socks_recv_buf_used (w_client w) \<le> CLIENT_SOCKS_RECV_BUF_SIZE" "socks_recv_waiting (w_client w)" "socks_recv_tcp_pending (w_client w) = w_unacked w"
    "w_from_socks w = w_to_tcp w @ mem_read (socks_recv_buf (w_client w)) (nat (socks_recv_buf_sent (w_client w)))
             (nat (socks_recv_buf_used (w_client w) - socks_recv_buf_sent (w_client w)))"
    using core o False by (simp_all add: tc_core_def down_inv_def Let_def)
  have base: "down_base w" using core by (simp add: tc_core_def down_inv_def)
  have "res_inv ?w = res_inv w" "dead_inv True ?w = dead_inv True w" "up_inv ?w = up_inv w"
    by (simp_all add: res_inv_def dead_inv_def up_inv_def after_ack_def upd_def Let_def)
  moreover have "down_base ?w" using base o by (simp add: down_base_def after_ack_def upd_def Let_def)
  ultimately have closable: "closable True ?w" using core o by (simp add: closable_def tc_core_def after_ack_def upd_def)
  have "\<not> w_receiving w" using base False by (auto simp: down_base_def Let_def)
  then have out: "out_inv True ?w" "socks_recv_buf_sent (w_client ?w) < socks_recv_buf_used (w_client ?w)"
    using closable down o n rest by (simp_all add: out_inv_def rest_inv_def after_ack_def upd_def Let_def)
  from send_out_inv [OF out, of lw] obtain r w2 where w2: "client_socks_recv_send_out lw ?w = Some (r, w2)"
    "r = -1 \<and> tc_inv True w2 \<or> r = 0 \<and> w_alive w2 \<and> 0 < w_unacked w2 \<and> 0 < socks_recv_tcp_pending (w_client w2) \<and>
       (socks_recv_buf_used (w_client w2) \<noteq> -1 \<and> tc_inv True w2 \<or> socks_recv_buf_used (w_client w2) = -1 \<and> idle_inv True w2)" by blast
  have pos: "socks_recv_buf_used (w_client (after_ack n w)) > 0" "socks_recv_waiting (w_client (after_ack n w))"
    using down by (simp_all add: after_ack_def upd_def)
  consider "r = -1" "tc_inv True w2" | "r = 0" "w_alive w2" "0 < socks_recv_tcp_pending (w_client w2)" "socks_recv_buf_used (w_client w2) \<noteq> -1" "tc_inv True w2"
    | "r = 0" "w_alive w2" "0 < socks_recv_tcp_pending (w_client w2)" "socks_recv_buf_used (w_client w2) = -1" "idle_inv True w2" "0 < w_unacked w2"
    using w2(2) by auto
  then show ?thesis
  proof cases
    case 3
    show ?thesis
    proof (cases "socks_closed (w_client w2)")
      case True
      then show ?thesis using 3 w2(1) pos idle_closed_inv by (simp add: sent_continue_def)
    next
      case False
      then obtain w3 where "client_socks_recv_initiate w2 = Some w3" "tc_inv True w3" using recv_initiate_inv [OF 3(5)] by blast
      then show ?thesis using 3 False w2(1) pos SYNC_COMMIT_inv [of True w3 jobs] by (auto simp: sent_continue_def)
    qed
  qed (use w2(1) pos in \<open>simp_all add: sent_continue_def\<close>)
qed

lemma client_sent_func_inv:
  assumes inv: "tc_inv False w" and en: "w_cb_sent w" "0 < n" "n \<le> w_unacked w"
  obtains e w' where "client_sent_func lw jobs n (w\<lparr>w_unacked := w_unacked w - n\<rparr>) = Some (e, w')"
    "tc_inv False w'" "e = ERR_ABRT \<longleftrightarrow> w_aborts w' \<noteq> w_aborts w"
proof -
  note o = sent_state [OF assms]
  let ?w = "DEAD_ENTER w"
  have e: "tc_inv True ?w" "\<not> dead_aborted (w_client w)" "w_aborts w = 0" by (rule DEAD_ENTER_inv [OF inv o(1,2)])+
  have fields: "w_alive ?w" "\<not> client_closed (w_client ?w)" "socks_up (w_client ?w)" "w_unacked ?w = w_unacked w"
    using o by (simp_all add: DEAD_ENTER_def upd_def)
  have "upd (\<lambda>c. c\<lparr>socks_recv_tcp_pending := socks_recv_tcp_pending c - n\<rparr>) (DEAD_ENTER (w\<lparr>w_unacked := w_unacked w - n\<rparr>)) = after_ack n ?w"
    by (rule world.equality) (simp_all add: after_ack_def DEAD_ENTER_def upd_def)
  note eq = this
  from sent_continue_inv [OF e(1) fields(1-3) en(2), of lw jobs] fields(4) en(3)
  obtain w2 where w2: "sent_continue lw jobs (after_ack n ?w) = Some w2" "tc_inv True w2" by auto
  from DEAD_LEAVE2_inv [OF w2(2)] obtain d w3 where
    w3: "DEAD_LEAVE2 False w2 = Some (d, w3)" "tc_inv False w3" "w_aborts w3 = w_aborts w2" "0 < d \<longleftrightarrow> w_aborts w2 \<noteq> 0" .
  have "client_sent_func lw jobs n (w\<lparr>w_unacked := w_unacked w - n\<rparr>) = Some (if 0 < d then ERR_ABRT else ERR_OK, w3)"
    using o en e w2(1) w3(1) by (simp add: client_sent_func_def eq)
  then show thesis using w3 e by (intro that [of "if 0 < d then ERR_ABRT else ERR_OK" w3]) simp_all
qed

lemma err_inv:
  assumes inv: "tc_inv cb w" and en: "w_cb_err w"
  shows "\<exists>w'. tc_handler (Tcp_Err lw) w = Some w' \<and> tc_inv cb w'"
proof -
  have o: "w_alive w" "\<not> client_closed (w_client w)" using inv en
    by (auto simp: tc_inv_def tc_core_def res_inv_def Let_def split: if_splits)
  have closable: "closable cb w" using inv o by (intro core_closable) (simp_all add: tc_inv_def)
  let ?w = "(drop_pcb False w)\<lparr>w_tcp_lost := True\<rparr>"
  have "tc_handler (Tcp_Err lw) w = client_handle_freed_client lw ?w"
    by (simp add: client_err_func_def drop_pcb_def)
  also have "\<dots> = Some (close_client ?w)"
    using closable_open [OF closable] by (intro client_handle_freed_client_eq) simp_all
  finally show ?thesis using close_client_inv [OF closable, of True False] by simp
qed

lemma murder_event_inv:
  assumes "tc_inv cb w" "w_alive w"
  shows "\<exists>w'. tc_handler Murder w = Some w' \<and> tc_inv cb w'"
  using murder_inv [OF tcp_lost_inv [OF socks_lost_inv [OF assms(1)]]] assms(2) by simp

interpretation tcm: total_machine "tc_inv False" tc_step
proof
  fix w x assume inv: "tc_inv False w"
  show "\<exists>w'. tc_step x w = Some w' \<and> tc_inv False w'"
  proof (cases "tc_enabled x w")
    case False
    then show ?thesis using inv by (simp add: tc_step_def)
  next
    case True
    show ?thesis
    proof (cases x)
      case (Tcp_Recv p lw jobs)
      with True have en: "w_cb_recv w" "p \<noteq> Some []" by simp_all
      obtain e w' where "client_recv_func lw jobs p (if p = None then w\<lparr>w_tcp_lost := True\<rparr> else w) = Some (e, w')" "tc_inv False w'"
        by (rule client_recv_func_inv [OF inv en])
      then show ?thesis using True Tcp_Recv by (simp add: tc_step_def)
    next
      case (Tcp_Sent n lw jobs)
      with True have en: "w_cb_sent w" "0 < n" "n \<le> w_unacked w" by simp_all
      obtain e w' where "client_sent_func lw jobs n (w\<lparr>w_unacked := w_unacked w - n\<rparr>) = Some (e, w')" "tc_inv False w'"
        by (rule client_sent_func_inv [OF inv en])
      then show ?thesis using True Tcp_Sent by (simp add: tc_step_def)
    next
      case (Socks y)
      then show ?thesis using sock.step_total [OF inv, of y] True by (simp add: tc_step_def socks_step_def)
    next
      case (Tcp_Err lw)
      then show ?thesis using err_inv [OF inv, of lw] True by (simp add: tc_step_def del: tc_handler.simps)
    next
      case Murder
      then show ?thesis using murder_event_inv [OF inv] True by (simp add: tc_step_def del: tc_handler.simps)
    qed
  qed
qed

lemma accept_run:
  assumes "int (length buf) = TCP_WND" "int (length rbuf) = CLIENT_SOCKS_RECV_BUF_SIZE" "0 \<le> n"
  obtains e w w' where "listener_accept_func True True True buf rbuf jobs n = Some (e, Some w)"
    "e = ERR_ABRT \<longleftrightarrow> w_aborts w \<noteq> 0" "tc_inv False w" "run_all tc_step ops w = Some w'" "tc_inv False w'"
proof -
  have "tc_inv False (new_client buf rbuf n)"
    using assms by (simp add: tc_inv_def tc_core_def res_inv_def dead_inv_def up_inv_def down_inv_def down_base_def
        rest_inv_def TCP_WND_def new_client_def)
  then have "tc_inv True (DEAD_ENTER (new_client buf rbuf n))" by (rule DEAD_ENTER_inv) (simp_all add: new_client_def)
  then obtain w1 where w1: "SYNC_COMMIT jobs (DEAD_ENTER (new_client buf rbuf n)) = Some w1" "tc_inv True w1"
    using SYNC_COMMIT_inv by blast
  from DEAD_LEAVE2_inv [OF w1(2)] obtain d w where
    w: "DEAD_LEAVE2 False w1 = Some (d, w)" "tc_inv False w" "w_aborts w = w_aborts w1" "0 < d \<longleftrightarrow> w_aborts w1 \<noteq> 0" .
  from tcm.run_total [OF w(2), of ops] obtain w' where "run_all tc_step ops w = Some w'" "tc_inv False w'" by blast
  then show thesis
    using w1(1) w by (intro that [of "if d > 0 then ERR_ABRT else ERR_OK" w w']) (simp_all add: listener_accept_func_def)
qed

section \<open>What the clients guarantee\<close>

text \<open>C4: whatever lwIP and the SOCKS side do, in any order and nested in any callback, no handler of a TCP
  client touches a freed object, starts an operation while one is in progress, or fails an assertion;
  and a client that is gone has released its pcb with all callbacks, its SOCKS client, and its place in
  the client list.\<close>

theorem tcp_client_safe:
  assumes "int (length buf) = TCP_WND" "int (length rbuf) = CLIENT_SOCKS_RECV_BUF_SIZE" "0 \<le> n"
  shows "\<exists>e w w'. listener_accept_func True True True buf rbuf jobs n = Some (e, Some w) \<and> run_all tc_step ops w = Some w' \<and>
    (if w_alive w' then w_listed w' \<and> (w_pcb w' \<or> w_socks w')
     else \<not> w_pcb w' \<and> \<not> w_cb_err w' \<and> \<not> w_cb_recv w' \<and> \<not> w_cb_sent w' \<and> \<not> w_socks w' \<and> \<not> w_listed w' \<and>
       w_sending w' = None \<and> \<not> w_receiving w')"
proof -
  obtain e w w' where r: "listener_accept_func True True True buf rbuf jobs n = Some (e, Some w)" "run_all tc_step ops w = Some w'"
    "tc_inv False w'" by (rule accept_run [OF assms])
  have "if w_alive w' then w_listed w' \<and> (w_pcb w' \<or> w_socks w')
     else \<not> w_pcb w' \<and> \<not> w_cb_err w' \<and> \<not> w_cb_recv w' \<and> \<not> w_cb_sent w' \<and> \<not> w_socks w' \<and> \<not> w_listed w' \<and>
       w_sending w' = None \<and> \<not> w_receiving w'"
    using r(3) by (auto simp: tc_inv_def tc_core_def res_inv_def rest_inv_def up_inv_def down_inv_def down_base_def Let_def
        split: if_splits)
  with r(1,2) show ?thesis by blast
qed

definition ex_lwip :: lwip where
  "ex_lwip = \<lparr>lw_close_ok = True, lw_sndbuf = (\<lambda>_. 100), lw_write = (\<lambda>_. ERR_OK), lw_output_ok = True\<rparr>"

definition ex_events :: "tc_op list" where
  "ex_events = [Tcp_Recv (Some [1, 2, 3]) ex_lwip [], Socks (Socks_Event SC_UP ex_lwip), Socks (Send_Done 2 ex_lwip),
     Socks (Recv_Done [7, 8] ex_lwip), Tcp_Sent 2 ex_lwip [], Tcp_Recv None ex_lwip [], Socks (Send_Done 1 ex_lwip)]"

lemma ex_buffers:
  "int (length (replicate 5840 (0 :: byte))) = TCP_WND" "int (length (replicate 8192 (0 :: byte))) = CLIENT_SOCKS_RECV_BUF_SIZE"
  by (simp_all add: TCP_WND_def CLIENT_SOCKS_RECV_BUF_SIZE_def)

text \<open>In the example the client is gone at the end, and only its TCP side was closed.\<close>

lemma ex_client_run:
  "map_option (\<lambda>w. (w_alive w, w_socks_lost w, w_cb_err w)) (Option.bind (Option.bind (listener_accept_func True True True buf rbuf [] 0) snd)
     (run_all tc_step ex_events)) = Some (False, False, False)"
  by code_simp

lemma ex_client_end:
  assumes "listener_accept_func True True True buf rbuf [] 0 = Some (e, Some w)" "run_all tc_step ex_events w = Some w'"
  shows "\<not> w_alive w' \<and> \<not> w_socks_lost w'"
  using ex_client_run [of buf rbuf] assms by simp

theorem tcp_client_safe_witness:
  "\<exists>e w w'. listener_accept_func True True True (replicate 5840 0) (replicate 8192 0) [] 0 = Some (e, Some w) \<and>
    run_all tc_step ex_events w = Some w' \<and> \<not> w_alive w' \<and> \<not> w_pcb w' \<and> \<not> w_socks w' \<and> \<not> w_listed w'"
  using tcp_client_safe [OF ex_buffers order_refl, of "[]" ex_events] ex_client_end by fastforce

text \<open>C6: the client is a pair of byte streams: the bytes given to the SOCKS side are a prefix of those taken
  from TCP, in order, and what is missing is what the buffer holds while the SOCKS side is open; the
  same in the other direction; the buffers never overflow; and TCP is told of exactly the bytes that
  were passed on.\<close>

theorem tcp_client_streams:
  assumes "int (length buf) = TCP_WND" "int (length rbuf) = CLIENT_SOCKS_RECV_BUF_SIZE" "0 \<le> n"
  shows "\<exists>e w w'. listener_accept_func True True True buf rbuf jobs n = Some (e, Some w) \<and> run_all tc_step ops w = Some w' \<and>
    (let c = w_client w' in
     0 \<le> buf_used c \<and> buf_used c \<le> TCP_WND \<and>
     (\<exists>rest. w_from_tcp w' = w_to_socks w' @ rest \<and> (w_socks w' \<longrightarrow> rest = mem_read (tc_buf c) 0 (nat (buf_used c)))) \<and>
     (\<exists>rest. w_from_socks w' = w_to_tcp w' @ rest \<and> (w_pcb w' \<longrightarrow> int (length rest) \<le> CLIENT_SOCKS_RECV_BUF_SIZE)) \<and>
     (w_pcb w' \<and> w_socks w' \<longrightarrow> w_recved w' = int (length (w_to_socks w'))))"
proof -
  obtain e w w' where r: "listener_accept_func True True True buf rbuf jobs n = Some (e, Some w)" "run_all tc_step ops w = Some w'"
    "tc_inv False w'" by (rule accept_run [OF assms])
  let ?c = "w_client w'"
  have up: "up_inv w'" and down: "down_inv w'" and res: "res_inv w'" using r(3) by (simp_all add: tc_inv_def tc_core_def)
  have o: "w_socks w' \<Longrightarrow> \<not> socks_closed ?c" "w_pcb w' \<Longrightarrow> \<not> client_closed ?c"
    using res by (auto simp: res_inv_def Let_def split: if_splits)
  have a: "0 \<le> buf_used ?c \<and> buf_used ?c \<le> TCP_WND" using up by (simp add: up_inv_def Let_def)
  have b: "\<exists>rest. w_from_tcp w' = w_to_socks w' @ rest \<and> (w_socks w' \<longrightarrow> rest = mem_read (tc_buf ?c) 0 (nat (buf_used ?c)))"
    using up o(1) by (auto simp: up_inv_def Let_def)
  have c: "w_pcb w' \<and> w_socks w' \<longrightarrow> w_recved w' = int (length (w_to_socks w'))"
    using up o by (auto simp: up_inv_def Let_def)
  obtain rest where rest: "w_from_socks w' = w_to_tcp w' @ rest" using down by (auto simp: down_inv_def down_base_def Let_def)
  have "int (length rest) \<le> CLIENT_SOCKS_RECV_BUF_SIZE" if "w_pcb w'"
  proof (cases "socks_up ?c \<and> socks_recv_buf_used ?c \<noteq> -1")
    case True
    then have "w_from_socks w' = w_to_tcp w' @ mem_read (socks_recv_buf ?c) (nat (socks_recv_buf_sent ?c))
        (nat (socks_recv_buf_used ?c - socks_recv_buf_sent ?c))" "int (length (socks_recv_buf ?c)) = CLIENT_SOCKS_RECV_BUF_SIZE"
      using down o(2) [OF that] by (simp_all add: down_inv_def down_base_def Let_def)
    then show ?thesis using rest by (simp add: mem_read_def)
  next
    case False
    then have "rest = []" using down o(2) [OF that] rest by (auto simp: down_inv_def down_base_def Let_def)
    then show ?thesis by (simp add: CLIENT_SOCKS_RECV_BUF_SIZE_def)
  qed
  with rest have d: "\<exists>rest. w_from_socks w' = w_to_tcp w' @ rest \<and> (w_pcb w' \<longrightarrow> int (length rest) \<le> CLIENT_SOCKS_RECV_BUF_SIZE)" by blast
  from r(1,2) a b c d show ?thesis unfolding Let_def by blast
qed

theorem tcp_client_streams_witness:
  "\<exists>e w w'. listener_accept_func True True True (replicate 5840 0) (replicate 8192 0) [] 0 = Some (e, Some w) \<and>
    run_all tc_step ex_events w = Some w' \<and> (\<exists>rest. w_from_tcp w' = w_to_socks w' @ rest)"
  using tcp_client_streams [OF ex_buffers order_refl, of "[]" ex_events] unfolding Let_def by blast



text \<open>C7: a callback returns \<^verbatim>\<open>ERR_ABRT\<close> to lwIP if and only if \<^verbatim>\<open>tcp_abort\<close> was called while it ran, directly or
  from a job it ran: lwIP depends on this to know whether the pcb still exists.\<close>

theorem tcp_client_abort_code:
  assumes "int (length buf) = TCP_WND" "int (length rbuf) = CLIENT_SOCKS_RECV_BUF_SIZE" "0 \<le> n"
  shows "\<exists>e w w'. listener_accept_func True True True buf rbuf jobs n = Some (e, Some w) \<and> run_all tc_step ops w = Some w' \<and>
    (e = ERR_ABRT \<longleftrightarrow> w_aborts w \<noteq> 0) \<and>
    (w_cb_recv w' \<and> p \<noteq> Some [] \<longrightarrow>
      (\<exists>e2 w2. client_recv_func lw jobs2 p (if p = None then w'\<lparr>w_tcp_lost := True\<rparr> else w') = Some (e2, w2) \<and>
        (e2 = ERR_ABRT \<longleftrightarrow> w_aborts w2 \<noteq> w_aborts w'))) \<and>
    (w_cb_sent w' \<and> 0 < m \<and> m \<le> w_unacked w' \<longrightarrow>
      (\<exists>e2 w2. client_sent_func lw jobs2 m (w'\<lparr>w_unacked := w_unacked w' - m\<rparr>) = Some (e2, w2) \<and>
        (e2 = ERR_ABRT \<longleftrightarrow> w_aborts w2 \<noteq> w_aborts w')))"
proof -
  obtain e w w' where r: "listener_accept_func True True True buf rbuf jobs n = Some (e, Some w)" "run_all tc_step ops w = Some w'"
    "tc_inv False w'" "e = ERR_ABRT \<longleftrightarrow> w_aborts w \<noteq> 0" by (rule accept_run [OF assms])
  have "\<exists>e2 w2. client_recv_func lw jobs2 p (if p = None then w'\<lparr>w_tcp_lost := True\<rparr> else w') = Some (e2, w2) \<and>
        (e2 = ERR_ABRT \<longleftrightarrow> w_aborts w2 \<noteq> w_aborts w')" if "w_cb_recv w'" "p \<noteq> Some []"
    by (rule client_recv_func_inv [OF r(3) that, where lw = lw and jobs = jobs2]) blast
  moreover have "\<exists>e2 w2. client_sent_func lw jobs2 m (w'\<lparr>w_unacked := w_unacked w' - m\<rparr>) = Some (e2, w2) \<and>
        (e2 = ERR_ABRT \<longleftrightarrow> w_aborts w2 \<noteq> w_aborts w')" if "w_cb_sent w'" "0 < m" "m \<le> w_unacked w'"
    by (rule client_sent_func_inv [OF r(3) that, where lw = lw and jobs = jobs2]) blast
  ultimately show ?thesis using r by blast
qed

definition ex_abort :: lwip where
  "ex_abort = \<lparr>lw_close_ok = False, lw_sndbuf = (\<lambda>_. 100), lw_write = (\<lambda>_. ERR_OK), lw_output_ok = True\<rparr>"

lemma ex_start:
  "map_option (\<lambda>w. (w_cb_recv w, w_from_tcp w, w_recved w)) (Option.bind (listener_accept_func True True True buf rbuf [] 0) snd) =
     Some (True, [], 0)"
  by code_simp

theorem tcp_client_abort_code_witness:
  "\<exists>e w w2 e2. listener_accept_func True True True (replicate 5840 0) (replicate 8192 0) [] 0 = Some (e, Some w) \<and>
     client_recv_func ex_abort [] None (w\<lparr>w_tcp_lost := True\<rparr>) = Some (e2, w2) \<and> (e2 = ERR_ABRT \<longleftrightarrow> w_aborts w2 \<noteq> w_aborts w)"
  using tcp_client_abort_code [OF ex_buffers order_refl, of "[]" "[]" None ex_abort "[]" 0]
    ex_start [of "replicate 5840 0" "replicate 8192 0"] by fastforce

text \<open>C12: data that respects the receive window is never refused: the bytes lwIP has delivered and that were not
  yet confirmed to it are exactly those in the buffer, so a segment that fits the window fits the buffer.\<close>

theorem tcp_client_window:
  assumes "int (length buf) = TCP_WND" "int (length rbuf) = CLIENT_SOCKS_RECV_BUF_SIZE" "0 \<le> n" "bs \<noteq> []"
  shows "\<exists>e w w'. listener_accept_func True True True buf rbuf jobs n = Some (e, Some w) \<and> run_all tc_step ops w = Some w' \<and>
    (w_cb_recv w' \<and> int (length bs) \<le> TCP_WND - (int (length (w_from_tcp w')) - w_recved w') \<longrightarrow>
      (\<exists>e2 w2. client_recv_func lw jobs2 (Some bs) w' = Some (e2, w2) \<and> e2 \<noteq> ERR_MEM))"
proof -
  obtain e w w' where r: "listener_accept_func True True True buf rbuf jobs n = Some (e, Some w)" "run_all tc_step ops w = Some w'"
    "tc_inv False w'" by (rule accept_run [OF assms(1-3)])
  have "\<exists>e2 w2. client_recv_func lw jobs2 (Some bs) w' = Some (e2, w2) \<and> e2 \<noteq> ERR_MEM"
    if cb: "w_cb_recv w'" and win: "int (length bs) \<le> TCP_WND - (int (length (w_from_tcp w')) - w_recved w')"
  proof -
    have o: "\<not> client_closed (w_client w')" "\<not> socks_closed (w_client w')"
      using r(3) cb by (auto simp: tc_inv_def tc_core_def res_inv_def rest_inv_def Let_def split: if_splits)
    have up: "up_inv w'" using r(3) by (simp add: tc_inv_def tc_core_def)
    have "w_from_tcp w' = w_to_socks w' @ mem_read (tc_buf (w_client w')) 0 (nat (buf_used (w_client w')))"
      "w_recved w' = int (length (w_to_socks w'))" "int (length (tc_buf (w_client w'))) = TCP_WND"
      "0 \<le> buf_used (w_client w')" "buf_used (w_client w') \<le> TCP_WND"
      using up o by (simp_all add: up_inv_def Let_def)
    then have "int (length (w_from_tcp w')) - w_recved w' = buf_used (w_client w')" by simp
    with win have fits: "\<not> TCP_WND - buf_used (w_client w') < int (length bs)" by simp
    show ?thesis
      by (rule client_recv_func_inv [OF r(3) cb, of "Some bs" lw jobs2]) (use assms(4) fits in auto)
  qed
  with r(1,2) show ?thesis by blast
qed

theorem tcp_client_window_witness:
  "\<exists>e w e2 w2. listener_accept_func True True True (replicate 5840 0) (replicate 8192 0) [] 0 = Some (e, Some w) \<and>
    client_recv_func ex_lwip [] (Some [1, 2]) w = Some (e2, w2) \<and> e2 \<noteq> ERR_MEM"
  using tcp_client_window [OF ex_buffers order_refl, of "[1, 2]" "[]" "[]" ex_lwip "[]"]
    ex_start [of "replicate 5840 0" "replicate 8192 0"] by (fastforce simp: TCP_WND_def)

end
