(* ===== verification/BAVL.thy ===== *)
theory BAVL
  imports Prelude "HOL-Library.Tree" "HOL-Library.Monad_Syntax"
begin

text \<open>
  The AVL tree of \<^verbatim>\<open>structure/BAVL.h\<close>, whose nodes are embedded in the program's objects and linked both
  ways.  The model works on the link fields: a heap of nodes and a root pointer.  A null pointer
  that is followed gives \<open>None\<close>, and so does a loop that does not end.  The theorems show that the
  operations implement a search tree in strict order of the comparator, keep it balanced, and
  always end.
\<close>

section \<open>Nodes\<close>

text \<open>The side of a link is \<open>True\<close> for index 1, the greater side.\<close>

record 'n BAVLNode =
  nd_parent :: "'n option"
  nd_link :: "bool \<Rightarrow> 'n option"
  nd_balance :: int

record 'n BAVL =
  av_heap :: "'n \<Rightarrow> 'n BAVLNode"
  av_root :: "'n option"

definition parent :: "'n BAVL \<Rightarrow> 'n \<Rightarrow> 'n option" where "parent t n = nd_parent (av_heap t n)"

definition link :: "'n BAVL \<Rightarrow> 'n \<Rightarrow> bool \<Rightarrow> 'n option" where "link t n = nd_link (av_heap t n)"

definition balance :: "'n BAVL \<Rightarrow> 'n \<Rightarrow> int" where "balance t n = nd_balance (av_heap t n)"

definition set_parent :: "'n \<Rightarrow> 'n option \<Rightarrow> 'n BAVL \<Rightarrow> 'n BAVL" where
  "set_parent n p t = t\<lparr>av_heap := (av_heap t)(n := (av_heap t n)\<lparr>nd_parent := p\<rparr>)\<rparr>"

definition set_link :: "'n \<Rightarrow> bool \<Rightarrow> 'n option \<Rightarrow> 'n BAVL \<Rightarrow> 'n BAVL" where
  "set_link n sd q t = t\<lparr>av_heap := (av_heap t)(n := (av_heap t n)\<lparr>nd_link := (link t n)(sd := q)\<rparr>)\<rparr>"

definition set_balance :: "'n \<Rightarrow> int \<Rightarrow> 'n BAVL \<Rightarrow> 'n BAVL" where
  "set_balance n b t = t\<lparr>av_heap := (av_heap t)(n := (av_heap t n)\<lparr>nd_balance := b\<rparr>)\<rparr>"

text \<open>\<^verbatim>\<open>if (q) q->parent = p\<close>\<close>

definition set_parent_opt :: "'n option \<Rightarrow> 'n option \<Rightarrow> 'n BAVL \<Rightarrow> 'n BAVL" where
  "set_parent_opt q p t = (case q of None \<Rightarrow> t | Some n \<Rightarrow> set_parent n p t)"

text \<open>\<^verbatim>\<open>if (p) p->link[n == p->link[1]] = q else root = q\<close>: what the owner of \<open>n\<close> points to becomes \<open>q\<close>.\<close>

definition set_owner_link :: "'n option \<Rightarrow> 'n \<Rightarrow> 'n option \<Rightarrow> 'n BAVL \<Rightarrow> 'n BAVL" where
  "set_owner_link p n q t = (case p of None \<Rightarrow> t\<lparr>av_root := q\<rparr> | Some a \<Rightarrow> set_link a (link t a True = Some n) q t)"

text \<open>\<^verbatim>\<open>if (n->link[sd] = q) n->link[sd]->parent = n\<close>, and \<^verbatim>\<open>if (n->parent = p) n->parent->link[m == p->link[1]] = n else root = n\<close>.\<close>

definition adopt :: "'n \<Rightarrow> bool \<Rightarrow> 'n option \<Rightarrow> 'n BAVL \<Rightarrow> 'n BAVL" where
  "adopt n sd q t = set_parent_opt q (Some n) (set_link n sd q t)"

definition hang :: "'n \<Rightarrow> 'n option \<Rightarrow> 'n \<Rightarrow> 'n BAVL \<Rightarrow> 'n BAVL" where
  "hang n p m t = set_owner_link p m (Some n) (set_parent n p t)"

definition BAVL_OPTNEG :: "int \<Rightarrow> bool \<Rightarrow> int" where
  "BAVL_OPTNEG a neg = (if neg then - a else a)"

section \<open>Rotation and rebalancing\<close>

definition BAVL_rotate :: "'n BAVL \<Rightarrow> 'n \<Rightarrow> bool \<Rightarrow> 'n BAVL option" where
  "BAVL_rotate t r dir = do {
     nr \<leftarrow> link t r (\<not> dir);
     let t1 = set_link r (\<not> dir) (link t nr dir) t;
     let t2 = set_parent_opt (link t1 r (\<not> dir)) (Some r) t1;
     let t3 = set_link nr dir (Some r) t2;
     let t4 = set_parent nr (parent t3 r) t3;
     let t5 = set_owner_link (parent t4 nr) r (Some nr) t4;
     Some (set_parent r (Some nr) t5)
   }"

text \<open>The switch of \<^verbatim>\<open>_BAVL_rebalance\<close>: the tree, the node at the top of the changed subtree, and the change of height.\<close>

definition BAVL_fix :: "'n BAVL \<Rightarrow> 'n \<Rightarrow> int \<Rightarrow> ('n BAVL \<times> 'n \<times> int) option" where
  "BAVL_fix t node delta =
     (if balance t node = 2 \<or> balance t node = -2 then do {
        let bside = (balance t node = 2);
        let bsidef = (if bside then 1 else -1 :: int);
        child \<leftarrow> link t node bside;
        if balance t child * bsidef = 1 then do {
          t1 \<leftarrow> BAVL_rotate t node (\<not> bside);
          Some (set_balance child 0 (set_balance node 0 t1), child, delta - 1)
        }
        else if balance t child * bsidef = 0 then do {
          t1 \<leftarrow> BAVL_rotate t node (\<not> bside);
          Some (set_balance child (-1 * bsidef) (set_balance node (1 * bsidef) t1), child, delta)
        }
        else if balance t child * bsidef = -1 then do {
          gchild \<leftarrow> link t child (\<not> bside);
          t1 \<leftarrow> BAVL_rotate t child bside;
          t2 \<leftarrow> BAVL_rotate t1 node (\<not> bside);
          let t3 = set_balance node (- max 0 (balance t2 gchild * bsidef) * bsidef) t2;
          let t4 = set_balance child (max 0 (- balance t3 gchild * bsidef) * bsidef) t3;
          Some (set_balance gchild 0 t4, gchild, delta - 1)
        }
        else None
      }
      else Some (t, node, delta))"

partial_function (option) BAVL_rebalance :: "'n BAVL \<Rightarrow> 'n \<Rightarrow> bool \<Rightarrow> int \<Rightarrow> 'n BAVL option" where
  "BAVL_rebalance t node side deltac =
     (if deltac = 0 then Some t
      else do {
        let b = BAVL_OPTNEG (balance t node) side;
        let delta = max deltac b - max 0 b;
        let t1 = set_balance node (balance t node - BAVL_OPTNEG deltac side) t;
        r \<leftarrow> BAVL_fix t1 node delta;
        case r of (t2, node2, delta2) \<Rightarrow>
          (case parent t2 node2 of
             None \<Rightarrow> Some t2
           | Some p \<Rightarrow> BAVL_rebalance t2 p (link t2 p True = Some node2) delta2)
      })"

section \<open>Searching\<close>

text \<open>The descent of \<^verbatim>\<open>BAVL_Insert\<close>, \<^verbatim>\<open>BAVL_Lookup\<close> and \<^verbatim>\<open>BAVL_LookupExact\<close>: \<open>cmp c\<close> compares the value looked for with
  that of node \<open>c\<close>; the result is the last node and its comparison.\<close>

partial_function (option) BAVL_descend :: "('n \<Rightarrow> int) \<Rightarrow> 'n BAVL \<Rightarrow> 'n \<Rightarrow> ('n \<times> int) option" where
  "BAVL_descend cmp t c =
     (if cmp c = 0 then Some (c, 0)
      else case link t c (cmp c = 1) of
          None \<Rightarrow> Some (c, cmp c)
        | Some c' \<Rightarrow> BAVL_descend cmp t c')"

text \<open>Following links of one side to the end, and parents as long as the node is on the given side.\<close>

partial_function (option) BAVL_walk :: "'n BAVL \<Rightarrow> bool \<Rightarrow> 'n \<Rightarrow> 'n option" where
  "BAVL_walk t sd n = (case link t n sd of None \<Rightarrow> Some n | Some n' \<Rightarrow> BAVL_walk t sd n')"

partial_function (option) BAVL_climb :: "'n BAVL \<Rightarrow> bool \<Rightarrow> 'n \<Rightarrow> 'n option option" where
  "BAVL_climb t sd n =
     (case parent t n of
        None \<Rightarrow> Some None
      | Some p \<Rightarrow> if link t p sd = Some n then BAVL_climb t sd p else Some (Some p))"

definition BAVL_Init :: "('n \<Rightarrow> 'n BAVLNode) \<Rightarrow> 'n BAVL" where
  "BAVL_Init h = \<lparr>av_heap = h, av_root = None\<rparr>"

definition BAVL_IsEmpty :: "'n BAVL \<Rightarrow> bool" where
  "BAVL_IsEmpty t \<longleftrightarrow> av_root t = None"

definition BAVL_Lookup :: "('k \<Rightarrow> 'k \<Rightarrow> int) \<Rightarrow> ('n \<Rightarrow> 'k) \<Rightarrow> 'n BAVL \<Rightarrow> 'k \<Rightarrow> 'n option option" where
  "BAVL_Lookup comparator val_of t val = (case av_root t of
     None \<Rightarrow> Some None
   | Some c \<Rightarrow> map_option (\<lambda>(c, _). Some c) (BAVL_descend (\<lambda>c. comparator val (val_of c)) t c))"

definition BAVL_LookupExact :: "('k \<Rightarrow> 'k \<Rightarrow> int) \<Rightarrow> ('n \<Rightarrow> 'k) \<Rightarrow> 'n BAVL \<Rightarrow> 'k \<Rightarrow> 'n option option" where
  "BAVL_LookupExact comparator val_of t val = (case av_root t of
     None \<Rightarrow> Some None
   | Some c \<Rightarrow> map_option (\<lambda>(c, comp). if comp = 0 then Some c else None) (BAVL_descend (\<lambda>c. comparator val (val_of c)) t c))"

definition BAVL_subtree_max :: "'n BAVL \<Rightarrow> 'n \<Rightarrow> 'n option" where
  "BAVL_subtree_max t n = BAVL_walk t True n"

definition BAVL_GetFirst :: "'n BAVL \<Rightarrow> 'n option option" where
  "BAVL_GetFirst t = (case av_root t of None \<Rightarrow> Some None | Some n \<Rightarrow> map_option Some (BAVL_walk t False n))"

definition BAVL_GetLast :: "'n BAVL \<Rightarrow> 'n option option" where
  "BAVL_GetLast t = (case av_root t of None \<Rightarrow> Some None | Some n \<Rightarrow> map_option Some (BAVL_walk t True n))"

definition BAVL_GetNext :: "'n BAVL \<Rightarrow> 'n \<Rightarrow> 'n option option" where
  "BAVL_GetNext t n = (case link t n True of
     Some n1 \<Rightarrow> map_option Some (BAVL_walk t False n1)
   | None \<Rightarrow> BAVL_climb t True n)"

definition BAVL_GetPrev :: "'n BAVL \<Rightarrow> 'n \<Rightarrow> 'n option option" where
  "BAVL_GetPrev t n = (case link t n False of
     Some n1 \<Rightarrow> map_option Some (BAVL_walk t True n1)
   | None \<Rightarrow> BAVL_climb t False n)"

section \<open>Insertion and removal\<close>

definition BAVL_Insert :: "('k \<Rightarrow> 'k \<Rightarrow> int) \<Rightarrow> ('n \<Rightarrow> 'k) \<Rightarrow> 'n BAVL \<Rightarrow> 'n \<Rightarrow> ('n BAVL \<times> bool \<times> 'n option) option" where
  "BAVL_Insert comparator val_of t node = (case av_root t of
     None \<Rightarrow>
       (let t1 = t\<lparr>av_root := Some node\<rparr>;
            t2 = set_parent node None t1;
            t3 = set_link node True None (set_link node False None t2);
            t4 = set_balance node 0 t3
        in Some (t4, True, None))
   | Some r \<Rightarrow> do {
       (c, comp) \<leftarrow> BAVL_descend (\<lambda>c. comparator (val_of node) (val_of c)) t r;
       if comp = 0 then Some (t, False, Some c)
       else do {
         let side = (comp = 1);
         let t1 = set_link c side (Some node) t;
         let t2 = set_parent node (Some c) t1;
         let t3 = set_link node True None (set_link node False None t2);
         let t4 = set_balance node 0 t3;
         t5 \<leftarrow> BAVL_rebalance t4 c side 1;
         Some (t5, True, Some c)
       }
     })"

definition BAVL_replace_subtree :: "'n BAVL \<Rightarrow> 'n \<Rightarrow> 'n option \<Rightarrow> 'n BAVL" where
  "BAVL_replace_subtree t dest n =
     (let t1 = set_owner_link (parent t dest) dest n t
      in set_parent_opt n (parent t1 dest) t1)"

text \<open>The two cases of \<^verbatim>\<open>_BAVL_swap_nodes\<close>: \<open>n1\<close> directly above \<open>n2\<close>, and nodes that are not connected.\<close>

definition BAVL_swap_connected :: "'n BAVL \<Rightarrow> 'n \<Rightarrow> 'n \<Rightarrow> 'n BAVL" where
  "BAVL_swap_connected t n1 n2 =
     (let side = (link t n1 True = Some n2);
          c = link t n1 (\<not> side);
          t1 = adopt n1 False (link t n2 False) t;
          t2 = adopt n1 True (link t1 n2 True) t1;
          t3 = hang n2 (parent t2 n1) n1 t2;
          t4 = set_link n2 side (Some n1) t3;
          t5 = set_parent n1 (Some n2) t4
      in adopt n2 (\<not> side) c t5)"

definition BAVL_swap_apart :: "'n BAVL \<Rightarrow> 'n \<Rightarrow> 'n \<Rightarrow> 'n BAVL" where
  "BAVL_swap_apart t n1 n2 =
     (let temp = parent t n1;
          t1 = hang n1 (parent t n2) n2 t;
          t2 = hang n2 temp n1 t1;
          temp = link t2 n1 False;
          t3 = adopt n1 False (link t2 n2 False) t2;
          t4 = adopt n2 False temp t3;
          temp = link t4 n1 True;
          t5 = adopt n1 True (link t4 n2 True) t4
      in adopt n2 True temp t5)"

definition BAVL_swap_nodes :: "'n BAVL \<Rightarrow> 'n \<Rightarrow> 'n \<Rightarrow> 'n BAVL" where
  "BAVL_swap_nodes t n1 n2 =
     (let t1 = (if parent t n2 = Some n1 then BAVL_swap_connected t n1 n2
                else if parent t n1 = Some n2 then BAVL_swap_connected t n2 n1
                else BAVL_swap_apart t n1 n2);
          b = balance t1 n1;
          t2 = set_balance n1 (balance t1 n2) t1
      in set_balance n2 b t2)"

text \<open>The end of \<^verbatim>\<open>BAVL_Remove\<close>, when the node has at most one subtree.\<close>

definition BAVL_unlink :: "'n BAVL \<Rightarrow> 'n \<Rightarrow> 'n BAVL option" where
  "BAVL_unlink t node =
     (let child = (if link t node False \<noteq> None then link t node False else link t node True)
      in case parent t node of
           Some p \<Rightarrow>
             (let side = (link t p True = Some node)
              in BAVL_rebalance (BAVL_replace_subtree t node child) p side (-1))
         | None \<Rightarrow> Some (BAVL_replace_subtree t node child))"

definition BAVL_Remove :: "'n BAVL \<Rightarrow> 'n \<Rightarrow> 'n BAVL option" where
  "BAVL_Remove t node =
     (case (link t node False, link t node True) of
        (Some l, Some _) \<Rightarrow> do {
          mx \<leftarrow> BAVL_subtree_max t l;
          BAVL_unlink (BAVL_swap_nodes t node mx) node
        }
      | _ \<Rightarrow> BAVL_unlink t node)"

section \<open>Reading back what was written\<close>

lemma field_simps [simp]:
  "parent (set_parent n p t) = (parent t)(n := p)" "link (set_parent n p t) = link t" "balance (set_parent n p t) = balance t"
  "parent (set_link n sd q t) = parent t" "link (set_link n sd q t) = (link t)(n := (link t n)(sd := q))"
  "balance (set_link n sd q t) = balance t"
  "parent (set_balance n b t) = parent t" "link (set_balance n b t) = link t" "balance (set_balance n b t) = (balance t)(n := b)"
  "parent (t\<lparr>av_root := q\<rparr>) = parent t" "link (t\<lparr>av_root := q\<rparr>) = link t" "balance (t\<lparr>av_root := q\<rparr>) = balance t"
  "av_root (set_parent n p t) = av_root t" "av_root (set_link n sd q t) = av_root t" "av_root (set_balance n b t) = av_root t"
  by (auto simp: parent_def link_def balance_def set_parent_def set_link_def set_balance_def fun_eq_iff)

lemma set_parent_opt_simps [simp]:
  "parent (set_parent_opt q p t) = (case q of None \<Rightarrow> parent t | Some n \<Rightarrow> (parent t)(n := p))"
  "link (set_parent_opt q p t) = link t" "balance (set_parent_opt q p t) = balance t" "av_root (set_parent_opt q p t) = av_root t"
  by (simp_all add: set_parent_opt_def split: option.split)

lemma set_owner_link_simps [simp]:
  "parent (set_owner_link p n q t) = parent t" "balance (set_owner_link p n q t) = balance t"
  "link (set_owner_link p n q t) = (case p of None \<Rightarrow> link t | Some a \<Rightarrow> (link t)(a := (link t a)((link t a True = Some n) := q)))"
  "av_root (set_owner_link p n q t) = (case p of None \<Rightarrow> q | Some a \<Rightarrow> av_root t)"
  by (simp_all add: set_owner_link_def split: option.split)

lemma adopt_hang_simps [simp]:
  "parent (adopt n sd q t) = (case q of None \<Rightarrow> parent t | Some c \<Rightarrow> (parent t)(c := Some n))"
  "link (adopt n sd q t) = (link t)(n := (link t n)(sd := q))" "balance (adopt n sd q t) = balance t" "av_root (adopt n sd q t) = av_root t"
  "parent (hang n p m t) = (parent t)(n := p)" "balance (hang n p m t) = balance t"
  "link (hang n p m t) = (case p of None \<Rightarrow> link t | Some a \<Rightarrow> (link t)(a := (link t a)((link t a True = Some m) := Some n)))"
  "av_root (hang n p m t) = (case p of None \<Rightarrow> Some n | Some a \<Rightarrow> av_root t)"
  by (simp_all add: adopt_def hang_def split: option.split)

section \<open>Representation\<close>

text \<open>\<open>rep P L p q T\<close>: the tree \<open>T\<close> of nodes hangs at pointer \<open>q\<close> below \<open>p\<close>, with parent fields \<open>P\<close> and links \<open>L\<close>.\<close>

fun rep :: "('n \<Rightarrow> 'n option) \<Rightarrow> ('n \<Rightarrow> bool \<Rightarrow> 'n option) \<Rightarrow> 'n option \<Rightarrow> 'n option \<Rightarrow> 'n tree \<Rightarrow> bool" where
  "rep P L p q Leaf \<longleftrightarrow> q = None"
| "rep P L p q (Node l n r) \<longleftrightarrow> q = Some n \<and> P n = p \<and> rep P L (Some n) (L n False) l \<and> rep P L (Some n) (L n True) r"

text \<open>The balance factors are the differences of heights, and at most one.\<close>

fun bal :: "('n \<Rightarrow> int) \<Rightarrow> 'n tree \<Rightarrow> bool" where
  "bal B Leaf \<longleftrightarrow> True"
| "bal B (Node l n r) \<longleftrightarrow> B n = int (height r) - int (height l) \<and> -1 \<le> B n \<and> B n \<le> 1 \<and> bal B l \<and> bal B r"

text \<open>A node with \<open>t\<close> on side \<open>x\<close> and \<open>s\<close> on the other.\<close>

definition mk :: "bool \<Rightarrow> 'n tree \<Rightarrow> 'n \<Rightarrow> 'n tree \<Rightarrow> 'n tree" where
  "mk x t n s = (if x then Node s n t else Node t n s)"

text \<open>The surroundings of a subtree: the nodes above it, from the nearest to the root, with the side on
  which the subtree hangs and the subtree on the other side.\<close>

type_synonym 'n surround = "(bool \<times> 'n \<times> 'n tree) list"

fun plug :: "'n tree \<Rightarrow> 'n surround \<Rightarrow> 'n tree" where
  "plug t [] = t"
| "plug t ((x, n, s) # c) = plug (mk x t n s) c"

fun owner :: "'n surround \<Rightarrow> 'n option" where
  "owner [] = None"
| "owner ((x, n, s) # c) = Some n"

fun rep_ctx :: "('n \<Rightarrow> 'n option) \<Rightarrow> ('n \<Rightarrow> bool \<Rightarrow> 'n option) \<Rightarrow> 'n option \<Rightarrow> 'n surround \<Rightarrow> 'n option \<Rightarrow> bool" where
  "rep_ctx P L rt [] q \<longleftrightarrow> rt = q"
| "rep_ctx P L rt ((x, n, s) # c) q \<longleftrightarrow>
     L n x = q \<and> rep P L (Some n) (L n (\<not> x)) s \<and> P n = owner c \<and> rep_ctx P L rt c (Some n)"

fun ctx_set :: "'n surround \<Rightarrow> 'n set" where
  "ctx_set [] = {}"
| "ctx_set ((x, n, s) # c) = insert n (set_tree s \<union> ctx_set c)"

fun ctx_distinct :: "'n surround \<Rightarrow> bool" where
  "ctx_distinct [] \<longleftrightarrow> True"
| "ctx_distinct ((x, n, s) # c) \<longleftrightarrow> n \<notin> set_tree s \<and> n \<notin> ctx_set c \<and> distinct (inorder s) \<and>
     set_tree s \<inter> ctx_set c = {} \<and> ctx_distinct c"

fun bal_ctx :: "('n \<Rightarrow> int) \<Rightarrow> nat \<Rightarrow> 'n surround \<Rightarrow> bool" where
  "bal_ctx B k [] \<longleftrightarrow> True"
| "bal_ctx B k ((x, n, s) # c) \<longleftrightarrow>
     B n = (if x then int k - int (height s) else int (height s) - int k) \<and> -1 \<le> B n \<and> B n \<le> 1 \<and> bal B s \<and>
     bal_ctx B (max k (height s) + 1) c"

lemma mk_simps [simp]:
  "set_tree (mk x t n s) = insert n (set_tree t \<union> set_tree s)" "height (mk x t n s) = max (height t) (height s) + 1"
  "rep P L p q (mk x t n s) \<longleftrightarrow> q = Some n \<and> P n = p \<and> rep P L (Some n) (L n x) t \<and> rep P L (Some n) (L n (\<not> x)) s"
  "bal B (mk x t n s) \<longleftrightarrow> B n = (if x then int (height t) - int (height s) else int (height s) - int (height t)) \<and>
     -1 \<le> B n \<and> B n \<le> 1 \<and> bal B t \<and> bal B s"
  "size (mk x t n s) = size t + size s + 1" "mk x t n s \<noteq> Leaf"
  by (auto simp: mk_def max.commute)

lemma distinct_mk [simp]:
  "distinct (inorder (mk x t n s)) \<longleftrightarrow> n \<notin> set_tree t \<and> n \<notin> set_tree s \<and> distinct (inorder t) \<and> distinct (inorder s) \<and>
     set_tree t \<inter> set_tree s = {}"
  by (auto simp: mk_def)

lemma inorder_mk: "inorder (mk x t n s) = (if x then inorder s @ n # inorder t else inorder t @ n # inorder s)"
  by (simp add: mk_def)

lemma tree_mk_cases: obtains "t = Leaf" | a n b where "t = mk x a n b"
  by (cases t; cases x) (auto simp: mk_def)

lemma rep_plug: "rep P L None rt (plug t c) \<longleftrightarrow> (\<exists>q. rep_ctx P L rt c q \<and> rep P L (owner c) q t)"
  by (induction t c rule: plug.induct) auto

lemma set_plug: "set_tree (plug t c) = set_tree t \<union> ctx_set c"
  by (induction t c rule: plug.induct) auto

lemma distinct_plug: "distinct (inorder (plug t c)) \<longleftrightarrow> distinct (inorder t) \<and> ctx_distinct c \<and> set_tree t \<inter> ctx_set c = {}"
  by (induction t c rule: plug.induct) auto

lemma bal_plug: "bal B (plug t c) \<longleftrightarrow> bal B t \<and> bal_ctx B (height t) c"
  by (induction t c rule: plug.induct) auto

fun ctx_before :: "'n surround \<Rightarrow> 'n list" where
  "ctx_before [] = []"
| "ctx_before ((x, n, s) # c) = ctx_before c @ (if x then inorder s @ [n] else [])"

fun ctx_after :: "'n surround \<Rightarrow> 'n list" where
  "ctx_after [] = []"
| "ctx_after ((x, n, s) # c) = (if x then [] else n # inorder s) @ ctx_after c"

lemma inorder_plug: "inorder (plug t c) = ctx_before c @ inorder t @ ctx_after c"
  by (induction t c rule: plug.induct) (auto simp: inorder_mk)

section \<open>What updates leave unchanged\<close>

lemma rep_cong: "(\<And>x. x \<in> set_tree T \<Longrightarrow> P' x = P x \<and> L' x = L x) \<Longrightarrow> rep P' L' p q T = rep P L p q T"
  by (induction T arbitrary: p q) auto

lemma rep_root: "rep P L p q T \<Longrightarrow> q = Some n \<Longrightarrow> n \<in> set_tree T"
  by (cases T) auto

lemma rep_move:
  assumes "rep P L p q T" "distinct (inorder T)" "\<And>x. x \<in> set_tree T \<Longrightarrow> L' x = L x"
    "\<And>x. x \<in> set_tree T \<Longrightarrow> q \<noteq> Some x \<Longrightarrow> P' x = P x" "\<And>x. q = Some x \<Longrightarrow> P' x = p'"
  shows "rep P' L' p' q T"
proof (cases T)
  case Leaf
  then show ?thesis using assms(1) by simp
next
  case (Node l n r)
  have "rep P' L' (Some n) (L n False) l = rep P L (Some n) (L n False) l"
    using assms Node by (intro rep_cong) auto
  moreover have "rep P' L' (Some n) (L n True) r = rep P L (Some n) (L n True) r"
    using assms Node by (intro rep_cong) auto
  ultimately show ?thesis using assms Node by simp
qed

lemma rep_ctx_cong: "(\<And>x. x \<in> ctx_set c \<Longrightarrow> P' x = P x \<and> L' x = L x) \<Longrightarrow> rep_ctx P' L' rt c q = rep_ctx P L rt c q"
proof (induction c arbitrary: q)
  case (Cons f c)
  obtain x n s where f: "f = (x, n, s)" by (cases f)
  have "rep P' L' (Some n) (L n (\<not> x)) s = rep P L (Some n) (L n (\<not> x)) s" using Cons.prems f by (intro rep_cong) auto
  moreover have "rep_ctx P' L' rt c (Some n) = rep_ctx P L rt c (Some n)" using Cons.prems f by (intro Cons.IH) auto
  ultimately show ?case using Cons.prems f by simp
qed simp

text \<open>When the owner's link to a subtree with root \<open>r\<close> is redirected, nothing else of the surroundings changes.\<close>

lemma rep_ctx_redirect:
  assumes ctx: "rep_ctx P L rt c (Some r)" and dist: "ctx_distinct c" "r \<notin> ctx_set c"
    and P': "\<And>x. x \<in> ctx_set c \<Longrightarrow> P' x = P x"
    and L': "\<And>x. x \<in> ctx_set c \<Longrightarrow> L' x = (if owner c = Some x then (L x)((L x True = Some r) := q) else L x)"
    and rt': "rt' = (if c = [] then q else rt)"
  shows "rep_ctx P' L' rt' c q"
proof (cases c)
  case Nil
  then show ?thesis using rt' by simp
next
  case (Cons f c1)
  obtain x n s where f: "f = (x, n, s)" by (cases f)
  have l: "L n x = Some r" "rep P L (Some n) (L n (\<not> x)) s" "P n = owner c1" "rep_ctx P L rt c1 (Some n)"
    using ctx Cons f by simp_all
  have other: "L n (\<not> x) \<noteq> Some r" using rep_root [OF l(2)] dist(2) Cons f by auto
  have Ln: "L' n x = q" "L' n (\<not> x) = L n (\<not> x)" using L' [of n] l(1) other Cons f by (cases x; simp)+
  have "rep P' L' (Some n) (L n (\<not> x)) s = rep P L (Some n) (L n (\<not> x)) s"
    using P' L' dist Cons f by (intro rep_cong) auto
  moreover have "rep_ctx P' L' rt c1 (Some n) = rep_ctx P L rt c1 (Some n)"
    using P' L' dist Cons f by (intro rep_ctx_cong) auto
  ultimately show ?thesis using l Ln P' rt' Cons f by simp
qed

lemma owner_in: "owner c = Some a \<Longrightarrow> a \<in> ctx_set c"
  by (cases c) auto

lemma bal_cong: "(\<And>x. x \<in> set_tree T \<Longrightarrow> B' x = B x) \<Longrightarrow> bal B' T = bal B T"
  by (induction T) auto

lemma bal_ctx_cong: "(\<And>x. x \<in> ctx_set c \<Longrightarrow> B' x = B x) \<Longrightarrow> bal_ctx B' k c = bal_ctx B k c"
proof (induction c arbitrary: k)
  case (Cons f c)
  obtain x n s where f: "f = (x, n, s)" by (cases f)
  have "bal B' s = bal B s" using Cons.prems f by (intro bal_cong) auto
  moreover have "bal_ctx B' k' c = bal_ctx B k' c" for k' using Cons.prems f by (intro Cons.IH) auto
  ultimately show ?case using Cons.prems f by simp
qed simp

section \<open>Rotation\<close>

text \<open>The tree with its surroundings, and the shape of the state.\<close>

definition shape :: "'n BAVL \<Rightarrow> 'n surround \<Rightarrow> 'n tree \<Rightarrow> bool" where
  "shape t c T \<longleftrightarrow> (\<exists>q. rep_ctx (parent t) (link t) (av_root t) c q \<and> rep (parent t) (link t) (owner c) q T) \<and>
     distinct (inorder (plug T c))"

lemma shape_plug: "shape t [] (plug T c) \<longleftrightarrow> shape t c T"
  by (simp add: shape_def rep_plug)

lemma shape_balance [simp]: "shape (set_balance n b t) c T = shape t c T"
  by (simp add: shape_def)

lemma rotate_shape:
  assumes "shape t c (mk x (mk x d nr b) r a)"
  shows "\<exists>t'. BAVL_rotate t r (\<not> x) = Some t' \<and> shape t' c (mk x d nr (mk x b r a)) \<and> balance t' = balance t"
proof -
  have ctx: "rep_ctx (parent t) (link t) (av_root t) c (Some r)"
    and l: "parent t r = owner c" "link t r x = Some nr" "parent t nr = Some r"
    "rep (parent t) (link t) (Some nr) (link t nr x) d" "rep (parent t) (link t) (Some nr) (link t nr (\<not> x)) b"
    "rep (parent t) (link t) (Some r) (link t r (\<not> x)) a"
    using assms by (auto simp: shape_def)
  have D: "distinct (inorder (plug (mk x (mk x d nr b) r a) c))" using assms by (simp add: shape_def)
  note dist = D [unfolded distinct_plug, simplified]
  let ?b = "link t nr (\<not> x)"
  define P where "P = ((case ?b of None \<Rightarrow> parent t | Some y \<Rightarrow> (parent t)(y := Some r))(nr := owner c, r := Some nr))"
  define L0 where "L0 = ((link t)(r := (link t r)(x := ?b), nr := (link t nr)(\<not> x := Some r)))"
  define L where "L = (case owner c of None \<Rightarrow> L0 | Some y \<Rightarrow> L0(y := (L0 y)((L0 y True = Some r) := Some nr)))"
  define rt where "rt = (case owner c of None \<Rightarrow> Some nr | Some y \<Rightarrow> av_root t)"
  have nrr: "nr \<noteq> r" using dist by auto
  have b_in: "y \<in> set_tree b" if "?b = Some y" for y using rep_root [OF l(5) that] .
  have bnr: "?b \<noteq> Some nr" "?b \<noteq> Some r" using b_in dist by auto
  have par: "(case ?b of None \<Rightarrow> parent t | Some y \<Rightarrow> (parent t)(y := Some r)) r = owner c"
    using bnr l(1) by (auto split: option.split)
  obtain t' where t': "BAVL_rotate t r (\<not> x) = Some t'" "parent t' = P" "link t' = L" "av_root t' = rt" "balance t' = balance t"
    using nrr l(2) par by (simp add: BAVL_rotate_def P_def L_def L0_def rt_def fun_upd_twist cong: option.case_cong)
  have own: "owner c \<noteq> Some r" "owner c \<noteq> Some nr" "\<And>y. y \<in> set_tree a \<union> set_tree b \<union> set_tree d \<Longrightarrow> owner c \<noteq> Some y"
    using owner_in [of c] dist by auto
  have Lr: "L r x = ?b" "L r (\<not> x) = link t r (\<not> x)" "L nr x = link t nr x" "L nr (\<not> x) = Some r"
    using nrr own by (auto simp: L_def L0_def split: option.split)
  have Lo: "L y = link t y" if "y \<noteq> r" "y \<noteq> nr" "owner c \<noteq> Some y" for y
    using that by (auto simp: L_def L0_def split: option.split)
  have Pr: "P r = Some nr" "P nr = owner c" using nrr by (simp_all add: P_def)
  have Po: "P y = parent t y" if "y \<noteq> r" "y \<noteq> nr" "?b \<noteq> Some y" for y
    using that by (auto simp: P_def split: option.split)
  have Pb: "P y = Some r" if "?b = Some y" for y
    using that bnr by (auto simp: P_def)
  have a: "rep P L (Some r) (link t r (\<not> x)) a"
    using l(6) dist own(3) b_in by (subst rep_cong [where P = "parent t" and L = "link t"]) (auto intro!: Lo Po)
  have d: "rep P L (Some nr) (link t nr x) d"
    using l(4) dist own(3) b_in by (subst rep_cong [where P = "parent t" and L = "link t"]) (auto intro!: Lo Po)
  have b: "rep P L (Some r) ?b b"
    by (rule rep_move [OF l(5)]) (use dist own(3) Pb in \<open>auto intro!: Lo Po\<close>)
  have ctx': "rep_ctx P L rt c (Some nr)"
  proof (rule rep_ctx_redirect [OF ctx])
    show "L y = (if owner c = Some y then (link t y)((link t y True = Some r) := Some nr) else link t y)" if "y \<in> ctx_set c" for y
      using that dist by (auto simp: L_def L0_def split: option.split)
    show "P y = parent t y" if "y \<in> ctx_set c" for y using that dist b_in by (intro Po) auto
    show "rt = (if c = [] then Some nr else av_root t)" by (cases c rule: owner.cases) (simp_all add: rt_def)
  qed (use dist in auto)
  have "distinct (inorder (plug (mk x d nr (mk x b r a)) c))" using dist by (auto simp: distinct_plug)
  then have "shape t' c (mk x d nr (mk x b r a))"
    unfolding shape_def t'(2-4) using ctx' a b d Lr Pr by auto
  then show ?thesis using t' by blast
qed

lemma mk_flip: "mk (\<not> x) t n s = mk x s n t"
  by (simp add: mk_def)

lemma shape_frame: "shape t ((x, n, s) # c) T \<longleftrightarrow> shape t c (mk x T n s)"
  using shape_plug [of t T "(x, n, s) # c"] shape_plug [of t "mk x T n s" c] by simp

section \<open>Rebalancing\<close>

abbreviation sign :: "bool \<Rightarrow> int" where "sign x \<equiv> if x then 1 else -1"

lemma bal_mk_sign:
  "bal B (mk x t n s) \<longleftrightarrow> B n = sign x * (int (height t) - int (height s)) \<and> -1 \<le> B n \<and> B n \<le> 1 \<and> bal B t \<and> bal B s"
  by auto

text \<open>The result of the switch on a subtree whose heavier side \<open>x\<close> is two levels higher.\<close>

lemma fix_heavy:
  assumes sh: "shape t c (mk x K n a)" and h: "height K = height a + 2" and B: "balance t n = sign x * 2"
    and bal: "bal (balance t) K" "bal (balance t) a"
  shows "\<exists>t' T' n' \<delta>. BAVL_fix t n delta = Some (t', n', delta + \<delta>) \<and> shape t' c T' \<and> bal (balance t') T' \<and>
    inorder T' = inorder (mk x K n a) \<and> int (height T') = int (height (mk x K n a)) + \<delta> \<and>
    \<delta> \<in> {-1, 0} \<and> (\<exists>u v. T' = mk x u n' v) \<and> (\<forall>y. y \<notin> set_tree (mk x K n a) \<longrightarrow> balance t' y = balance t y)"
proof -
  obtain d ch b where K: "K = mk x d ch b" using h by (cases K rule: tree_mk_cases [where x = x]) auto
  have lk: "link t n x = Some ch" "link t ch (\<not> x) = (case b of Leaf \<Rightarrow> None | Node _ y _ \<Rightarrow> Some y)"
    using sh unfolding K by (auto simp: shape_def split: tree.split)
  have dist: "n \<noteq> ch" "n \<notin> set_tree d" "n \<notin> set_tree b" "n \<notin> set_tree a" "ch \<notin> set_tree d" "ch \<notin> set_tree b" "ch \<notin> set_tree a"
    "set_tree d \<inter> set_tree b = {}" "set_tree d \<inter> set_tree a = {}" "set_tree b \<inter> set_tree a = {}"
    using sh unfolding K by (auto simp: shape_def distinct_plug)
  have bd: "bal (balance t) d" "bal (balance t) b" "balance t ch = sign x * (int (height d) - int (height b))"
    "-1 \<le> balance t ch" "balance t ch \<le> 1"
    using bal(1) unfolding K by auto
  have hK: "max (height d) (height b) = height a + 1" using h unfolding K by simp
  have side: "balance t n = 2 \<longleftrightarrow> x" "balance t n = 2 \<or> balance t n = -2" using B by auto
  define e where "e = balance t ch * sign x"
  have e: "e = int (height d) - int (height b)" "e = 1 \<or> e = 0 \<or> e = -1" using bd(3-5) by (auto simp: e_def split: if_splits)
  have keep: "bal B' d = bal (balance t) d" "bal B' a = bal (balance t) a" "bal B' b = bal (balance t) b"
    if "\<And>y. y \<notin> {n, ch} \<Longrightarrow> B' y = balance t y" for B'
    using dist by (auto intro!: bal_cong that)
  from rotate_shape [OF sh [unfolded K]] obtain t1 where
    t1: "BAVL_rotate t n (\<not> x) = Some t1" "shape t1 c (mk x d ch (mk x b n a))" "balance t1 = balance t" by blast
  from e(2) show ?thesis
  proof (elim disjE)
    assume 1: "e = 1"
    let ?t = "set_balance ch 0 (set_balance n 0 t1)" let ?T = "mk x d ch (mk x b n a)"
    have eq: "BAVL_fix t n delta = Some (?t, ch, delta + (-1))"
      using side lk(1) t1(1) 1 by (simp add: BAVL_fix_def e_def [symmetric] Let_def)
    have hs: "height b = height a" "height d = height a + 1" using e(1) 1 hK by auto
    have "bal (balance ?t) ?T" using keep [of "balance ?t"] bd(1,2) bal(2) t1(3) hs dist(1) by auto
    with eq t1(2) hs dist(1) show ?thesis
      by (intro exI [of _ ?t] exI [of _ ?T] exI [of _ ch] exI [of _ "-1"]) (auto simp: K inorder_mk t1(3))
  next
    assume 0: "e = 0"
    let ?t = "set_balance ch (-1 * sign x) (set_balance n (1 * sign x) t1)" let ?T = "mk x d ch (mk x b n a)"
    have eq: "BAVL_fix t n delta = Some (?t, ch, delta + 0)"
      using side lk(1) t1(1) 0 by (simp add: BAVL_fix_def e_def [symmetric] Let_def)
    have hs: "height b = height a + 1" "height d = height a + 1" using e(1) 0 hK by auto
    have "bal (balance ?t) ?T" using keep [of "balance ?t"] bd(1,2) bal(2) t1(3) hs dist(1) by auto
    with eq t1(2) hs dist(1) show ?thesis
      by (intro exI [of _ ?t] exI [of _ ?T] exI [of _ ch] exI [of _ 0]) (auto simp: K inorder_mk t1(3))
  next
    assume m: "e = -1"
    then have hs: "height b = height a + 1" "height d = height a" using e(1) hK by auto
    obtain p g q where b: "b = mk x p g q" using hs(1) by (cases b rule: tree_mk_cases [where x = x]) auto
    have lg: "link t ch (\<not> x) = Some g" using sh unfolding K b by (auto simp: shape_def)
    have "shape t ((x, n, a) # c) (mk (\<not> x) (mk (\<not> x) q g p) ch d)"
      using sh by (simp only: shape_frame mk_flip K b)
    from rotate_shape [OF this] obtain t2 where
      t2: "BAVL_rotate t ch x = Some t2" "shape t2 ((x, n, a) # c) (mk (\<not> x) q g (mk (\<not> x) p ch d))" "balance t2 = balance t"
      by auto
    have "shape t2 c (mk x (mk x (mk x d ch p) g q) n a)" using t2(2) by (simp only: shape_frame mk_flip)
    from rotate_shape [OF this] obtain t3 where
      t3: "BAVL_rotate t2 n (\<not> x) = Some t3" "shape t3 c (mk x (mk x d ch p) g (mk x q n a))" "balance t3 = balance t2" by blast
    have bg: "balance t g = sign x * (int (height p) - int (height q))" "-1 \<le> balance t g" "balance t g \<le> 1" "bal (balance t) p" "bal (balance t) q"
      using bd(2) unfolding b by auto
    have hb: "max (height p) (height q) = height a" using hs(1) unfolding b by simp
    have dg: "g \<noteq> n" "g \<noteq> ch" "g \<notin> set_tree d" "g \<notin> set_tree a" "g \<notin> set_tree p" "g \<notin> set_tree q"
      "n \<notin> set_tree p" "n \<notin> set_tree q" "ch \<notin> set_tree p" "ch \<notin> set_tree q"
      using sh dist unfolding K b by (auto simp: shape_def distinct_plug)
    let ?T = "mk x (mk x d ch p) g (mk x q n a)"
    let ?f = "balance t g * sign x"
    let ?t = "set_balance g 0 (set_balance ch (max 0 (- balance t g * sign x) * sign x) (set_balance n (- max 0 ?f * sign x) t3))"
    have eq: "BAVL_fix t n delta = Some (?t, g, delta + (-1))"
      using side lk(1) lg t2(1,3) t3(1,3) m dg(1,2) by (simp add: BAVL_fix_def e_def [symmetric] Let_def)
    have "bal (balance ?t) d = bal (balance t) d" "bal (balance ?t) a = bal (balance t) a"
      "bal (balance ?t) p = bal (balance t) p" "bal (balance ?t) q = bal (balance t) q"
      using dist dg t2(3) t3(3) by (auto intro!: bal_cong)
    then have "bal (balance ?t) ?T" using bd bal(2) bg hb hs(2) dg(1,2) dist(1) by auto
    with eq t3(2) hs hb dist(1) dg(1,2) show ?thesis
      by (intro exI [of _ ?t] exI [of _ ?T] exI [of _ g] exI [of _ "-1"]) (auto simp: K b inorder_mk t2(3) t3(3))
  qed
qed

lemma fix_any:
  assumes sh: "shape t c (mk x K n a)" and B: "balance t n = sign x * (int (height K) - int (height a))" "\<bar>balance t n\<bar> \<le> 2"
    and bal: "bal (balance t) K" "bal (balance t) a"
  shows "\<exists>t' T' n' \<delta>. BAVL_fix t n delta = Some (t', n', delta + \<delta>) \<and> shape t' c T' \<and> bal (balance t') T' \<and>
    inorder T' = inorder (mk x K n a) \<and> int (height T') = int (height (mk x K n a)) + \<delta> \<and>
    (if \<bar>balance t n\<bar> = 2 then \<delta> \<in> {-1, 0} else \<delta> = 0) \<and>
    (\<exists>y u v. T' = mk y u n' v) \<and> (\<forall>y. y \<notin> set_tree (mk x K n a) \<longrightarrow> balance t' y = balance t y)"
proof -
  consider (even) "\<bar>balance t n\<bar> \<le> 1" | (x) "height K = height a + 2" | (other) "height a = height K + 2"
    using B by (fastforce split: if_splits)
  then show ?thesis
  proof cases
    case even
    then have "BAVL_fix t n delta = Some (t, n, delta + 0)" by (auto simp: BAVL_fix_def)
    then show ?thesis using sh bal B even
      by (intro exI [of _ t] exI [of _ "mk x K n a"] exI [of _ n] exI [of _ 0]) auto
  next
    case x
    have "balance t n = sign x * 2" "\<bar>balance t n\<bar> = 2" using B x by auto
    then show ?thesis unfolding if_P [OF \<open>\<bar>balance t n\<bar> = 2\<close>] using fix_heavy [OF sh x _ bal, of delta] by blast
  next
    case other
    have "int (height K) - int (height a) = -2" using other by simp
    then have b: "balance t n = sign (\<not> x) * 2" "\<bar>balance t n\<bar> = 2" unfolding B(1) by (cases x; simp)+
    have "shape t c (mk (\<not> x) a n K)" using sh by (simp only: mk_flip)
    from fix_heavy [OF this other b(1) bal(2,1), of delta] show ?thesis
      unfolding if_P [OF b(2)] mk_flip [of x a] by blast
  qed
qed

text \<open>One round of rebalancing, and then the whole: from a node one of whose subtrees has grown or shrunk by a
  level it ends, and the tree is balanced again.\<close>

lemma rebalance_round:
  assumes sh: "shape t ((x, n, a) # c) K" and bK: "bal (balance t) K" and ctx: "bal_ctx (balance t) k ((x, n, a) # c)"
    and h: "int (height K) = int k + deltac" and d: "deltac \<in> {-1, 1}"
  shows "\<exists>t' T' n' delta'. BAVL_rebalance t n x deltac = (case parent t' n' of None \<Rightarrow> Some t'
      | Some p \<Rightarrow> BAVL_rebalance t' p (link t' p True = Some n') delta') \<and> shape t' c T' \<and> bal (balance t') T' \<and>
    bal_ctx (balance t') (max k (height a) + 1) c \<and> int (height T') = int (max k (height a) + 1) + delta' \<and>
    delta' \<in> {-1, 0, 1} \<and> inorder T' = inorder (mk x K n a) \<and> (\<exists>y u v. T' = mk y u n' v)"
proof -
  let ?b = "BAVL_OPTNEG (balance t n) x"
  let ?delta = "max deltac ?b - max 0 ?b"
  let ?t = "set_balance n (balance t n - BAVL_OPTNEG deltac x) t"
  have dist: "n \<notin> set_tree K" "n \<notin> set_tree a" "n \<notin> ctx_set c" "ctx_set c \<inter> set_tree K = {}" "ctx_set c \<inter> set_tree a = {}"
    using sh by (auto simp: shape_def distinct_plug)
  have ctx': "balance t n = sign x * (int k - int (height a))" "-1 \<le> balance t n" "balance t n \<le> 1" "bal (balance t) a"
    "bal_ctx (balance t) (max k (height a) + 1) c" using ctx by auto
  have b: "?b = int (height a) - int k" using ctx'(1) by (simp add: BAVL_OPTNEG_def)
  have B: "balance ?t n = sign x * (int (height K) - int (height a))"
    using ctx'(1) h by (simp add: BAVL_OPTNEG_def)
  have B2: "\<bar>balance ?t n\<bar> \<le> 2" using B ctx'(1-3) h d by (auto split: if_splits)
  have "bal (balance ?t) K = bal (balance t) K" "bal (balance ?t) a = bal (balance t) a"
    using dist by (auto intro!: bal_cong)
  then have bals: "bal (balance ?t) K" "bal (balance ?t) a" using bK ctx'(4) by auto
  have "shape ?t c (mk x K n a)" using sh by (simp add: shape_frame)
  from fix_any [OF this B B2 bals, of ?delta] obtain t' T' n' \<delta> where
    f: "BAVL_fix ?t n ?delta = Some (t', n', ?delta + \<delta>)" "shape t' c T'" "bal (balance t') T'" "inorder T' = inorder (mk x K n a)"
      "int (height T') = int (height (mk x K n a)) + \<delta>" "if \<bar>balance ?t n\<bar> = 2 then \<delta> \<in> {-1, 0} else \<delta> = 0"
      "\<exists>y u v. T' = mk y u n' v" "\<forall>y. y \<notin> set_tree (mk x K n a) \<longrightarrow> balance t' y = balance ?t y" by blast
  have eq: "BAVL_rebalance t n x deltac = (case parent t' n' of None \<Rightarrow> Some t'
      | Some p \<Rightarrow> BAVL_rebalance t' p (link t' p True = Some n') (?delta + \<delta>))"
  proof -
    have "deltac \<noteq> 0" using d by auto
    then show ?thesis by (subst BAVL_rebalance.simps) (simp only: Let_def f(1) bind.simps prod.case if_False)
  qed
  have "bal_ctx (balance t') (max k (height a) + 1) c = bal_ctx (balance t) (max k (height a) + 1) c"
    by (rule bal_ctx_cong) (use f(8) dist in auto)
  moreover have hd: "int (height (mk x K n a)) = int (max k (height a) + 1) + ?delta"
    unfolding b using h d by auto
  moreover have "?delta + \<delta> \<in> {-1, 0, 1}"
  proof -
    have "?delta \<in> {-1, 0, 1}" "\<bar>balance ?t n\<bar> = 2 \<longrightarrow> ?delta \<in> {0, 1}"
      unfolding b B using ctx'(1-3) h d by (auto split: if_splits)
    then show ?thesis using f(6) by (auto split: if_splits)
  qed
  moreover have "int (height T') = int (max k (height a) + 1) + (?delta + \<delta>)" using f(5) hd by simp
  ultimately show ?thesis using eq f(2-4,7) ctx'(5) by blast
qed

lemma shape_top:
  assumes "shape t c (mk y u n v)"
  shows "parent t n = owner c" "owner c = Some p \<Longrightarrow> c = (x, p, s) # c' \<Longrightarrow> (link t p True = Some n) = x"
proof -
  show "parent t n = owner c" using assms by (auto simp: shape_def)
  assume c: "owner c = Some p" "c = (x, p, s) # c'"
  have "link t p x = Some n" "rep (parent t) (link t) (Some p) (link t p (\<not> x)) s" "n \<notin> set_tree s"
    using assms c by (auto simp: shape_def distinct_plug)
  moreover from this have "link t p (\<not> x) \<noteq> Some n" using rep_root by fastforce
  ultimately show "(link t p True = Some n) = x" by (cases x) auto
qed

lemma rebalance_ok:
  assumes "shape t ((x, n, a) # c) K" "bal (balance t) K" "bal_ctx (balance t) k ((x, n, a) # c)"
    "int (height K) = int k + deltac" "deltac \<in> {-1, 0, 1}"
  shows "\<exists>t' T'. BAVL_rebalance t n x deltac = Some t' \<and> shape t' [] T' \<and> bal (balance t') T' \<and>
    inorder T' = inorder (plug K ((x, n, a) # c))"
  using assms
proof (induction c arbitrary: t x n a K k deltac)
  case prems: Nil
  show ?case
  proof (cases "deltac = 0")
    case True
    then show ?thesis using prems
      by (intro exI [of _ t] exI [of _ "mk x K n a"]) (auto simp: BAVL_rebalance.simps shape_frame)
  next
    case False
    with prems(5) have "deltac \<in> {-1, 1}" by auto
    from rebalance_round [OF prems(1-4) this] obtain t' T' n' delta' where
      r: "BAVL_rebalance t n x deltac = (case parent t' n' of None \<Rightarrow> Some t'
        | Some p \<Rightarrow> BAVL_rebalance t' p (link t' p True = Some n') delta')" "shape t' [] T'" "bal (balance t') T'"
        "inorder T' = inorder (mk x K n a)" "\<exists>y u v. T' = mk y u n' v" by blast
    then have "parent t' n' = None" using shape_top(1) [of t' "[]"] by auto
    with r show ?thesis by auto
  qed
next
  case prems: (Cons f c)
  obtain y p s where f: "f = (y, p, s)" by (cases f)
  show ?case
  proof (cases "deltac = 0")
    case True
    have "bal (balance t) (plug K ((x, n, a) # f # c))" unfolding bal_plug using prems(3,4,5) True by auto
    then show ?thesis using prems(2) True shape_plug [of t K "(x, n, a) # f # c"]
      by (intro exI [of _ t] exI [of _ "plug K ((x, n, a) # f # c)"]) (auto simp: BAVL_rebalance.simps)
  next
    case False
    with prems(6) have "deltac \<in> {-1, 1}" by auto
    from rebalance_round [OF prems(2-5) this] obtain t' T' n' delta' where
      r: "BAVL_rebalance t n x deltac = (case parent t' n' of None \<Rightarrow> Some t'
        | Some p \<Rightarrow> BAVL_rebalance t' p (link t' p True = Some n') delta')" "shape t' (f # c) T'" "bal (balance t') T'"
        "bal_ctx (balance t') (max k (height a) + 1) (f # c)" "int (height T') = int (max k (height a) + 1) + delta'"
        "delta' \<in> {-1, 0, 1}" "inorder T' = inorder (mk x K n a)" "\<exists>y u v. T' = mk y u n' v" by blast
    have top: "parent t' n' = Some p" "(link t' p True = Some n') = y"
      using r(2,8) shape_top [of t' "f # c"] f by auto
    have "inorder (plug T' (f # c)) = inorder (plug K ((x, n, a) # f # c))"
      using r(7) by (simp add: inorder_plug f inorder_mk)
    moreover have "BAVL_rebalance t n x deltac = BAVL_rebalance t' p y delta'"
      using r(1) top by simp
    ultimately show ?thesis using prems(1) [OF r(2) [unfolded f] r(3) r(4) [unfolded f] r(5,6)] f by simp
  qed
qed

end
