(* ===== verification/BAVL_Tree.thy ===== *)
theory BAVL_Tree
  imports BAVL BAddr
begin

text \<open>
  The search tree the operations of \<^verbatim>\<open>structure/BAVL.h\<close> implement: the descent by a comparator, insertion,
  removal and the walk in order, on any balanced tree whose nodes are in strict order of the comparator.
\<close>

section \<open>Ordered trees\<close>

text \<open>The contract of a comparator on the values that satisfy \<open>W\<close>.\<close>

locale search_order =
  fixes W :: "'k \<Rightarrow> bool" and cmp :: "'k \<Rightarrow> 'k \<Rightarrow> int"
  assumes cmp_range: "W a \<Longrightarrow> W b \<Longrightarrow> cmp a b \<in> {-1, 0, 1}"
    and cmp_swap: "W a \<Longrightarrow> W b \<Longrightarrow> cmp b a = - cmp a b"
    and cmp_trans: "W a \<Longrightarrow> W b \<Longrightarrow> W c \<Longrightarrow> cmp a b \<le> 0 \<Longrightarrow> cmp b c \<le> 0 \<Longrightarrow> cmp a c \<le> 0"
begin

lemma cmp_cong: "W a \<Longrightarrow> W b \<Longrightarrow> W c \<Longrightarrow> cmp a b = 0 \<Longrightarrow> cmp a c = cmp b c"
  using cmp_trans [of a b c] cmp_trans [of b a c] cmp_trans [of c b a] cmp_trans [of c a b]
    cmp_swap [of a b] cmp_swap [of a c] cmp_swap [of b c] cmp_range [of a c] cmp_range [of b c] by auto

lemma cmp_less: "W a \<Longrightarrow> W b \<Longrightarrow> W c \<Longrightarrow> cmp a b = -1 \<Longrightarrow> cmp b c \<le> 0 \<Longrightarrow> cmp a c = -1"
  using cmp_trans [of a b c] cmp_trans [of b c a] cmp_swap [of a b] cmp_swap [of a c] cmp_range [of a c] by auto

lemma cmp_less': "W a \<Longrightarrow> W b \<Longrightarrow> W c \<Longrightarrow> cmp a b \<le> 0 \<Longrightarrow> cmp b c = -1 \<Longrightarrow> cmp a c = -1"
  using cmp_trans [of a b c] cmp_trans [of c a b] cmp_swap [of b c] cmp_swap [of a c] cmp_range [of a c] by auto

end

definition in_order :: "('k \<Rightarrow> 'k \<Rightarrow> int) \<Rightarrow> ('n \<Rightarrow> 'k) \<Rightarrow> 'n list \<Rightarrow> bool" where
  "in_order cmp val_of = sorted_wrt (\<lambda>m n. cmp (val_of m) (val_of n) = -1)"

definition avl :: "'n BAVL \<Rightarrow> 'n tree \<Rightarrow> bool" where
  "avl t T \<longleftrightarrow> shape t [] T \<and> bal (balance t) T"

text \<open>A comparison with the nodes of an ordered list is 1, then at most once 0, then -1.\<close>

definition parted :: "('n \<Rightarrow> int) \<Rightarrow> 'n list \<Rightarrow> bool" where
  "parted f xs \<longleftrightarrow> (\<forall>x \<in> set xs. f x \<in> {-1, 0, 1}) \<and> sorted_wrt (\<lambda>m n. (f n \<ge> 0 \<longrightarrow> f m = 1) \<and> (f m \<le> 0 \<longrightarrow> f n = -1)) xs"

context search_order
begin

lemma parted_cmp:
  assumes "in_order cmp val_of xs" "\<forall>n \<in> set xs. W (val_of n)" "W v"
  shows "parted (\<lambda>n. cmp v (val_of n)) xs"
proof -
  have "(cmp v (val_of n) \<ge> 0 \<longrightarrow> cmp v (val_of m) = 1) \<and> (cmp v (val_of m) \<le> 0 \<longrightarrow> cmp v (val_of n) = -1)"
    if "m \<in> set xs" "n \<in> set xs" "cmp (val_of m) (val_of n) = -1" for m n
    using that assms(2,3) cmp_less [of "val_of m" "val_of n" v] cmp_less' [of v "val_of m" "val_of n"]
      cmp_swap [of v "val_of m"] cmp_swap [of v "val_of n"] cmp_range [of v "val_of m"] by auto
  then show ?thesis using assms cmp_range unfolding parted_def in_order_def
    by (auto elim!: sorted_wrt_mono_rel [rotated])
qed

end

section \<open>Descending, walking and climbing\<close>

primrec first_of :: "'a list \<Rightarrow> 'a option" where
  "first_of [] = None"
| "first_of (x # xs) = Some x"

lemma first_of_hd: "first_of xs = (if xs = [] then None else Some (hd xs))"
  by (cases xs) auto

lemma first_of_append [simp]: "first_of (xs @ ys) = (if xs = [] then first_of ys else first_of xs)"
  by (cases xs) auto

lemma shape_node: "shape t c (Node l n r) \<longleftrightarrow> shape t ((False, n, r) # c) l" "shape t c (Node l n r) \<longleftrightarrow> shape t ((True, n, l) # c) r"
  by (simp_all add: shape_frame mk_def)

lemma shape_link:
  "shape t c (Node l n r) \<Longrightarrow> link t n False = (case l of Leaf \<Rightarrow> None | Node _ m _ \<Rightarrow> Some m)"
  "shape t c (Node l n r) \<Longrightarrow> link t n True = (case r of Leaf \<Rightarrow> None | Node _ m _ \<Rightarrow> Some m)"
  by (auto simp: shape_def split: tree.split)

text \<open>The free link of node \<open>m\<close>, on the side its comparison tells, is the place of the value in the order of tree \<open>T\<close>.\<close>

definition free_place :: "('n \<Rightarrow> int) \<Rightarrow> 'n \<Rightarrow> 'n tree \<Rightarrow> 'n surround \<Rightarrow> 'n tree \<Rightarrow> bool" where
  "free_place f m s c T \<longleftrightarrow> f m \<noteq> 0 \<and> plug Leaf ((f m = 1, m, s) # c) = T \<and>
     (\<forall>y \<in> set (ctx_before ((f m = 1, m, s) # c)). f y = 1) \<and> (\<forall>y \<in> set (ctx_after ((f m = 1, m, s) # c)). f y = -1)"

lemma descend_ok:
  assumes "shape t c (Node l n r)" "parted f (inorder (Node l n r))"
    "\<forall>m \<in> set (ctx_before c). f m = 1" "\<forall>m \<in> set (ctx_after c). f m = -1"
  shows "\<exists>m. BAVL_descend f t n = Some (m, f m) \<and>
    (f m = 0 \<and> m \<in> set_tree (plug (Node l n r) c) \<or> (\<exists>s c'. free_place f m s c' (plug (Node l n r) c)))"
  using assms
proof (induction "Node l n r" arbitrary: l n r c)
  case (Node l n r)
  have pl: "parted f (inorder l)" "parted f (inorder r)" using Node.prems(2) by (auto simp: parted_def sorted_wrt_append)
  consider "f n = 0" | (gr) "f n = 1" "\<forall>m \<in> set_tree l. f m = 1" | (ls) "f n = -1" "\<forall>m \<in> set_tree r. f m = -1"
    using Node.prems(2) by (auto simp: parted_def sorted_wrt_append)
  then show ?case
  proof cases
    case gr
    let ?c = "(True, n, l) # c"
    have b: "\<forall>m \<in> set (ctx_before ?c). f m = 1" "\<forall>m \<in> set (ctx_after ?c). f m = -1" using Node.prems(3,4) gr by auto
    have pg: "plug r ?c = plug (Node l n r) c" by (simp add: mk_def)
    show ?thesis
    proof (cases r)
      case Leaf
      then have "BAVL_descend f t n = Some (n, f n)"
        using gr shape_link(2) [OF Node.prems(1)] by (simp add: BAVL_descend.simps)
      moreover have "plug Leaf ((f n = 1, n, l) # c) = plug (Node l n r) c" using pg Leaf gr by simp
      ultimately have "free_place f n l c (plug (Node l n r) c)" using gr b by (simp add: free_place_def)
      with \<open>BAVL_descend f t n = Some (n, f n)\<close> show ?thesis by blast
    next
      case r: (Node rl rn rr)
      have "BAVL_descend f t n = BAVL_descend f t rn"
        using gr shape_link(2) [OF Node.prems(1)] by (subst BAVL_descend.simps) (simp add: r)
      moreover have sh: "shape t ?c (Node rl rn rr)" using Node.prems(1) by (simp add: shape_node(2) r)
      ultimately show ?thesis using Node.hyps(2) [OF r sh pl(2) [unfolded r] b] unfolding r [symmetric] pg by metis
    qed
  next
    case ls
    let ?c = "(False, n, r) # c"
    have b: "\<forall>m \<in> set (ctx_before ?c). f m = 1" "\<forall>m \<in> set (ctx_after ?c). f m = -1" using Node.prems(3,4) ls by auto
    have pg: "plug l ?c = plug (Node l n r) c" by (simp add: mk_def)
    show ?thesis
    proof (cases l)
      case Leaf
      then have "BAVL_descend f t n = Some (n, f n)"
        using ls shape_link(1) [OF Node.prems(1)] by (simp add: BAVL_descend.simps)
      moreover have "plug Leaf ((f n = 1, n, r) # c) = plug (Node l n r) c" using pg Leaf ls by simp
      ultimately have "free_place f n r c (plug (Node l n r) c)" using ls b by (simp add: free_place_def)
      with \<open>BAVL_descend f t n = Some (n, f n)\<close> show ?thesis by blast
    next
      case l: (Node rl rn rr)
      have "BAVL_descend f t n = BAVL_descend f t rn"
        using ls shape_link(1) [OF Node.prems(1)] by (subst BAVL_descend.simps) (simp add: l)
      moreover have sh: "shape t ?c (Node rl rn rr)" using Node.prems(1) by (simp add: shape_node(1) l)
      ultimately show ?thesis using Node.hyps(1) [OF l sh pl(1) [unfolded l] b] unfolding l [symmetric] pg by metis
    qed
  qed (auto simp: BAVL_descend.simps set_plug)
qed

lemma walk_ok:
  "rep (parent t) (link t) p (Some n) T \<Longrightarrow> BAVL_walk t x n = Some (if x then last (inorder T) else hd (inorder T))"
proof (induction T arbitrary: p n)
  case (Node l m r)
  have "BAVL_walk t x n = (case link t n x of None \<Rightarrow> Some n | Some n' \<Rightarrow> BAVL_walk t x n')" by (simp add: BAVL_walk.simps)
  then show ?case using Node by (cases x; cases l; cases r) (auto simp: hd_append)
qed simp

lemma climb_ok:
  "shape t c (mk y u n v) \<Longrightarrow> BAVL_climb t x n = Some (if x then first_of (ctx_after c)
    else first_of (rev (ctx_before c)))"
proof (induction c arbitrary: y u n v)
  case Nil
  then show ?case using shape_top(1) [OF Nil] by (simp add: BAVL_climb.simps)
next
  case (Cons f c)
  obtain z p s where f: "f = (z, p, s)" by (cases f)
  have top: "parent t n = Some p" "(link t p True = Some n) = z" using shape_top [OF Cons.prems] f by auto
  have "link t p z = Some n" using Cons.prems by (auto simp: shape_def f)
  with top(2) have side: "link t p x = Some n \<longleftrightarrow> x = z" 
    using Cons.prems rep_root unfolding f by (cases x; cases z) (fastforce simp: shape_def distinct_plug)+
  have "BAVL_climb t x p = Some (if x then first_of (ctx_after c)
    else first_of (rev (ctx_before c)))"
    using Cons.IH Cons.prems unfolding f shape_frame by blast
  then show ?case using top(1) side by (subst BAVL_climb.simps) (auto simp: f)
qed

section \<open>Looking up and inserting\<close>

text \<open>What a descent from the root finds: an equal node, or the neighbour of the place where the value belongs.\<close>

definition lookup_spec :: "('n \<Rightarrow> int) \<Rightarrow> 'n list \<Rightarrow> 'n \<Rightarrow> bool" where
  "lookup_spec f xs m \<longleftrightarrow> m \<in> set xs \<and> (f m = 0 \<or>
     (\<exists>ls rs. xs = ls @ rs \<and> (\<forall>y \<in> set ls. f y = 1) \<and> (\<forall>y \<in> set rs. f y = -1) \<and>
       (ls \<noteq> [] \<and> m = last ls \<or> rs \<noteq> [] \<and> m = hd rs)))"

lemma descend_root:
  assumes "shape t [] T" "parted f (inorder T)" "av_root t = Some n"
  obtains (found) m where "BAVL_descend f t n = Some (m, f m)" "f m = 0" "m \<in> set_tree T"
  | (free) m s c where "BAVL_descend f t n = Some (m, f m)" "f m \<noteq> 0" "free_place f m s c T"
proof -
  from assms obtain l r where T: "T = Node l n r" by (cases T) (auto simp: shape_def)
  from descend_ok [of t "[]" l n r f] assms(1,2) T have "\<exists>m. BAVL_descend f t n = Some (m, f m) \<and>
    (f m = 0 \<and> m \<in> set_tree T \<or> (\<exists>s c'. free_place f m s c' T))" by simp
  then show thesis using that by (metis free_place_def)
qed

lemma free_place_inorder:
  assumes "free_place f m s c T"
  defines "ls \<equiv> ctx_before ((f m = 1, m, s) # c)" and "rs \<equiv> ctx_after ((f m = 1, m, s) # c)"
  shows "inorder T = ls @ rs" "\<forall>y \<in> set ls. f y = 1" "\<forall>y \<in> set rs. f y = -1" "\<forall>y \<in> set_tree T. f y \<noteq> 0"
    "m \<in> set_tree T" "if f m = 1 then ls \<noteq> [] \<and> m = last ls else rs \<noteq> [] \<and> m = hd rs"
proof -
  have "plug Leaf ((f m = 1, m, s) # c) = T" using assms(1) unfolding free_place_def by blast
  then show i: "inorder T = ls @ rs" using inorder_plug [of Leaf "(f m = 1, m, s) # c"]
    unfolding ls_def rs_def by (simp only: inorder.simps append_Nil)
  show p: "\<forall>y \<in> set ls. f y = 1" "\<forall>y \<in> set rs. f y = -1"
    using assms(1) unfolding free_place_def ls_def rs_def by blast+
  then have "\<forall>y \<in> set (ls @ rs). f y \<noteq> 0" by auto
  then show "\<forall>y \<in> set_tree T. f y \<noteq> 0" unfolding i [symmetric] by simp
  show l: "if f m = 1 then ls \<noteq> [] \<and> m = last ls else rs \<noteq> [] \<and> m = hd rs" by (simp add: ls_def rs_def)
  then have "m \<in> set (ls @ rs)" by (auto split: if_splits)
  then show "m \<in> set_tree T" unfolding i [symmetric] by simp
qed

lemma Lookup_ok:
  assumes "shape t [] T" "parted (\<lambda>c. cmp v (val_of c)) (inorder T)"
  shows "if T = Leaf then BAVL_Lookup cmp val_of t v = Some None
    else \<exists>m. BAVL_Lookup cmp val_of t v = Some (Some m) \<and> lookup_spec (\<lambda>c. cmp v (val_of c)) (inorder T) m"
proof (cases "av_root t")
  case None
  then show ?thesis using assms(1) by (cases T) (simp_all add: BAVL_Lookup_def shape_def)
next
  case (Some n)
  then have "T \<noteq> Leaf" using assms(1) by (auto simp: shape_def)
  from assms Some show ?thesis
  proof (cases rule: descend_root)
    case (found m)
    then show ?thesis using Some \<open>T \<noteq> Leaf\<close> by (simp add: BAVL_Lookup_def lookup_spec_def)
  next
    case (free m s c)
    have "lookup_spec (\<lambda>c. cmp v (val_of c)) (inorder T) m"
      unfolding lookup_spec_def using free_place_inorder [OF free(3)] by (metis set_inorder)
    then show ?thesis using free(1) Some \<open>T \<noteq> Leaf\<close> by (simp add: BAVL_Lookup_def)
  qed
qed

lemma LookupExact_ok:
  assumes "shape t [] T" "parted (\<lambda>c. cmp v (val_of c)) (inorder T)"
  shows "\<exists>r. BAVL_LookupExact cmp val_of t v = Some r \<and> (case r of
      Some m \<Rightarrow> m \<in> set_tree T \<and> cmp v (val_of m) = 0 | None \<Rightarrow> \<forall>m \<in> set_tree T. cmp v (val_of m) \<noteq> 0)"
proof (cases "av_root t")
  case None
  then show ?thesis using assms(1) by (cases T) (simp_all add: BAVL_LookupExact_def shape_def)
next
  case (Some n)
  from assms Some show ?thesis
  proof (cases rule: descend_root)
    case (found m)
    then show ?thesis using Some by (simp add: BAVL_LookupExact_def)
  next
    case (free m s c)
    then show ?thesis using Some free_place_inorder(4) [OF free(3)] by (simp add: BAVL_LookupExact_def)
  qed
qed

lemma attach_shape:
  assumes sh: "shape t ((x, m, s) # c) Leaf" and new: "node \<notin> ctx_set ((x, m, s) # c)"
    and P: "parent t' = (parent t)(node := Some m)" and rt: "av_root t' = av_root t"
    and L: "link t' = (link t)(m := (link t m)(x := Some node), node := \<lambda>_. None)"
  shows "shape t' ((x, m, s) # c) (Node Leaf node Leaf)"
proof -
  have n: "node \<noteq> m" "m \<notin> set_tree s" "m \<notin> ctx_set c" "node \<notin> set_tree s" "node \<notin> ctx_set c"
    using sh new by (auto simp: shape_def distinct_plug)
  have r: "rep (parent t) (link t) (Some m) (link t m (\<not> x)) s" "parent t m = owner c"
    "rep_ctx (parent t) (link t) (av_root t) c (Some m)" using sh by (auto simp: shape_def)
  have "rep (parent t') (link t') p q s = rep (parent t) (link t) p q s" for p q
    by (rule rep_cong) (use n in \<open>auto simp: P L\<close>)
  moreover have "rep_ctx (parent t') (link t') (av_root t) c q = rep_ctx (parent t) (link t) (av_root t) c q" for q
    by (rule rep_ctx_cong) (use n in \<open>auto simp: P L\<close>)
  ultimately have "rep_ctx (parent t') (link t') (av_root t') ((x, m, s) # c) (Some node)"
    using r n by (simp add: rt) (simp add: P L)
  moreover have "rep (parent t') (link t') (Some m) (Some node) (Node Leaf node Leaf)" by (simp add: P L)
  moreover have "distinct (inorder (plug (Node Leaf node Leaf) ((x, m, s) # c)))"
    using sh new by (auto simp: shape_def distinct_plug)
  ultimately show ?thesis unfolding shape_def by auto
qed

text \<open>Insertion reports an equal node, or puts the new node at its place and keeps the tree balanced.\<close>

lemma Insert_ok:
  assumes avl: "avl t T" and p: "parted (\<lambda>c. cmp (val_of node) (val_of c)) (inorder T)" and new: "node \<notin> set_tree T"
  shows "\<exists>t' ok ref. BAVL_Insert cmp val_of t node = Some (t', ok, ref) \<and>
    (case ref of None \<Rightarrow> T = Leaf | Some m \<Rightarrow> lookup_spec (\<lambda>c. cmp (val_of node) (val_of c)) (inorder T) m) \<and>
    (if \<exists>m \<in> set_tree T. cmp (val_of node) (val_of m) = 0 then \<not> ok \<and> t' = t
     else ok \<and> (\<exists>T' ls rs. avl t' T' \<and> inorder T = ls @ rs \<and> inorder T' = ls @ node # rs \<and>
       (\<forall>m \<in> set ls. cmp (val_of node) (val_of m) = 1) \<and> (\<forall>m \<in> set rs. cmp (val_of node) (val_of m) = -1)))"
proof (cases "av_root t")
  case None
  then have T: "T = Leaf" using avl by (cases T) (auto simp: avl_def shape_def)
  let ?t = "set_balance node 0 (set_link node True None (set_link node False None (set_parent node None (t\<lparr>av_root := Some node\<rparr>))))"
  have "BAVL_Insert cmp val_of t node = Some (?t, True, None)" using None by (simp add: BAVL_Insert_def Let_def)
  moreover have "avl ?t (Node Leaf node Leaf)" by (simp add: avl_def shape_def)
  ultimately show ?thesis using T by (intro exI [of _ ?t] exI [of _ True] exI [of _ None]) (fastforce intro: exI [of _ "Node Leaf node Leaf"])
next
  case (Some n)
  let ?f = "\<lambda>c. cmp (val_of node) (val_of c)"
  have sh: "shape t [] T" using avl by (simp add: avl_def)
  from sh p Some show ?thesis
  proof (cases rule: descend_root)
    case (found m)
    then have "BAVL_Insert cmp val_of t node = Some (t, False, Some m)" using Some by (simp add: BAVL_Insert_def)
    then show ?thesis using found by (intro exI [of _ t] exI [of _ False] exI [of _ "Some m"]) (auto simp: lookup_spec_def)
  next
    case (free m s c)
    let ?c = "(?f m = 1, m, s) # c"
    note io = free_place_inorder [OF free(3)]
    let ?t = "set_balance node 0 (set_link node True None (set_link node False None (set_parent node (Some m)
      (set_link m (?f m = 1) (Some node) t))))"
    have T: "plug Leaf ?c = T" using free(3) unfolding free_place_def by blast
    have shc: "shape t ?c Leaf" using sh shape_plug [of t Leaf ?c] unfolding T by simp
    have nc: "node \<notin> ctx_set ?c" using new set_plug [of Leaf ?c] unfolding T by simp
    have s1: "shape ?t ?c (Node Leaf node Leaf)"
      by (rule attach_shape [OF shc nc]) (use nc in \<open>auto simp: fun_eq_iff\<close>)
    have "bal_ctx (balance t) 0 ?c" using avl bal_plug [of "balance t" Leaf ?c] unfolding T avl_def by simp
    moreover have "bal_ctx (balance ?t) 0 ?c = bal_ctx (balance t) 0 ?c"
      by (rule bal_ctx_cong) (use nc in auto)
    ultimately have b1: "bal_ctx (balance ?t) 0 ?c" by simp
    from rebalance_ok [OF s1 _ b1, of 1] obtain t' T' where
      r: "BAVL_rebalance ?t m (?f m = 1) 1 = Some t'" "shape t' [] T'" "bal (balance t') T'"
        "inorder T' = inorder (plug (Node Leaf node Leaf) ?c)" by auto
    have "BAVL_Insert cmp val_of t node = Some (t', True, Some m)"
      using Some free(1,2) r(1) by (simp add: BAVL_Insert_def Let_def)
    moreover have "inorder T' = ctx_before ?c @ node # ctx_after ?c" unfolding r(4) inorder_plug by simp
    moreover have "avl t' T'" using r by (simp add: avl_def)
    moreover have "lookup_spec ?f (inorder T) m" unfolding lookup_spec_def using io by (metis set_inorder)
    ultimately have all: "BAVL_Insert cmp val_of t node = Some (t', True, Some m)" "avl t' T'" "lookup_spec ?f (inorder T) m"
      "\<exists>ls rs. inorder T = ls @ rs \<and> inorder T' = ls @ node # rs \<and> (\<forall>m \<in> set ls. ?f m = 1) \<and> (\<forall>m \<in> set rs. ?f m = -1)"
      using io(1-3) by blast+
    have ne: "\<not> (\<exists>m \<in> set_tree T. ?f m = 0)" using io(4) by blast
    show ?thesis unfolding if_not_P [OF ne]
      by (intro exI [of _ t'] exI [of _ True] exI [of _ "Some m"]) (simp only: all(1,3) option.case simp_thms, use all(2,4) in blast)
  qed
qed

section \<open>The walk in order\<close>

lemma plug_append: "plug T (c @ d) = plug (plug T c) d"
  by (induction T c rule: plug.induct) auto

lemma tree_at: "n \<in> set_tree T \<Longrightarrow> \<exists>c l r. T = plug (Node l n r) c"
proof (induction T)
  case (Node l m r)
  then consider "n = m" | "n \<in> set_tree l" | "n \<in> set_tree r" by auto
  then show ?case
  proof cases
    case 1
    then have "Node l m r = plug (Node l n r) []" by simp
    then show ?thesis by blast
  next
    case 2
    then obtain c u v where "l = plug (Node u n v) c" using Node.IH by blast
    then have "Node l m r = plug (Node u n v) (c @ [(False, m, r)])" by (simp add: plug_append mk_def)
    then show ?thesis by blast
  next
    case 3
    then obtain c u v where "r = plug (Node u n v) c" using Node.IH by blast
    then have "Node l m r = plug (Node u n v) (c @ [(True, m, l)])" by (simp add: plug_append mk_def)
    then show ?thesis by blast
  qed
qed simp

lemma shape_at:
  assumes "shape t [] T" "inorder T = xs @ n # ys"
  obtains c l r where "shape t c (Node l n r)" "T = plug (Node l n r) c" "xs = ctx_before c @ inorder l" "ys = inorder r @ ctx_after c"
proof -
  have "n \<in> set (inorder T)" using assms(2) by simp
  then obtain c l r where T: "T = plug (Node l n r) c" using tree_at by (metis set_inorder)
  have d: "distinct (inorder T)" using assms(1) by (simp add: shape_def)
  have i: "inorder T = (ctx_before c @ inorder l) @ n # inorder r @ ctx_after c" unfolding T inorder_plug by simp
  then have "xs = ctx_before c @ inorder l \<and> ys = inorder r @ ctx_after c"
  proof -
    have "n \<notin> set xs" "n \<notin> set ys" using d unfolding assms(2) by auto
    from append_Cons_eq_iff [OF this] i assms(2) show ?thesis by metis
  qed
  then show thesis using that T assms(1) shape_plug [of t "Node l n r" c] by blast
qed

lemma GetFirst_ok: "shape t [] T \<Longrightarrow> BAVL_GetFirst t = Some (first_of (inorder T))"
  "shape t [] T \<Longrightarrow> BAVL_GetLast t = Some (first_of (rev (inorder T)))"
proof -
  assume sh: "shape t [] T"
  have "BAVL_GetFirst t = Some (first_of (inorder T)) \<and> BAVL_GetLast t = Some (first_of (rev (inorder T)))"
  proof (cases T)
    case Leaf
    then show ?thesis using sh by (simp add: BAVL_GetFirst_def BAVL_GetLast_def shape_def)
  next
    case (Node l n r)
    then have "av_root t = Some n" "rep (parent t) (link t) None (Some n) T" using sh by (auto simp: shape_def)
    moreover have "inorder T \<noteq> []" using Node by simp
    ultimately show ?thesis by (simp add: BAVL_GetFirst_def BAVL_GetLast_def walk_ok first_of_hd hd_rev)
  qed
  then show "BAVL_GetFirst t = Some (first_of (inorder T))" "BAVL_GetLast t = Some (first_of (rev (inorder T)))" by auto
qed

lemma GetNext_ok:
  assumes "shape t [] T" "inorder T = xs @ n # ys"
  shows "BAVL_GetNext t n = Some (first_of ys)" "BAVL_GetPrev t n = Some (first_of (rev xs))"
proof -
  obtain c l r where s: "shape t c (Node l n r)" "xs = ctx_before c @ inorder l" "ys = inorder r @ ctx_after c"
    using shape_at [OF assms] by metis
  have cl: "BAVL_climb t x n = Some (if x then first_of (ctx_after c) else first_of (rev (ctx_before c)))" for x
    using climb_ok [of t c False l n r] s(1) by (simp add: mk_def)
  have rl: "rep (parent t) (link t) (Some n) (link t n False) l" "rep (parent t) (link t) (Some n) (link t n True) r"
    using s(1) by (auto simp: shape_def)
  show "BAVL_GetNext t n = Some (first_of ys)"
  proof (cases r)
    case Leaf
    then show ?thesis using rl(2) cl by (simp add: BAVL_GetNext_def s(3))
  next
    case (Node rl rn rr)
    then show ?thesis using rl(2) walk_ok [of t "Some n" rn r False] by (simp add: BAVL_GetNext_def s(3) first_of_hd hd_append)
  qed
  show "BAVL_GetPrev t n = Some (first_of (rev xs))"
  proof (cases l)
    case Leaf
    then show ?thesis using rl(1) cl by (simp add: BAVL_GetPrev_def s(2))
  next
    case (Node ll ln lr)
    then have "inorder l \<noteq> []" by simp
    then show ?thesis using Node rl(1) walk_ok [of t "Some n" ln l True] by (simp add: BAVL_GetPrev_def s(2) first_of_hd hd_rev hd_append)
  qed
qed

section \<open>Exchanging two nodes\<close>

definition exchange :: "'n \<Rightarrow> 'n \<Rightarrow> 'n \<Rightarrow> 'n" where
  "exchange n1 n2 x = (if x = n1 then n2 else if x = n2 then n1 else x)"

lemma inj_exchange: "inj (exchange n1 n2)"
  by (auto simp: inj_def exchange_def split: if_splits)

lemma rep_rename:
  assumes "\<forall>x \<in> set_tree T. P' (f x) = map_option f (P x) \<and> (\<forall>d. L' (f x) d = map_option f (L x d))" "rep P L p q T"
  shows "rep P' L' (map_option f p) (map_option f q) (map_tree f T)"
  using assms
proof (induction T arbitrary: p q)
  case (Node l n r)
  have "rep P' L' (map_option f (Some n)) (map_option f (L n False)) (map_tree f l)"
    "rep P' L' (map_option f (Some n)) (map_option f (L n True)) (map_tree f r)"
    by (rule Node.IH; use Node.prems in simp)+
  then show ?case using Node.prems by auto
qed simp

lemma bal_rename: "\<forall>x \<in> set_tree T. B' (f x) = B x \<Longrightarrow> bal B' (map_tree f T) = bal B T"
  by (induction T) auto

text \<open>What the links of a tree say of its parent fields, and the other way round.\<close>

lemma shape_links:
  assumes "shape t [] T" "x \<in> set_tree T"
  shows "link t x d = Some y \<Longrightarrow> y \<in> set_tree T \<and> parent t y = Some x"
    and "link t x False = Some y \<Longrightarrow> link t x True \<noteq> Some y"
    and "parent t x = Some y \<Longrightarrow> y \<in> set_tree T \<and> (\<exists>d. link t y d = Some x)"
    and "av_root t = Some x \<longleftrightarrow> parent t x = None" and "link t x d \<noteq> Some x" and "parent t x \<noteq> Some x"
proof -
  obtain c l r where T: "T = plug (Node l x r) c" using tree_at assms(2) by metis
  with assms(1) have s: "shape t c (Node l x r)" using shape_plug by blast
  have d: "distinct (inorder (Node l x r))" "ctx_set c \<inter> set_tree (Node l x r) = {}" using s by (auto simp: shape_def distinct_plug)
  have st: "set_tree T = set_tree (Node l x r) \<union> ctx_set c" unfolding T by (rule set_plug)
  have r: "rep (parent t) (link t) (Some x) (link t x False) l" "rep (parent t) (link t) (Some x) (link t x True) r"
    "parent t x = owner c" "rep_ctx (parent t) (link t) (av_root t) c (Some x)" using s by (auto simp: shape_def)
  have low: "q = Some y \<Longrightarrow> rep (parent t) (link t) p q T' \<Longrightarrow> y \<in> set_tree T' \<and> parent t y = p" for y q T' p
    by (cases T') auto
  show "y \<in> set_tree T \<and> parent t y = Some x" if "link t x d = Some y"
    using low [OF that] r(1,2) st that by (cases d) auto
  show "link t x True \<noteq> Some y" if "link t x False = Some y"
    using low [OF that r(1)] low [OF _ r(2), of y] d(1) by auto
  show "y \<in> set_tree T \<and> (\<exists>d. link t y d = Some x)" if "parent t x = Some y"
    using r(3,4) that owner_in [of c y] st by (cases c) auto
  show "av_root t = Some x \<longleftrightarrow> parent t x = None"
  proof (cases c)
    case Nil
    then show ?thesis using r by simp
  next
    case (Cons f c')
    then obtain rt where rt: "av_root t = Some rt" "rt \<in> ctx_set c"
    proof -
      have "\<exists>rt. av_root t = Some rt \<and> rt \<in> ctx_set c" if "rep_ctx (parent t) (link t) (av_root t) c q" "c \<noteq> []" for c q
        using that
      proof (induction c arbitrary: q)
        case (Cons f c)
        then show ?case by (cases f; cases c) auto
      qed simp
      then show ?thesis using that r(4) Cons by blast
    qed
    then have "rt \<noteq> x" using d(2) by auto
    then show ?thesis using r(3) rt(1) Cons by (cases f) auto
  qed
  show "parent t x \<noteq> Some x" using r(3) owner_in [of c x] d(2) by auto
  show "link t x d \<noteq> Some x" using low [OF _ r(1), of x] low [OF _ r(2), of x] d(1) by (cases d) auto
qed

lemma shape_rename:
  assumes "shape t [] T" "inj f" "\<forall>x \<in> set_tree T. parent t' (f x) = map_option f (parent t x) \<and> (\<forall>d. link t' (f x) d = map_option f (link t x d))"
    "av_root t' = map_option f (av_root t)"
  shows "shape t' [] (map_tree f T)"
proof -
  have "rep (parent t') (link t') (map_option f None) (map_option f (av_root t)) (map_tree f T)"
    by (rule rep_rename [OF assms(3)]) (use assms(1) in \<open>simp add: shape_def\<close>)
  moreover have "distinct (inorder (map_tree f T))"
    using assms(1,2) by (auto simp: shape_def inorder_map distinct_map intro: inj_on_subset)
  ultimately show ?thesis using assms(4) by (simp add: shape_def)
qed

lemma swap_connected_links:
  assumes "n1 \<noteq> n2" "link t n1 False = Some n2" "link t n1 True = Some r0" "link t n2 True = None" "parent t n2 = Some n1"
    "r0 \<noteq> n1" "r0 \<noteq> n2" "link t n2 False \<noteq> Some n1" "link t n2 False \<noteq> Some n2" "link t n2 False \<noteq> Some r0"
    "parent t n1 \<noteq> Some n1" "parent t n1 \<noteq> Some n2"
  defines "t' \<equiv> BAVL_swap_nodes t n1 n2"
  shows "parent t' = (case link t n2 False of None \<Rightarrow> parent t | Some a \<Rightarrow> (parent t)(a := Some n1))
      (n2 := parent t n1, n1 := Some n2, r0 := Some n2)"
    "link t' = (case parent t n1 of None \<Rightarrow> link t | Some p \<Rightarrow> (link t)(p := (link t p)((link t p True = Some n1) := Some n2)))
      (n1 := link t n2, n2 := (\<lambda>d. if d then Some r0 else Some n1))"
    "av_root t' = (case parent t n1 of None \<Rightarrow> Some n2 | Some p \<Rightarrow> av_root t)"
    "balance t' = (balance t)(n1 := balance t n2, n2 := balance t n1)"
  unfolding t'_def BAVL_swap_nodes_def BAVL_swap_connected_def Let_def
  using assms(1-12) by (cases "link t n2 False"; cases "parent t n1"; simp add: fun_eq_iff)+

lemma swap_apart_links:
  assumes "n1 \<noteq> n2" "link t n1 False = Some l0" "link t n1 True = Some r0" "link t n2 True = None" "parent t n2 = Some p2"
    "link t p2 True = Some n2" "p2 \<noteq> n1" "p2 \<noteq> n2" "l0 \<noteq> r0"
    "r0 \<noteq> n1" "r0 \<noteq> n2" "l0 \<noteq> n1" "l0 \<noteq> n2" "link t n2 False \<noteq> Some n1" "link t n2 False \<noteq> Some n2" "link t n2 False \<noteq> Some r0" "link t n2 False \<noteq> Some l0"
    "parent t n1 \<noteq> Some n1" "parent t n1 \<noteq> Some n2" "parent t n1 \<noteq> Some p2"
  defines "t' \<equiv> BAVL_swap_nodes t n1 n2"
  shows "parent t' = (case link t n2 False of None \<Rightarrow> (parent t)(n1 := Some p2, n2 := parent t n1)
      | Some a \<Rightarrow> (parent t)(n1 := Some p2, n2 := parent t n1, a := Some n1))(l0 := Some n2, r0 := Some n2)"
    "link t' = (case parent t n1 of None \<Rightarrow> link t | Some p \<Rightarrow> (link t)(p := (link t p)((link t p True = Some n1) := Some n2)))
      (p2 := (link t p2)(True := Some n1), n1 := link t n2, n2 := link t n1)"
    "av_root t' = (case parent t n1 of None \<Rightarrow> Some n2 | Some p \<Rightarrow> av_root t)"
    "balance t' = (balance t)(n1 := balance t n2, n2 := balance t n1)"
  unfolding t'_def BAVL_swap_nodes_def BAVL_swap_apart_def Let_def
  using assms(1-20) by (cases "link t n2 False"; cases "parent t n1"; simp add: fun_eq_iff)+

text \<open>Both cases of the exchange, for a node \<open>n1\<close> with two subtrees and a node \<open>n2\<close> without a right one that is its
  left child or the right child of some other node \<open>p2\<close>.\<close>

lemma swap_links:
  assumes ne: "n1 \<noteq> n2" and lk: "link t n1 False = Some l0" "link t n1 True = Some r0" "link t n2 True = None" "parent t n2 = Some p2"
    and d: "p2 \<noteq> n2" "l0 \<noteq> r0" "r0 \<noteq> n1" "r0 \<noteq> n2" "l0 \<noteq> n1"
    and a: "link t n2 False \<noteq> Some n1" "link t n2 False \<noteq> Some n2" "link t n2 False \<noteq> Some r0" "link t n2 False \<noteq> Some l0"
    and up: "parent t n1 \<noteq> Some n1" "parent t n1 \<noteq> Some n2"
      "if p2 = n1 then l0 = n2 else l0 \<noteq> n2 \<and> link t p2 True = Some n2 \<and> parent t n1 \<noteq> Some p2"
  defines "t' \<equiv> BAVL_swap_nodes t n1 n2" and "f \<equiv> exchange n1 n2"
  shows "parent t' n2 = parent t n1 \<and> parent t' n1 = Some (f p2) \<and>
    (\<forall>x. x \<noteq> n1 \<longrightarrow> x \<noteq> n2 \<longrightarrow> parent t' x =
      (if x = l0 \<or> x = r0 then Some n2 else if link t n2 False = Some x then Some n1 else parent t x)) \<and>
    link t' n1 = link t n2 \<and> (\<forall>s. link t' n2 s = map_option f (link t n1 s)) \<and>
    (\<forall>x s. x \<noteq> n1 \<longrightarrow> x \<noteq> n2 \<longrightarrow> link t' x s = (if parent t n1 = Some x \<and> s = (link t x True = Some n1) then Some n2
       else if x = p2 \<and> s then Some n1 else link t x s)) \<and>
    av_root t' = (case parent t n1 of None \<Rightarrow> Some n2 | Some p \<Rightarrow> av_root t) \<and>
    balance t' = (balance t)(n1 := balance t n2, n2 := balance t n1)"
proof (cases "p2 = n1")
  case True
  then have l0: "l0 = n2" using up(3) by simp
  note c = swap_connected_links [OF ne lk(1) [unfolded l0] lk(2,3) lk(4) [unfolded True] d(3,4) a(1-3) up(1,2), folded t'_def]
  show ?thesis unfolding c using ne lk d(2-5) a up(1,2) l0 True
    by (intro conjI allI impI; simp split: option.split add: f_def exchange_def)
next
  case False
  then have l0: "l0 \<noteq> n2" "link t p2 True = Some n2" "parent t n1 \<noteq> Some p2" using up(3) by auto
  note c = swap_apart_links [OF ne lk l0(2) False d(1,2,3,4,5) l0(1) a up(1,2) l0(3), folded t'_def]
  have "link t n1 s = map_option f (link t n1 s)" for s using lk d l0 by (cases s) (auto simp: f_def exchange_def)
  with c ne lk d a up(1,2) l0 False show ?thesis
    by (intro conjI allI impI; simp split: option.split add: f_def exchange_def)
qed

lemma swap_shape:
  assumes sh: "shape t [] T" and mem: "n1 \<in> set_tree T" "n2 \<in> set_tree T" and ne: "n1 \<noteq> n2"
    and lk: "link t n1 False = Some l0" "link t n1 True = Some r0" "link t n2 True = None" "parent t n2 = Some p2"
    and up: "parent t n1 \<noteq> Some n2" "if p2 = n1 then l0 = n2 else link t p2 True = Some n2 \<and> parent t n1 \<noteq> Some p2"
  defines "t' \<equiv> BAVL_swap_nodes t n1 n2" and "f \<equiv> exchange n1 n2"
  shows "shape t' [] (map_tree f T)" "bal (balance t') (map_tree f T) = bal (balance t) T" "link t' n1 = link t n2"
proof -
  note L = shape_links [OF sh]
  have kids: "parent t l0 = Some n1" "parent t r0 = Some n1" using L(1) [OF mem(1)] lk by auto
  have dist: "p2 \<noteq> n2" "l0 \<noteq> r0" "r0 \<noteq> n1" "l0 \<noteq> n1" "parent t n1 \<noteq> Some n1" "link t n2 False \<noteq> Some n2"
    using L(2,5,6) mem lk by blast+
  have a_n2: "parent t a = Some n2" if "link t n2 False = Some a" for a using L(1) [OF mem(2) that] by simp
  have a: "link t n2 False \<noteq> Some n1" "link t n2 False \<noteq> Some r0" "link t n2 False \<noteq> Some l0"
    using a_n2 kids ne up(1) by fastforce+
  have r0: "r0 \<noteq> n2" "if p2 = n1 then l0 = n2 else l0 \<noteq> n2 \<and> link t p2 True = Some n2 \<and> parent t n1 \<noteq> Some p2"
    using up(2) kids lk dist(2) by (auto split: if_splits)
  note c = swap_links [OF ne lk dist(1-3) r0(1) dist(4) a(1) dist(6) a(2,3) dist(5) up(1) r0(2), folded t'_def f_def]
  have fs: "f n1 = n2" "f n2 = n1" "x \<noteq> n1 \<Longrightarrow> x \<noteq> n2 \<Longrightarrow> f x = x" "q = Some n1 \<or> q = Some n2 \<or> map_option f q = q" for x q
    using ne by (auto simp: f_def exchange_def map_option_case split: option.split)
  have P: "parent t' (f x) = map_option f (parent t x)" if x: "x \<in> set_tree T" for x
  proof -
    have "parent t x = Some n1 \<longrightarrow> x = l0 \<or> x = r0"
      using L(3) [OF x, of n1] lk by (metis (full_types) option.inject)
    moreover have "parent t x = Some n2 \<longrightarrow> link t n2 False = Some x"
      using L(3) [OF x, of n2] lk by (metis (full_types) option.discI)
    ultimately show ?thesis using c kids a_n2 fs(1-3) fs(4) [of "parent t x"] lk(4) up(1) dist(5) by (cases "x = n1"; cases "x = n2") auto
  qed
  have K: "link t' (f x) d = map_option f (link t x d)" if x: "x \<in> set_tree T" for x d
  proof (cases "x = n1 \<or> x = n2")
    case True
    then show ?thesis using c fs(1,2) fs(4) [of "link t n2 d"] a(1) dist(6) lk(3) by (cases d) auto
  next
    case False
    have n1: "link t x d = Some n1 \<longleftrightarrow> parent t n1 = Some x \<and> d = (link t x True = Some n1)"
      using L(1) [OF x] L(2) [OF x, of n1] L(3) [OF mem(1), of x] by (cases d) (auto, metis (full_types))
    have n2: "link t x d = Some n2 \<longleftrightarrow> x = p2 \<and> d"
      using L(1) [OF x, of d n2] L(2) [OF x, of n2] lk(4) r0(2) False by (cases d) (auto split: if_splits)
    have "link t' x d = (if parent t n1 = Some x \<and> d = (link t x True = Some n1) then Some n2
       else if x = p2 \<and> d then Some n1 else link t x d)" using c False by blast
    then have "link t' x d = (if link t x d = Some n1 then Some n2 else if link t x d = Some n2 then Some n1 else link t x d)"
      unfolding n1 n2 .
    then show ?thesis using False fs(1-3) fs(4) [of "link t x d"] by auto
  qed
  have "av_root t' = map_option f (av_root t)"
    using L(4) [OF mem(1)] L(4) [OF mem(2)] lk(4) c fs(1) fs(4) [of "av_root t"] by (cases "parent t n1") auto
  then show "shape t' [] (map_tree f T)"
    using P K inj_exchange [of n1 n2] shape_rename [OF sh] unfolding f_def by blast
  show "bal (balance t') (map_tree f T) = bal (balance t) T"
    by (rule bal_rename) (use c ne in \<open>auto simp: f_def exchange_def\<close>)
  show "link t' n1 = link t n2" using c by blast
qed

section \<open>Removal\<close>

lemma replace_shape:
  assumes sh: "shape t c (Node l n r)" and K: "K = l \<and> r = Leaf \<or> K = r \<and> l = Leaf"
    and ch: "child = (case K of Leaf \<Rightarrow> None | Node _ m _ \<Rightarrow> Some m)"
  shows "shape (BAVL_replace_subtree t n child) c K" "balance (BAVL_replace_subtree t n child) = balance t"
proof -
  let ?t = "BAVL_replace_subtree t n child"
  have par: "parent t n = owner c" "rep_ctx (parent t) (link t) (av_root t) c (Some n)" using sh by (auto simp: shape_def)
  have dist: "distinct (inorder K)" "ctx_distinct c" "n \<notin> ctx_set c" "set_tree K \<inter> ctx_set c = {}" "n \<notin> set_tree K"
    using sh K by (auto simp: shape_def distinct_plug)
  have rK: "rep (parent t) (link t) (Some n) child K"
    using sh K ch by (cases K) (auto simp: shape_def)
  have chK: "child = Some m \<Longrightarrow> m \<in> set_tree K" for m using ch by (cases K) auto
  have P: "parent ?t = (case child of None \<Rightarrow> parent t | Some m \<Rightarrow> (parent t)(m := owner c))"
    and Lk: "link ?t = (case owner c of None \<Rightarrow> link t | Some a \<Rightarrow> (link t)(a := (link t a)((link t a True = Some n) := child)))"
    and rt: "av_root ?t = (case owner c of None \<Rightarrow> child | Some a \<Rightarrow> av_root t)"
    by (simp_all add: BAVL_replace_subtree_def Let_def par(1) split: option.split)
  have own: "owner c = Some a \<Longrightarrow> a \<in> ctx_set c" for a by (rule owner_in)
  have "rep_ctx (parent ?t) (link ?t) (av_root ?t) c child"
  proof (rule rep_ctx_redirect [OF par(2) dist(2,3)])
    show "parent ?t x = parent t x" if "x \<in> ctx_set c" for x
      using that chK dist(4) by (auto simp: P split: option.split)
    show "link ?t x = (if owner c = Some x then (link t x)((link t x True = Some n) := child) else link t x)" if "x \<in> ctx_set c" for x
      by (auto simp: Lk split: option.split)
    show "av_root ?t = (if c = [] then child else av_root t)" by (cases c) (auto simp: rt)
  qed
  moreover have "rep (parent ?t) (link ?t) (owner c) child K"
    unfolding P Lk by (rule rep_move [OF rK dist(1)]) (use own dist(4) in \<open>auto split: option.split\<close>)
  moreover have "distinct (inorder (plug K c))" using dist by (auto simp: distinct_plug)
  ultimately show "shape ?t c K" unfolding shape_def by blast
  show "balance ?t = balance t" by (simp add: BAVL_replace_subtree_def Let_def)
qed

lemma unlink_ok:
  assumes avl: "avl t T" and i: "inorder T = xs @ n # ys" and one: "link t n False = None \<or> link t n True = None"
  shows "\<exists>t' T'. BAVL_unlink t n = Some t' \<and> avl t' T' \<and> inorder T' = xs @ ys"
proof -
  have "shape t [] T" using avl by (simp add: avl_def)
  from shape_at [OF this i] obtain c l r where s: "shape t c (Node l n r)" "T = plug (Node l n r) c"
    "xs = ctx_before c @ inorder l" "ys = inorder r @ ctx_after c" by metis
  have lr: "l = Leaf \<or> r = Leaf" using one shape_link [OF s(1)] by (auto split: tree.splits)
  define K where "K = (if l = Leaf then r else l)"
  define child where "child = (if link t n False \<noteq> None then link t n False else link t n True)"
  have K: "K = l \<and> r = Leaf \<or> K = r \<and> l = Leaf" using lr by (auto simp: K_def)
  have ch: "child = (case K of Leaf \<Rightarrow> None | Node _ m _ \<Rightarrow> Some m)"
    using shape_link [OF s(1)] lr by (auto simp: K_def child_def split: tree.splits)
  note rs = replace_shape [OF s(1) K ch]
  have bT: "bal (balance t) (Node l n r)" "bal_ctx (balance t) (height (Node l n r)) c"
    using avl s(2) by (auto simp: avl_def bal_plug)
  have bK: "bal (balance t) K" "int (height K) = int (height (Node l n r)) + (-1)" using bT(1) K by auto
  have io: "inorder (plug K c) = xs @ ys" using K by (auto simp: inorder_plug s(3,4))
  show ?thesis
  proof (cases c)
    case Nil
    then have "BAVL_unlink t n = Some (BAVL_replace_subtree t n child)"
      using shape_top(1) [of t c False l n r] s(1) by (simp add: BAVL_unlink_def mk_def child_def)
    moreover have "avl (BAVL_replace_subtree t n child) K" using rs bK Nil by (simp add: avl_def)
    ultimately show ?thesis using io Nil by auto
  next
    case (Cons fr c')
    obtain x p s' where fr: "fr = (x, p, s')" by (cases fr)
    have "parent t n = Some p" "(link t p True = Some n) = x"
      using shape_top [of t c False l n r] s(1) Cons fr by (auto simp: mk_def)
    then have "BAVL_unlink t n = BAVL_rebalance (BAVL_replace_subtree t n child) p x (-1)"
      by (simp add: BAVL_unlink_def child_def)
    moreover have "\<exists>t' T'. BAVL_rebalance (BAVL_replace_subtree t n child) p x (-1) = Some t' \<and> shape t' [] T' \<and>
      bal (balance t') T' \<and> inorder T' = inorder (plug K ((x, p, s') # c'))"
      by (rule rebalance_ok [OF _ _ _ bK(2)]) (use rs bK(1) bT(2) Cons fr in \<open>simp_all del: height_tree.simps\<close>)
    ultimately show ?thesis using io Cons fr by (auto simp: avl_def)
  qed
qed

text \<open>Where the greatest node of a subtree hangs.\<close>

lemma last_links:
  assumes "rep (parent t) (link t) p (Some q) T"
  shows "link t (last (inorder T)) True = None \<and> last (inorder T) \<in> set_tree T \<and>
    (last (inorder T) = q \<and> parent t q = p \<or>
     (\<exists>u \<in> set_tree T. parent t (last (inorder T)) = Some u \<and> link t u True = Some (last (inorder T))))"
  using assms
proof (induction T arbitrary: p q)
  case (Node l n r)
  show ?case
  proof (cases r)
    case Leaf
    then show ?thesis using Node.prems by simp
  next
    case r: (Node rl rn rr)
    then have "last (inorder (Node l n r)) = last (inorder r)" "link t n True = Some rn" "rep (parent t) (link t) (Some n) (Some rn) r"
      using Node.prems by auto
    with Node.IH(2) [of "Some n" rn] Node.prems show ?thesis by auto
  qed
qed simp

text \<open>A node of the tree can be removed: the order of the others and the balance stay.\<close>

lemma Remove_ok:
  assumes avl: "avl t T" and i: "inorder T = xs @ n # ys"
  shows "\<exists>t' T'. BAVL_Remove t n = Some t' \<and> avl t' T' \<and> inorder T' = xs @ ys"
proof (cases "link t n False = None \<or> link t n True = None")
  case True
  then have "BAVL_Remove t n = BAVL_unlink t n" by (auto simp: BAVL_Remove_def split: option.split)
  then show ?thesis using unlink_ok [OF avl i True] by simp
next
  case False
  then obtain l0 r0 where lk: "link t n False = Some l0" "link t n True = Some r0" by auto
  have sh: "shape t [] T" using avl by (simp add: avl_def)
  from shape_at [OF this i] obtain c l r where s: "shape t c (Node l n r)" "T = plug (Node l n r) c"
    "xs = ctx_before c @ inorder l" "ys = inorder r @ ctx_after c" by metis
  define mx where "mx = last (inorder l)"
  have rl: "rep (parent t) (link t) (Some n) (Some l0) l" and own: "parent t n = owner c"
    and dist: "n \<notin> set_tree l" "ctx_set c \<inter> set_tree l = {}"
    using s(1) lk(1) by (auto simp: shape_def distinct_plug)
  have mx: "BAVL_subtree_max t l0 = Some mx" using walk_ok [OF rl] by (simp add: BAVL_subtree_max_def mx_def)
  have ll: "link t mx True = None" "mx \<in> set_tree l" "mx = l0 \<and> parent t l0 = Some n \<or>
      (\<exists>u \<in> set_tree l. parent t mx = Some u \<and> link t u True = Some mx)" using last_links [OF rl] unfolding mx_def by auto
  then obtain p2 where p2: "parent t mx = Some p2" "if p2 = n then l0 = mx else link t p2 True = Some mx \<and> p2 \<in> set_tree l"
  proof (elim disjE bexE conjE)
    fix u
    assume "u \<in> set_tree l" "parent t mx = Some u" "link t u True = Some mx"
    moreover from this have "u \<noteq> n" using dist(1) by auto
    ultimately show ?thesis using that [of u] by simp
  qed (use that in simp)
  have mem: "n \<in> set_tree T" "mx \<in> set_tree T" "n \<noteq> mx" using ll(2) dist(1) by (auto simp: s(2) set_plug)
  have "parent t n \<noteq> Some mx" using own owner_in [of c mx] ll(2) dist(2) by auto
  moreover have "if p2 = n then l0 = mx else link t p2 True = Some mx \<and> parent t n \<noteq> Some p2"
    using p2(2) own owner_in [of c p2] dist(2) by auto
  ultimately have sw: "shape (BAVL_swap_nodes t n mx) [] (map_tree (exchange n mx) T)"
    "bal (balance (BAVL_swap_nodes t n mx)) (map_tree (exchange n mx) T) = bal (balance t) T"
    "link (BAVL_swap_nodes t n mx) n = link t mx"
    using swap_shape [OF sh mem lk ll(1) p2(1)] by blast+
  have "l \<noteq> Leaf" using rl by auto
  then have xs: "xs = (ctx_before c @ butlast (inorder l)) @ [mx]" unfolding s(3) mx_def by simp
  define zs where "zs = ctx_before c @ butlast (inorder l)"
  have "distinct (zs @ mx # n # ys)" using sh i xs by (simp add: shape_def zs_def)
  then have "map (exchange n mx) (inorder T) = zs @ n # mx # ys"
    unfolding i xs by (auto simp: zs_def [symmetric] exchange_def intro!: map_idI)
  then have "inorder (map_tree (exchange n mx) T) = zs @ n # mx # ys" by (simp add: inorder_map)
  from unlink_ok [OF _ this, of "BAVL_swap_nodes t n mx"] sw avl ll(1) show ?thesis
    using lk mx by (simp add: avl_def BAVL_Remove_def xs zs_def)
qed

section \<open>The tree as an ordered list\<close>

datatype ('n, 'k) avl_op = AvlInsert 'n | AvlRemove 'n | AvlLookupExact 'k | AvlFirst | AvlLast | AvlNext 'n | AvlPrev 'n

datatype 'n avl_out = Inserted bool | Found "'n option"

fun avl_step :: "('k \<Rightarrow> 'k \<Rightarrow> int) \<Rightarrow> ('n \<Rightarrow> 'k) \<Rightarrow> ('n, 'k) avl_op \<Rightarrow> 'n BAVL \<Rightarrow> ('n BAVL \<times> 'n avl_out list) option" where
  "avl_step cmp val_of (AvlInsert n) t = map_option (\<lambda>(t', ok, ref). (t', [Inserted ok])) (BAVL_Insert cmp val_of t n)"
| "avl_step cmp val_of (AvlRemove n) t = map_option (\<lambda>t'. (t', [])) (BAVL_Remove t n)"
| "avl_step cmp val_of (AvlLookupExact v) t = map_option (\<lambda>r. (t, [Found r])) (BAVL_LookupExact cmp val_of t v)"
| "avl_step cmp val_of AvlFirst t = map_option (\<lambda>r. (t, [Found r])) (BAVL_GetFirst t)"
| "avl_step cmp val_of AvlLast t = map_option (\<lambda>r. (t, [Found r])) (BAVL_GetLast t)"
| "avl_step cmp val_of (AvlNext n) t = map_option (\<lambda>r. (t, [Found r])) (BAVL_GetNext t n)"
| "avl_step cmp val_of (AvlPrev n) t = map_option (\<lambda>r. (t, [Found r])) (BAVL_GetPrev t n)"

text \<open>The same on a list in order: a new node goes after the lesser ones, an equal value is refused.  The caller inserts a
  node that is not in the tree, and removes or steps from one that is.\<close>

fun olist_step :: "('k \<Rightarrow> 'k \<Rightarrow> int) \<Rightarrow> ('k \<Rightarrow> bool) \<Rightarrow> ('n \<Rightarrow> 'k) \<Rightarrow> ('n, 'k) avl_op \<Rightarrow> 'n list \<Rightarrow> ('n list \<times> 'n avl_out list) option" where
  "olist_step cmp W val_of (AvlInsert n) xs =
     (if n \<in> set xs \<or> \<not> W (val_of n) then None
      else if list_ex (\<lambda>m. cmp (val_of n) (val_of m) = 0) xs then Some (xs, [Inserted False])
      else Some (takeWhile (\<lambda>m. cmp (val_of n) (val_of m) = 1) xs @ n # dropWhile (\<lambda>m. cmp (val_of n) (val_of m) = 1) xs, [Inserted True]))"
| "olist_step cmp W val_of (AvlRemove n) xs = (if n \<in> set xs then Some (remove1 n xs, []) else None)"
| "olist_step cmp W val_of (AvlLookupExact v) xs =
     (if W v then Some (xs, [Found (List.find (\<lambda>m. cmp v (val_of m) = 0) xs)]) else None)"
| "olist_step cmp W val_of AvlFirst xs = Some (xs, [Found (first_of xs)])"
| "olist_step cmp W val_of AvlLast xs = Some (xs, [Found (first_of (rev xs))])"
| "olist_step cmp W val_of (AvlNext n) xs =
     (if n \<in> set xs then Some (xs, [Found (first_of (tl (dropWhile (\<lambda>m. m \<noteq> n) xs)))]) else None)"
| "olist_step cmp W val_of (AvlPrev n) xs =
     (if n \<in> set xs then Some (xs, [Found (first_of (rev (takeWhile (\<lambda>m. m \<noteq> n) xs)))]) else None)"

definition tree_of :: "('k \<Rightarrow> 'k \<Rightarrow> int) \<Rightarrow> ('k \<Rightarrow> bool) \<Rightarrow> ('n \<Rightarrow> 'k) \<Rightarrow> 'n BAVL \<Rightarrow> 'n list \<Rightarrow> bool" where
  "tree_of cmp W val_of t xs \<longleftrightarrow> (\<exists>T. avl t T \<and> inorder T = xs) \<and> in_order cmp val_of xs \<and> (\<forall>n \<in> set xs. W (val_of n))"

lemma takeWhile_split: "\<forall>m \<in> set ls. P m \<Longrightarrow> \<forall>m \<in> set rs. \<not> P m \<Longrightarrow> takeWhile P (ls @ rs) = ls \<and> dropWhile P (ls @ rs) = rs"
  by (induction ls) (cases rs; auto)+

context search_order
begin

lemma tree_parted: "tree_of cmp W val_of t xs \<Longrightarrow> W v \<Longrightarrow> parted (\<lambda>n. cmp v (val_of n)) xs"
  by (auto simp: tree_of_def intro: parted_cmp)

lemma tree_insert:
  assumes tr: "tree_of cmp W val_of t xs" and n: "n \<notin> set xs" "W (val_of n)"
  shows "\<exists>t' ok ref. BAVL_Insert cmp val_of t n = Some (t', ok, ref) \<and>
    (\<exists>ys. olist_step cmp W val_of (AvlInsert n) xs = Some (ys, [Inserted ok]) \<and> tree_of cmp W val_of t' ys)"
proof -
  let ?f = "\<lambda>m. cmp (val_of n) (val_of m)"
  obtain T where T: "avl t T" "inorder T = xs" using tr by (auto simp: tree_of_def)
  have p: "parted ?f (inorder T)" using tree_parted [OF tr n(2)] T(2) by simp
  have new: "n \<notin> set_tree T" using n(1) T(2) by (metis set_inorder)
  have ex: "(\<exists>m \<in> set_tree T. ?f m = 0) \<longleftrightarrow> list_ex (\<lambda>m. ?f m = 0) xs"
    unfolding T(2) [symmetric] list_ex_iff by simp
  from Insert_ok [where cmp = cmp and val_of = val_of, OF T(1) p new] obtain t' ok ref where ins: "BAVL_Insert cmp val_of t n = Some (t', ok, ref)"
    "if \<exists>m \<in> set_tree T. ?f m = 0 then \<not> ok \<and> t' = t
     else ok \<and> (\<exists>T' ls rs. avl t' T' \<and> inorder T = ls @ rs \<and> inorder T' = ls @ n # rs \<and>
       (\<forall>m \<in> set ls. ?f m = 1) \<and> (\<forall>m \<in> set rs. ?f m = -1))" by blast
  show ?thesis
  proof (cases "list_ex (\<lambda>m. ?f m = 0) xs")
    case True
    then show ?thesis using ins n tr ex by auto
  next
    case False
    then obtain T' ls rs where r: "ok" "avl t' T'" "xs = ls @ rs" "inorder T' = ls @ n # rs"
      "\<forall>m \<in> set ls. ?f m = 1" "\<forall>m \<in> set rs. ?f m = -1" using ins(2) ex T(2) by auto
    have "takeWhile (\<lambda>m. ?f m = 1) xs = ls \<and> dropWhile (\<lambda>m. ?f m = 1) xs = rs"
      unfolding r(3) by (rule takeWhile_split) (use r(5,6) in auto)
    moreover have "in_order cmp val_of (ls @ n # rs)"
      using tr r(3,5,6) n(2) cmp_swap [of "val_of n"] by (auto simp: tree_of_def in_order_def sorted_wrt_append)
    ultimately show ?thesis using ins(1) r False n tr by (auto simp: tree_of_def)
  qed
qed

end

lemma in_order_find:
  assumes "parted f xs" "m \<in> set xs" "f m = 0"
  shows "List.find (\<lambda>m. f m = 0) xs = Some m"
  using assms by (induction xs) (auto simp: parted_def)

lemma around:
  assumes "n \<in> set xs" "distinct xs"
  obtains as bs where "xs = as @ n # bs" "takeWhile (\<lambda>m. m \<noteq> n) xs = as" "tl (dropWhile (\<lambda>m. m \<noteq> n) xs) = bs" "remove1 n xs = as @ bs"
proof -
  obtain as bs where xs: "xs = as @ n # bs" using assms(1) split_list by metis
  have "takeWhile (\<lambda>m. m \<noteq> n) xs = as \<and> dropWhile (\<lambda>m. m \<noteq> n) xs = n # bs"
    using assms(2) unfolding xs by (auto simp: takeWhile_append dropWhile_append)
  then show thesis using that [OF xs] assms(2) by (simp add: xs remove1_append)
qed

context search_order
begin

lemma tree_remove:
  assumes tr: "tree_of cmp W val_of t xs" and n: "n \<in> set xs"
  shows "\<exists>t'. BAVL_Remove t n = Some t' \<and> tree_of cmp W val_of t' (remove1 n xs)"
proof -
  obtain T where T: "avl t T" "inorder T = xs" "distinct xs" using tr by (auto simp: tree_of_def avl_def shape_def)
  obtain us vs where u: "xs = us @ n # vs" "remove1 n xs = us @ vs" using around [OF n T(3)] by metis
  from Remove_ok [OF T(1), of us n vs] T(2) u(1) obtain t' T' where
    "BAVL_Remove t n = Some t'" "avl t' T'" "inorder T' = us @ vs" by blast
  moreover have "in_order cmp val_of (us @ vs)" "\<forall>n \<in> set (us @ vs). W (val_of n)"
    using tr u(1) by (auto simp: tree_of_def in_order_def sorted_wrt_append)
  ultimately show ?thesis using u(2) by (auto simp: tree_of_def)
qed

lemma tree_lookup:
  assumes tr: "tree_of cmp W val_of t xs" and v: "W v"
  shows "BAVL_LookupExact cmp val_of t v = Some (List.find (\<lambda>m. cmp v (val_of m) = 0) xs)"
proof -
  let ?f = "\<lambda>c. cmp v (val_of c)"
  obtain T where T: "shape t [] T" "inorder T = xs" using tr by (auto simp: tree_of_def avl_def)
  have p: "parted ?f (inorder T)" using tree_parted [OF tr v] T(2) by simp
  from LookupExact_ok [where cmp = cmp and val_of = val_of, OF T(1) p] obtain r where
    r: "BAVL_LookupExact cmp val_of t v = Some r" "case r of Some m \<Rightarrow> m \<in> set_tree T \<and> ?f m = 0
      | None \<Rightarrow> \<forall>m \<in> set_tree T. ?f m \<noteq> 0" by blast
  have "List.find (\<lambda>m. ?f m = 0) xs = r"
  proof (cases r)
    case None
    then have "\<not> (\<exists>m. m \<in> set xs \<and> ?f m = 0)" using r(2) unfolding T(2) [symmetric] by simp
    then show ?thesis using None by (simp add: find_None_iff)
  next
    case (Some m)
    then have "m \<in> set xs" "?f m = 0" using r(2) unfolding T(2) [symmetric] by simp_all
    from in_order_find [OF p [unfolded T(2)] this] Some show ?thesis by simp
  qed
  then show ?thesis using r(1) by simp
qed

end

sublocale search_order \<subseteq> avl_sim: simulation "tree_of cmp W val_of" "avl_step cmp val_of" "olist_step cmp W val_of" for val_of
proof unfold_locales
  fix t xs x ys as
  assume tr: "tree_of cmp W val_of t xs" and st: "olist_step cmp W val_of x xs = Some (ys, as)"
  obtain T where T: "inorder T = xs" "shape t [] T" "distinct xs" using tr by (auto simp: tree_of_def avl_def shape_def)
  have there: "\<exists>us vs. inorder T = us @ n # vs \<and> takeWhile (\<lambda>m. m \<noteq> n) xs = us \<and> tl (dropWhile (\<lambda>m. m \<noteq> n) xs) = vs"
    if "n \<in> set xs" for n using around [OF that T(3)] T(1) by metis
  show "\<exists>t'. avl_step cmp val_of x t = Some (t', as) \<and> tree_of cmp W val_of t' ys"
  proof (cases x)
    case (AvlInsert n)
    then have "n \<notin> set xs" "W (val_of n)" using st by (auto split: if_splits)
    from tree_insert [OF tr this] st AvlInsert show ?thesis by auto
  next
    case (AvlRemove n)
    then show ?thesis using st tree_remove [OF tr, of n] by (auto split: if_splits)
  next
    case (AvlLookupExact v)
    then show ?thesis using st tr tree_lookup [OF tr, of v] by (auto split: if_splits)
  next
    case (AvlNext n)
    then have "n \<in> set xs" using st by (auto split: if_splits)
    from there [OF this] GetNext_ok(1) [OF T(2)] st tr AvlNext \<open>n \<in> set xs\<close> show ?thesis by auto
  next
    case (AvlPrev n)
    then have "n \<in> set xs" using st by (auto split: if_splits)
    from there [OF this] GetNext_ok(2) [OF T(2)] st tr AvlPrev \<open>n \<in> set xs\<close> show ?thesis by auto
  qed (use st tr GetFirst_ok [OF T(2)] T(1) in auto)
qed

context search_order
begin

lemmas avl_run_sim = avl_sim.run_sim

end

text \<open>The order of network addresses is such an order; the trees keyed by addresses use it.\<close>

lemma list_cmp_range: "list_cmp xs ys \<in> {-1, 0, 1}"
  by (induction xs ys rule: list_cmp.induct) (auto simp: B_COMPARE_def of_bool_def)

interpretation addr_order: search_order BAddr_wf BAddr_CompareOrder
proof unfold_locales
  fix a b c
  assume w: "BAddr_wf a" "BAddr_wf b"
  note keys = CompareOrder_key [OF w] CompareOrder_key [OF w(2,1)]
  show "BAddr_CompareOrder a b \<in> {-1, 0, 1}" unfolding keys by (rule list_cmp_range)
  show "BAddr_CompareOrder b a = - BAddr_CompareOrder a b" unfolding keys by (rule list_cmp_swap)
  assume c: "BAddr_wf c" "BAddr_CompareOrder a b \<le> 0" "BAddr_CompareOrder b c \<le> 0"
  then show "BAddr_CompareOrder a c \<le> 0"
    using list_cmp_trans unfolding keys CompareOrder_key [OF w(2) c(1)] CompareOrder_key [OF w(1) c(1)] by blast
qed

section \<open>Depth\<close>

text \<open>The nodes along links from one node down.\<close>

fun link_path :: "'n BAVL \<Rightarrow> 'n list \<Rightarrow> bool" where
  "link_path t (n # m # ns) \<longleftrightarrow> (link t n False = Some m \<or> link t n True = Some m) \<and> link_path t (m # ns)"
| "link_path t _ \<longleftrightarrow> True"

lemma path_height: "rep (parent t) (link t) p (Some n) T \<Longrightarrow> link_path t (n # ns) \<Longrightarrow> length (n # ns) \<le> height T"
proof (induction ns arbitrary: p n T)
  case Nil
  then show ?case by (cases T) auto
next
  case (Cons m ns)
  then obtain l r where T: "T = Node l n r" by (cases T) auto
  then have "rep (parent t) (link t) (Some n) (Some m) l \<or> rep (parent t) (link t) (Some n) (Some m) r" using Cons.prems by auto
  then show ?case using Cons.IH Cons.prems(2) T by fastforce
qed

lemma bal_size: "bal B T \<Longrightarrow> 2 ^ (height T div 2) \<le> size1 T"
proof (induction "height T" arbitrary: T rule: less_induct)
  case less
  show ?case
  proof (cases "height T < 2")
    case True
    then have "height T div 2 = 0" by simp
    then show ?thesis by (simp add: Suc_leI)
  next
    case False
    then obtain l n r where T: "T = Node l n r" by (cases T) auto
    have h: "height T - 2 \<le> height l" "height T - 2 \<le> height r" "bal B l" "bal B r" using less.prems T by auto
    define k where "k = (height T - 2) div 2"
    have "(2 :: nat) ^ k \<le> 2 ^ (height l div 2)" "(2 :: nat) ^ k \<le> 2 ^ (height r div 2)"
      using h unfolding k_def by (auto intro!: power_increasing div_le_mono)
    moreover have "2 ^ (height l div 2) \<le> size1 l" "2 ^ (height r div 2) \<le> size1 r" using less.hyps h T by auto
    ultimately have "2 ^ k \<le> size1 l" "2 ^ k \<le> size1 r" by linarith+
    then have "2 ^ Suc k \<le> size1 T" using T by simp
    moreover have "height T div 2 = Suc k" using False unfolding k_def by linarith
    ultimately show ?thesis by simp
  qed
qed

section \<open>Correctness of the tree\<close>

text \<open>C14: For every order, every sequence of calls that respects the contract (a node is inserted only when it is not in
  the tree, removed or stepped from only when it is) ends, answers as a list in the comparator's order answers, and
  leaves a tree that holds that list in order.\<close>

theorem BAVL_refines_ordered_list:
  assumes "search_order W cmp" "run_ops (olist_step cmp W val_of) ops [] = Some (xs, out)"
  shows "\<exists>t. run_ops (avl_step cmp val_of) ops (BAVL_Init h) = Some (t, out) \<and> tree_of cmp W val_of t xs"
proof -
  have "tree_of cmp W val_of (BAVL_Init h) []"
    by (auto simp: tree_of_def avl_def shape_def BAVL_Init_def in_order_def intro: exI [of _ Leaf])
  from search_order.avl_run_sim [OF assms(1) this assms(2)] show ?thesis .
qed

definition ex_addr :: "nat \<Rightarrow> BAddr" where
  "ex_addr n = BAddr_IPv4 (word_of_nat n) 0"

definition ex_avl_ops :: "(nat, BAddr) avl_op list" where
  "ex_avl_ops = [AvlInsert 3, AvlInsert 1, AvlInsert 2, AvlLookupExact (ex_addr 2), AvlInsert 4, AvlRemove 2, AvlFirst, AvlNext 1, AvlPrev 1]"

definition ex_node :: "nat option \<Rightarrow> nat BAVLNode" where
  "ex_node p = \<lparr>nd_parent = p, nd_link = \<lambda>_. None, nd_balance = 0\<rparr>"

definition ex_avl :: "nat BAVL" where
  "ex_avl = \<lparr>av_heap = (\<lambda>n. if n = 2 then (ex_node None)\<lparr>nd_link := \<lambda>d. Some (if d then 3 else 1)\<rparr> else ex_node (Some 2)), av_root = Some 2\<rparr>"

lemma ex_avl_tree: "tree_of BAddr_CompareOrder BAddr_wf ex_addr ex_avl [1, 2, 3]"
proof -
  let ?T = "Node (Node Leaf 1 Leaf) 2 (Node Leaf (3 :: nat) Leaf)"
  have "avl ex_avl ?T" by (simp add: avl_def shape_def ex_avl_def ex_node_def parent_def link_def balance_def)
  moreover have "in_order BAddr_CompareOrder ex_addr [1, 2, 3]" by code_simp
  ultimately show ?thesis unfolding tree_of_def by (intro conjI exI [of _ ?T]) (auto simp: ex_addr_def BAddr_wf_def)
qed

lemma ex_avl_run: "run_ops (olist_step BAddr_CompareOrder BAddr_wf ex_addr) ex_avl_ops [] =
  Some ([1, 3, 4], [Inserted True, Inserted True, Inserted True, Found (Some 2), Inserted True, Found (Some 1), Found (Some 3), Found None])"
  by code_simp

theorem BAVL_refines_ordered_list_witness:
  "\<exists>t. run_ops (avl_step BAddr_CompareOrder ex_addr) ex_avl_ops (BAVL_Init (\<lambda>_. ex_node None)) =
      Some (t, [Inserted True, Inserted True, Inserted True, Found (Some 2), Inserted True, Found (Some 1), Found (Some 3), Found None]) \<and>
    tree_of BAddr_CompareOrder BAddr_wf ex_addr t [1, 3, 4]"
  using BAVL_refines_ordered_list [OF addr_order.search_order_axioms ex_avl_run] by blast

text \<open>In a tree that holds \<open>n\<close> nodes, no path of links down from the root has more than 2 log (n + 1) + 1 nodes, so that a
  lookup or an insertion makes at most that many comparisons.\<close>

theorem BAVL_path_bound:
  assumes "tree_of cmp W val_of t xs" "av_root t = Some n" "link_path t (n # ns)"
  shows "2 ^ (length (n # ns) div 2) \<le> length xs + 1"
proof -
  obtain T where T: "shape t [] T" "bal (balance t) T" "inorder T = xs" using assms(1) by (auto simp: tree_of_def avl_def)
  have "length (n # ns) \<le> height T" by (rule path_height [OF _ assms(3)]) (use T(1) assms(2) in \<open>auto simp: shape_def\<close>)
  then have "(2 :: nat) ^ (length (n # ns) div 2) \<le> 2 ^ (height T div 2)" by (intro power_increasing div_le_mono) auto
  also have "\<dots> \<le> size1 T" by (rule bal_size [OF T(2)])
  also have "\<dots> = length xs + 1" by (simp add: size1_size T(3) [symmetric])
  finally show ?thesis .
qed

theorem BAVL_path_bound_witness:
  "av_root ex_avl = Some 2 \<and> link_path ex_avl [2, 3] \<and> 2 ^ (length [2 :: nat, 3] div 2) \<le> length [1 :: nat, 2, 3] + 1"
proof -
  have "av_root ex_avl = Some 2" "link_path ex_avl [2, 3]" by (simp_all add: ex_avl_def link_def)
  with BAVL_path_bound [OF ex_avl_tree this] show ?thesis by blast
qed

text \<open>On a tree that is not empty, \<^verbatim>\<open>BAVL_Lookup\<close> returns a node equal to the value, or else the greatest lesser node or the
  smallest greater one.\<close>

theorem BAVL_Lookup_neighbour:
  assumes "search_order W cmp" "tree_of cmp W val_of t xs" "W v" "xs \<noteq> []"
  shows "\<exists>m. BAVL_Lookup cmp val_of t v = Some (Some m) \<and> lookup_spec (\<lambda>c. cmp v (val_of c)) xs m"
proof -
  obtain T where T: "shape t [] T" "inorder T = xs" using assms(2) by (auto simp: tree_of_def avl_def)
  have "parted (\<lambda>c. cmp v (val_of c)) (inorder T)"
    using search_order.tree_parted [OF assms(1-3)] T(2) by simp
  from Lookup_ok [where cmp = cmp and val_of = val_of, OF T(1) this] T(2) assms(4) show ?thesis by (auto split: if_splits)
qed

theorem BAVL_Lookup_neighbour_witness:
  "\<exists>m. BAVL_Lookup BAddr_CompareOrder ex_addr ex_avl (ex_addr 4) = Some (Some m) \<and>
    lookup_spec (\<lambda>c. BAddr_CompareOrder (ex_addr 4) (ex_addr c)) [1, 2, 3] m"
  by (rule BAVL_Lookup_neighbour [OF addr_order.search_order_axioms ex_avl_tree]) (simp_all add: ex_addr_def BAddr_wf_def)

end
