(* ===== verification/Udp_Path.thy ===== *)
theory Udp_Path
  imports Ip_Udp BAddr "HOL-Library.Monad_Syntax"
begin

text \<open>
  The UDP packets of the device: \<^verbatim>\<open>process_device_udp_packet\<close> and \<^verbatim>\<open>udpgw_client_handler_received\<close> of
  \<^verbatim>\<open>tun2socks.c\<close>.  The first turns a packet read from the device into a submission to the UDP client,
  the second builds a packet for the device from a received datagram.
\<close>

unbundle bit_operations_syntax

section \<open>Options\<close>

text \<open>The options the UDP code reads: whether the addresses of the UDP relay, of a DNS relay and of the IPv6
  interface are given, and the MTU of the device.\<close>

record udp_options =
  udpgw_remote_server_addr :: bool
  dnsgw_option :: bool
  netif_ip6addr :: bool
  BTap_GetMTU :: int

text \<open>The part of \<^verbatim>\<open>main\<close> that computes the largest payload.\<close>

definition init_udp_mtu :: "udp_options \<Rightarrow> int" where
  "init_udp_mtu opt =
     (let udp_mtu = BTap_GetMTU opt - (20 + 8);
          udp_ip6_mtu = BTap_GetMTU opt - (40 + 8);
          udp_mtu = (if netif_ip6addr opt \<and> udp_mtu < udp_ip6_mtu then udp_ip6_mtu else udp_mtu)
      in if udp_mtu < 0 then 0 else udp_mtu)"

section \<open>From the device\<close>

text \<open>\<^verbatim>\<open>DnsHeader\<close>, 12 bytes with bit fields from the least significant bit.\<close>

record DnsHeader =
  dns_qr :: bool
  dns_rcode :: byte
  dns_ans_count :: u16
  dns_auth_count :: u16

definition DnsHeader_of :: "byte list \<Rightarrow> DnsHeader" where
  "DnsHeader_of d =
     \<lparr>dns_qr = bit (d ! 2) 7, dns_rcode = d ! 3 AND 0x0F, dns_ans_count = un_le16 (drop 6 d),
      dns_auth_count = un_le16 (drop 8 d)\<rparr>"

definition dns_query :: "byte list \<Rightarrow> bool" where
  "dns_query data =
     (if length data < 12 then False
      else let header = DnsHeader_of data
           in \<not> dns_qr header \<and> dns_rcode header = 0 \<and> dns_ans_count header = 0 \<and> dns_auth_count header = 0)"

text \<open>A submission: local address, remote address, whether it is a DNS query, and the payload.\<close>

type_synonym udp_submission = "BAddr \<times> BAddr \<times> bool \<times> byte list"

definition device_udp_ipv4 :: "udp_options \<Rightarrow> byte list \<Rightarrow> udp_submission option" where
  "device_udp_ipv4 opt data =
     (if length data < 20 \<or> data ! 9 \<noteq> 17 then None
      else do {
        (ipv4_header, off, n) \<leftarrow> ipv4_check data;
        let data = take (nat n) (drop off data);
        (udp_header, off, n) \<leftarrow> udp_check data;
        let data = take (nat n) (drop off data);
        let checksum_in_packet = udp_cksum udp_header;
        let udp_header = udp_header\<lparr>udp_cksum := 0\<rparr>;
        let checksum_computed = udp_checksum udp_header data (of_nat (length data))
              (source_address ipv4_header) (destination_address ipv4_header);
        if checksum_in_packet \<noteq> checksum_computed then None
        else
          (let local_addr = BAddr_MakeIPv4 (source_address ipv4_header) (source_port udp_header);
               remote_addr = BAddr_MakeIPv4 (destination_address ipv4_header) (dest_port udp_header);
               is_dns = (dnsgw_option opt \<and> dest_port udp_header = hton16 53);
               is_dns = (if is_dns then dns_query data else is_dns)
           in Some (local_addr, remote_addr, is_dns, data))
      })"

definition device_udp_ipv6 :: "udp_options \<Rightarrow> byte list \<Rightarrow> udp_submission option" where
  "device_udp_ipv6 opt data =
     (if \<not> netif_ip6addr opt then None
      else if length data < 40 \<or> data ! 6 \<noteq> 17 then None
      else do {
        (ipv6_header, off, n) \<leftarrow> ipv6_check data;
        let data = take (nat n) (drop off data);
        (udp_header, off, n) \<leftarrow> udp_check data;
        let data = take (nat n) (drop off data);
        let checksum_in_packet = udp_cksum udp_header;
        let udp_header = udp_header\<lparr>udp_cksum := 0\<rparr>;
        let checksum_computed = udp_ip6_checksum udp_header data (of_nat (length data))
              (ip6_source_address ipv6_header) (ip6_destination_address ipv6_header);
        if checksum_in_packet \<noteq> checksum_computed then None
        else Some (BAddr_MakeIPv6 (ip6_source_address ipv6_header) (source_port udp_header),
                   BAddr_MakeIPv6 (ip6_destination_address ipv6_header) (dest_port udp_header), False, data)
      })"

text \<open>\<open>None\<close> is the return value 0, with nothing submitted.\<close>

definition process_device_udp_packet :: "udp_options \<Rightarrow> int \<Rightarrow> byte list \<Rightarrow> udp_submission option" where
  "process_device_udp_packet opt udp_mtu data =
     (if \<not> udpgw_remote_server_addr opt then None
      else do {
        let ip_version = (if length data > 0 then drop_bit 4 (data ! 0) else 0);
        (local_addr, remote_addr, is_dns, data) \<leftarrow>
          (if ip_version = 4 then device_udp_ipv4 opt data
           else if ip_version = 6 then device_udp_ipv6 opt data
           else None);
        if int (length data) > udp_mtu then None
        else Some (local_addr, remote_addr, is_dns, data)
      })"

section \<open>To the device\<close>

definition IPV4_MAKE_VERSION_IHL :: "nat \<Rightarrow> byte" where
  "IPV4_MAKE_VERSION_IHL sz = of_nat (sz div 4) + push_bit 4 4"

definition device_ipv4_packet :: "u32 \<Rightarrow> u16 \<Rightarrow> u32 \<Rightarrow> u16 \<Rightarrow> byte list \<Rightarrow> byte list" where
  "device_ipv4_packet remote_ip remote_port local_ip local_port data =
     (let iph = \<lparr>version4_ihl4 = IPV4_MAKE_VERSION_IHL 20, ds = 0, total_length = hton16 (of_nat (20 + 8 + length data)),
            identification = hton16 0, flags3_fragmentoffset13 = hton16 0, ttl = 64, protocol = 17, ip_checksum = hton16 0,
            source_address = remote_ip, destination_address = local_ip\<rparr>;
          iph = iph\<lparr>ip_checksum := ipv4_checksum iph [] 0\<rparr>;
          udph = \<lparr>source_port = remote_port, dest_port = local_port, udp_len = hton16 (of_nat (8 + length data)), udp_cksum = hton16 0\<rparr>;
          udph = udph\<lparr>udp_cksum := udp_checksum udph data (of_nat (length data)) (source_address iph) (destination_address iph)\<rparr>
      in ipv4_header_bytes iph @ udp_header_bytes udph @ data)"

definition device_ipv6_packet :: "byte list \<Rightarrow> u16 \<Rightarrow> byte list \<Rightarrow> u16 \<Rightarrow> byte list \<Rightarrow> byte list" where
  "device_ipv6_packet remote_ip remote_port local_ip local_port data =
     (let iph = \<lparr>version4_tc4 = push_bit 4 6, tc4_fl4 = 0, fl = hton16 0, payload_length = hton16 (of_nat (8 + length data)),
            next_header = 17, hop_limit = 64, ip6_source_address = take 16 remote_ip, ip6_destination_address = take 16 local_ip\<rparr>;
          udph = \<lparr>source_port = remote_port, dest_port = local_port, udp_len = hton16 (of_nat (8 + length data)), udp_cksum = hton16 0\<rparr>;
          udph = udph\<lparr>udp_cksum := udp_ip6_checksum udph data (of_nat (length data)) (ip6_source_address iph) (ip6_destination_address iph)\<rparr>
      in ipv6_header_bytes iph @ udp_header_bytes udph @ data)"

text \<open>The packet given to \<^verbatim>\<open>BTap_Send\<close>; \<open>Some None\<close> when the datagram is dropped, \<open>None\<close> when the arguments break the
  asserted contract.\<close>

definition udpgw_client_handler_received :: "udp_options \<Rightarrow> BAddr \<Rightarrow> BAddr \<Rightarrow> byte list \<Rightarrow> byte list option option" where
  "udpgw_client_handler_received opt local_addr remote_addr data =
     (if \<not> udpgw_remote_server_addr opt then None
      else case (local_addr, remote_addr) of
        (BAddr_IPv4 local_ip local_port, BAddr_IPv4 remote_ip remote_port) \<Rightarrow>
          (if int (length data) > 65535 - (20 + 8) \<or> int (length data) > BTap_GetMTU opt - (20 + 8) then Some None
           else Some (Some (device_ipv4_packet remote_ip remote_port local_ip local_port data)))
      | (BAddr_IPv6 local_ip local_port, BAddr_IPv6 remote_ip remote_port) \<Rightarrow>
          (if \<not> netif_ip6addr opt then Some None
           else if int (length data) > 65535 - 8 \<or> int (length data) > BTap_GetMTU opt - (40 + 8) then Some None
           else Some (Some (device_ipv6_packet remote_ip remote_port local_ip local_port data)))
      | _ \<Rightarrow> None)"

section \<open>Parsing what was built\<close>

lemma uint_of_nat_u16: "n < 65536 \<Longrightarrow> uint (of_nat n :: u16) = int n" "n < 65536 \<Longrightarrow> unat (of_nat n :: u16) = n"
  by (simp_all add: unsigned_of_nat take_bit_eq_mod)

lemma hton16_zero: "hton16 0 = 0"
  by (metis ntoh16_zero hton16_ntoh16)

lemma ipv6_header_of_bytes:
  assumes "length (ip6_source_address h) = 16" "length (ip6_destination_address h) = 16"
  shows "ipv6_header_of (ipv6_header_bytes h @ r) = h" "length (ipv6_header_bytes h) = 40"
  using assms by (simp_all add: ipv6_header_of_def ipv6_header_bytes_def le16_def)
     (simp add: un_layouts_exact [unfolded le16_def, simplified])

lemma header_protocol_byte: "(ipv4_header_bytes h @ r) ! 9 = protocol h" "(ipv6_header_bytes h6 @ r) ! 6 = next_header h6"
  by (simp_all add: ipv4_header_bytes_def ipv6_header_bytes_def le16_def nth_append)

lemma ipv4_check_built:
  assumes "h = h0\<lparr>ip_checksum := ipv4_checksum h0 [] 0\<rparr>" "ip_checksum h0 = hton16 0"
    "version4_ihl4 h0 = IPV4_MAKE_VERSION_IHL 20" "total_length h0 = hton16 (of_nat (20 + length r))" "length r \<le> 65515"
  shows "ipv4_check (ipv4_header_bytes h @ r) = Some (h, 20, int (length r))"
proof -
  have v: "IPV4_MAKE_VERSION_IHL 20 = 0x45" by (simp add: IPV4_MAKE_VERSION_IHL_def)
  have "uint (ntoh16 (total_length h)) = 20 + int (length r)"
    using assms(1,4,5) uint_of_nat_u16(1) [of "20 + length r"] by simp
  moreover have "IPV4_GET_VERSION h = 4" "IPV4_GET_IHL h = 5"
    using assms(1,3) v by (simp_all add: IPV4_GET_VERSION_def IPV4_GET_IHL_def)
  moreover have "h\<lparr>ip_checksum := hton16 0\<rparr> = h0" using assms(1,2) by (simp add: ipv4_header.equality)
  moreover have "ipv4_checksum h0 r 0 = ipv4_checksum h0 [] 0" by (simp add: ipv4_checksum_def)
  ultimately show ?thesis using assms(1) by (simp add: ipv4_check_def Let_def)
qed

lemma udp_check_built:
  assumes "udp_len h = hton16 (of_nat (8 + length r))" "length r \<le> 65527"
  shows "udp_check (udp_header_bytes h @ r) = Some (h, 8, int (length r))"
proof -
  have "uint (ntoh16 (udp_len h)) = 8 + int (length r)" using assms uint_of_nat_u16(1) [of "8 + length r"] by simp
  then show ?thesis by (simp add: udp_check_def Let_def)
qed

lemma ipv6_check_built:
  assumes "length (ip6_source_address h) = 16" "length (ip6_destination_address h) = 16" "version4_tc4 h = push_bit 4 6"
    "payload_length h = hton16 (of_nat (length r))" "length r \<le> 65535"
  shows "ipv6_check (ipv6_header_bytes h @ r) = Some (h, 40, int (length r))"
proof -
  have "uint (ntoh16 (payload_length h)) = int (length r)" using assms(4,5) uint_of_nat_u16(1) [of "length r"] by simp
  moreover have "uint (drop_bit 4 (version4_tc4 h)) = 6" using assms(3) by simp
  ultimately show ?thesis using ipv6_header_of_bytes [OF assms(1,2)] by (simp add: ipv6_check_def Let_def)
qed

lemma device_ipv4_roundtrip:
  assumes "length data \<le> 65507"
  shows "device_udp_ipv4 opt (device_ipv4_packet remote_ip remote_port local_ip local_port data) =
    Some (BAddr_IPv4 remote_ip remote_port, BAddr_IPv4 local_ip local_port,
      dnsgw_option opt \<and> local_port = hton16 53 \<and> dns_query data, data)"
proof -
  define iph0 where "iph0 = \<lparr>version4_ihl4 = IPV4_MAKE_VERSION_IHL 20, ds = 0, total_length = hton16 (of_nat (20 + 8 + length data)),
    identification = hton16 0, flags3_fragmentoffset13 = hton16 0, ttl = 64, protocol = 17, ip_checksum = hton16 0,
    source_address = remote_ip, destination_address = local_ip\<rparr>"
  define iph where "iph = iph0\<lparr>ip_checksum := ipv4_checksum iph0 [] 0\<rparr>"
  define udph0 where "udph0 = \<lparr>source_port = remote_port, dest_port = local_port, udp_len = hton16 (of_nat (8 + length data)), udp_cksum = hton16 0\<rparr>"
  define udph where "udph = udph0\<lparr>udp_cksum := udp_checksum udph0 data (of_nat (length data)) remote_ip local_ip\<rparr>"
  have pkt: "device_ipv4_packet remote_ip remote_port local_ip local_port data = ipv4_header_bytes iph @ udp_header_bytes udph @ data"
    unfolding device_ipv4_packet_def Let_def iph_def iph0_def udph_def udph0_def by (simp only: ipv4_header.select_convs ipv4_header.update_convs)
  have "ip_checksum iph0 = hton16 0" "version4_ihl4 iph0 = IPV4_MAKE_VERSION_IHL 20"
    "total_length iph0 = hton16 (of_nat (20 + length (udp_header_bytes udph @ data)))" by (simp_all add: iph0_def)
  from ipv4_check_built [OF iph_def this] assms
  have chk: "ipv4_check (ipv4_header_bytes iph @ udp_header_bytes udph @ data) = Some (iph, 20, int (8 + length data))" by simp
  have "udp_len udph = hton16 (of_nat (8 + length data))" by (simp add: udph_def udph0_def)
  from udp_check_built [OF this] assms
  have uchk: "udp_check (udp_header_bytes udph @ data) = Some (udph, 8, int (length data))" by simp
  have pr: "(ipv4_header_bytes iph @ udp_header_bytes udph @ data) ! 9 = 17"
    by (simp only: header_protocol_byte) (simp add: iph_def iph0_def)
  have z: "udph\<lparr>udp_cksum := 0\<rparr> = udph0" by (simp add: udph_def udph0_def hton16_zero)
  have nat8: "nat (int (8 + length data)) = 8 + length data" by simp
  have fields: "source_port udph0 = remote_port" "dest_port udph0 = local_port" "source_address iph = remote_ip"
    "destination_address iph = local_ip" "udp_cksum udph = udp_checksum udph0 data (of_nat (length data)) remote_ip local_ip"
    by (simp_all add: iph_def iph0_def udph_def udph0_def)
  have pieces: "take (8 + length data) (drop 20 (ipv4_header_bytes iph @ udp_header_bytes udph @ data)) = udp_header_bytes udph @ data"
    "take (nat (int (length data))) (drop 8 (udp_header_bytes udph @ data)) = data"
    "\<not> length (ipv4_header_bytes iph @ udp_header_bytes udph @ data) < 20" by simp_all
  show ?thesis unfolding pkt device_udp_ipv4_def Let_def
    by (simp only: chk uchk pr z nat8 fields pieces bind.bind_lunit prod.case BAddr_MakeIPv4_def if_False simp_thms) auto
qed

lemma device_ipv6_roundtrip:
  assumes "length data \<le> 65527" "length remote_ip = 16" "length local_ip = 16" "netif_ip6addr opt"
  shows "device_udp_ipv6 opt (device_ipv6_packet remote_ip remote_port local_ip local_port data) =
    Some (BAddr_IPv6 remote_ip remote_port, BAddr_IPv6 local_ip local_port, False, data)"
proof -
  define iph where "iph = \<lparr>version4_tc4 = push_bit 4 6, tc4_fl4 = 0, fl = hton16 0, payload_length = hton16 (of_nat (8 + length data)),
    next_header = 17, hop_limit = 64, ip6_source_address = remote_ip, ip6_destination_address = local_ip\<rparr>"
  define udph0 where "udph0 = \<lparr>source_port = remote_port, dest_port = local_port, udp_len = hton16 (of_nat (8 + length data)), udp_cksum = hton16 0\<rparr>"
  define udph where "udph = udph0\<lparr>udp_cksum := udp_ip6_checksum udph0 data (of_nat (length data)) remote_ip local_ip\<rparr>"
  have pkt: "device_ipv6_packet remote_ip remote_port local_ip local_port data = ipv6_header_bytes iph @ udp_header_bytes udph @ data"
    unfolding device_ipv6_packet_def Let_def iph_def udph_def udph0_def
    using assms(2,3) by (simp only: ipv6_header.select_convs take_all order_refl)
  have ip: "length (ip6_source_address iph) = 16" "length (ip6_destination_address iph) = 16" using assms(2,3) by (simp_all add: iph_def)
  have "version4_tc4 iph = push_bit 4 6" "payload_length iph = hton16 (of_nat (length (udp_header_bytes udph @ data)))"
    by (simp_all add: iph_def)
  from ipv6_check_built [OF ip this] assms(1)
  have chk: "ipv6_check (ipv6_header_bytes iph @ udp_header_bytes udph @ data) = Some (iph, 40, int (8 + length data))" by simp
  have "udp_len udph = hton16 (of_nat (8 + length data))" by (simp add: udph_def udph0_def)
  from udp_check_built [OF this] assms(1)
  have uchk: "udp_check (udp_header_bytes udph @ data) = Some (udph, 8, int (length data))" by simp
  have pr: "(ipv6_header_bytes iph @ udp_header_bytes udph @ data) ! 6 = 17"
    by (simp only: header_protocol_byte) (simp add: iph_def)
  have z: "udph\<lparr>udp_cksum := 0\<rparr> = udph0" by (simp add: udph_def udph0_def hton16_zero)
  have nat8: "nat (int (8 + length data)) = 8 + length data" by simp
  have fields: "source_port udph0 = remote_port" "dest_port udph0 = local_port" "ip6_source_address iph = remote_ip"
    "ip6_destination_address iph = local_ip" "udp_cksum udph = udp_ip6_checksum udph0 data (of_nat (length data)) remote_ip local_ip"
    by (simp_all add: iph_def udph_def udph0_def)
  have pieces: "take (8 + length data) (drop 40 (ipv6_header_bytes iph @ udp_header_bytes udph @ data)) = udp_header_bytes udph @ data"
    "take (nat (int (length data))) (drop 8 (udp_header_bytes udph @ data)) = data"
    "\<not> length (ipv6_header_bytes iph @ udp_header_bytes udph @ data) < 40" using ipv6_header_of_bytes(2) [OF ip] by simp_all
  show ?thesis unfolding pkt device_udp_ipv6_def Let_def
    by (simp only: chk uchk pr z nat8 fields pieces bind.bind_lunit prod.case BAddr_MakeIPv6_def if_False simp_thms assms(4))
       (simp add: assms(2,3))
qed

section \<open>What is accepted\<close>

lemma udp_header_bytes_of: "8 \<le> length d \<Longrightarrow> udp_header_bytes (udp_header_of d) = take 8 d"
  by (auto simp: eval_nat_numeral Suc_le_length_iff udp_header_bytes_def udp_header_of_def le16_un_le16)

lemma udp_check_payload:
  assumes "udp_check e = Some (h, off, n)"
  shows "\<exists>suf. e = udp_header_bytes h @ take (nat n) (drop off e) @ suf" "length (take (nat n) (drop off e)) < 65536"
proof -
  have "uint (ntoh16 (udp_len (udp_header_of e))) < 65536" by (rule less_le_trans [OF uint_lt2p]) simp
  then have n: "off = 8" "0 \<le> n" "n < 65536" "8 + n \<le> int (length e)" "h = udp_header_of e"
    using assms by (auto simp: udp_check_def Let_def split: if_splits)
  then have "8 + nat n \<le> length e" by linarith
  then have "e = take 8 e @ take (nat n) (drop 8 e) @ drop (8 + nat n) e"
    by (metis append_take_drop_id drop_drop add.commute)
  moreover have "udp_header_bytes h = take 8 e" using n udp_header_bytes_of [of e] by simp
  ultimately show "\<exists>suf. e = udp_header_bytes h @ take (nat n) (drop off e) @ suf" using n(1) by metis
  show "length (take (nat n) (drop off e)) < 65536" using n by auto
qed

lemma udp_checksum_covered:
  assumes "udp_cksum h = udp_checksum (h\<lparr>udp_cksum := 0\<rparr>) data (of_nat (length data)) src dst" "length data < 65536"
  shows "65535 dvd sum16 (udp4_covered h data src dst)"
proof -
  have "length data = unat (of_nat (length data) :: u16)" using uint_of_nat_u16(2) [OF assms(2)] by simp
  from udp_checksum_value [OF this, of "h\<lparr>udp_cksum := 0\<rparr>" src dst]
  have "unat (ntoh16 (udp_cksum h)) = 65535 - ocsum (sum16 (udp4_covered (h\<lparr>udp_cksum := 0\<rparr>) data src dst))"
    using assms(1) by simp
  then show ?thesis using complement_iff [OF sum16_udp4_covered(2) unat_u16_less] sum16_udp4_covered(1) [of h data src dst] by metis
qed

lemma udp_ip6_checksum_covered:
  assumes "udp_cksum h = udp_ip6_checksum (h\<lparr>udp_cksum := 0\<rparr>) data (of_nat (length data)) src dst" "length data < 65536"
    and ip: "length src = 16" "length dst = 16"
  shows "65535 dvd sum16 (udp6_covered h data src dst)"
proof -
  have "length data = unat (of_nat (length data) :: u16)" using uint_of_nat_u16(2) [OF assms(2)] by simp
  from udp_ip6_checksum_value [OF this ip, of "h\<lparr>udp_cksum := 0\<rparr>"]
  have "unat (ntoh16 (udp_cksum h)) = 65535 - ocsum (sum16 (udp6_covered (h\<lparr>udp_cksum := 0\<rparr>) data src dst))"
    using assms(1) by simp
  then show ?thesis using complement_iff [OF sum16_udp6_covered(2) [OF ip] unat_u16_less] sum16_udp6_covered(1) [OF ip, of h data] by metis
qed

lemma device_udp_ipv4_sound:
  assumes "device_udp_ipv4 opt d = Some (l, r, dns, data)"
  shows "\<exists>sip dip h pre suf. l = BAddr_IPv4 sip (source_port h) \<and> r = BAddr_IPv4 dip (dest_port h) \<and>
    d = pre @ udp_header_bytes h @ data @ suf \<and> 20 \<le> length pre \<and> 65535 dvd sum16 (udp4_covered h data sip dip) \<and>
    (dns \<longleftrightarrow> dnsgw_option opt \<and> dest_port h = hton16 53 \<and> dns_query data)"
proof -
  from assms obtain ih off n uh off2 n2 where c: "ipv4_check d = Some (ih, off, n)" "udp_check (take (nat n) (drop off d)) = Some (uh, off2, n2)"
    "data = take (nat n2) (drop off2 (take (nat n) (drop off d)))"
    "udp_cksum uh = udp_checksum (uh\<lparr>udp_cksum := 0\<rparr>) data (of_nat (length data)) (source_address ih) (destination_address ih)"
    "l = BAddr_IPv4 (source_address ih) (source_port uh)" "r = BAddr_IPv4 (destination_address ih) (dest_port uh)"
    "dns \<longleftrightarrow> dnsgw_option opt \<and> dest_port uh = hton16 53 \<and> dns_query data"
  proof -
    obtain ih off n where 1: "ipv4_check d = Some (ih, off, n)"
      using assms by (cases "ipv4_check d") (auto simp: device_udp_ipv4_def split: if_split_asm)
    define e where "e = take (nat n) (drop off d)"
    obtain uh off2 n2 where 2: "udp_check e = Some (uh, off2, n2)"
      using assms 1 by (cases "udp_check e") (auto simp: device_udp_ipv4_def e_def [symmetric] split: if_split_asm)
    define data' where "data' = take (nat n2) (drop off2 e)"
    show ?thesis using assms 1 2
      by (intro that [of ih off n uh off2 n2])
         (auto simp: device_udp_ipv4_def e_def [symmetric] data'_def [symmetric] Let_def BAddr_MakeIPv4_def simp del: length_take length_drop split: if_split_asm)
  qed
  have off: "20 \<le> off" "off \<le> length d" using c(1) unfolding ipv4_check_iff by auto
  obtain suf where "take (nat n) (drop off d) = udp_header_bytes uh @ data @ suf" using udp_check_payload(1) [OF c(2)] c(3) by auto
  then have "d = take off d @ udp_header_bytes uh @ data @ (suf @ drop (nat n) (drop off d))"
    by (metis append_take_drop_id append.assoc)
  moreover have "65535 dvd sum16 (udp4_covered uh data (source_address ih) (destination_address ih))"
    using udp_checksum_covered [OF c(4)] udp_check_payload(2) [OF c(2)] c(3) by simp
  moreover have "20 \<le> length (take off d)" using off by simp
  ultimately show ?thesis using c(5-7) by blast
qed

lemma device_udp_ipv6_sound:
  assumes "device_udp_ipv6 opt d = Some (l, r, dns, data)"
  shows "\<exists>sip dip h pre suf. l = BAddr_IPv6 sip (source_port h) \<and> r = BAddr_IPv6 dip (dest_port h) \<and> length sip = 16 \<and> length dip = 16 \<and>
    d = pre @ udp_header_bytes h @ data @ suf \<and> length pre = 40 \<and> 65535 dvd sum16 (udp6_covered h data sip dip) \<and> \<not> dns"
proof -
  from assms obtain ih off n uh off2 n2 where c: "ipv6_check d = Some (ih, off, n)" "udp_check (take (nat n) (drop off d)) = Some (uh, off2, n2)"
    "data = take (nat n2) (drop off2 (take (nat n) (drop off d)))"
    "udp_cksum uh = udp_ip6_checksum (uh\<lparr>udp_cksum := 0\<rparr>) data (of_nat (length data)) (ip6_source_address ih) (ip6_destination_address ih)"
    "l = BAddr_MakeIPv6 (ip6_source_address ih) (source_port uh)" "r = BAddr_MakeIPv6 (ip6_destination_address ih) (dest_port uh)" "\<not> dns"
  proof -
    obtain ih off n where 1: "ipv6_check d = Some (ih, off, n)"
      using assms by (cases "ipv6_check d") (auto simp: device_udp_ipv6_def split: if_split_asm)
    define e where "e = take (nat n) (drop off d)"
    obtain uh off2 n2 where 2: "udp_check e = Some (uh, off2, n2)"
      using assms 1 by (cases "udp_check e") (auto simp: device_udp_ipv6_def e_def [symmetric] split: if_split_asm)
    define data' where "data' = take (nat n2) (drop off2 e)"
    show ?thesis using assms 1 2
      by (intro that [of ih off n uh off2 n2])
         (auto simp: device_udp_ipv6_def e_def [symmetric] data'_def [symmetric] Let_def simp del: length_take length_drop split: if_split_asm)
  qed
  have off: "off = 40" "40 \<le> length d" and ip: "length (ip6_source_address ih) = 16" "length (ip6_destination_address ih) = 16"
    using c(1) by (auto simp: ipv6_check_def Let_def ipv6_header_of_def split: if_splits)
  obtain suf where "take (nat n) (drop off d) = udp_header_bytes uh @ data @ suf" using udp_check_payload(1) [OF c(2)] c(3) by auto
  then have "d = take off d @ udp_header_bytes uh @ data @ (suf @ drop (nat n) (drop off d))"
    by (metis append_take_drop_id append.assoc)
  moreover have "65535 dvd sum16 (udp6_covered uh data (ip6_source_address ih) (ip6_destination_address ih))"
    using udp_ip6_checksum_covered [OF c(4) _ ip] udp_check_payload(2) [OF c(2)] c(3) by simp
  moreover have "length (take off d) = 40" using off by simp
  moreover have "l = BAddr_IPv6 (ip6_source_address ih) (source_port uh)" "r = BAddr_IPv6 (ip6_destination_address ih) (dest_port uh)"
    using c(5,6) ip by (simp_all add: BAddr_MakeIPv6_def)
  ultimately show ?thesis using ip c(7) by blast
qed

section \<open>Correctness of the UDP path\<close>

text \<open>C16: A datagram that \<^verbatim>\<open>udpgw_client_handler_received\<close> writes to the device fits its MTU, and is a UDP packet that
  \<^verbatim>\<open>process_device_udp_packet\<close> accepts, with valid checksums: it is read back with the remote address as the source,
  the local address as the destination, and the same payload.\<close>

theorem device_udp_roundtrip:
  assumes "udpgw_client_handler_received opt local_addr remote_addr data = Some (Some pkt)" "BAddr_wf local_addr" "BAddr_wf remote_addr"
  shows "process_device_udp_packet opt (init_udp_mtu opt) pkt =
      Some (remote_addr, local_addr, BAddr_type local_addr = 1 \<and> dnsgw_option opt \<and> BAddr_GetPort local_addr = hton16 53 \<and> dns_query data, data) \<and>
    int (length pkt) \<le> BTap_GetMTU opt"
proof -
  have on: "udpgw_remote_server_addr opt" using assms(1) by (simp add: udpgw_client_handler_received_def split: if_splits)
  have ver: "drop_bit 4 ((ipv4_header_bytes h @ r) ! 0) = drop_bit 4 (version4_ihl4 h)"
    "drop_bit 4 ((ipv6_header_bytes h6 @ r) ! 0) = drop_bit 4 (version4_tc4 h6)" for h h6 r
    by (simp_all add: ipv4_header_bytes_def ipv6_header_bytes_def)
  show ?thesis
  proof (cases local_addr)
    case l: (BAddr_IPv4 lip lp)
    then obtain rip rp where r: "remote_addr = BAddr_IPv4 rip rp" and n: "length data \<le> 65507" "int (length data) \<le> BTap_GetMTU opt - 28"
      and pkt: "pkt = device_ipv4_packet rip rp lip lp data"
      using assms(1) on by (cases remote_addr) (auto simp: udpgw_client_handler_received_def split: if_splits)
    have "drop_bit 4 (pkt ! 0) = 4" "length pkt = 28 + length data"
      by (simp_all add: pkt device_ipv4_packet_def Let_def ver IPV4_MAKE_VERSION_IHL_def)
    moreover have "int (length data) \<le> init_udp_mtu opt" using n(2) by (auto simp: init_udp_mtu_def Let_def)
    ultimately show ?thesis using device_ipv4_roundtrip [OF n(1), of opt rip rp lip lp] on n(2)
      by (simp add: process_device_udp_packet_def pkt [symmetric] l r BAddr_type_def BAddr_GetPort_def)
  next
    case l: (BAddr_IPv6 lip lp)
    then obtain rip rp where r: "remote_addr = BAddr_IPv6 rip rp" and n: "length data \<le> 65527" "int (length data) \<le> BTap_GetMTU opt - 48"
      and pkt: "pkt = device_ipv6_packet rip rp lip lp data" and on6: "netif_ip6addr opt"
      using assms(1) on by (cases remote_addr) (auto simp: udpgw_client_handler_received_def split: if_splits)
    have ip: "length lip = 16" "length rip = 16" using assms(2,3) l r by (simp_all add: BAddr_wf_def)
    have "drop_bit 4 (pkt ! 0) = 6" by (simp add: pkt device_ipv6_packet_def Let_def ver)
    moreover have "length pkt = 48 + length data"
      using ip ipv6_header_of_bytes(2) by (simp add: pkt device_ipv6_packet_def Let_def)
    moreover have "int (length data) \<le> init_udp_mtu opt" using n(2) by (auto simp: init_udp_mtu_def Let_def)
    ultimately show ?thesis using device_ipv6_roundtrip [OF n(1) ip(2,1) on6, of rp lp] on n(2)
      by (simp add: process_device_udp_packet_def pkt [symmetric] l r BAddr_type_def)
  qed (use assms(1) on in \<open>auto simp: udpgw_client_handler_received_def split: if_splits\<close>)
qed

definition ex_udp_options :: udp_options where
  "ex_udp_options = \<lparr>udpgw_remote_server_addr = True, dnsgw_option = True, netif_ip6addr = False, BTap_GetMTU = 1500\<rparr>"

theorem device_udp_roundtrip_witness:
  "\<exists>pkt. udpgw_client_handler_received ex_udp_options (BAddr_IPv4 0x0100000A (hton16 5000)) (BAddr_IPv4 0x08080808 (hton16 53)) [1, 2, 3] =
      Some (Some pkt) \<and>
    process_device_udp_packet ex_udp_options 1472 pkt =
      Some (BAddr_IPv4 0x08080808 (hton16 53), BAddr_IPv4 0x0100000A (hton16 5000), False, [1, 2, 3]) \<and> int (length pkt) \<le> 1500"
proof -
  let ?l = "BAddr_IPv4 0x0100000A (hton16 5000)" and ?r = "BAddr_IPv4 0x08080808 (hton16 53)"
  have *: "udpgw_client_handler_received ex_udp_options ?l ?r [1, 2, 3] = Some (Some (device_ipv4_packet 0x08080808 (hton16 53) 0x0100000A (hton16 5000) [1, 2, 3]))"
    by (simp add: udpgw_client_handler_received_def ex_udp_options_def)
  have "init_udp_mtu ex_udp_options = 1472" "BTap_GetMTU ex_udp_options = 1500" "\<not> dns_query [1, 2, 3]"
    by (simp_all add: init_udp_mtu_def ex_udp_options_def dns_query_def)
  with device_udp_roundtrip [OF *] * show ?thesis by (simp add: BAddr_wf_def)
qed

text \<open>C17: What \<^verbatim>\<open>process_device_udp_packet\<close> submits respects the contract of the UDP client: both addresses are IPv4 or both IPv6,
  the payload is a piece of the packet right behind a UDP header with those ports and is at most the MTU long, and
  the Internet checksum over pseudo header, header and payload is valid.  It is marked as DNS only for an IPv4 query
  to port 53 when a DNS relay is given.\<close>

theorem device_udp_sound:
  assumes "process_device_udp_packet opt udp_mtu d = Some (local_addr, remote_addr, is_dns, data)"
  shows "\<exists>h pre suf. d = pre @ udp_header_bytes h @ data @ suf \<and> int (length data) \<le> udp_mtu \<and>
    BAddr_wf local_addr \<and> BAddr_wf remote_addr \<and> BAddr_GetPort local_addr = source_port h \<and> BAddr_GetPort remote_addr = dest_port h \<and>
    (is_dns \<longrightarrow> dnsgw_option opt \<and> dest_port h = hton16 53 \<and> dns_query data \<and> BAddr_type local_addr = 1) \<and>
    ((\<exists>sip dip. local_addr = BAddr_IPv4 sip (source_port h) \<and> remote_addr = BAddr_IPv4 dip (dest_port h) \<and>
        65535 dvd sum16 (udp4_covered h data sip dip)) \<or>
     (\<exists>sip dip. local_addr = BAddr_IPv6 sip (source_port h) \<and> remote_addr = BAddr_IPv6 dip (dest_port h) \<and>
        65535 dvd sum16 (udp6_covered h data sip dip)))"
proof -
  have mtu: "int (length data) \<le> udp_mtu" and cases: "device_udp_ipv4 opt d = Some (local_addr, remote_addr, is_dns, data) \<or>
      device_udp_ipv6 opt d = Some (local_addr, remote_addr, is_dns, data)"
    using assms by (auto simp: process_device_udp_packet_def Let_def split: if_splits Option.bind_splits)
  from cases show ?thesis
  proof
    assume "device_udp_ipv4 opt d = Some (local_addr, remote_addr, is_dns, data)"
    from device_udp_ipv4_sound [OF this] mtu show ?thesis by (fastforce simp: BAddr_wf_def BAddr_GetPort_def BAddr_type_def)
  next
    assume "device_udp_ipv6 opt d = Some (local_addr, remote_addr, is_dns, data)"
    from device_udp_ipv6_sound [OF this] mtu show ?thesis by (fastforce simp: BAddr_wf_def BAddr_GetPort_def)
  qed
qed

lemma ex_device_packet:
  "process_device_udp_packet ex_udp_options 1472 (device_ipv4_packet 0x08080808 (hton16 53) 0x0100000A (hton16 5000) [1, 2, 3]) =
    Some (BAddr_IPv4 0x08080808 (hton16 53), BAddr_IPv4 0x0100000A (hton16 5000), False, [1, 2, 3])"
proof -
  have "drop_bit 4 (device_ipv4_packet 0x08080808 (hton16 53) 0x0100000A (hton16 5000) [1, 2, 3] ! 0) = 4"
    by (simp add: device_ipv4_packet_def ipv4_header_bytes_def Let_def IPV4_MAKE_VERSION_IHL_def)
  moreover have "device_ipv4_packet 0x08080808 (hton16 53) 0x0100000A (hton16 5000) [1, 2, 3] \<noteq> []"
    by (simp add: device_ipv4_packet_def ipv4_header_bytes_def Let_def)
  ultimately show ?thesis
    using device_ipv4_roundtrip [of "[1, 2, 3]" ex_udp_options "0x08080808" "hton16 53" "0x0100000A" "hton16 5000"]
    by (simp add: process_device_udp_packet_def Let_def dns_query_def) (simp add: ex_udp_options_def)
qed

theorem device_udp_sound_witness:
  "\<exists>h pre suf. device_ipv4_packet 0x08080808 (hton16 53) 0x0100000A (hton16 5000) [1, 2, 3] = pre @ udp_header_bytes h @ [1, 2, 3] @ suf \<and>
    hton16 53 = source_port h \<and> hton16 5000 = dest_port h \<and> 65535 dvd sum16 (udp4_covered h [1, 2, 3] 0x08080808 0x0100000A)"
  using device_udp_sound [OF ex_device_packet] by (auto simp: BAddr_GetPort_def)

end
