(* ===== verification/Socks_Udp.thy ===== *)
theory Socks_Udp
  imports BAVL_Tree Linked_Lists "HOL-Library.Monad_Syntax"
begin

text \<open>
  The UDP client of \<^verbatim>\<open>tun2socks/SocksUdpGwClient.c\<close> in its Android build: one datagram socket per local address, in a
  table of bounded size, found through an AVL tree and ordered by use in a linked list.  The
  theory composes the models of both structures.  Sockets, buffers and memory are the
  environment: their answers are arguments of the operations, and what is given to them is observed.
\<close>

section \<open>State\<close>

record SocksUdpGwClient_conaddr =
  local_addr :: BAddr
  remote_addr :: BAddr

text \<open>\<open>con_dest\<close> is the address set with \<^verbatim>\<open>BDatagram_SetSendAddrs\<close> on the socket of the connection.\<close>

record SocksUdpGwClient_connection =
  conaddr :: SocksUdpGwClient_conaddr
  first_data :: "byte list"
  is_dns :: bool
  con_dest :: BAddr

text \<open>Connections are addressed by \<open>'c\<close>; \<open>cl_mem\<close> is the memory they are allocated in, \<open>cl_jobs\<close> the pending first jobs,
  the next to run first.\<close>

record 'c SocksUdpGwClient =
  udp_mtu :: int
  socks_server_addr :: BAddr
  dnsgw :: BAddr
  udpgw_mtu :: int
  num_connections :: int
  max_connections :: int
  connections_tree :: "'c BAVL"
  list_links :: "'c links"
  connections_list :: "'c LinkedList1"
  cl_mem :: "'c \<Rightarrow> SocksUdpGwClient_connection option"
  cl_jobs :: "'c list"

text \<open>What the environment sees: a datagram written to the buffer of a socket, for a destination, and a
  datagram handed to the user.\<close>

datatype 'c udp_event = UdpSent 'c BAddr "byte list" | UdpReceived BAddr BAddr "byte list"

definition conaddr_of :: "'c SocksUdpGwClient \<Rightarrow> 'c \<Rightarrow> SocksUdpGwClient_conaddr" where
  "conaddr_of s con = (case cl_mem s con of Some k \<Rightarrow> conaddr k | None \<Rightarrow> \<lparr>local_addr = BAddr_None, remote_addr = BAddr_None\<rparr>)"

section \<open>The protocol\<close>

definition udpgw_compute_mtu :: "int \<Rightarrow> int" where
  "udpgw_compute_mtu dgram_mtu = (case bsize_toint (bsize_add (bsize_fromsize 4) (bsize_add (bsize_max (bsize_fromsize 6) (bsize_fromsize 18)) (bsize_fromint dgram_mtu))) of
     Some s \<Rightarrow> s | None \<Rightarrow> -1)"

text \<open>\<^verbatim>\<open>struct socks_udp_header\<close> and the address behind it, as \<^verbatim>\<open>connection_send\<close> writes them.\<close>

definition udp_prefix :: "BAddr \<Rightarrow> byte list" where
  "udp_prefix addr =
     (let header = le16 0 @ [0, if BAddr_type addr = 1 then 1 else 4]
      in case addr of
           BAddr_IPv4 ip port \<Rightarrow> header @ le32 ip @ le16 port
         | BAddr_IPv6 ip port \<Rightarrow> header @ ip @ le16 port
         | _ \<Rightarrow> header)"

text \<open>The address and the payload of a datagram, as \<^verbatim>\<open>dgram_handler_received\<close> reads them.\<close>

definition parse_udp_prefix :: "byte list \<Rightarrow> (BAddr \<times> byte list) option" where
  "parse_udp_prefix data =
     (if length data < 4 then None
      else let frag = data ! 2; atyp = data ! 3; data = drop 4 data in
      if frag \<noteq> 0 then None
      else if atyp = 4 then
        (if length data < 18 then None
         else Some (BAddr_MakeIPv6 (take 16 data) (un_le16 (drop 16 data)), drop 18 data))
      else
        (if length data < 6 then None
         else Some (BAddr_MakeIPv4 (un_le32 data) (un_le16 (drop 4 data)), drop 6 data)))"

section \<open>Operations\<close>

text \<open>\<open>None\<close> is an access to a connection that is not allocated, or a broken assertion.\<close>

definition conaddr_comparator :: "SocksUdpGwClient_conaddr \<Rightarrow> SocksUdpGwClient_conaddr \<Rightarrow> int" where
  "conaddr_comparator v1 v2 = BAddr_CompareOrder (local_addr v1) (local_addr v2)"

text \<open>The test \<^verbatim>\<open>!con && con->is_dns != is_dns\<close> starts with the address of an object, which is not null.\<close>

definition find_connection :: "'c SocksUdpGwClient \<Rightarrow> SocksUdpGwClient_conaddr \<Rightarrow> bool \<Rightarrow> 'c option option" where
  "find_connection s ca dns = do {
     tree_node \<leftarrow> BAVL_LookupExact conaddr_comparator (conaddr_of s) (connections_tree s) ca;
     case tree_node of
       None \<Rightarrow> Some None
     | Some con \<Rightarrow> do {
         k \<leftarrow> cl_mem s con;
         if False \<and> is_dns k \<noteq> dns then Some None else Some (Some con)
       }
   }"

text \<open>\<open>room\<close>: whether \<^verbatim>\<open>BufferWriter_StartPacket\<close> finds room.  The result is false when the packet was dropped.\<close>

definition connection_send :: "'c SocksUdpGwClient \<Rightarrow> 'c \<Rightarrow> byte list \<Rightarrow> bool \<Rightarrow> (bool \<times> 'c udp_event list) option" where
  "connection_send s con data room = do {
     k \<leftarrow> cl_mem s con;
     if \<not> room then Some (False, [])
     else
       (let out = (if is_dns k then [] else udp_prefix (remote_addr (conaddr k)))
        in Some (True, [UdpSent con (con_dest k) (out @ data)]))
   }"

definition connection_first_job_handler :: "'c SocksUdpGwClient \<Rightarrow> 'c \<Rightarrow> bool \<Rightarrow> 'c udp_event list option" where
  "connection_first_job_handler s con room = do {
     k \<leftarrow> cl_mem s con;
     (_, out) \<leftarrow> connection_send s con (first_data k) room;
     Some out
   }"

definition connection_free :: "'c SocksUdpGwClient \<Rightarrow> 'c \<Rightarrow> 'c SocksUdpGwClient option" where
  "connection_free s con = do {
     k \<leftarrow> cl_mem s con;
     let s = s\<lparr>num_connections := num_connections s - 1\<rparr>;
     let (h, l) = LinkedList1_Remove (list_links s) (connections_list s) con;
     let s = s\<lparr>list_links := h, connections_list := l\<rparr>;
     t \<leftarrow> BAVL_Remove (connections_tree s) con;
     Some (s\<lparr>connections_tree := t, cl_mem := (cl_mem s)(con := None)\<rparr>)
   }"

definition remove_lru_connection :: "'c SocksUdpGwClient \<Rightarrow> SocksUdpGwClient_conaddr \<Rightarrow> bool \<Rightarrow> 'c SocksUdpGwClient option" where
  "remove_lru_connection s ca dns = do {
     found \<leftarrow> find_connection s ca dns;
     if found \<noteq> None \<or> num_connections s \<le> 0 then None
     else do {
       con \<leftarrow> LinkedList1_GetFirst (connections_list s);
       connection_free s con
     }
   }"

definition reset_connection :: "'c SocksUdpGwClient \<Rightarrow> 'c \<Rightarrow> SocksUdpGwClient_conaddr \<Rightarrow> bool \<Rightarrow> 'c SocksUdpGwClient option" where
  "reset_connection s con ca dns = do {
     k \<leftarrow> cl_mem s con;
     Some (s\<lparr>cl_mem := (cl_mem s)(con \<mapsto> k\<lparr>conaddr := ca, is_dns := dns\<rparr>)\<rparr>)
   }"

text \<open>\<open>mem\<close> is the memory \<^verbatim>\<open>malloc\<close> returns, \<open>sys\<close> whether the socket, its option and the two buffers could be set up.
  A failure undoes everything.\<close>

definition connection_init :: "'c SocksUdpGwClient \<Rightarrow> SocksUdpGwClient_conaddr \<Rightarrow> byte list \<Rightarrow> bool \<Rightarrow> 'c option \<Rightarrow> bool \<times> bool \<times> bool \<times> bool
    \<Rightarrow> 'c SocksUdpGwClient option" where
  "connection_init s ca data dns mem sys =
     (case mem of
        None \<Rightarrow> Some s
      | Some con \<Rightarrow>
          (case sys of (dgram_ok, reuse_ok, send_buffer_ok, recv_buffer_ok) \<Rightarrow>
            if \<not> dgram_ok \<or> \<not> reuse_ok \<or> \<not> send_buffer_ok \<or> \<not> recv_buffer_ok then Some s
            else do {
              let k = \<lparr>conaddr = ca, first_data = data, is_dns = dns, con_dest = if dns then dnsgw s else socks_server_addr s\<rparr>;
              let s = s\<lparr>cl_mem := (cl_mem s)(con \<mapsto> k), cl_jobs := con # cl_jobs s\<rparr>;
              (t, inserted, _) \<leftarrow> BAVL_Insert conaddr_comparator (conaddr_of s) (connections_tree s) con;
              if \<not> inserted then None
              else
                (let (h, l) = LinkedList1_Append (list_links s) (connections_list s) con
                 in Some (s\<lparr>connections_tree := t, list_links := h, connections_list := l,
                            num_connections := num_connections s + 1\<rparr>))
            }))"

definition SocksUdpGwClient_SubmitPacket :: "'c SocksUdpGwClient \<Rightarrow> BAddr \<Rightarrow> BAddr \<Rightarrow> bool \<Rightarrow> byte list \<Rightarrow>
    bool \<Rightarrow> 'c option \<Rightarrow> bool \<times> bool \<times> bool \<times> bool \<Rightarrow> ('c SocksUdpGwClient \<times> 'c udp_event list) option" where
  "SocksUdpGwClient_SubmitPacket s local remote dns data room mem sys =
     (if BAddr_type local \<notin> {1, 2} \<or> BAddr_type remote \<notin> {1, 2} \<or> int (length data) > udp_mtu s then None
      else do {
        let ca = \<lparr>local_addr = local, remote_addr = remote\<rparr>;
        con \<leftarrow> find_connection s ca dns;
        s \<leftarrow> (if con = None \<and> num_connections s = max_connections s then remove_lru_connection s ca dns else Some s);
        case con of
          None \<Rightarrow> do {
            s \<leftarrow> connection_init s ca data dns mem sys;
            Some (s, [])
          }
        | Some con \<Rightarrow> do {
            s \<leftarrow> reset_connection s con ca dns;
            (sent, out) \<leftarrow> connection_send s con data room;
            if \<not> sent then Some (s, out)
            else
              (let (h, l) = LinkedList1_Remove (list_links s) (connections_list s) con;
                   (h, l) = LinkedList1_Append h l con
               in Some (s\<lparr>list_links := h, connections_list := l\<rparr>, out))
          }
      })"

definition dgram_handler_received :: "'c SocksUdpGwClient \<Rightarrow> 'c \<Rightarrow> byte list \<Rightarrow> ('c SocksUdpGwClient \<times> 'c udp_event list) option" where
  "dgram_handler_received s con data = do {
     k \<leftarrow> cl_mem s con;
     if int (length data) > udpgw_mtu s then None
     else if is_dns k then
       (if int (length data) > udp_mtu s then Some (s, [])
        else Some (s, [UdpReceived (local_addr (conaddr k)) (remote_addr (conaddr k)) data]))
     else
       (case parse_udp_prefix data of
          None \<Rightarrow> Some (s, [])
        | Some (remote, payload) \<Rightarrow>
            (let s = s\<lparr>cl_mem := (cl_mem s)(con \<mapsto> k\<lparr>conaddr := (conaddr k)\<lparr>remote_addr := remote\<rparr>\<rparr>)\<rparr>
             in if int (length payload) > udp_mtu s then Some (s, [])
                else Some (s, [UdpReceived (local_addr (conaddr k)) remote payload])))
   }"

text \<open>\<^verbatim>\<open>num_connections\<close> is not assigned; the argument \<open>n0\<close> is what the memory holds.\<close>

definition SocksUdpGwClient_Init :: "int \<Rightarrow> int \<Rightarrow> BAddr \<Rightarrow> BAddr \<Rightarrow> int \<Rightarrow> ('c \<Rightarrow> 'c BAVLNode) \<Rightarrow> 'c links \<Rightarrow> 'c SocksUdpGwClient" where
  "SocksUdpGwClient_Init mtu max_con server dns_server n0 nodes links =
     \<lparr>udp_mtu = mtu, socks_server_addr = server, dnsgw = dns_server, udpgw_mtu = udpgw_compute_mtu mtu,
      num_connections = n0, max_connections = (if max_con > 65535 + 1 then 65535 + 1 else max_con),
      connections_tree = BAVL_Init nodes, list_links = links, connections_list = LinkedList1_Init,
      cl_mem = (\<lambda>_. None), cl_jobs = []\<rparr>"

partial_function (option) SocksUdpGwClient_Free :: "'c SocksUdpGwClient \<Rightarrow> 'c SocksUdpGwClient option" where
  "SocksUdpGwClient_Free s =
     (if LinkedList1_IsEmpty (connections_list s) then Some s
      else do {
        con \<leftarrow> LinkedList1_GetFirst (connections_list s);
        s \<leftarrow> connection_free s con;
        SocksUdpGwClient_Free s
      })"

section \<open>The client as a machine\<close>

text \<open>The reactor runs pending jobs before it handles the next event, so that packets are submitted while no first
  job is pending.  \<open>UdpFirstJob\<close> runs the next job; \<open>UdpReceive\<close> is a datagram from the socket of a connection.\<close>

datatype 'c udp_op =
  UdpSubmit BAddr BAddr bool "byte list" bool "'c option" "bool \<times> bool \<times> bool \<times> bool"
| UdpFirstJob bool
| UdpReceive 'c "byte list"

fun udp_step :: "'c udp_op \<Rightarrow> 'c SocksUdpGwClient \<Rightarrow> ('c SocksUdpGwClient \<times> 'c udp_event list) option" where
  "udp_step (UdpSubmit local remote dns data room mem sys) s =
     (if cl_jobs s \<noteq> [] then None else SocksUdpGwClient_SubmitPacket s local remote dns data room mem sys)"
| "udp_step (UdpFirstJob room) s =
     (case cl_jobs s of
        [] \<Rightarrow> None
      | con # cons \<Rightarrow> map_option (Pair (s\<lparr>cl_jobs := cons\<rparr>)) (connection_first_job_handler s con room))"
| "udp_step (UdpReceive con data) s = dgram_handler_received s con data"

section \<open>A table of least recent use\<close>

text \<open>What the client implements: a table of connections from the least to the most recently used, at most one for
  a local address.\<close>

record 'c lru =
  lru_table :: "('c \<times> SocksUdpGwClient_connection) list"
  lru_jobs :: "'c list"

record udp_config =
  cf_mtu :: int
  cf_max :: int
  cf_server :: BAddr
  cf_dns :: BAddr

definition same_local :: "BAddr \<Rightarrow> 'c \<times> SocksUdpGwClient_connection \<Rightarrow> bool" where
  "same_local local e \<longleftrightarrow> local_addr (conaddr (snd e)) = local"

definition sent_bytes :: "SocksUdpGwClient_connection \<Rightarrow> byte list \<Rightarrow> byte list" where
  "sent_bytes k data = (if is_dns k then [] else udp_prefix (remote_addr (conaddr k))) @ data"

definition lru_put :: "'c \<Rightarrow> SocksUdpGwClient_connection \<Rightarrow> ('c \<times> SocksUdpGwClient_connection) list \<Rightarrow> ('c \<times> SocksUdpGwClient_connection) list" where
  "lru_put c k tbl = map (\<lambda>e. if fst e = c then (c, k) else e) tbl"

definition lru_touch :: "'c \<Rightarrow> SocksUdpGwClient_connection \<Rightarrow> ('c \<times> SocksUdpGwClient_connection) list \<Rightarrow> ('c \<times> SocksUdpGwClient_connection) list" where
  "lru_touch c k tbl = filter (\<lambda>e. fst e \<noteq> c) tbl @ [(c, k)]"

fun lru_step :: "udp_config \<Rightarrow> 'c udp_op \<Rightarrow> 'c lru \<Rightarrow> ('c lru \<times> 'c udp_event list) option" where
  "lru_step cf (UdpSubmit local remote dns data room mem sys) a =
     (let ca = \<lparr>local_addr = local, remote_addr = remote\<rparr> in
      if lru_jobs a \<noteq> [] \<or> BAddr_type local \<notin> {1, 2} \<or> BAddr_type remote \<notin> {1, 2} \<or> \<not> BAddr_wf local \<or> int (length data) > cf_mtu cf then None
      else case List.find (same_local local) (lru_table a) of
        Some (c, k) \<Rightarrow>
          (let k' = k\<lparr>conaddr := ca, is_dns := dns\<rparr> in
           if room then Some (a\<lparr>lru_table := lru_touch c k' (lru_table a)\<rparr>, [UdpSent c (con_dest k) (sent_bytes k' data)])
           else Some (a\<lparr>lru_table := lru_put c k' (lru_table a)\<rparr>, []))
      | None \<Rightarrow>
          (let tbl = (if int (length (lru_table a)) = cf_max cf then tl (lru_table a) else lru_table a) in
           case mem of
             None \<Rightarrow> Some (a\<lparr>lru_table := tbl\<rparr>, [])
           | Some c \<Rightarrow>
               (if c \<in> fst ` set tbl then None
                else if sys \<noteq> (True, True, True, True) then Some (a\<lparr>lru_table := tbl\<rparr>, [])
                else Some (\<lparr>lru_table = tbl @ [(c, \<lparr>conaddr = ca, first_data = data, is_dns = dns,
                                  con_dest = if dns then cf_dns cf else cf_server cf\<rparr>)], lru_jobs = [c]\<rparr>, []))))"
| "lru_step cf (UdpFirstJob room) a =
     (case lru_jobs a of
        [] \<Rightarrow> None
      | c # cs \<Rightarrow> (case map_of (lru_table a) c of
          None \<Rightarrow> None
        | Some k \<Rightarrow> Some (a\<lparr>lru_jobs := cs\<rparr>, if room then [UdpSent c (con_dest k) (sent_bytes k (first_data k))] else [])))"
| "lru_step cf (UdpReceive c data) a =
     (case map_of (lru_table a) c of
        None \<Rightarrow> None
      | Some k \<Rightarrow>
          if int (length data) > udpgw_compute_mtu (cf_mtu cf) then None
          else case (if is_dns k then Some (remote_addr (conaddr k), data) else parse_udp_prefix data) of
            None \<Rightarrow> Some (a, [])
          | Some (remote, payload) \<Rightarrow>
              Some (a\<lparr>lru_table := lru_put c (k\<lparr>conaddr := (conaddr k)\<lparr>remote_addr := remote\<rparr>\<rparr>) (lru_table a)\<rparr>,
                if int (length payload) > cf_mtu cf then [] else [UdpReceived (local_addr (conaddr k)) remote payload]))"

section \<open>The relation\<close>

definition con_key :: "'c SocksUdpGwClient \<Rightarrow> 'c \<Rightarrow> BAddr" where
  "con_key s c = local_addr (conaddr_of s c)"

definition lru_rel :: "udp_config \<Rightarrow> 'c SocksUdpGwClient \<Rightarrow> 'c lru \<Rightarrow> bool" where
  "lru_rel cf s a \<longleftrightarrow>
     0 < cf_max cf \<and> udp_mtu s = cf_mtu cf \<and> max_connections s = cf_max cf \<and> socks_server_addr s = cf_server cf \<and> dnsgw s = cf_dns cf \<and>
     udpgw_mtu s = udpgw_compute_mtu (cf_mtu cf) \<and>
     cl_jobs s = lru_jobs a \<and> set (lru_jobs a) \<subseteq> fst ` set (lru_table a) \<and>
     num_connections s = int (length (lru_table a)) \<and> int (length (lru_table a)) \<le> cf_max cf \<and>
     cl_mem s = map_of (lru_table a) \<and>
     ll_repr (list_links s) (connections_list s) (map fst (lru_table a)) \<and>
     (\<forall>e \<in> set (lru_table a). BAddr_type (local_addr (conaddr (snd e))) \<in> {1, 2}) \<and>
     (\<exists>xs. tree_of BAddr_CompareOrder BAddr_wf (con_key s) (connections_tree s) xs \<and> set xs = fst ` set (lru_table a))"

lemma compare_zero:
  assumes "BAddr_wf a" "BAddr_wf b" "BAddr_type b \<in> {1, 2}"
  shows "BAddr_CompareOrder a b = 0 \<longleftrightarrow> a = b"
proof -
  have "baddr_key a = baddr_key b \<longleftrightarrow> a = b"
    using assms(3) by (cases a; cases b) (auto simp: BAddr_type_def baddr_key_def ntoh_inject map_uint_inject dest: unsigned_word_eqI)
  then show ?thesis using CompareOrder_key [OF assms(1,2)] list_cmp_eq_0 by metis
qed

lemma conaddr_tree:
  "BAVL_LookupExact conaddr_comparator (conaddr_of s) t ca = BAVL_LookupExact BAddr_CompareOrder (con_key s) t (local_addr ca)"
  "BAVL_Insert conaddr_comparator (conaddr_of s) t c = BAVL_Insert BAddr_CompareOrder (con_key s) t c"
  unfolding BAVL_LookupExact_def BAVL_Insert_def conaddr_comparator_def con_key_def by (rule refl)+

lemma tree_of_cong: "(\<And>n. n \<in> set xs \<Longrightarrow> v n = v' n) \<Longrightarrow> tree_of cmp W v t xs = tree_of cmp W v' t xs"
  by (auto simp: tree_of_def in_order_def sorted_wrt_iff_nth_less)

lemma con_key_jobs [simp]: "con_key (s\<lparr>cl_jobs := js\<rparr>) = con_key s"
  by (auto simp: con_key_def conaddr_of_def fun_eq_iff)

lemma lru_put_fst [simp]: "map fst (lru_put c k tbl) = map fst tbl" "length (lru_put c k tbl) = length tbl"
  by (simp_all add: lru_put_def)

lemma lru_put_set [simp]: "fst ` set (lru_put c k tbl) = fst ` set tbl"
  using lru_put_fst(1) [of c k tbl] by (metis set_map)

lemma map_of_lru_put: "map_of (lru_put c k tbl) x = (if x = c then if c \<in> fst ` set tbl then Some k else None else map_of tbl x)"
proof (induction tbl)
  case (Cons e tbl)
  then show ?case by (cases "fst e = c"; cases "x = c") (simp_all add: lru_put_def)
qed (simp add: lru_put_def)

lemma lru_touch_keys: "distinct (map fst tbl) \<Longrightarrow> map fst (lru_touch c k tbl) = remove1 c (map fst tbl) @ [c]"
  by (induction tbl) (auto simp: lru_touch_def remove1_idem)

lemma map_of_lru_touch: "distinct (map fst tbl) \<Longrightarrow> map_of (lru_touch c k tbl) = (map_of tbl)(c \<mapsto> k)"
  by (induction tbl) (auto simp: lru_touch_def fun_eq_iff map_add_def split: option.split)

lemma find_SomeD: "List.find P xs = Some x \<Longrightarrow> x \<in> set xs \<and> P x"
  by (induction xs) (auto split: if_splits)

lemma find_local:
  assumes rel: "lru_rel cf s a" and l: "BAddr_wf l" "BAddr_type l \<in> {1, 2}" "local_addr ca = l"
  shows "find_connection s ca dns = Some (map_option fst (List.find (same_local l) (lru_table a)))"
    and "List.find (same_local l) (lru_table a) = Some (c, k) \<Longrightarrow> map_of (lru_table a) c = Some k"
proof -
  let ?tbl = "lru_table a"
  have dist: "distinct (map fst ?tbl)" using rel by (auto simp: lru_rel_def ll_repr_def)
  obtain xs where xs: "tree_of BAddr_CompareOrder BAddr_wf (con_key s) (connections_tree s) xs" "set xs = fst ` set ?tbl"
    using rel by (auto simp: lru_rel_def)
  have key: "con_key s c = local_addr (conaddr k)" if "(c, k) \<in> set ?tbl" for c k
    using that dist rel by (simp add: con_key_def conaddr_of_def lru_rel_def)
  have wf: "BAddr_wf (con_key s c)" if "c \<in> set xs" for c using xs(1) that by (simp add: tree_of_def)
  have eq: "BAddr_CompareOrder l (con_key s c) = 0 \<longleftrightarrow> con_key s c = l" if "c \<in> set xs" for c
    using compare_zero [OF l(1) wf [OF that]] key rel that xs(2) by (fastforce simp: lru_rel_def)
  have fnd: "List.find (\<lambda>m. BAddr_CompareOrder l (con_key s m) = 0) xs = map_option fst (List.find (same_local l) ?tbl)"
  proof (cases "List.find (same_local l) ?tbl")
    case None
    then have "\<not> (\<exists>m. m \<in> set xs \<and> BAddr_CompareOrder l (con_key s m) = 0)"
      using eq key xs(2) by (auto simp: find_None_iff same_local_def) blast
    then have "List.find (\<lambda>m. BAddr_CompareOrder l (con_key s m) = 0) xs = None" by (simp add: find_None_iff)
    then show ?thesis using None by simp
  next
    case (Some e)
    then have e: "e \<in> set ?tbl" "local_addr (conaddr (snd e)) = l" using find_SomeD [OF Some] by (auto simp: same_local_def)
    then have "fst e \<in> set xs" "con_key s (fst e) = l" using key [of "fst e" "snd e"] xs(2) by auto
    with eq have "fst e \<in> set xs" "BAddr_CompareOrder l (con_key s (fst e)) = 0" by auto
    from in_order_find [OF addr_order.tree_parted [OF xs(1) l(1)] this] Some show ?thesis by simp
  qed
  have "cl_mem s c \<noteq> None" if "List.find (same_local l) ?tbl = Some (c, k)" for c k
    using find_SomeD [OF that] rel dist by (auto simp: lru_rel_def weak_map_of_SomeI)
  then show "find_connection s ca dns = Some (map_option fst (List.find (same_local l) ?tbl))"
    using addr_order.tree_lookup [OF xs(1) l(1)] fnd l(3)
    by (cases "List.find (same_local l) ?tbl") (auto simp: find_connection_def conaddr_tree)
  show "map_of ?tbl c = Some k" if "List.find (same_local l) ?tbl = Some (c, k)"
    using find_SomeD [OF that] dist by simp
qed

section \<open>What the operations do to the table\<close>

lemma rel_distinct: "lru_rel cf s a \<Longrightarrow> distinct (map fst (lru_table a))"
  by (simp add: lru_rel_def ll_repr_def)

lemma map_of_filter_key: "map_of (filter (\<lambda>e. fst e \<noteq> c) tbl) = (map_of tbl)(c := None)"
  by (induction tbl) (auto simp: fun_eq_iff)

lemma map_of_snoc: "c \<notin> fst ` set tbl \<Longrightarrow> map_of (tbl @ [(c, k)]) = (map_of tbl)(c \<mapsto> k)"
  by (induction tbl) (auto simp: fun_eq_iff)

lemma map_fst_filter: "distinct (map fst tbl) \<Longrightarrow> map fst (filter (\<lambda>e. fst e \<noteq> c) tbl) = remove1 c (map fst tbl)"
  by (induction tbl) (auto simp: remove1_idem)

lemma set_filter_key: "distinct (map fst tbl) \<Longrightarrow> fst ` set (filter (\<lambda>e. fst e \<noteq> c) tbl) = fst ` set tbl - {c}"
  by (induction tbl) auto

lemma tree_of_distinct: "tree_of cmp W v t xs \<Longrightarrow> distinct xs"
  by (auto simp: tree_of_def avl_def shape_def)

lemma set_insert_between: "set (takeWhile P xs @ c # dropWhile P xs) = insert c (set xs)"
proof -
  have "set (takeWhile P xs) \<union> set (dropWhile P xs) = set xs" by (metis set_append takeWhile_dropWhile_id)
  then show ?thesis by auto
qed

lemma free_rel:
  assumes rel: "lru_rel cf s a" and c: "c \<in> fst ` set (lru_table a)" "c \<notin> set (lru_jobs a)"
  shows "\<exists>s'. connection_free s c = Some s' \<and> lru_rel cf s' (a\<lparr>lru_table := filter (\<lambda>e. fst e \<noteq> c) (lru_table a)\<rparr>)"
proof -
  let ?tbl = "lru_table a" and ?tbl' = "filter (\<lambda>e. fst e \<noteq> c) (lru_table a)"
  obtain xs where xs: "tree_of BAddr_CompareOrder BAddr_wf (con_key s) (connections_tree s) xs" "set xs = fst ` set ?tbl"
    using rel by (auto simp: lru_rel_def)
  obtain t where t: "BAVL_Remove (connections_tree s) c = Some t" "tree_of BAddr_CompareOrder BAddr_wf (con_key s) t (remove1 c xs)"
    using addr_order.tree_remove [OF xs(1)] c(1) xs(2) by blast
  obtain h l where hl: "LinkedList1_Remove (list_links s) (connections_list s) c = (h, l)" by fastforce
  let ?s = "s\<lparr>num_connections := num_connections s - 1, list_links := h, connections_list := l, connections_tree := t, cl_mem := (cl_mem s)(c := None)\<rparr>"
  obtain k where k: "cl_mem s c = Some k" using rel c(1) by (cases "map_of ?tbl c") (auto simp: lru_rel_def map_of_eq_None_iff)
  have "connection_free s c = Some ?s" using k hl t(1) by (simp add: connection_free_def)
  moreover have "ll_repr h l (map fst ?tbl')"
    using ll.repr_remove [of "(list_links s, connections_list s)" "map fst ?tbl" c] rel c(1) hl map_fst_filter [OF rel_distinct [OF rel]]
    by (simp add: ll_remove_def lru_rel_def)
  moreover have "set (remove1 c xs) = fst ` set ?tbl'"
    unfolding set_filter_key [OF rel_distinct [OF rel]] set_remove1_eq [OF tree_of_distinct [OF xs(1)]] xs(2) ..
  moreover from this have "tree_of BAddr_CompareOrder BAddr_wf (con_key ?s) t (remove1 c xs)"
    using t(2) by (subst tree_of_cong [where v' = "con_key s"]) (auto simp: con_key_def conaddr_of_def)
  moreover have "int (length ?tbl') = int (length ?tbl) - 1"
  proof -
    have "length (map fst ?tbl') = length (remove1 c (map fst ?tbl))" using map_fst_filter [OF rel_distinct [OF rel], of c] by simp
    then have "length ?tbl' = length ?tbl - 1" using c(1) by (simp add: length_remove1)
    moreover have "0 < length ?tbl" using c(1) by auto
    ultimately show ?thesis by linarith
  qed
  moreover have "set (lru_jobs a) \<subseteq> fst ` set ?tbl'" using rel c(2) set_filter_key [OF rel_distinct [OF rel]] by (auto simp: lru_rel_def)
  ultimately show ?thesis using rel by (intro exI [of _ ?s]) (auto simp: lru_rel_def map_of_filter_key)
qed

lemma put_rel:
  assumes rel: "lru_rel cf s a" and k: "map_of (lru_table a) c = Some k0" "local_addr (conaddr k) = local_addr (conaddr k0)"
  shows "lru_rel cf (s\<lparr>cl_mem := (cl_mem s)(c \<mapsto> k)\<rparr>) (a\<lparr>lru_table := lru_put c k (lru_table a)\<rparr>)"
proof -
  have c: "(c, k0) \<in> set (lru_table a)" "c \<in> fst ` set (lru_table a)" using k(1) map_of_SomeD by force+
  have mem: "cl_mem s = map_of (lru_table a)" using rel by (simp add: lru_rel_def)
  have key: "con_key (s\<lparr>cl_mem := (map_of (lru_table a))(c \<mapsto> k)\<rparr>) = con_key s"
    using k mem by (auto simp: con_key_def conaddr_of_def fun_eq_iff)
  have types: "BAddr_type (local_addr (conaddr (snd e))) \<in> {1, 2}" if "e \<in> set (lru_put c k (lru_table a))" for e
    using that rel k(2) c(1) by (auto simp: lru_put_def lru_rel_def split: if_splits)
  have "map_of (lru_put c k (lru_table a)) = (map_of (lru_table a))(c \<mapsto> k)" using c(2) by (auto simp: map_of_lru_put fun_eq_iff)
  then show ?thesis using rel types by (simp add: lru_rel_def key)
qed

lemma touch_rel:
  assumes rel: "lru_rel cf s a" and k: "map_of (lru_table a) c = Some k"
    and hl: "LinkedList1_Remove (list_links s) (connections_list s) c = (h1, l1)" "LinkedList1_Append h1 l1 c = (h, l)"
  shows "lru_rel cf (s\<lparr>list_links := h, connections_list := l\<rparr>) (a\<lparr>lru_table := lru_touch c k (lru_table a)\<rparr>)"
proof -
  let ?tbl = "lru_table a"
  note d = rel_distinct [OF rel]
  have c: "(c, k) \<in> set ?tbl" "c \<in> set (map fst ?tbl)" using k map_of_SomeD by force+
  have keys: "map fst (lru_touch c k ?tbl) = remove1 c (map fst ?tbl) @ [c]" by (rule lru_touch_keys [OF d])
  have "ll_repr h l (map fst (lru_touch c k ?tbl))"
    using ll.repr_touch [of "(list_links s, connections_list s)" "map fst ?tbl" c] rel c(2) hl keys
    by (simp add: ll_remove_def ll_append_def lru_rel_def)
  moreover have sets: "fst ` set (lru_touch c k ?tbl) = fst ` set ?tbl" "length (lru_touch c k ?tbl) = length ?tbl"
  proof -
    have "set (map fst (lru_touch c k ?tbl)) = set (map fst ?tbl)" unfolding keys using c(2) d by auto
    then show "fst ` set (lru_touch c k ?tbl) = fst ` set ?tbl" by simp
    have "length (map fst (lru_touch c k ?tbl)) = length (map fst ?tbl)"
      unfolding keys using c(2) length_pos_if_in_set [OF c(2)] by (simp add: length_remove1)
    then show "length (lru_touch c k ?tbl) = length ?tbl" by simp
  qed
  moreover have "\<forall>e \<in> set (lru_touch c k ?tbl). BAddr_type (local_addr (conaddr (snd e))) \<in> {1, 2}"
    using rel c(1) by (auto simp: lru_touch_def lru_rel_def)
  moreover have "map_of (lru_touch c k ?tbl) = map_of ?tbl" using map_of_lru_touch [OF d, of c k] k by auto
  moreover have "con_key (s\<lparr>list_links := h, connections_list := l\<rparr>) = con_key s" by (simp add: con_key_def conaddr_of_def fun_eq_iff)
  ultimately show ?thesis using rel by (simp add: lru_rel_def)
qed

lemma init_rel:
  assumes rel: "lru_rel cf s a" and new: "c \<notin> fst ` set (lru_table a)" "\<forall>e \<in> set (lru_table a). \<not> same_local (local_addr ca) e"
    and l: "BAddr_wf (local_addr ca)" "BAddr_type (local_addr ca) \<in> {1, 2}" and room: "int (length (lru_table a)) < cf_max cf" and j: "lru_jobs a = []"
  shows "\<exists>s'. connection_init s ca data dns (Some c) (True, True, True, True) = Some s' \<and>
    lru_rel cf s' \<lparr>lru_table = lru_table a @ [(c, \<lparr>conaddr = ca, first_data = data, is_dns = dns, con_dest = if dns then cf_dns cf else cf_server cf\<rparr>)],
      lru_jobs = [c]\<rparr>"
proof -
  let ?tbl = "lru_table a" and ?k = "\<lparr>conaddr = ca, first_data = data, is_dns = dns, con_dest = if dns then dnsgw s else socks_server_addr s\<rparr>"
  let ?s = "s\<lparr>cl_mem := (cl_mem s)(c \<mapsto> ?k), cl_jobs := c # cl_jobs s\<rparr>"
  obtain xs where xs: "tree_of BAddr_CompareOrder BAddr_wf (con_key s) (connections_tree s) xs" "set xs = fst ` set ?tbl"
    using rel by (auto simp: lru_rel_def)
  have key: "con_key ?s m = con_key s m" if "m \<in> set xs" for m using that new(1) xs(2) by (auto simp: con_key_def conaddr_of_def)
  have keyc: "con_key ?s c = local_addr ca" by (simp add: con_key_def conaddr_of_def)
  have tr: "tree_of BAddr_CompareOrder BAddr_wf (con_key ?s) (connections_tree s) xs"
    using xs(1) tree_of_cong [of xs "con_key ?s" "con_key s"] key by simp
  have "BAddr_CompareOrder (local_addr ca) (con_key ?s m) \<noteq> 0" if m: "m \<in> set xs" for m
  proof -
    obtain k where k: "(m, k) \<in> set ?tbl" using m xs(2) by auto
    then have "con_key s m = local_addr (conaddr k)" using rel rel_distinct [OF rel] by (simp add: con_key_def conaddr_of_def lru_rel_def)
    moreover have "BAddr_wf (con_key s m)" using xs(1) m by (simp add: tree_of_def)
    moreover have "BAddr_type (local_addr (conaddr k)) \<in> {1, 2}" using rel k by (auto simp: lru_rel_def)
    ultimately show ?thesis using compare_zero [OF l(1)] new(2) k key [OF m] by (auto simp: same_local_def)
  qed
  then have nex: "\<not> list_ex (\<lambda>m. BAddr_CompareOrder (con_key ?s c) (con_key ?s m) = 0) xs" unfolding keyc by (simp add: list_ex_iff)
  have cxs: "c \<notin> set xs" using new(1) xs(2) by simp
  from addr_order.tree_insert [OF tr cxs] l(1) keyc obtain t ok ref ys where
    ins: "BAVL_Insert BAddr_CompareOrder (con_key ?s) (connections_tree s) c = Some (t, ok, ref)"
      "olist_step BAddr_CompareOrder BAddr_wf (con_key ?s) (AvlInsert c) xs = Some (ys, [Inserted ok])"
      "tree_of BAddr_CompareOrder BAddr_wf (con_key ?s) t ys" by auto
  have ok: "ok" "ys = takeWhile (\<lambda>m. BAddr_CompareOrder (con_key ?s c) (con_key ?s m) = 1) xs @ c #
      dropWhile (\<lambda>m. BAddr_CompareOrder (con_key ?s c) (con_key ?s m) = 1) xs"
    using ins(2) cxs l(1) keyc nex by simp_all
  have ys: "set ys = insert c (set xs)" unfolding ok(2) by (rule set_insert_between)
  obtain h l' where hl: "LinkedList1_Append (list_links s) (connections_list s) c = (h, l')" by fastforce
  let ?s' = "?s\<lparr>connections_tree := t, list_links := h, connections_list := l', num_connections := num_connections s + 1\<rparr>"
  have "connection_init s ca data dns (Some c) (True, True, True, True) = Some ?s'"
    using ins(1) ok(1) hl by (simp add: connection_init_def conaddr_tree Let_def)
  moreover have "ll_repr h l' (map fst (?tbl @ [(c, ?k)]))"
    using ll.repr_append [of "(list_links s, connections_list s)" "map fst ?tbl" c] rel new(1) hl by (simp add: ll_append_def lru_rel_def)
  moreover have "con_key ?s' = con_key ?s" by (simp add: con_key_def conaddr_of_def fun_eq_iff)
  moreover have "map_of (?tbl @ [(c, ?k)]) = (map_of ?tbl)(c \<mapsto> ?k)"
    by (rule map_of_snoc [OF new(1)])
  ultimately show ?thesis using rel ins(3) ys xs(2) l(2) room j
    by (intro exI [of _ ?s']) (auto simp: lru_rel_def intro!: exI [of _ ys])
qed

lemma touch_put: "lru_touch c k (lru_put c k tbl) = lru_touch c k tbl"
  by (induction tbl) (auto simp: lru_touch_def lru_put_def)

lemma submit_known:
  assumes rel: "lru_rel cf s a" and f: "List.find (same_local l) (lru_table a) = Some (c, k)"
    and l: "BAddr_wf l" "BAddr_type l \<in> {1, 2}" "BAddr_type r \<in> {1, 2}" "int (length data) \<le> cf_mtu cf"
    and k'_def: "k' = k\<lparr>conaddr := \<lparr>local_addr = l, remote_addr = r\<rparr>, is_dns := dns\<rparr>"
  shows "\<exists>s'. SocksUdpGwClient_SubmitPacket s l r dns data room mem sys =
      Some (s', if room then [UdpSent c (con_dest k) (sent_bytes k' data)] else []) \<and>
    lru_rel cf s' (a\<lparr>lru_table := (if room then lru_touch c k' else lru_put c k') (lru_table a)\<rparr>)"
proof -
  let ?ca = "\<lparr>local_addr = l, remote_addr = r\<rparr>"
  have fc: "find_connection s ?ca dns = Some (Some c)" using find_local(1) [OF rel l(1,2), of ?ca] f by simp
  have k: "map_of (lru_table a) c = Some k" by (rule find_local(2) [OF rel l(1,2) _ f, of ?ca]) simp
  have mem: "cl_mem s c = Some k" using rel k by (simp add: lru_rel_def)
  have kl: "local_addr (conaddr k') = local_addr (conaddr k)" using find_SomeD [OF f] by (simp add: k'_def same_local_def)
  let ?s = "s\<lparr>cl_mem := (cl_mem s)(c \<mapsto> k')\<rparr>" and ?a = "a\<lparr>lru_table := lru_put c k' (lru_table a)\<rparr>"
  have rel1: "lru_rel cf ?s ?a" by (rule put_rel [OF rel k kl])
  have res: "reset_connection s c ?ca dns = Some ?s" using mem by (simp add: reset_connection_def k'_def)
  have snd: "connection_send ?s c data room = Some (room, if room then [UdpSent c (con_dest k) (sent_bytes k' data)] else [])"
    by (simp add: connection_send_def sent_bytes_def k'_def)
  have mtu: "\<not> int (length data) > udp_mtu s" using rel l(4) by (simp add: lru_rel_def)
  obtain h1 l1 where hl1: "LinkedList1_Remove (list_links ?s) (connections_list ?s) c = (h1, l1)" by fastforce
  obtain h2 l2 where hl2: "LinkedList1_Append h1 l1 c = (h2, l2)" by fastforce
  show ?thesis
  proof (cases room)
    case True
    have "map_of (lru_table ?a) c = Some k'" using map_of_SomeD [OF k] by (force simp: map_of_lru_put)
    from touch_rel [OF rel1 this hl1 hl2] have "lru_rel cf (?s\<lparr>list_links := h2, connections_list := l2\<rparr>) (a\<lparr>lru_table := lru_touch c k' (lru_table a)\<rparr>)"
      by (simp add: touch_put)
    moreover have "SocksUdpGwClient_SubmitPacket s l r dns data room mem sys =
        Some (?s\<lparr>list_links := h2, connections_list := l2\<rparr>, [UdpSent c (con_dest k) (sent_bytes k' data)])"
      using fc res snd l(2,3) mtu True hl1 hl2 by (simp add: SocksUdpGwClient_SubmitPacket_def Let_def)
    ultimately show ?thesis using True by auto
  next
    case False
    then have "SocksUdpGwClient_SubmitPacket s l r dns data room mem sys = Some (?s, [])"
      using fc res snd l(2,3) mtu by (simp add: SocksUdpGwClient_SubmitPacket_def Let_def)
    then show ?thesis using rel1 False by auto
  qed
qed

lemma evict_rel:
  assumes rel: "lru_rel cf s a" and f: "List.find (same_local l) (lru_table a) = None" and j: "lru_jobs a = []"
    and l: "BAddr_wf l" "BAddr_type l \<in> {1, 2}" "local_addr ca = l"
  defines "full \<equiv> int (length (lru_table a)) = cf_max cf"
  shows "\<exists>s'. (if num_connections s = max_connections s then remove_lru_connection s ca dns else Some s) = Some s' \<and>
    lru_rel cf s' (a\<lparr>lru_table := if full then tl (lru_table a) else lru_table a\<rparr>)"
proof (cases full)
  case False
  then show ?thesis using rel by (auto simp: lru_rel_def full_def)
next
  case True
  then obtain c k tbl where tbl: "lru_table a = (c, k) # tbl" using rel by (cases "lru_table a") (auto simp: lru_rel_def full_def)
  have fc: "find_connection s ca dns = Some None" using find_local(1) [OF rel l] f by simp
  have n: "num_connections s = max_connections s" "num_connections s > 0" using rel True tbl by (auto simp: lru_rel_def full_def)
  have "LinkedList1_GetFirst (connections_list s) = Some c"
    using ll.repr_first [of "(list_links s, connections_list s)" "map fst (lru_table a)"] rel tbl by (simp add: lru_rel_def)
  moreover obtain s' where s': "connection_free s c = Some s'" "lru_rel cf s' (a\<lparr>lru_table := filter (\<lambda>e. fst e \<noteq> c) (lru_table a)\<rparr>)"
    using free_rel [OF rel, of c] tbl j by auto
  moreover have "filter (\<lambda>e. fst e \<noteq> c) (lru_table a) = tl (lru_table a)"
    using rel_distinct [OF rel] unfolding tbl by (auto simp: filter_id_conv image_iff)
  ultimately show ?thesis using True fc n by (intro exI [of _ s']) (auto simp: remove_lru_connection_def)
qed

lemma submit_new:
  assumes rel: "lru_rel cf s a" and f: "List.find (same_local l) (lru_table a) = None" and j: "lru_jobs a = []"
    and l: "BAddr_wf l" "BAddr_type l \<in> {1, 2}" "BAddr_type r \<in> {1, 2}" "int (length data) \<le> cf_mtu cf"
    and st: "lru_step cf (UdpSubmit l r dns data room mem sys) a = Some (a', out)"
  shows "\<exists>s'. SocksUdpGwClient_SubmitPacket s l r dns data room mem sys = Some (s', out) \<and> lru_rel cf s' a'"
proof -
  let ?ca = "\<lparr>local_addr = l, remote_addr = r\<rparr>"
  define tbl where "tbl = (if int (length (lru_table a)) = cf_max cf then tl (lru_table a) else lru_table a)"
  have fc: "find_connection s ?ca dns = Some None" using find_local(1) [OF rel l(1,2), of ?ca] f by simp
  have mtu: "\<not> int (length data) > udp_mtu s" using rel l(4) by (simp add: lru_rel_def)
  from evict_rel [OF rel f j l(1,2), of ?ca dns] obtain s1 where
    s1: "(if num_connections s = max_connections s then remove_lru_connection s ?ca dns else Some s) = Some s1"
      "lru_rel cf s1 (a\<lparr>lru_table := tbl\<rparr>)" by (auto simp: tbl_def)
  have sub: "SocksUdpGwClient_SubmitPacket s l r dns data room mem sys = map_option (\<lambda>s. (s, [])) (connection_init s1 ?ca data dns mem sys)"
    using fc l(2,3) mtu s1(1)
    by (cases "connection_init s1 ?ca data dns mem sys") (auto simp: SocksUdpGwClient_SubmitPacket_def Let_def split: if_splits)
  have ok: "\<not> (lru_jobs a \<noteq> [] \<or> BAddr_type l \<notin> {1, 2} \<or> BAddr_type r \<notin> {1, 2} \<or> \<not> BAddr_wf l \<or> int (length data) > cf_mtu cf)"
    using l j by auto
  have st': "(case mem of None \<Rightarrow> Some (a\<lparr>lru_table := tbl\<rparr>, [])
      | Some c \<Rightarrow> if c \<in> fst ` set tbl then None else if sys \<noteq> (True, True, True, True) then Some (a\<lparr>lru_table := tbl\<rparr>, [])
          else Some (\<lparr>lru_table = tbl @ [(c, \<lparr>conaddr = ?ca, first_data = data, is_dns = dns,
            con_dest = if dns then cf_dns cf else cf_server cf\<rparr>)], lru_jobs = [c]\<rparr>, [])) = Some (a', out)"
    using st unfolding lru_step.simps Let_def if_not_P [OF ok] f option.case tbl_def [symmetric] .
  show ?thesis
  proof (cases "mem = None \<or> sys \<noteq> (True, True, True, True)")
    case True
    then have "connection_init s1 ?ca data dns mem sys = Some s1" by (cases mem; cases sys) (auto simp: connection_init_def)
    moreover have "a' = a\<lparr>lru_table := tbl\<rparr>" "out = []" using st' True by (auto split: option.splits if_splits)
    ultimately show ?thesis using sub s1(2) by auto
  next
    case False
    then obtain c where c: "mem = Some c" "sys = (True, True, True, True)" by auto
    have new: "c \<notin> fst ` set tbl" using st' c by (auto split: if_splits)
    have "int (length tbl) < cf_max cf" using s1(2) rel by (auto simp: tbl_def lru_rel_def)
    moreover have "set tbl \<subseteq> set (lru_table a)" unfolding tbl_def by (cases "lru_table a") auto
    then have "\<forall>e \<in> set tbl. \<not> same_local l e" using f by (auto simp: find_None_iff)
    ultimately obtain s2 where "connection_init s1 ?ca data dns (Some c) (True, True, True, True) = Some s2"
      "lru_rel cf s2 \<lparr>lru_table = tbl @ [(c, \<lparr>conaddr = ?ca, first_data = data, is_dns = dns, con_dest = if dns then cf_dns cf else cf_server cf\<rparr>)],
        lru_jobs = [c]\<rparr>"
      using init_rel [OF s1(2), of c ?ca data dns] new l(1,2) j by auto
    then show ?thesis using sub c st' new by auto
  qed
qed

lemma receive_sim:
  assumes rel: "lru_rel cf s a" and st: "lru_step cf (UdpReceive c data) a = Some (a', out)"
  shows "\<exists>s'. dgram_handler_received s c data = Some (s', out) \<and> lru_rel cf s' a'"
proof -
  from st obtain k where k: "map_of (lru_table a) c = Some k" by (auto split: option.splits)
  have f: "cl_mem s c = Some k" "udp_mtu s = cf_mtu cf" "udpgw_mtu s = udpgw_compute_mtu (cf_mtu cf)"
    using rel k by (auto simp: lru_rel_def)
  have put: "lru_rel cf (s\<lparr>cl_mem := (cl_mem s)(c \<mapsto> k\<lparr>conaddr := (conaddr k)\<lparr>remote_addr := r\<rparr>\<rparr>)\<rparr>)
      (a\<lparr>lru_table := lru_put c (k\<lparr>conaddr := (conaddr k)\<lparr>remote_addr := r\<rparr>\<rparr>) (lru_table a)\<rparr>)" for r
    by (rule put_rel [OF rel k]) simp
  have same: "lru_put c (k\<lparr>conaddr := (conaddr k)\<lparr>remote_addr := remote_addr (conaddr k)\<rparr>\<rparr>) (lru_table a) = lru_table a"
    using rel_distinct [OF rel] k by (auto simp: lru_put_def intro!: map_idI dest: eq_key_imp_eq_value)
  show ?thesis
  proof (cases "is_dns k")
    case True
    then show ?thesis using st k f rel same by (auto simp: dgram_handler_received_def split: if_splits)
  next
    case False
    then show ?thesis using st k f rel put by (auto simp: dgram_handler_received_def Let_def split: if_splits option.splits)
  qed
qed

interpretation udp_lru: simulation "lru_rel cf" udp_step "lru_step cf" for cf
proof
  fix s a x a' out
  assume rel: "lru_rel cf s a" and st: "lru_step cf x a = Some (a', out)"
  have j: "cl_jobs s = lru_jobs a" using rel by (simp add: lru_rel_def)
  show "\<exists>s'. udp_step x s = Some (s', out) \<and> lru_rel cf s' a'"
  proof (cases x)
    case (UdpSubmit l r dns data room mem sys)
    then have g: "lru_jobs a = []" "BAddr_wf l" "BAddr_type l \<in> {1, 2}" "BAddr_type r \<in> {1, 2}" "int (length data) \<le> cf_mtu cf"
      using st by (auto simp: Let_def split: if_splits)
    show ?thesis
    proof (cases "List.find (same_local l) (lru_table a)")
      case None
      from submit_new [OF rel None g st [unfolded UdpSubmit]] show ?thesis using UdpSubmit j g(1) by simp
    next
      case (Some e)
      then obtain c k where f: "List.find (same_local l) (lru_table a) = Some (c, k)" by (cases e) simp
      define k' where "k' = k\<lparr>conaddr := \<lparr>local_addr = l, remote_addr = r\<rparr>, is_dns := dns\<rparr>"
      have "a' = a\<lparr>lru_table := (if room then lru_touch c k' else lru_put c k') (lru_table a)\<rparr>"
        "out = (if room then [UdpSent c (con_dest k) (sent_bytes k' data)] else [])"
        using st f g unfolding UdpSubmit k'_def by (auto simp: Let_def split: if_splits)
      with submit_known [OF rel f g(2-5) k'_def, of room mem sys] show ?thesis using UdpSubmit j g(1) by simp
    qed
  next
    case (UdpFirstJob room)
    then show ?thesis using st rel j
      by (auto simp: connection_first_job_handler_def connection_send_def sent_bytes_def lru_rel_def split: list.splits option.splits)
  next
    case (UdpReceive c data)
    then show ?thesis using receive_sim [OF rel, of c data] st by simp
  qed
qed

section \<open>Whole runs\<close>

definition udp_config_of :: "int \<Rightarrow> int \<Rightarrow> BAddr \<Rightarrow> BAddr \<Rightarrow> udp_config" where
  "udp_config_of mtu max_con server dns_server =
     \<lparr>cf_mtu = mtu, cf_max = min max_con 65536, cf_server = server, cf_dns = dns_server\<rparr>"

lemma tree_of_init: "tree_of cmp W v (BAVL_Init nodes) []"
  by (auto simp: tree_of_def avl_def shape_def BAVL_Init_def in_order_def intro: exI [of _ Leaf])

lemma tree_of_empty: "tree_of cmp W v t [] \<Longrightarrow> BAVL_IsEmpty t"
  by (auto simp: tree_of_def avl_def shape_def BAVL_IsEmpty_def)

lemma init_lru_rel:
  assumes "0 < max_con"
  shows "lru_rel (udp_config_of mtu max_con server dns_server) (SocksUdpGwClient_Init mtu max_con server dns_server 0 nodes links)
    \<lparr>lru_table = [], lru_jobs = []\<rparr>"
  using assms tree_of_init
  by (auto simp: lru_rel_def SocksUdpGwClient_Init_def udp_config_of_def ll_repr_def LinkedList1_Init_def)


lemma free_ends:
  assumes "lru_rel cf s a" "lru_jobs a = []"
  shows "\<exists>s'. SocksUdpGwClient_Free s = Some s' \<and> lru_rel cf s' (a\<lparr>lru_table := []\<rparr>)"
  using assms
proof (induction "lru_table a" arbitrary: s a)
  case Nil
  then have "LinkedList1_IsEmpty (connections_list s)" by (simp add: lru_rel_def LinkedList1_IsEmpty_def ll_repr_def)
  moreover have "a\<lparr>lru_table := []\<rparr> = a" using Nil.hyps by simp
  ultimately show ?case using Nil.prems by (auto simp: SocksUdpGwClient_Free.simps [of s])
next
  case (Cons e tbl)
  obtain c k where e: "e = (c, k)" by (cases e)
  have first: "LinkedList1_GetFirst (connections_list s) = Some c"
    using ll.repr_first [of "(list_links s, connections_list s)" "map fst (lru_table a)"] Cons.prems(1) Cons.hyps(2) [symmetric] e
    by (simp add: lru_rel_def)
  then have ne: "\<not> LinkedList1_IsEmpty (connections_list s)"
    by (simp add: LinkedList1_IsEmpty_def LinkedList1_GetFirst_def)
  obtain s1 where s1: "connection_free s c = Some s1" "lru_rel cf s1 (a\<lparr>lru_table := filter (\<lambda>e. fst e \<noteq> c) (lru_table a)\<rparr>)"
    using free_rel [OF Cons.prems(1), of c] Cons.hyps(2) [symmetric] Cons.prems(2) e by auto
  moreover have "filter (\<lambda>e. fst e \<noteq> c) (lru_table a) = tbl"
    using rel_distinct [OF Cons.prems(1)] e unfolding Cons.hyps(2) [symmetric] by (auto simp: filter_id_conv image_iff)
  ultimately have "\<exists>s'. SocksUdpGwClient_Free s1 = Some s' \<and> lru_rel cf s' (a\<lparr>lru_table := []\<rparr>)"
    using Cons.hyps(1) [of "a\<lparr>lru_table := tbl\<rparr>" s1] Cons.prems(2) by simp
  then show ?case using first ne s1(1) by (simp add: SocksUdpGwClient_Free.simps [of s])
qed


section \<open>Claims on the protocol\<close>

text \<open>What is sent is what is received: for every well-formed address and every payload, the SOCKS header and address that
  \<^verbatim>\<open>connection_send\<close> puts before the payload are read back by \<^verbatim>\<open>dgram_handler_received\<close> as the same address and
  the same payload.\<close>

theorem udp_prefix_roundtrip:
  assumes "BAddr_wf addr" "BAddr_type addr \<in> {1, 2}"
  shows "parse_udp_prefix (udp_prefix addr @ data) = Some (addr, data)"
  using assms
  by (cases addr) (auto simp: udp_prefix_def parse_udp_prefix_def BAddr_type_def BAddr_wf_def BAddr_MakeIPv4_def BAddr_MakeIPv6_def Let_def nth_append)

text \<open>A local address that first sent a DNS query keeps the socket that was opened for it: the next packet it sends to some
  other address, not marked as DNS, goes to the DNS server and not to the SOCKS server, with a SOCKS header in
  front.  The guard of \<^verbatim>\<open>find_connection\<close> that compares the DNS marks never applies.\<close>

theorem dns_connection_reused:
  assumes "0 < max_con" "BAddr_wf l" "BAddr_type l \<in> {1, 2}" "BAddr_type r \<in> {1, 2}" "BAddr_type r' \<in> {1, 2}"
    and "int (length q) \<le> mtu" "int (length data) \<le> mtu"
  shows "\<exists>s. run_ops udp_step [UdpSubmit l r True q True (Some c) (True, True, True, True), UdpFirstJob True, UdpSubmit l r' False data True mem sys]
      (SocksUdpGwClient_Init mtu max_con server dns_server 0 nodes links) =
    Some (s, [UdpSent c dns_server q, UdpSent c dns_server (udp_prefix r' @ data)])"
proof -
  let ?k = "\<lparr>conaddr = \<lparr>local_addr = l, remote_addr = r\<rparr>, first_data = q, is_dns = True, con_dest = dns_server\<rparr>"
  have "run_ops (lru_step (udp_config_of mtu max_con server dns_server))
      [UdpSubmit l r True q True (Some c) (True, True, True, True), UdpFirstJob True, UdpSubmit l r' False data True mem sys]
      \<lparr>lru_table = [], lru_jobs = []\<rparr> =
    Some (\<lparr>lru_table = [(c, ?k\<lparr>conaddr := \<lparr>local_addr = l, remote_addr = r'\<rparr>, is_dns := False\<rparr>)], lru_jobs = []\<rparr>,
      [UdpSent c dns_server q, UdpSent c dns_server (udp_prefix r' @ data)])"
    using assms by (auto simp: udp_config_of_def Let_def same_local_def sent_bytes_def lru_touch_def)
  from udp_lru.run_sim [OF init_lru_rel [OF assms(1)] this] show ?thesis by blast
qed

text \<open>A packet that is not DNS is written with 10 (IPv4) or 22 (IPv6) bytes in front, so that the bytes written exceed the MTU of
  the writer, which is the MTU of the payload, exactly for the payloads that come within that many bytes of it.\<close>

theorem connection_send_overhead:
  assumes "cl_mem s con = Some k" "\<not> is_dns k" "BAddr_wf (remote_addr (conaddr k))" "BAddr_type (remote_addr (conaddr k)) \<in> {1, 2}"
    and "connection_send s con data True = Some (sent, out)"
  shows "\<exists>bytes. out = [UdpSent con (con_dest k) bytes] \<and>
    length bytes = length data + (if BAddr_type (remote_addr (conaddr k)) = 1 then 10 else 22) \<and>
    (int (length bytes) > udp_mtu s \<longleftrightarrow> int (length data) > udp_mtu s - (if BAddr_type (remote_addr (conaddr k)) = 1 then 10 else 22))"
  using assms
  by (cases "remote_addr (conaddr k)") (auto simp: connection_send_def udp_prefix_def BAddr_type_def BAddr_wf_def Let_def)

section \<open>Witnesses\<close>

definition ex_ip :: "byte \<Rightarrow> BAddr" where
  "ex_ip b = BAddr_IPv4 0x0100000A (ucast b)"

text \<open>With room for one connection, a second local address replaces the first.\<close>

definition ex_udp_ops :: "nat udp_op list" where
  "ex_udp_ops = [UdpSubmit (ex_ip 1) (ex_ip 9) False [5] True (Some 1) (True, True, True, True), UdpFirstJob True,
     UdpReceive 1 [0, 0, 0, 1, 10, 0, 0, 1, 8, 0, 6],
     UdpSubmit (ex_ip 2) (ex_ip 9) False [7] True (Some 1) (True, True, True, True), UdpFirstJob False]"

lemma ex_udp_run:
  "run_ops (lru_step (udp_config_of 1500 1 (ex_ip 3) (ex_ip 4))) ex_udp_ops \<lparr>lru_table = [], lru_jobs = []\<rparr> =
    Some (\<lparr>lru_table = [(1, \<lparr>conaddr = \<lparr>local_addr = ex_ip 2, remote_addr = ex_ip 9\<rparr>, first_data = [7], is_dns = False, con_dest = ex_ip 3\<rparr>)], lru_jobs = []\<rparr>,
      [UdpSent 1 (ex_ip 3) [0, 0, 0, 1, 10, 0, 0, 1, 9, 0, 5], UdpReceived (ex_ip 1) (ex_ip 8) [6]])"
  by (simp add: ex_udp_ops_def udp_config_of_def ex_ip_def Let_def same_local_def sent_bytes_def udp_prefix_def parse_udp_prefix_def
      BAddr_type_def BAddr_wf_def BAddr_MakeIPv4_def lru_put_def udpgw_compute_mtu_def bsize_fromsize_def bsize_fromint_def bsize_add_def bsize_max_def bsize_toint_def le16_def le32_def word16_of_def word32_of_def)



theorem udp_prefix_roundtrip_witness:
  "udp_prefix (ex_ip 9) = [0, 0, 0, 1, 10, 0, 0, 1, 9, 0] \<and> parse_udp_prefix (udp_prefix (ex_ip 9) @ [5]) = Some (ex_ip 9, [5])"
  using udp_prefix_roundtrip [of "ex_ip 9" "[5]"]
  by (simp add: ex_ip_def udp_prefix_def BAddr_type_def BAddr_wf_def Let_def le16_def le32_def)

theorem dns_connection_reused_witness:
  "\<exists>s. run_ops udp_step [UdpSubmit (ex_ip 1) (ex_ip 9) True [5] True (Some (1::nat)) (True, True, True, True), UdpFirstJob True,
        UdpSubmit (ex_ip 1) (ex_ip 8) False [7] True None (True, True, True, True)]
      (SocksUdpGwClient_Init 1500 8 (ex_ip 3) (ex_ip 4) 0 (\<lambda>_. ex_node None) \<lparr>lp = \<lambda>_. None, ln = \<lambda>_. None\<rparr>) =
    Some (s, [UdpSent 1 (ex_ip 4) [5], UdpSent 1 (ex_ip 4) (udp_prefix (ex_ip 8) @ [7])])"
  by (rule dns_connection_reused) (simp_all add: ex_ip_def BAddr_type_def BAddr_wf_def)

definition ex_udp_client :: "nat SocksUdpGwClient" where
  "ex_udp_client = (SocksUdpGwClient_Init 12 1 (ex_ip 3) (ex_ip 4) 0 (\<lambda>_. ex_node None) \<lparr>lp = \<lambda>_. None, ln = \<lambda>_. None\<rparr>)
     \<lparr>cl_mem := [1 \<mapsto> \<lparr>conaddr = \<lparr>local_addr = ex_ip 1, remote_addr = ex_ip 9\<rparr>, first_data = [], is_dns = False, con_dest = ex_ip 3\<rparr>]\<rparr>"

theorem connection_send_overhead_witness:
  "\<exists>bytes. connection_send ex_udp_client 1 [1, 2, 3] True = Some (True, [UdpSent 1 (ex_ip 3) bytes]) \<and> int (length bytes) > udp_mtu ex_udp_client"
proof -
  let ?k = "\<lparr>conaddr = \<lparr>local_addr = ex_ip 1, remote_addr = ex_ip 9\<rparr>, first_data = [], is_dns = False, con_dest = ex_ip 3\<rparr>"
  have k: "cl_mem ex_udp_client 1 = Some ?k" "udp_mtu ex_udp_client = 12" by (simp_all add: ex_udp_client_def SocksUdpGwClient_Init_def)
  obtain out where out: "connection_send ex_udp_client 1 [1, 2, 3] True = Some (True, out)" using k by (simp add: connection_send_def Let_def)
  show ?thesis
    using connection_send_overhead [OF k(1) _ _ _ out] out k(2) by (auto simp: ex_ip_def BAddr_type_def BAddr_wf_def)
qed

end
