(* ===== verification/MD5.thy ===== *)
theory MD5
  imports Prelude
begin

text \<open>
  \<^verbatim>\<open>redsocks/md5.c\<close>: the digest computed piece by piece, with unrolled rounds on four registers, and its
  equivalence with the algorithm of RFC 1321 applied to the whole message.
\<close>

unbundle bit_operations_syntax

section \<open>The code\<close>

type_synonym md5_regs = "u32 \<times> u32 \<times> u32 \<times> u32"

record md5_state =
  md5_count :: "u32 \<times> u32"
  md5_abcd :: md5_regs
  md5_buf :: "byte list"

definition T_MASK :: u32 where
  "T_MASK = NOT 0"

definition T_table :: "u32 list" where
  "T_table =
     [T_MASK XOR 0x28955b87, T_MASK XOR 0x173848a9, 0x242070db, T_MASK XOR 0x3e423111,
      T_MASK XOR 0x0a83f050, 0x4787c62a, T_MASK XOR 0x57cfb9ec, T_MASK XOR 0x02b96afe,
      0x698098d8, T_MASK XOR 0x74bb0850, T_MASK XOR 0x0000a44e, T_MASK XOR 0x76a32841,
      0x6b901122, T_MASK XOR 0x02678e6c, T_MASK XOR 0x5986bc71, 0x49b40821,
      T_MASK XOR 0x09e1da9d, T_MASK XOR 0x3fbf4cbf, 0x265e5a51, T_MASK XOR 0x16493855,
      T_MASK XOR 0x29d0efa2, 0x02441453, T_MASK XOR 0x275e197e, T_MASK XOR 0x182c0437,
      0x21e1cde6, T_MASK XOR 0x3cc8f829, T_MASK XOR 0x0b2af278, 0x455a14ed,
      T_MASK XOR 0x561c16fa, T_MASK XOR 0x03105c07, 0x676f02d9, T_MASK XOR 0x72d5b375,
      T_MASK XOR 0x0005c6bd, T_MASK XOR 0x788e097e, 0x6d9d6122, T_MASK XOR 0x021ac7f3,
      T_MASK XOR 0x5b4115bb, 0x4bdecfa9, T_MASK XOR 0x0944b49f, T_MASK XOR 0x4140438f,
      0x289b7ec6, T_MASK XOR 0x155ed805, T_MASK XOR 0x2b10cf7a, 0x04881d05,
      T_MASK XOR 0x262b2fc6, T_MASK XOR 0x1924661a, 0x1fa27cf8, T_MASK XOR 0x3b53a99a,
      T_MASK XOR 0x0bd6ddbb, 0x432aff97, T_MASK XOR 0x546bdc58, T_MASK XOR 0x036c5fc6,
      0x655b59c3, T_MASK XOR 0x70f3336d, T_MASK XOR 0x00100b82, T_MASK XOR 0x7a7ba22e,
      0x6fa87e4f, T_MASK XOR 0x01d3191f, T_MASK XOR 0x5cfebceb, 0x4e0811a1,
      T_MASK XOR 0x08ac817d, T_MASK XOR 0x42c50dca, 0x2ad7d2bb, T_MASK XOR 0x14792c6e]"

definition T :: "nat \<Rightarrow> u32" where
  "T i = T_table ! (i - 1)"

definition ROTATE_LEFT :: "u32 \<Rightarrow> nat \<Rightarrow> u32" where
  "ROTATE_LEFT x n = push_bit n x OR drop_bit (32 - n) x"

definition md5_F :: "u32 \<Rightarrow> u32 \<Rightarrow> u32 \<Rightarrow> u32" where
  "md5_F x y z = (x AND y) OR (NOT x AND z)"

definition md5_G :: "u32 \<Rightarrow> u32 \<Rightarrow> u32 \<Rightarrow> u32" where
  "md5_G x y z = (x AND z) OR (y AND NOT z)"

definition md5_H :: "u32 \<Rightarrow> u32 \<Rightarrow> u32 \<Rightarrow> u32" where
  "md5_H x y z = x XOR y XOR z"

definition md5_I :: "u32 \<Rightarrow> u32 \<Rightarrow> u32 \<Rightarrow> u32" where
  "md5_I x y z = y XOR (x OR NOT z)"

text \<open>The macro \<^verbatim>\<open>SET\<close>, and its use with each of the four registers as the first argument.\<close>

definition SET :: "(u32 \<Rightarrow> u32 \<Rightarrow> u32 \<Rightarrow> u32) \<Rightarrow> u32 list \<Rightarrow> u32 \<Rightarrow> u32 \<Rightarrow> u32 \<Rightarrow> u32 \<Rightarrow> nat \<Rightarrow> nat \<Rightarrow> u32 \<Rightarrow> u32" where
  "SET f X a b c d k s Ti = (let t = a + f b c d + X ! k + Ti in ROTATE_LEFT t s + b)"

fun SETa :: "(u32 \<Rightarrow> u32 \<Rightarrow> u32 \<Rightarrow> u32) \<Rightarrow> u32 list \<Rightarrow> nat \<Rightarrow> nat \<Rightarrow> u32 \<Rightarrow> md5_regs \<Rightarrow> md5_regs" where
  "SETa f X k s Ti (a, b, c, d) = (SET f X a b c d k s Ti, b, c, d)"

fun SETd :: "(u32 \<Rightarrow> u32 \<Rightarrow> u32 \<Rightarrow> u32) \<Rightarrow> u32 list \<Rightarrow> nat \<Rightarrow> nat \<Rightarrow> u32 \<Rightarrow> md5_regs \<Rightarrow> md5_regs" where
  "SETd f X k s Ti (a, b, c, d) = (a, b, c, SET f X d a b c k s Ti)"

fun SETc :: "(u32 \<Rightarrow> u32 \<Rightarrow> u32 \<Rightarrow> u32) \<Rightarrow> u32 list \<Rightarrow> nat \<Rightarrow> nat \<Rightarrow> u32 \<Rightarrow> md5_regs \<Rightarrow> md5_regs" where
  "SETc f X k s Ti (a, b, c, d) = (a, b, SET f X c d a b k s Ti, d)"

fun SETb :: "(u32 \<Rightarrow> u32 \<Rightarrow> u32 \<Rightarrow> u32) \<Rightarrow> u32 list \<Rightarrow> nat \<Rightarrow> nat \<Rightarrow> u32 \<Rightarrow> md5_regs \<Rightarrow> md5_regs" where
  "SETb f X k s Ti (a, b, c, d) = (a, SET f X b c d a k s Ti, c, d)"

definition md5_round1 :: "u32 list \<Rightarrow> md5_regs \<Rightarrow> md5_regs" where
  "md5_round1 X = fold id
     [SETa md5_F X 0 7 (T 1), SETd md5_F X 1 12 (T 2), SETc md5_F X 2 17 (T 3), SETb md5_F X 3 22 (T 4),
      SETa md5_F X 4 7 (T 5), SETd md5_F X 5 12 (T 6), SETc md5_F X 6 17 (T 7), SETb md5_F X 7 22 (T 8),
      SETa md5_F X 8 7 (T 9), SETd md5_F X 9 12 (T 10), SETc md5_F X 10 17 (T 11), SETb md5_F X 11 22 (T 12),
      SETa md5_F X 12 7 (T 13), SETd md5_F X 13 12 (T 14), SETc md5_F X 14 17 (T 15), SETb md5_F X 15 22 (T 16)]"

definition md5_round2 :: "u32 list \<Rightarrow> md5_regs \<Rightarrow> md5_regs" where
  "md5_round2 X = fold id
     [SETa md5_G X 1 5 (T 17), SETd md5_G X 6 9 (T 18), SETc md5_G X 11 14 (T 19), SETb md5_G X 0 20 (T 20),
      SETa md5_G X 5 5 (T 21), SETd md5_G X 10 9 (T 22), SETc md5_G X 15 14 (T 23), SETb md5_G X 4 20 (T 24),
      SETa md5_G X 9 5 (T 25), SETd md5_G X 14 9 (T 26), SETc md5_G X 3 14 (T 27), SETb md5_G X 8 20 (T 28),
      SETa md5_G X 13 5 (T 29), SETd md5_G X 2 9 (T 30), SETc md5_G X 7 14 (T 31), SETb md5_G X 12 20 (T 32)]"

definition md5_round3 :: "u32 list \<Rightarrow> md5_regs \<Rightarrow> md5_regs" where
  "md5_round3 X = fold id
     [SETa md5_H X 5 4 (T 33), SETd md5_H X 8 11 (T 34), SETc md5_H X 11 16 (T 35), SETb md5_H X 14 23 (T 36),
      SETa md5_H X 1 4 (T 37), SETd md5_H X 4 11 (T 38), SETc md5_H X 7 16 (T 39), SETb md5_H X 10 23 (T 40),
      SETa md5_H X 13 4 (T 41), SETd md5_H X 0 11 (T 42), SETc md5_H X 3 16 (T 43), SETb md5_H X 6 23 (T 44),
      SETa md5_H X 9 4 (T 45), SETd md5_H X 12 11 (T 46), SETc md5_H X 15 16 (T 47), SETb md5_H X 2 23 (T 48)]"

definition md5_round4 :: "u32 list \<Rightarrow> md5_regs \<Rightarrow> md5_regs" where
  "md5_round4 X = fold id
     [SETa md5_I X 0 6 (T 49), SETd md5_I X 7 10 (T 50), SETc md5_I X 14 15 (T 51), SETb md5_I X 5 21 (T 52),
      SETa md5_I X 12 6 (T 53), SETd md5_I X 3 10 (T 54), SETc md5_I X 10 15 (T 55), SETb md5_I X 1 21 (T 56),
      SETa md5_I X 8 6 (T 57), SETd md5_I X 15 10 (T 58), SETc md5_I X 6 15 (T 59), SETb md5_I X 13 21 (T 60),
      SETa md5_I X 4 6 (T 61), SETd md5_I X 11 10 (T 62), SETc md5_I X 2 15 (T 63), SETb md5_I X 9 21 (T 64)]"

fun add_regs :: "md5_regs \<Rightarrow> md5_regs \<Rightarrow> md5_regs" where
  "add_regs (a, b, c, d) (a', b', c', d') = (a + a', b + b', c + c', d + d')"

text \<open>The little-endian reading of a block: aligned or copied, it is the same words.\<close>

definition md5_words :: "byte list \<Rightarrow> u32 list" where
  "md5_words data = map (\<lambda>i. un_le32 (drop (4 * i) data)) [0..<16]"

definition md5_process :: "md5_state \<Rightarrow> byte list \<Rightarrow> md5_state" where
  "md5_process pms data =
     (let X = md5_words data;
          abcd = md5_round4 X (md5_round3 X (md5_round2 X (md5_round1 X (md5_abcd pms))))
      in pms\<lparr>md5_abcd := add_regs (md5_abcd pms) abcd\<rparr>)"

definition md5_init :: "md5_state \<Rightarrow> md5_state" where
  "md5_init pms =
     pms\<lparr>md5_count := (0, 0), md5_abcd := (0x67452301, T_MASK XOR 0x10325476, T_MASK XOR 0x67452301, 0x10325476)\<rparr>"

text \<open>The loop over full blocks and the final partial block of \<^verbatim>\<open>md5_append\<close>.\<close>

function md5_blocks :: "md5_state \<Rightarrow> byte list \<Rightarrow> md5_state" where
  "md5_blocks pms p =
     (if length p \<ge> 64 then md5_blocks (md5_process pms (take 64 p)) (drop 64 p)
      else if p \<noteq> [] then pms\<lparr>md5_buf := mem_write (md5_buf pms) 0 p\<rparr>
      else pms)"
  by pat_completeness auto
termination
  by (relation "measure (\<lambda>(pms, p). length p)") auto

declare md5_blocks.simps [simp del]

definition md5_append :: "md5_state \<Rightarrow> byte list \<Rightarrow> md5_state" where
  "md5_append pms data =
     (let nbytes = length data;
          offset = unat (drop_bit 3 (fst (md5_count pms)) AND 63);
          nbits = push_bit 3 (of_nat nbytes)
      in if nbytes = 0 then pms
      else let
          count1 = snd (md5_count pms) + of_nat (nbytes div 2 ^ 29);
          count0 = fst (md5_count pms) + nbits;
          count1 = (if count0 < nbits then count1 + 1 else count1);
          pms = pms\<lparr>md5_count := (count0, count1)\<rparr>
      in if offset \<noteq> 0 then
          (let copy = (if offset + nbytes > 64 then 64 - offset else nbytes);
               pms = pms\<lparr>md5_buf := mem_write (md5_buf pms) offset (take copy data)\<rparr>
           in if offset + copy < 64 then pms
              else md5_blocks (md5_process pms (md5_buf pms)) (drop copy data))
        else md5_blocks pms data)"

text \<open>Byte \<open>i\<close> of a pair of words is \<^verbatim>\<open>count[i >> 2] >> ((i & 3) << 3)\<close>.\<close>

definition md5_pad :: "byte list" where
  "md5_pad = 0x80 # replicate 63 0"

definition md5_finish :: "md5_state \<Rightarrow> md5_state \<times> byte list" where
  "md5_finish pms =
     (let data = map (\<lambda>i. ucast (drop_bit (8 * (i mod 4)) ([fst (md5_count pms), snd (md5_count pms)] ! (i div 4)))) [0..<8];
          pms = md5_append pms (take (unat ((55 - drop_bit 3 (fst (md5_count pms))) AND 63) + 1) md5_pad);
          pms = md5_append pms data
      in case md5_abcd pms of
           (a, b, c, d) \<Rightarrow> (pms, map (\<lambda>i. ucast (drop_bit (8 * (i mod 4)) ([a, b, c, d] ! (i div 4)))) [0..<16]))"

section \<open>RFC 1321\<close>

text \<open>The algorithm as a loop of 64 steps over a whole padded message.\<close>

definition rfc_T :: "u32 list" where
  "rfc_T =
     [0xd76aa478, 0xe8c7b756, 0x242070db, 0xc1bdceee, 0xf57c0faf, 0x4787c62a, 0xa8304613, 0xfd469501,
      0x698098d8, 0x8b44f7af, 0xffff5bb1, 0x895cd7be, 0x6b901122, 0xfd987193, 0xa679438e, 0x49b40821,
      0xf61e2562, 0xc040b340, 0x265e5a51, 0xe9b6c7aa, 0xd62f105d, 0x02441453, 0xd8a1e681, 0xe7d3fbc8,
      0x21e1cde6, 0xc33707d6, 0xf4d50d87, 0x455a14ed, 0xa9e3e905, 0xfcefa3f8, 0x676f02d9, 0x8d2a4c8a,
      0xfffa3942, 0x8771f681, 0x6d9d6122, 0xfde5380c, 0xa4beea44, 0x4bdecfa9, 0xf6bb4b60, 0xbebfbc70,
      0x289b7ec6, 0xeaa127fa, 0xd4ef3085, 0x04881d05, 0xd9d4d039, 0xe6db99e5, 0x1fa27cf8, 0xc4ac5665,
      0xf4292244, 0x432aff97, 0xab9423a7, 0xfc93a039, 0x655b59c3, 0x8f0ccc92, 0xffeff47d, 0x85845dd1,
      0x6fa87e4f, 0xfe2ce6e0, 0xa3014314, 0x4e0811a1, 0xf7537e82, 0xbd3af235, 0x2ad7d2bb, 0xeb86d391]"

definition rfc_f :: "nat \<Rightarrow> u32 \<Rightarrow> u32 \<Rightarrow> u32 \<Rightarrow> u32" where
  "rfc_f i b c d =
     (if i < 16 then (b AND c) OR (NOT b AND d)
      else if i < 32 then (b AND d) OR (c AND NOT d)
      else if i < 48 then b XOR c XOR d
      else c XOR (b OR NOT d))"

definition rfc_k :: "nat \<Rightarrow> nat" where
  "rfc_k i =
     (if i < 16 then i else if i < 32 then (5 * i + 1) mod 16 else if i < 48 then (3 * i + 5) mod 16 else 7 * i mod 16)"

definition rfc_s :: "nat \<Rightarrow> nat" where
  "rfc_s i =
     (if i < 16 then [7, 12, 17, 22] else if i < 32 then [5, 9, 14, 20] else if i < 48 then [4, 11, 16, 23] else [6, 10, 15, 21]) ! (i mod 4)"

fun rfc_step :: "u32 list \<Rightarrow> nat \<Rightarrow> md5_regs \<Rightarrow> md5_regs" where
  "rfc_step X i (a, b, c, d) = (d, b + word_rotl (rfc_s i) (a + rfc_f i b c d + X ! rfc_k i + rfc_T ! i), b, c)"

definition rfc_block :: "byte list \<Rightarrow> md5_regs \<Rightarrow> md5_regs" where
  "rfc_block block regs = add_regs regs (fold (rfc_step (md5_words block)) [0..<64] regs)"

fun rfc_blocks :: "byte list \<Rightarrow> md5_regs \<Rightarrow> md5_regs" where
  "rfc_blocks m regs = (if length m < 64 then regs else rfc_blocks (drop 64 m) (rfc_block (take 64 m) regs))"

declare rfc_blocks.simps [simp del]

definition rfc_length :: "nat \<Rightarrow> byte list" where
  "rfc_length n = le32 (of_nat (8 * n)) @ le32 (of_nat (8 * n div 2 ^ 32))"

definition rfc_pad :: "byte list \<Rightarrow> byte list" where
  "rfc_pad m = m @ 0x80 # replicate (nat ((55 - int (length m)) mod 64)) 0 @ rfc_length (length m)"

definition rfc_md5 :: "byte list \<Rightarrow> byte list" where
  "rfc_md5 m =
     (case rfc_blocks (rfc_pad m) (0x67452301, 0xefcdab89, 0x98badcfe, 0x10325476) of
        (a, b, c, d) \<Rightarrow> le32 a @ le32 b @ le32 c @ le32 d)"

section \<open>The rounds\<close>

lemma rotate_left_word_rotl: "n < 32 \<Longrightarrow> ROTATE_LEFT x n = word_rotl n x"
proof (rule bit_word_eqI)
  fix i assume n: "n < 32" "i < LENGTH(32)"
  have high: "\<not> bit x j" if "32 \<le> j" for j using that bit_imp_le_length [of x j] by auto
  have "(i + 32 - n) mod 32 = (if n \<le> i then i - n else 32 + i - n)"
    using n by (auto simp: mod_if)
  then show "bit (ROTATE_LEFT x n) i = bit (word_rotl n x) i"
    using n high [of "32 + i - n"] by (auto simp: ROTATE_LEFT_def bit_simps)
qed

lemma T_table_rfc: "T_table = rfc_T"
  by (simp add: T_table_def rfc_T_def T_MASK_def)


definition gstep :: "(u32 \<Rightarrow> u32 \<Rightarrow> u32 \<Rightarrow> u32) \<Rightarrow> u32 \<Rightarrow> nat \<Rightarrow> u32 \<Rightarrow> md5_regs \<Rightarrow> md5_regs" where
  "gstep f x s t = (\<lambda>(a, b, c, d). (d, b + word_rotl s (a + f b c d + x + t), b, c))"

text \<open>Four operations, one on each register, are four steps of the loop.\<close>

lemma four_steps:
  assumes "s1 < 32" "s2 < 32" "s3 < 32" "s4 < 32"
  shows "SETb f X k4 s4 t4 (SETc f X k3 s3 t3 (SETd f X k2 s2 t2 (SETa f X k1 s1 t1 r))) =
    gstep f (X ! k4) s4 t4 (gstep f (X ! k3) s3 t3 (gstep f (X ! k2) s2 t2 (gstep f (X ! k1) s1 t1 r)))"
  using assms by (cases r) (simp add: SET_def Let_def gstep_def rotate_left_word_rotl add.commute)

lemma rfc_step_gstep: "rfc_step X i = gstep (rfc_f i) (X ! rfc_k i) (rfc_s i) (rfc_T ! i)"
  by (auto simp: gstep_def fun_eq_iff)

lemma rfc_f_round:
  "i < 16 \<Longrightarrow> rfc_f i = md5_F" "16 \<le> i \<Longrightarrow> i < 32 \<Longrightarrow> rfc_f i = md5_G"
  "32 \<le> i \<Longrightarrow> i < 48 \<Longrightarrow> rfc_f i = md5_H" "48 \<le> i \<Longrightarrow> rfc_f i = md5_I"
  by (auto simp: fun_eq_iff rfc_f_def md5_F_def md5_G_def md5_H_def md5_I_def)

lemma upt_16: "[0..<16] = [0, 1, 2, 3, 4, 5, 6, 7, 8, 9, 10, 11, 12, 13, 14, 15]"
  by code_simp

lemma round1_rfc: "md5_round1 X r = fold (rfc_step X) [0..<16] r"
  by (simp add: md5_round1_def four_steps rfc_step_gstep upt_16 rfc_f_round rfc_k_def rfc_s_def T_def T_table_rfc)

lemma round2_rfc: "md5_round2 X r = fold (rfc_step X) [16..<32] r"
  by (simp add: md5_round2_def four_steps rfc_step_gstep upt_conv_Cons rfc_f_round rfc_k_def rfc_s_def T_def T_table_rfc)

lemma round3_rfc: "md5_round3 X r = fold (rfc_step X) [32..<48] r"
  by (simp add: md5_round3_def four_steps rfc_step_gstep upt_conv_Cons rfc_f_round rfc_k_def rfc_s_def T_def T_table_rfc)

lemma round4_rfc: "md5_round4 X r = fold (rfc_step X) [48..<64] r"
  by (simp add: md5_round4_def four_steps rfc_step_gstep upt_conv_Cons rfc_f_round rfc_k_def rfc_s_def T_def T_table_rfc)

lemma md5_process_rfc: "md5_process pms block = pms\<lparr>md5_abcd := rfc_block block (md5_abcd pms)\<rparr>"
proof -
  have "[0..<64] = [0..<16] @ [16..<32] @ [32..<48] @ [48..<64]"
    using upt_add_eq_append [of 0 16 16] upt_add_eq_append [of 0 32 16] upt_add_eq_append [of 0 48 16] by simp
  then show ?thesis
    by (simp only: md5_process_def Let_def rfc_block_def round1_rfc round2_rfc round3_rfc round4_rfc fold_append comp_apply)
qed


section \<open>Pieces of a message\<close>

lemma rfc_blocks_append: "length b = 64 * k \<Longrightarrow> rfc_blocks (b @ m) r = rfc_blocks m (rfc_blocks b r)"
proof (induction k arbitrary: b r)
  case 0
  then show ?case by (simp add: rfc_blocks.simps [of "[]"])
next
  case (Suc k)
  then have "length (drop 64 b) = 64 * k" "64 \<le> length b" by auto
  with Suc.IH [of "drop 64 b" "rfc_block (take 64 b) r"] show ?case
    by (simp add: rfc_blocks.simps [of "b @ m"] rfc_blocks.simps [of b])
qed

text \<open>The state after a message: the length in bits, the registers after its full blocks, the rest in the buffer.\<close>

definition full_blocks :: "byte list \<Rightarrow> byte list" where
  "full_blocks m = take (length m div 64 * 64) m"

definition rest_block :: "byte list \<Rightarrow> byte list" where
  "rest_block m = drop (length m div 64 * 64) m"

definition md5_rep :: "md5_state \<Rightarrow> md5_regs \<Rightarrow> byte list \<Rightarrow> bool" where
  "md5_rep pms r m \<longleftrightarrow>
     md5_count pms = (of_nat (8 * length m), of_nat (8 * length m div 2 ^ 32)) \<and>
     length (md5_buf pms) = 64 \<and> take (length m mod 64) (md5_buf pms) = rest_block m \<and>
     md5_abcd pms = rfc_blocks (full_blocks m) r"

lemma rest_block_len: "length (rest_block m) = length m mod 64" "full_blocks m @ rest_block m = m"
  "length (full_blocks m) = 64 * (length m div 64)"
  by (simp_all add: rest_block_def full_blocks_def minus_div_mult_eq_mod)

lemma split_blocks: "length b = 64 * k \<Longrightarrow> length x < 64 \<Longrightarrow> full_blocks (b @ x) = b \<and> rest_block (b @ x) = x"
  by (simp add: full_blocks_def rest_block_def)

lemma md5_blocks_rest:
  assumes "length (md5_buf pms) = 64"
  shows "md5_abcd (md5_blocks pms p) = rfc_blocks (full_blocks p) (md5_abcd pms) \<and>
    take (length p mod 64) (md5_buf (md5_blocks pms p)) = rest_block p \<and> length (md5_buf (md5_blocks pms p)) = 64 \<and>
    md5_count (md5_blocks pms p) = md5_count pms"
  using assms
proof (induction pms p rule: md5_blocks.induct)
  case (1 pms p)
  show ?case
  proof (cases "length p \<ge> 64")
    case True
    let ?q = "drop 64 p"
    have d: "length p div 64 = Suc (length ?q div 64)" "length p mod 64 = length ?q mod 64" using True by (auto simp: le_div_geq le_mod_geq)
    have f: "full_blocks p = take 64 p @ full_blocks ?q" "rest_block p = rest_block ?q"
      using True by (simp_all add: full_blocks_def rest_block_def d(1) take_add add.commute)
    have "rfc_blocks (full_blocks p) r = rfc_blocks (full_blocks ?q) (rfc_block (take 64 p) r)" for r
      unfolding f(1) using True rfc_blocks_append [of "take 64 p" 1 "full_blocks ?q" r] by (simp add: rfc_blocks.simps [of "take 64 p"] rfc_blocks.simps [of "[]"])
    then show ?thesis using 1 True f(2) d(2) by (simp add: md5_blocks.simps [of pms p] md5_process_rfc)
  next
    case False
    then have "full_blocks p = []" "rest_block p = p" by (simp_all add: full_blocks_def rest_block_def)
    then show ?thesis using 1(2) False by (auto simp: md5_blocks.simps [of pms p] rfc_blocks.simps [of "[]"] mem_write_def)
  qed
qed

lemma and_63: "w AND 63 = take_bit 6 (w :: u32)"
  by (simp add: take_bit_eq_mask mask_eq_exp_minus_1)

lemma unat_and_63: "unat (w AND 63 :: u32) = unat w mod 64"
  unfolding and_63 by (simp add: take_bit_eq_mod unat_mod_distrib)

lemma md5_unat_of_nat: "unat (of_nat k :: u32) = k mod 2 ^ 32"
  by (simp add: unsigned_of_nat take_bit_eq_mod)

lemma count_offset: "unat (drop_bit 3 (of_nat (8 * n) :: u32) AND 63) = n mod 64"
proof -
  have "unat (drop_bit 3 (of_nat (8 * n) :: u32)) = n mod 536870912"
    using md5_unat_of_nat [of "8 * n"] mult_mod_right [of 8 n 536870912]
    by (simp add: drop_bit_eq_div unat_div_distrib del: of_nat_mult)
  then show ?thesis unfolding unat_and_63 by (simp add: mod_mod_cancel)
qed

lemma carry:
  assumes "x < M" "y < (M :: nat)"
  shows "(x + y) div M = (if M \<le> x + y then 1 else 0)" "(x + y) mod M < y \<longleftrightarrow> M \<le> x + y"
proof -
  have "(x + y) div M = 1 \<and> (x + y) mod M = x + y - M" if "M \<le> x + y"
    using that assms by (simp add: le_div_geq le_mod_geq)
  then show "(x + y) div M = (if M \<le> x + y then 1 else 0)" "(x + y) mod M < y \<longleftrightarrow> M \<le> x + y"
    using assms by (cases "M \<le> x + y"; simp)+
qed

lemma count_add:
  fixes m n :: nat
  defines "nbits \<equiv> push_bit 3 (of_nat n) :: u32"
  defines "c0 \<equiv> of_nat (8 * m) + nbits" and "c1 \<equiv> of_nat (8 * m div 2 ^ 32) + of_nat (n div 2 ^ 29) :: u32"
  shows "(c0, if c0 < nbits then c1 + 1 else c1) = (of_nat (8 * (m + n)), of_nat (8 * (m + n) div 2 ^ 32))"
proof -
  have nb: "nbits = of_nat (8 * n)" by (simp add: nbits_def push_bit_eq_mult)
  let ?x = "8 * m mod 2 ^ 32" and ?y = "8 * n mod 2 ^ 32"
  have u: "unat nbits = ?y" "unat c0 = (?x + ?y) mod 2 ^ 32"
    unfolding c0_def nb unat_word_ariths(1) md5_unat_of_nat by simp_all
  have "c0 < nbits \<longleftrightarrow> 2 ^ 32 \<le> ?x + ?y"
    unfolding word_less_nat_alt u by (rule carry(2)) simp_all
  moreover have "8 * (m + n) div 2 ^ 32 = 8 * m div 2 ^ 32 + n div 2 ^ 29 + (if 2 ^ 32 \<le> ?x + ?y then 1 else 0)"
  proof -
    have "8 * (m + n) div 2 ^ 32 = 8 * m div 2 ^ 32 + 8 * n div 2 ^ 32 + (?x + ?y) div 2 ^ 32"
      unfolding distrib_left by (rule div_add1_eq)
    moreover have "8 * n div 2 ^ 32 = n div 2 ^ 29" by simp
    moreover have "(?x + ?y) div 2 ^ 32 = (if 2 ^ 32 \<le> ?x + ?y then 1 else 0)" by (rule carry(1)) simp_all
    ultimately show ?thesis by (simp only:)
  qed
  moreover have "c0 = of_nat (8 * (m + n))" unfolding c0_def nb by (simp add: algebra_simps)
  ultimately show ?thesis by (simp add: c1_def)
qed

lemma blocks_extend:
  assumes "length m mod 64 + length data < 64"
  shows "full_blocks (m @ data) = full_blocks m" "rest_block (m @ data) = rest_block m @ data"
  using split_blocks [of "full_blocks m" "length m div 64" "rest_block m @ data"] assms rest_block_len [of m]
  by (metis append.assoc length_append)+

lemma blocks_complete:
  assumes "length (rest_block m @ x) = 64"
  shows "full_blocks (m @ x @ y) = full_blocks m @ rest_block m @ x @ full_blocks y" "rest_block (m @ x @ y) = rest_block y"
proof -
  have "m @ x @ y = (full_blocks m @ rest_block m @ x @ full_blocks y) @ rest_block y"
    using rest_block_len(2) [of m] rest_block_len(2) [of y] by (metis append.assoc)
  moreover have "length (full_blocks m @ rest_block m @ x @ full_blocks y) = 64 * (length m div 64 + 1 + length y div 64)"
    using assms rest_block_len(3) [of m] rest_block_len(3) [of y] by simp
  moreover have "length (rest_block y) < 64" by (simp add: rest_block_len)
  ultimately show "full_blocks (m @ x @ y) = full_blocks m @ rest_block m @ x @ full_blocks y" "rest_block (m @ x @ y) = rest_block y"
    using split_blocks by metis+
qed


lemma md5_append_rep:
  assumes rep: "md5_rep pms r m"
  shows "md5_rep (md5_append pms data) r (m @ data)"
proof (cases "data = []")
  case True
  then show ?thesis using rep by (simp add: md5_append_def)
next
  case False
  define pms1 where "pms1 = pms\<lparr>md5_count := (of_nat (8 * (length m + length data)), of_nat (8 * (length m + length data) div 2 ^ 32))\<rparr>"
  let ?o = "length m mod 64"
  let ?copy = "if ?o + length data > 64 then 64 - ?o else length data"
  define pms2 where "pms2 = pms1\<lparr>md5_buf := mem_write (md5_buf pms) ?o (take ?copy data)\<rparr>"
  have c: "md5_count pms = (of_nat (8 * length m), of_nat (8 * length m div 2 ^ 32))" "length (md5_buf pms) = 64"
    "take ?o (md5_buf pms) = rest_block m" "md5_abcd pms = rfc_blocks (full_blocks m) r"
    using rep by (simp_all add: md5_rep_def)
  have ap: "md5_append pms data =
      (if ?o \<noteq> 0 then if ?o + ?copy < 64 then pms2 else md5_blocks (md5_process pms2 (md5_buf pms2)) (drop ?copy data)
       else md5_blocks pms1 data)"
    using False unfolding md5_append_def Let_def c(1) fst_conv snd_conv count_offset count_add pms2_def pms1_def by simp
  have b2: "md5_buf pms2 = rest_block m @ take ?copy data @ drop (?o + length (take ?copy data)) (md5_buf pms)"
    by (simp add: pms2_def mem_write_def c(3))
  have p1: "md5_count pms1 = (of_nat (8 * length (m @ data)), of_nat (8 * length (m @ data) div 2 ^ 32))" "md5_abcd pms1 = md5_abcd pms"
    "length (md5_buf pms1) = 64" using c(2) by (simp_all add: pms1_def)
  have p2: "md5_count pms2 = md5_count pms1" "md5_abcd pms2 = md5_abcd pms" by (simp_all add: pms2_def pms1_def)
  show ?thesis
  proof (cases "?o = 0")
    case True
    then have "rest_block m = []" using rest_block_len(1) [of m] by simp
    then have m: "full_blocks m = m" using rest_block_len(2) [of m] by simp
    obtain k where k: "length m = 64 * k" using True by auto
    have "full_blocks (m @ data) = m @ full_blocks data" "rest_block (m @ data) = rest_block data"
      using split_blocks [of "m @ full_blocks data" "k + length data div 64" "rest_block data"] k rest_block_len [of data] by simp_all
    moreover have "md5_append pms data = md5_blocks pms1 data" using ap True by simp
    ultimately have eq: "md5_append pms data = md5_blocks pms1 data" "rest_block (m @ data) = rest_block data"
      "rfc_blocks (full_blocks (m @ data)) r = rfc_blocks (full_blocks data) (md5_abcd pms1)" "length (m @ data) mod 64 = length data mod 64"
      using k p1(2) m c(4) rfc_blocks_append [OF k] by simp_all
    show ?thesis
      using md5_blocks_rest [of pms1 data] p1 unfolding md5_rep_def eq by metis
  next
    case off: False
    show ?thesis
    proof (cases "?o + length data < 64")
      case True
      then have "md5_append pms data = pms2" using ap off by simp
      moreover have "(length m + length data) mod 64 = ?o + length data" using True by (metis mod_add_left_eq mod_less)
      then have "take ((length m + length data) mod 64) (md5_buf pms2) = rest_block m @ data"
        using b2 True rest_block_len(1) [of m] by simp
      moreover have "length (md5_buf pms2) = 64" using b2 True rest_block_len(1) [of m] c(2) by simp
      ultimately show ?thesis
        using c(4) p1 p2 unfolding md5_rep_def blocks_extend [OF True] length_append by simp
    next
      case big: False
      define x where "x = take (64 - ?o) data"
      define y where "y = drop (64 - ?o) data"
      have xy: "data = x @ y" "length (rest_block m @ x) = 64" using big by (auto simp: x_def y_def rest_block_len)
      have cp: "?copy = 64 - ?o" using big by (auto simp: not_less)
      have buf: "md5_buf pms2 = rest_block m @ x" "length (md5_buf pms2) = 64"
        using b2 xy(2) c(2) by (simp_all add: cp x_def [symmetric] rest_block_len)
      have ap2: "md5_append pms data = md5_blocks (md5_process pms2 (md5_buf pms2)) y" using ap off by (simp add: cp y_def [symmetric])
      have bl: "rfc_blocks (full_blocks (m @ x @ y)) r = rfc_blocks (full_blocks y) (rfc_block (rest_block m @ x) (rfc_blocks (full_blocks m) r))"
        unfolding blocks_complete(1) [OF xy(2)]
        using rfc_blocks_append [of "full_blocks m" "length m div 64"] rfc_blocks_append [of "rest_block m @ x" 1 "full_blocks y"] xy(2) rest_block_len(3) [of m]
        by (simp add: rfc_blocks.simps [of "rest_block m @ x"] rfc_blocks.simps [of "[]"])
      have "length (m @ data) = length (full_blocks m) + length (rest_block m @ x) + length y"
        using arg_cong [OF rest_block_len(2) [of m], of length] unfolding xy(1) by simp
      then have "length (m @ data) = 64 * (length m div 64 + 1) + length y"
        unfolding xy(2) rest_block_len(3) by simp
      then have len: "length (m @ data) mod 64 = length y mod 64" by (simp only: mod_mult_self4)
      define pms3 where "pms3 = md5_process pms2 (md5_buf pms2)"
      have p3: "length (md5_buf pms3) = 64" "md5_count pms3 = md5_count pms1" "md5_abcd pms3 = rfc_block (rest_block m @ x) (rfc_blocks (full_blocks m) r)"
        using buf p2 c(4) by (simp_all add: pms3_def md5_process_rfc)
      have eq: "md5_append pms data = md5_blocks pms3 y" "rfc_blocks (full_blocks (m @ data)) r = rfc_blocks (full_blocks y) (md5_abcd pms3)"
        using ap2 bl p3(3) by (simp_all only: pms3_def xy(1) append.assoc)
      have rst: "rest_block (m @ data) = rest_block y" using blocks_complete(2) [OF xy(2), of y] by (simp only: xy(1))
      show ?thesis
        using md5_blocks_rest [OF p3(1), of y] unfolding md5_rep_def eq p3(2) p1(1) rst len by blast
    qed
  qed
qed

section \<open>The digest\<close>

lemma word_bytes:
  "map (\<lambda>i. ucast (drop_bit (8 * (i mod 4)) ([c0, c1 :: u32] ! (i div 4)))) [0..<8] = le32 c0 @ le32 c1"
  "map (\<lambda>i. ucast (drop_bit (8 * (i mod 4)) ([a, b, c, d :: u32] ! (i div 4)))) [0..<16] = le32 a @ le32 b @ le32 c @ le32 d"
proof -
  have "[0..<8] = [0, 1, 2, 3, 4, 5, 6, 7]" by code_simp
  then show "map (\<lambda>i. ucast (drop_bit (8 * (i mod 4)) ([c0, c1 :: u32] ! (i div 4)))) [0..<8] = le32 c0 @ le32 c1"
    by (simp add: le32_def)
  show "map (\<lambda>i. ucast (drop_bit (8 * (i mod 4)) ([a, b, c, d :: u32] ! (i div 4)))) [0..<16] = le32 a @ le32 b @ le32 c @ le32 d"
    unfolding upt_16 by (simp add: le32_def)
qed

lemma pad_length: "unat ((55 - drop_bit 3 (of_nat (8 * n) :: u32)) AND 63) = nat ((55 - int n) mod 64)"
proof -
  let ?w = "drop_bit 3 (of_nat (8 * n)) :: u32"
  have "int (unat ?w mod 64) = int (n mod 64)" using count_offset [of n] by (simp only: unat_and_63)
  then have w: "uint ?w mod 64 = int n mod 64" by (simp only: zmod_int unsigned_of_nat uint_nat of_nat_numeral)
  have "uint (55 - ?w) mod 64 = (55 - uint ?w) mod 64"
    unfolding uint_word_ariths by (simp add: mod_mod_cancel)
  also have "\<dots> = (55 - int n) mod 64" using w by (metis mod_diff_right_eq)
  finally have "int (unat ((55 - ?w) AND 63)) = (55 - int n) mod 64"
    unfolding unat_and_63 by (simp only: zmod_int uint_nat [symmetric] of_nat_numeral)
  then show ?thesis by linarith
qed

lemma md5_finish_rep:
  assumes rep: "md5_rep pms (0x67452301, 0xefcdab89, 0x98badcfe, 0x10325476) m"
  shows "snd (md5_finish pms) = rfc_md5 m" "length (md5_buf (fst (md5_finish pms))) = 64"
proof -
  define k where "k = nat ((55 - int (length m)) mod 64)"
  have k: "k < 64" by (simp add: k_def)
  have pad: "take (k + 1) md5_pad = 0x80 # replicate k 0" using k by (simp add: md5_pad_def)
  have c: "md5_count pms = (of_nat (8 * length m), of_nat (8 * length m div 2 ^ 32))" using rep by (simp add: md5_rep_def)
  define pms2 where "pms2 = md5_append (md5_append pms (0x80 # replicate k 0)) (rfc_length (length m))"
  have fin: "md5_finish pms = (case md5_abcd pms2 of (a, b, c, d) \<Rightarrow> (pms2, le32 a @ le32 b @ le32 c @ le32 d))"
    unfolding md5_finish_def Let_def c fst_conv snd_conv word_bytes pad_length k_def [symmetric] pad pms2_def rfc_length_def ..
  have pm: "rfc_pad m = (m @ 0x80 # replicate k 0) @ rfc_length (length m)" by (simp add: rfc_pad_def k_def)
  have rep2: "md5_rep pms2 (0x67452301, 0xefcdab89, 0x98badcfe, 0x10325476) (rfc_pad m)"
    unfolding pms2_def pm by (rule md5_append_rep [OF md5_append_rep [OF rep]])
  define q where "q = (55 - int (length m)) div 64"
  have "55 - int (length m) = q * 64 + int k"
    using div_mult_mod_eq [of "55 - int (length m)" 64] by (simp add: q_def k_def)
  moreover have "int (length (rfc_pad m)) = int (length m) + int k + 9" unfolding pm by (simp add: rfc_length_def)
  ultimately have "int (length (rfc_pad m)) = 64 * (1 - q)" by (simp add: algebra_simps)
  then have "int 64 dvd int (length (rfc_pad m))" by simp
  then have "64 dvd length (rfc_pad m)" by (simp only: int_dvd_int_iff)
  then have "full_blocks (rfc_pad m) = rfc_pad m" unfolding full_blocks_def by simp
  then have "md5_abcd pms2 = rfc_blocks (rfc_pad m) (0x67452301, 0xefcdab89, 0x98badcfe, 0x10325476)" "length (md5_buf pms2) = 64"
    using rep2 by (simp_all only: md5_rep_def)
  then show "snd (md5_finish pms) = rfc_md5 m" "length (md5_buf (fst (md5_finish pms))) = 64"
    unfolding fin rfc_md5_def by (simp_all add: case_prod_beta)
qed

lemma md5_init_rep:
  assumes "length (md5_buf pms) = 64"
  shows "md5_rep (md5_init pms) (0x67452301, 0xefcdab89, 0x98badcfe, 0x10325476) []"
  using assms by (simp add: md5_rep_def md5_init_def T_MASK_def rest_block_def full_blocks_def rfc_blocks.simps [of "[]"])

lemma md5_pieces_rep: "md5_rep pms r m \<Longrightarrow> md5_rep (foldl md5_append pms ds) r (m @ concat ds)"
  by (induction ds arbitrary: pms m) (simp_all, metis append.assoc md5_append_rep)



end
