(* ===== verification/Base64.thy ===== *)
theory Base64
  imports Prelude
begin

text \<open>
  \<^verbatim>\<open>redsocks/base64.c\<close>: the encoder, which shifts the input through a 32-bit register and emits a character
  as soon as more than six bits are pending, and the decoder.  Both are shown to be the encoding by groups
  of three bytes and its inverse.  Strings are lists of bytes without the terminating zero.
\<close>

unbundle bit_operations_syntax

section \<open>The code\<close>

definition map2_b64 :: "byte list" where
  "map2_b64 =
     [0x3e, 0xff, 0xff, 0xff, 0x3f, 0x34, 0x35, 0x36,
      0x37, 0x38, 0x39, 0x3a, 0x3b, 0x3c, 0x3d, 0xff,
      0xff, 0xff, 0xff, 0xff, 0xff, 0xff, 0x00, 0x01,
      0x02, 0x03, 0x04, 0x05, 0x06, 0x07, 0x08, 0x09,
      0x0a, 0x0b, 0x0c, 0x0d, 0x0e, 0x0f, 0x10, 0x11,
      0x12, 0x13, 0x14, 0x15, 0x16, 0x17, 0x18, 0x19,
      0xff, 0xff, 0xff, 0xff, 0xff, 0xff, 0x1a, 0x1b,
      0x1c, 0x1d, 0x1e, 0x1f, 0x20, 0x21, 0x22, 0x23,
      0x24, 0x25, 0x26, 0x27, 0x28, 0x29, 0x2a, 0x2b,
      0x2c, 0x2d, 0x2e, 0x2f, 0x30, 0x31, 0x32, 0x33]"

text \<open>The loop of \<^verbatim>\<open>base64_decode\<close> at index \<open>i\<close>; \<open>dst\<close> is what was written so far.  The register is a C int, here with
  wrap-around.\<close>

fun decode_loop :: "int \<Rightarrow> nat \<Rightarrow> u32 \<Rightarrow> byte list \<Rightarrow> byte list \<Rightarrow> byte list option" where
  "decode_loop out_size i v dst [] = Some dst"
| "decode_loop out_size i v dst (c # cs) =
     (if c = 61 then Some dst
      else let index = unat ((ucast c :: u32) - 43) in
      if index \<ge> length map2_b64 \<or> map2_b64 ! index = 0xff then None
      else let v = push_bit 6 v + ucast (map2_b64 ! index) in
        decode_loop out_size (i + 1) v
          (if i mod 4 \<noteq> 0 \<and> int (length dst) < out_size then dst @ [ucast (drop_bit (6 - 2 * (i mod 4)) v)] else dst) cs)"

text \<open>\<open>None\<close> is the result -1; the bytes written and their number otherwise.\<close>

definition base64_decode :: "byte list \<Rightarrow> int \<Rightarrow> byte list option" where
  "base64_decode cs out_size = decode_loop out_size 0 0 [] cs"

definition b64 :: "byte list" where
  "b64 = map of_char ''ABCDEFGHIJKLMNOPQRSTUVWXYZabcdefghijklmnopqrstuvwxyz0123456789+/''"

definition BASE64_SIZE :: "int \<Rightarrow> int" where
  "BASE64_SIZE x = (x + 2) div 3 * 4 + 1"

text \<open>The inner loop: characters while more than six bits, or at the end any bits, are pending.\<close>

function b64_emit :: "u32 \<Rightarrow> int \<Rightarrow> bool \<Rightarrow> byte list \<times> int" where
  "b64_emit i_bits i_shift is_last =
     (let c = b64 ! unat (drop_bit (nat i_shift) (push_bit 6 i_bits) AND 0x3f);
          i_shift = i_shift - 6
      in if i_shift > 6 \<or> (is_last \<and> i_shift > 0) then
           (let (cs, i_shift) = b64_emit i_bits i_shift is_last in (c # cs, i_shift))
         else ([c], i_shift))"
  by pat_completeness auto
termination
  by (relation "measure (\<lambda>(bits, sh, l). nat sh)") auto

declare b64_emit.simps [simp del]

fun encode_loop :: "u32 \<Rightarrow> int \<Rightarrow> byte list \<Rightarrow> byte list" where
  "encode_loop i_bits i_shift [] = []"
| "encode_loop i_bits i_shift (x # xs) =
     (let i_bits = push_bit 8 i_bits + ucast x;
          (cs, i_shift) = b64_emit i_bits (i_shift + 8) (xs = [])
      in cs @ encode_loop i_bits i_shift xs)"

text \<open>The last loop pads to a multiple of four.\<close>

definition b64_pad :: "byte list \<Rightarrow> byte list" where
  "b64_pad cs = cs @ replicate ((4 - length cs mod 4) mod 4) 61"

text \<open>The bytes written to \<^verbatim>\<open>out\<close>, the terminating zero included; \<open>None\<close> is a null result.\<close>

definition base64_encode :: "int \<Rightarrow> byte list \<Rightarrow> byte list option" where
  "base64_encode out_size data =
     (if int (length data) \<ge> 4294967295 div 4 \<or> out_size < BASE64_SIZE (int (length data)) then None
      else Some (b64_pad (encode_loop 0 0 data) @ [0]))"

section \<open>Encoding by groups\<close>

text \<open>The encoding of RFC 4648: three bytes give four groups of six bits.\<close>

definition sextets :: "byte \<Rightarrow> byte \<Rightarrow> byte \<Rightarrow> u32 list" where
  "sextets a b c =
     [drop_bit 2 (ucast a), (push_bit 4 (ucast a) OR drop_bit 4 (ucast b)) AND 0x3f,
      (push_bit 2 (ucast b) OR drop_bit 6 (ucast c)) AND 0x3f, ucast c AND 0x3f]"

definition b64_char :: "u32 \<Rightarrow> byte" where
  "b64_char w = b64 ! unat w"

fun rfc4648 :: "byte list \<Rightarrow> byte list" where
  "rfc4648 [] = []"
| "rfc4648 [a] = map b64_char (take 2 (sextets a 0 0)) @ [61, 61]"
| "rfc4648 [a, b] = map b64_char (take 3 (sextets a b 0)) @ [61]"
| "rfc4648 (a # b # c # xs) = map b64_char (sextets a b c) @ rfc4648 xs"

lemma and_0x3f: "w AND 0x3f = take_bit 6 (w :: u32)"
  by (simp add: take_bit_eq_mask mask_eq_exp_minus_1)

lemma push_8_add: "push_bit 8 (v :: u32) + ucast (x :: byte) = push_bit 8 v OR ucast x"
  by (rule disjunctive_add) (auto simp: bit_simps)

lemma push_6_add:
  assumes "\<And>n. bit (w :: u32) n \<Longrightarrow> n < 6"
  shows "push_bit 6 v + w = push_bit 6 v OR w"
  by (rule disjunctive_add) (use assms in \<open>auto simp: bit_simps dest!: assms\<close>)

lemma emit_14: "b64_emit v 14 l = (b64_char (drop_bit 8 v AND 0x3f) # fst (b64_emit v 8 l), snd (b64_emit v 8 l))"
proof -
  have "drop_bit 14 (push_bit 6 v) AND 0x3f = drop_bit 8 v AND (0x3f :: u32)"
    unfolding and_0x3f by (rule bit_word_eqI) (auto simp: bit_simps)
  then show ?thesis
    by (subst b64_emit.simps) (simp add: b64_char_def Let_def case_prod_beta)
qed

text \<open>One step of the inner loop, for the pending bits that occur.\<close>

lemma emit_more: "sh - 6 > 6 \<or> (l \<and> sh - 6 > 0) \<Longrightarrow>
    b64_emit v sh l = (b64_char (drop_bit (nat sh) (push_bit 6 v) AND 0x3f) # fst (b64_emit v (sh - 6) l), snd (b64_emit v (sh - 6) l))"
  by (subst b64_emit.simps) (auto simp: b64_char_def Let_def case_prod_beta)

lemma emit_stop: "\<not> (sh - 6 > 6 \<or> (l \<and> sh - 6 > 0)) \<Longrightarrow>
    b64_emit v sh l = ([b64_char (drop_bit (nat sh) (push_bit 6 v) AND 0x3f)], sh - 6)"
  by (subst b64_emit.simps) (auto simp: b64_char_def Let_def)

lemma encode_pending:
  "xs \<noteq> [] \<Longrightarrow> encode_loop v 6 xs = b64_char (v AND 0x3f) # encode_loop v 0 xs"
proof (cases xs)
  case (Cons x ys)
  have "drop_bit 8 (push_bit 8 v OR ucast x) AND 0x3f = v AND (0x3f :: u32)"
    unfolding and_0x3f by (rule bit_word_eqI) (auto simp: bit_simps)
  then show ?thesis by (simp add: Cons Let_def case_prod_beta emit_14 push_8_add)
qed simp

lemma encode_group:
  "encode_loop v 0 (a # b # c # xs) =
    map b64_char (sextets a b c) @ encode_loop (push_bit 8 (push_bit 8 (push_bit 8 v + ucast a) + ucast b) + ucast c) 0 xs"
proof -
  define va where "va = push_bit 8 v + ucast a"
  define vb where "vb = push_bit 8 va + ucast b"
  define vc where "vc = push_bit 8 vb + ucast c"
  have "drop_bit 8 (push_bit 6 va) AND 0x3f = (drop_bit 2 (ucast a) :: u32)"
    "drop_bit 10 (push_bit 6 vb) AND 0x3f = (push_bit 4 (ucast a) OR drop_bit 4 (ucast b)) AND (0x3f :: u32)"
    "drop_bit 12 (push_bit 6 vc) AND 0x3f = (push_bit 2 (ucast b) OR drop_bit 6 (ucast c)) AND (0x3f :: u32)"
    "drop_bit 6 (push_bit 6 vc) AND 0x3f = ucast c AND (0x3f :: u32)"
    "vc AND 0x3f = ucast c AND (0x3f :: u32)"
    unfolding and_0x3f va_def vb_def vc_def push_8_add by (rule bit_word_eqI; auto simp: bit_simps)+
  note sx = this
  show ?thesis
    by (cases "xs = []")
      (simp_all add: va_def [symmetric] vb_def [symmetric] vc_def [symmetric] Let_def case_prod_beta emit_stop emit_more sextets_def sx encode_pending)
qed

lemma encode_tail:
  "encode_loop v 0 [a] = map b64_char (take 2 (sextets a 0 0))"
  "encode_loop v 0 [a, b] = map b64_char (take 3 (sextets a b 0))"
proof -
  define va where "va = push_bit 8 v + ucast a"
  define vb where "vb = push_bit 8 va + ucast b"
  have "drop_bit 8 (push_bit 6 va) AND 0x3f = (drop_bit 2 (ucast a) :: u32)"
    "drop_bit 2 (push_bit 6 va) AND 0x3f = (push_bit 4 (ucast a)) AND (0x3f :: u32)"
    "drop_bit 10 (push_bit 6 vb) AND 0x3f = (push_bit 4 (ucast a) OR drop_bit 4 (ucast b)) AND (0x3f :: u32)"
    "drop_bit 4 (push_bit 6 vb) AND 0x3f = push_bit 2 (ucast b) AND (0x3f :: u32)"
    unfolding and_0x3f va_def vb_def push_8_add by (rule bit_word_eqI; auto simp: bit_simps)+
  note sx = this
  show "encode_loop v 0 [a] = map b64_char (take 2 (sextets a 0 0))"
    by (simp add: va_def [symmetric] Let_def case_prod_beta emit_stop emit_more sextets_def sx)
  show "encode_loop v 0 [a, b] = map b64_char (take 3 (sextets a b 0))"
    by (simp add: va_def [symmetric] vb_def [symmetric] Let_def case_prod_beta emit_stop emit_more sextets_def sx)
qed

lemma encode_rfc4648: "b64_pad (encode_loop v 0 xs) = rfc4648 xs"
proof (induction xs arbitrary: v rule: rfc4648.induct)
  case (4 a b c xs)
  have "length (map b64_char (sextets a b c)) = 4" by (simp add: sextets_def)
  then show ?case using 4 unfolding encode_group b64_pad_def by (simp add: mod_add_left_eq)
qed (unfold encode_tail, simp_all add: b64_pad_def sextets_def numeral_2_eq_2)

lemma length_rfc4648: "int (length (rfc4648 xs)) = BASE64_SIZE (int (length xs)) - 1"
proof (induction xs rule: rfc4648.induct)
  case (4 a b c xs)
  have "(5 + int (length xs)) div 3 = (int (length xs) + 2) div 3 + 1"
    using div_add_self2 [of 3 "int (length xs) + 2"] by (simp add: algebra_simps)
  with 4 show ?case by (simp add: sextets_def BASE64_SIZE_def)
qed (simp_all add: sextets_def BASE64_SIZE_def)

section \<open>Decoding\<close>

lemma b64_codes: "b64 = [65, 66, 67, 68, 69, 70, 71, 72, 73, 74, 75, 76, 77, 78, 79, 80, 81, 82, 83, 84, 85, 86, 87, 88, 89, 90, 97, 98, 99, 100, 101, 102, 103, 104, 105, 106, 107, 108, 109, 110, 111, 112, 113, 114, 115, 116, 117, 118, 119, 120, 121, 122, 48, 49, 50, 51, 52, 53, 54, 55, 56, 57, 43, 47]"
  by (simp add: b64_def)

definition b64_index :: "byte \<Rightarrow> nat" where
  "b64_index c = unat ((ucast c :: u32) - 43)"

lemma map2_indices: "map (\<lambda>c. map2_b64 ! b64_index c) b64 = map of_nat [0..<64]"
  by (simp add: b64_codes b64_index_def map2_b64_def upt_conv_Cons)

lemma b64_indices: "\<forall>c \<in> set b64. b64_index c < 80 \<and> c \<noteq> 61 \<and> c \<noteq> 0"
  by (simp add: b64_codes b64_index_def)

lemma b64_map2:
  assumes "w < 64"
  shows "b64_char w \<noteq> 61" "b64_char w \<noteq> 0" "unat ((ucast (b64_char w) :: u32) - 43) < length map2_b64"
    "map2_b64 ! unat ((ucast (b64_char w) :: u32) - 43) = ucast w" "(ucast w :: byte) \<noteq> 0xff"
proof -
  have n: "unat w < 64" using assms by (simp add: word_less_nat_alt)
  have len: "length b64 = 64" "length map2_b64 = 80" by (simp_all add: b64_codes map2_b64_def)
  have c: "b64_char w \<in> set b64" using n len by (simp add: b64_char_def)
  with b64_indices show "b64_char w \<noteq> 61" "b64_char w \<noteq> 0" by blast+
  from c b64_indices show "unat ((ucast (b64_char w) :: u32) - 43) < length map2_b64" by (simp add: len b64_index_def)
  show "map2_b64 ! unat ((ucast (b64_char w) :: u32) - 43) = ucast w"
    using arg_cong [OF map2_indices, of "\<lambda>xs. xs ! unat w"] n len by (simp add: b64_char_def b64_index_def)
  have "unat (ucast w :: byte) < 64" using n by (simp add: unsigned_ucast_eq take_bit_eq_mod)
  then show "(ucast w :: byte) \<noteq> 0xff" by (auto simp: word_unat_eq_iff)
qed

lemma less_64_bits: "w < (64 :: u32) \<Longrightarrow> bit w n \<Longrightarrow> n < 6"
proof -
  assume w: "w < 64" "bit w n"
  then have "take_bit 6 w = w" by (simp add: word_unat_eq_iff take_bit_eq_mod unat_mod_distrib word_less_nat_alt)
  with w(2) show "n < 6" by (metis bit_take_bit_iff)
qed

lemma decode_end: "decode_loop n i v dst (61 # cs) = Some dst"
  by simp

lemma decode_char:
  assumes "w < 64"
  shows "decode_loop n i v dst (b64_char w # cs) =
    decode_loop n (i + 1) (push_bit 6 v OR w)
      (if i mod 4 \<noteq> 0 \<and> int (length dst) < n then dst @ [ucast (drop_bit (6 - 2 * (i mod 4)) (push_bit 6 v OR w))] else dst) cs"
proof -
  have "(ucast (ucast w :: byte) :: u32) = w"
    using less_64_bits [OF assms] by (intro bit_word_eqI) (force simp: bit_simps)
  then show ?thesis
    using b64_map2 [OF assms] push_6_add [OF less_64_bits [OF assms]] by (simp add: Let_def)
qed

lemma sextets_small: "s \<in> set (sextets a b c) \<Longrightarrow> s < 64"
proof -
  have "(ucast a :: u32) < 256" using unat_byte_less [of a] by (simp add: word_less_nat_alt unsigned_ucast_eq take_bit_eq_mod)
  then have "drop_bit 2 (ucast a :: u32) < 64" by (simp add: word_less_nat_alt drop_bit_eq_div unat_div_distrib)
  moreover have "w AND 0x3f < (64 :: u32)" for w
    unfolding and_0x3f by (simp add: word_less_nat_alt take_bit_eq_mod unat_mod_distrib)
  ultimately show "s \<in> set (sextets a b c) \<Longrightarrow> s < 64" by (auto simp: sextets_def)
qed

lemma decode_group:
  assumes "i mod 4 = 0" "int (length dst) + 3 \<le> n"
  shows "\<exists>v'. decode_loop n i v dst (map b64_char (sextets a b c) @ cs) = decode_loop n (i + 4) v' (dst @ [a, b, c]) cs"
    and "2 \<le> k \<Longrightarrow> k < 4 \<Longrightarrow> decode_loop n i v dst (map b64_char (take k (sextets a b c)) @ 61 # cs) = Some (dst @ take (k - 1) [a, b, c])"
proof -
  obtain p q r s where sx: "sextets a b c = [p, q, r, s]" by (simp add: sextets_def)
  have small: "p < 64" "q < 64" "r < 64" "s < 64" using sextets_small [of _ a b c] sx by auto
  define vp where "vp = push_bit 6 v OR p"
  define vq where "vq = push_bit 6 vp OR q"
  define vr where "vr = push_bit 6 vq OR r"
  define vs where "vs = push_bit 6 vr OR s"
  have "p = drop_bit 2 (ucast a)" "q = take_bit 6 (push_bit 4 (ucast a) OR drop_bit 4 (ucast b))"
    "r = take_bit 6 (push_bit 2 (ucast b) OR drop_bit 6 (ucast c))" "s = take_bit 6 (ucast c)"
    using sx by (auto simp: sextets_def and_0x3f)
  note defs = this
  have suc2: "Suc (Suc (j - 2)) = j" if "2 \<le> j" for j :: nat using that by simp
  have out: "ucast (drop_bit 4 vq) = a" "ucast (drop_bit 2 vr) = b" "ucast vs = c"
    unfolding vs_def vr_def vq_def vp_def defs by (rule bit_word_eqI; auto simp: bit_simps suc2 not_less)+
  have m: "(i + 1) mod 4 = 1" "(i + 2) mod 4 = 2" "(i + 3) mod 4 = 3" using assms(1) by presburger+
  have room: "int (length dst) < n" "1 + int (length dst) < n" "2 + int (length dst) < n"
    "Suc (Suc (Suc i)) = i + 3" "4 + i = i + 4" using assms(2) by auto
  have steps: "decode_loop n i v dst (b64_char p # cs) = decode_loop n (i + 1) vp dst cs"
    "decode_loop n (i + 1) vp dst (b64_char q # cs) = decode_loop n (i + 2) vq (dst @ [a]) cs"
    "decode_loop n (i + 2) vq (dst @ [a]) (b64_char r # cs) = decode_loop n (i + 3) vr (dst @ [a, b]) cs"
    "decode_loop n (i + 3) vr (dst @ [a, b]) (b64_char s # cs) = decode_loop n (i + 4) vs (dst @ [a, b, c]) cs" for cs
    unfolding decode_char [OF small(1)] decode_char [OF small(2)] decode_char [OF small(3)] decode_char [OF small(4)]
      vp_def [symmetric] vq_def [symmetric] vr_def [symmetric] vs_def [symmetric]
    by (simp_all only: m assms(1), simp_all add: out room)
  show "\<exists>v'. decode_loop n i v dst (map b64_char (sextets a b c) @ cs) = decode_loop n (i + 4) v' (dst @ [a, b, c]) cs"
    unfolding sx by (intro exI [of _ vs]) (simp only: list.map append.simps steps)
  show "decode_loop n i v dst (map b64_char (take k (sextets a b c)) @ 61 # cs) = Some (dst @ take (k - 1) [a, b, c])"
    if "2 \<le> k" "k < 4"
  proof -
    have "k = 2 \<or> k = 3" using that by auto
    moreover have "take 2 [p, q, r, s] = [p, q]" "take 3 [p, q, r, s] = [p, q, r]"
      "take (2 - 1) [a, b, c] = [a]" "take (3 - 1) [a, b, c] = [a, b]" by (simp_all add: numeral_2_eq_2)
    ultimately show ?thesis
      unfolding sx by (elim disjE) (simp_all only: list.map append.simps steps decode_end)
  qed
qed

lemma decode_rfc4648:
  "i mod 4 = 0 \<Longrightarrow> int (length dst) + 3 * int ((length xs + 2) div 3) \<le> n \<Longrightarrow> decode_loop n i v dst (rfc4648 xs) = Some (dst @ xs)"
proof (induction xs arbitrary: i v dst rule: rfc4648.induct)
  case (4 a b c xs)
  have "(length (a # b # c # xs) + 2) div 3 = (length xs + 2) div 3 + 1"
    using div_add_self2 [of 3 "length xs + 2"] by (simp add: algebra_simps)
  then have n: "int (length dst) + 3 \<le> n" "int (length (dst @ [a, b, c])) + 3 * int ((length xs + 2) div 3) \<le> n"
    using 4(3) by simp_all
  obtain v' where "decode_loop n i v dst (map b64_char (sextets a b c) @ rfc4648 xs) = decode_loop n (i + 4) v' (dst @ [a, b, c]) (rfc4648 xs)"
    using decode_group(1) [OF 4(2) n(1)] by blast
  with 4(1) [of "i + 4" "dst @ [a, b, c]" v'] n(2) 4(2) show ?case by simp
next
  case (2 a)
  then show ?case using decode_group(2) [of i dst n 2 v a 0 0 "[61]"] by simp
next
  case (3 a b)
  then show ?case using decode_group(2) [of i dst n 3 v a b 0 "[]"] by simp
qed simp

section \<open>Claims\<close>

text \<open>C25.  The encoder is the encoding of RFC 4648, and stays in its buffer: whenever \<^verbatim>\<open>base64_encode\<close> accepts its arguments,
  it writes the encoding by groups of three bytes, padded, and a terminating zero, exactly \<^verbatim>\<open>BASE64_SIZE\<close> bytes and not more
  than the buffer has.\<close>

theorem base64_encode_rfc4648:
  assumes "int (length data) < 1073741823" "BASE64_SIZE (int (length data)) \<le> out_size"
  shows "base64_encode out_size data = Some (rfc4648 data @ [0]) \<and>
    int (length (rfc4648 data @ [0])) = BASE64_SIZE (int (length data)) \<and> int (length (rfc4648 data @ [0])) \<le> out_size"
  using assms length_rfc4648 [of data] by (simp add: base64_encode_def encode_rfc4648)

text \<open>Decoding what was encoded gives the data back, whatever the data is, in a buffer with three quarters of the encoded length.\<close>

theorem base64_roundtrip:
  assumes "base64_encode out_size data = Some (cs @ [0])" "3 * int (length cs) \<le> 4 * n"
  shows "base64_decode cs n = Some data"
proof -
  have cs: "cs = rfc4648 data" using assms(1) by (auto simp: base64_encode_def encode_rfc4648 split: if_splits)
  have "int (length cs) = 4 * int ((length data + 2) div 3)"
    using length_rfc4648 [of data] by (simp add: cs BASE64_SIZE_def zdiv_int add.commute)
  then have "3 * int ((length data + 2) div 3) \<le> n" using assms(2) by linarith
  then show ?thesis using decode_rfc4648 [of 0 "[]" data n 0] by (simp add: base64_decode_def cs)
qed

theorem base64_encode_rfc4648_witness:
  "base64_encode 9 [77, 97, 110, 33] = Some (map of_char ''TWFuIQ=='' @ [0])"
  using base64_encode_rfc4648 [of "[77, 97, 110, 33]" 9]
  by (simp add: BASE64_SIZE_def sextets_def b64_char_def b64_codes)

theorem base64_roundtrip_witness:
  "base64_encode 9 [77, 97, 110, 33] = Some (rfc4648 [77, 97, 110, 33] @ [0]) \<and>
    base64_decode (rfc4648 [77, 97, 110, 33]) 6 = Some [77, 97, 110, 33]"
proof -
  have "base64_encode 9 [77, 97, 110, 33] = Some (rfc4648 [77, 97, 110, 33] @ [0])"
    unfolding base64_encode_def encode_rfc4648 by (simp add: BASE64_SIZE_def del: rfc4648.simps)
  with base64_roundtrip [OF this, of 6] show ?thesis by (simp add: sextets_def)
qed

end
