(* ===== verification/Http_Auth.thy ===== *)
theory Http_Auth
  imports MD5 Base64
begin

text \<open>
  \<^verbatim>\<open>redsocks/http-auth.c\<close>: the basic and digest schemes of HTTP proxy authentication (RFC 2617), on top of
  \<^verbatim>\<open>base64.c\<close> and \<^verbatim>\<open>md5.c\<close>.  A C string is a list of bytes without the terminating zero, and a pointer into it is the rest of the list;
  allocations succeed.
\<close>

unbundle bit_operations_syntax

definition str :: "string \<Rightarrow> byte list" where
  "str s = map of_char s"

lemma length_str [simp]: "length (str s) = length s"
  by (simp add: str_def)

section \<open>Basic\<close>

definition basic_authentication_encode :: "byte list \<Rightarrow> byte list \<Rightarrow> byte list option" where
  "basic_authentication_encode user passwd =
     (let pair = user @ str '':'' @ passwd;
          basic_len = BASE64_SIZE (int (length pair))
      in case base64_encode basic_len pair of
           None \<Rightarrow> None
         | Some basic \<Rightarrow> Some (takeWhile (\<lambda>c. c \<noteq> 0) basic))"

lemma rfc4648_nonzero: "0 \<notin> set (rfc4648 xs)"
proof (induction xs rule: rfc4648.induct)
  case (4 a b c xs)
  have "b64_char s \<noteq> 0" if "s \<in> set (sextets a b c)" for s using that by (rule b64_map2(2) [OF sextets_small])
  with 4 show ?case by fastforce
next
  case (2 a)
  have "b64_char s \<noteq> 0" if "s \<in> set (sextets a 0 0)" for s using that by (rule b64_map2(2) [OF sextets_small])
  then show ?case by (fastforce dest: in_set_takeD)
next
  case (3 a b)
  have "b64_char s \<noteq> 0" if "s \<in> set (sextets a b 0)" for s using that by (rule b64_map2(2) [OF sextets_small])
  then show ?case by (fastforce dest: in_set_takeD)
qed simp

lemma basic_authentication:
  assumes "int (length user) + int (length passwd) < 1073741822"
  shows "basic_authentication_encode user passwd = Some (rfc4648 (user @ 58 # passwd))"
proof -
  let ?pair = "user @ 58 # passwd"
  have "base64_encode (BASE64_SIZE (int (length ?pair))) ?pair = Some (rfc4648 ?pair @ [0])"
    using assms unfolding base64_encode_def encode_rfc4648 by simp
  moreover have "takeWhile (\<lambda>c. c \<noteq> 0) (rfc4648 ?pair @ [0]) = rfc4648 ?pair"
    using rfc4648_nonzero [of ?pair] by (subst takeWhile_append2) auto
  ultimately show ?thesis by (simp add: basic_authentication_encode_def Let_def str_def)
qed

section \<open>Parameters of a header\<close>

definition isspace :: "byte \<Rightarrow> bool" where
  "isspace c \<longleftrightarrow> c = 32 \<or> (9 \<le> c \<and> c \<le> 13)"

definition tolower :: "byte \<Rightarrow> byte" where
  "tolower c = (if 65 \<le> c \<and> c \<le> 90 then c + 32 else c)"

text \<open>Whether \<^verbatim>\<open>strncasecmp(a, b, n)\<close> is zero.\<close>

definition strncaseeq :: "byte list \<Rightarrow> byte list \<Rightarrow> nat \<Rightarrow> bool" where
  "strncaseeq a b n \<longleftrightarrow> take n (map tolower a @ [0]) = take n (map tolower b @ [0])"

text \<open>The loop that removes spaces at the end of an unquoted value.\<close>

definition strip_end :: "byte list \<Rightarrow> byte list" where
  "strip_end v = rev (dropWhile isspace (rev v))"

text \<open>The value after the equals sign and the position after the parameter.\<close>

definition extract_value :: "byte list \<Rightarrow> byte \<Rightarrow> (byte list \<times> byte list) option" where
  "extract_value p separator =
     (if p \<noteq> [] \<and> hd p = 34 then
        (let p = tl p;
             v = takeWhile (\<lambda>c. c \<noteq> 34) p;
             p = dropWhile (\<lambda>c. c \<noteq> 34) p
         in if p = [] then None
            else let p = dropWhile (\<lambda>c. c \<noteq> separator) (dropWhile isspace (tl p))
            in if p \<noteq> [] \<and> hd p = separator then Some (v, tl p)
               else if p \<noteq> [] then None
               else Some (v, p))
      else
        (let v = takeWhile (\<lambda>c. c \<noteq> separator) p;
             p = dropWhile (\<lambda>c. c \<noteq> separator) p
         in Some (strip_end v, if p \<noteq> [] \<and> hd p = separator then tl p else p)))"

text \<open>\<open>None\<close> is the return value 0; otherwise the position after the parameter, its name and its value.\<close>

definition extract_param :: "byte list \<Rightarrow> byte \<Rightarrow> (byte list \<times> byte list \<times> byte list) option" where
  "extract_param source separator =
     (let p = dropWhile isspace source
      in if p = [] then None
      else let name = takeWhile (\<lambda>c. \<not> isspace c \<and> c \<noteq> 61 \<and> c \<noteq> separator) p;
               p = dropWhile (\<lambda>c. \<not> isspace c \<and> c \<noteq> 61 \<and> c \<noteq> separator) p
      in if name = [] then None
      else let p = dropWhile isspace p
      in if p = [] then Some (p, name, [])
      else if hd p = separator then Some (tl p, name, [])
      else if hd p \<noteq> 61 then None
      else case extract_value (dropWhile isspace (tl p)) separator of
             None \<Rightarrow> None
           | Some (v, p) \<Rightarrow> Some (p, name, v))"

lemma shrink:
  "length xs \<le> n \<Longrightarrow> length (dropWhile P xs) \<le> n" "length xs \<le> n \<Longrightarrow> length (tl xs) \<le> n"
  using length_dropWhile_le [of P xs] by auto

lemma extract_value_shorter: "extract_value p sep = Some (v, q) \<Longrightarrow> length q \<le> length p"
  by (auto simp: extract_value_def Let_def intro!: shrink split: if_splits)

lemma extract_param_shorter:
  assumes "extract_param s sep = Some (q, name, v)"
  shows "length q < length s"
proof -
  let ?p = "dropWhile isspace s"
  let ?ok = "\<lambda>c. \<not> isspace c \<and> c \<noteq> 61 \<and> c \<noteq> sep"
  define r where "r = dropWhile isspace (dropWhile ?ok ?p)"
  have n: "takeWhile ?ok ?p \<noteq> []" using assms by (auto simp: extract_param_def Let_def split: if_splits)
  have "length ?p = length (takeWhile ?ok ?p) + length (dropWhile ?ok ?p)" by (metis length_append takeWhile_dropWhile_id)
  moreover have "0 < length (takeWhile ?ok ?p)" using n by blast
  moreover have "length ?p \<le> length s" "length r \<le> length (dropWhile ?ok ?p)" unfolding r_def by (intro shrink order_refl)+
  ultimately have r: "length r < length s" by linarith
  have "q = r \<or> q = tl r \<or> (\<exists>v. extract_value (dropWhile isspace (tl r)) sep = Some (v, q))"
    using assms unfolding extract_param_def Let_def r_def [symmetric] by (auto split: if_splits option.splits)
  moreover have "length (tl r) \<le> length r" "length (dropWhile isspace (tl r)) \<le> length r" by (intro shrink order_refl)+
  ultimately show ?thesis using r by (auto dest!: extract_value_shorter)
qed

text \<open>The loop of \<^verbatim>\<open>digest_authentication_encode\<close> over the parameters: each one as it is found.\<close>

function header_params :: "byte list \<Rightarrow> (byte list \<times> byte list) list" where
  "header_params ptr =
     (case extract_param ptr 44 of
        None \<Rightarrow> []
      | Some (ptr, name, v) \<Rightarrow> (name, v) # header_params ptr)"
  by pat_completeness auto
termination
  by (relation "measure length") (auto dest: extract_param_shorter)

declare header_params.simps [simp del]

section \<open>Digest\<close>

definition hexdigit :: "nat \<Rightarrow> byte" where
  "hexdigit n = of_nat (if n < 10 then 48 + n else 87 + n)"

text \<open>\<^verbatim>\<open>%02x\<close> of a byte, and \<^verbatim>\<open>%08x\<close> of an int.\<close>

definition hex2 :: "byte \<Rightarrow> byte list" where
  "hex2 b = [hexdigit (unat b div 16), hexdigit (unat b mod 16)]"

definition hex8 :: "u32 \<Rightarrow> byte list" where
  "hex8 w = concat (map hex2 (rev (le32 w)))"

definition dump_hash :: "byte list \<Rightarrow> byte list" where
  "dump_hash hash = concat (map hex2 hash)"

record digest_fields =
  d_realm :: "byte list option"
  d_opaque :: "byte list option"
  d_nonce :: "byte list option"
  d_qop :: "byte list option"

text \<open>The body of the loop over the parameters.\<close>

definition digest_field :: "digest_fields \<Rightarrow> byte list \<times> byte list \<Rightarrow> digest_fields" where
  "digest_field f nv =
     (case nv of (name, v) \<Rightarrow>
        if strncaseeq name (str ''realm'') (length name) then f\<lparr>d_realm := Some v\<rparr>
        else if strncaseeq name (str ''opaque'') (length name) then f\<lparr>d_opaque := Some v\<rparr>
        else if strncaseeq name (str ''nonce'') (length name) then f\<lparr>d_nonce := Some v\<rparr>
        else if strncaseeq name (str ''qop'') (length name) then f\<lparr>d_qop := Some v\<rparr>
        else f)"

definition digest_parse :: "byte list \<Rightarrow> digest_fields" where
  "digest_parse line = foldl digest_field \<lparr>d_realm = None, d_opaque = None, d_nonce = None, d_qop = None\<rparr> (header_params line)"

text \<open>\<^verbatim>\<open>md5_init\<close>, a sequence of \<^verbatim>\<open>md5_append\<close>, \<^verbatim>\<open>md5_finish\<close> and \<^verbatim>\<open>dump_hash\<close> on one context.\<close>

definition md5_hex :: "md5_state \<Rightarrow> byte list list \<Rightarrow> md5_state \<times> byte list" where
  "md5_hex ctx pieces = (case md5_finish (foldl md5_append (md5_init ctx) pieces) of (ctx, hash) \<Rightarrow> (ctx, dump_hash hash))"

text \<open>The final string and the size of the buffer it is written to.  \<open>ctx\<close> is what the local variable holds; \<open>None\<close> is a null
  result or a null argument.\<close>

definition digest_authentication_encode :: "md5_state \<Rightarrow> byte list \<Rightarrow> byte list option \<Rightarrow> byte list option \<Rightarrow> byte list option \<Rightarrow> byte list option \<Rightarrow>
    u32 \<Rightarrow> byte list \<Rightarrow> (nat \<times> byte list) option" where
  "digest_authentication_encode ctx line user passwd method path count cnonce =
     (let nc = hex8 count;
          f = digest_parse line
      in case (d_realm f, d_nonce f, user, passwd, path, method) of
           (Some realm, Some nonce, Some user, Some passwd, Some path, Some method) \<Rightarrow>
             if (case d_qop f of None \<Rightarrow> False | Some qop \<Rightarrow> \<not> strncaseeq qop (str ''auth'') 5) then None
             else let
               (ctx, a1buf) = md5_hex ctx [user, str '':'', realm, str '':'', passwd];
               (ctx, a2buf) = md5_hex ctx [method, str '':'', path];
               (ctx, response) = md5_hex ctx ([a1buf, str '':'', nonce, str '':''] @
                 (case d_qop f of None \<Rightarrow> [] | Some qop \<Rightarrow> [nc, str '':'', cnonce, str '':'', qop, str '':'']) @ [a2buf]);
               len = 256 + length user + length realm + length nonce + length path + length response +
                 (case d_qop f of None \<Rightarrow> 0 | Some qop \<Rightarrow> length qop + length nc + length cnonce) +
                 (case d_opaque f of None \<Rightarrow> 0 | Some opaque \<Rightarrow> length opaque);
               res = str ''username=\"'' @ user @ str ''\", realm=\"'' @ realm @ str ''\", nonce=\"'' @ nonce @ str ''\", uri=\"'' @ path @
                 str ''\", response=\"'' @ response @ str ''\"'' @
                 (case d_qop f of None \<Rightarrow> [] | Some qop \<Rightarrow> str '', qop='' @ qop @ str '', nc='' @ nc @ str '', cnonce=\"'' @ cnonce @ str ''\"'');
               res = res @ (case d_opaque f of None \<Rightarrow> [] | Some opaque \<Rightarrow> str '', opaque=\"'' @ opaque @ str ''\"'')
             in Some (len, res)
         | _ \<Rightarrow> None)"

definition auth_request_header :: "byte list" where
  "auth_request_header = str ''Proxy-Authenticate:''"

text \<open>The lines that can be read come as a list; \<open>tee\<close>, if there is another buffer, tells whether a line and its end can be copied to it.
  The result: the line found, the lines left, and what was copied.\<close>

fun http_auth_request_header :: "byte list list \<Rightarrow> (byte list \<Rightarrow> bool \<times> bool) option \<Rightarrow> byte list option \<times> byte list list \<times> byte list" where
  "http_auth_request_header [] tee = (None, [], [])"
| "http_auth_request_header (line # src) tee =
     (case (case tee of None \<Rightarrow> (True, []) | Some add \<Rightarrow>
              (case add line of (line_ok, end_ok) \<Rightarrow>
                 (line_ok \<and> end_ok, (if line_ok then line else []) @ (if line_ok \<and> end_ok then [13, 10] else []))))
      of (ok, copied) \<Rightarrow>
        if \<not> ok \<or> line = [] \<or> 58 \<notin> set line then (None, src, copied)
        else if strncaseeq line auth_request_header (length auth_request_header) then (Some line, src, copied)
        else case http_auth_request_header src tee of (found, src, copied_rest) \<Rightarrow> (found, src, copied @ copied_rest))"

section \<open>The response of RFC 2617\<close>

definition rfc_H :: "byte list \<Rightarrow> byte list" where
  "rfc_H m = dump_hash (rfc_md5 m)"

definition colons :: "byte list list \<Rightarrow> byte list" where
  "colons xs = concat (map (\<lambda>x. 58 # x) xs)"

text \<open>The request digest, with and without a quality of protection, and the header made from it.\<close>

definition rfc2617_response :: "byte list \<Rightarrow> byte list \<Rightarrow> byte list option \<Rightarrow> byte list \<Rightarrow> byte list \<Rightarrow> byte list \<Rightarrow> byte list \<Rightarrow>
    byte list \<Rightarrow> byte list \<Rightarrow> byte list" where
  "rfc2617_response realm nonce qop user passwd method path nc cnonce =
     (let a1 = rfc_H (user @ colons [realm, passwd]);
          a2 = rfc_H (method @ colons [path])
      in rfc_H (a1 @ colons ([nonce] @ (case qop of None \<Rightarrow> [] | Some q \<Rightarrow> [nc, cnonce, q]) @ [a2])))"

definition digest_header :: "byte list \<Rightarrow> byte list \<Rightarrow> byte list option \<Rightarrow> byte list option \<Rightarrow> byte list \<Rightarrow> byte list \<Rightarrow> byte list \<Rightarrow>
    byte list \<Rightarrow> byte list \<Rightarrow> byte list" where
  "digest_header realm nonce qop opaque user path response nc cnonce =
     str ''username=\"'' @ user @ str ''\", realm=\"'' @ realm @ str ''\", nonce=\"'' @ nonce @ str ''\", uri=\"'' @ path @
     str ''\", response=\"'' @ response @ str ''\"'' @
     (case qop of None \<Rightarrow> [] | Some q \<Rightarrow> str '', qop='' @ q @ str '', nc='' @ nc @ str '', cnonce=\"'' @ cnonce @ str ''\"'') @
     (case opaque of None \<Rightarrow> [] | Some v \<Rightarrow> str '', opaque=\"'' @ v @ str ''\"'')"

lemma md5_hex_rfc:
  assumes "length (md5_buf ctx) = 64" "md5_hex ctx pieces = (ctx', h)"
  shows "h = rfc_H (concat pieces)" "length (md5_buf ctx') = 64"
proof -
  let ?pms = "foldl md5_append (md5_init ctx) pieces"
  have rep: "md5_rep ?pms (0x67452301, 0xefcdab89, 0x98badcfe, 0x10325476) (concat pieces)"
    using md5_pieces_rep [OF md5_init_rep [OF assms(1)], of pieces] by simp
  show "h = rfc_H (concat pieces)" "length (md5_buf ctx') = 64"
    using assms(2) md5_finish_rep [OF rep] by (auto simp: md5_hex_def rfc_H_def split: prod.splits)
qed

lemma length_rfc_H: "length (rfc_H m) = 32"
  by (cases "rfc_blocks (rfc_pad m) (0x67452301, 0xefcdab89, 0x98badcfe, 0x10325476)")
    (simp add: rfc_H_def dump_hash_def rfc_md5_def hex2_def le32_def)

lemma length_hex8: "length (hex8 w) = 8"
  by (simp add: hex8_def le32_def hex2_def)


section \<open>Reading printed parameters\<close>

definition param_ok :: "byte list \<times> byte list \<Rightarrow> bool" where
  "param_ok nv \<longleftrightarrow> fst nv \<noteq> [] \<and> (\<forall>c \<in> set (fst nv). \<not> isspace c \<and> c \<noteq> 61 \<and> c \<noteq> 44) \<and> 34 \<notin> set (snd nv)"

fun print_params :: "(byte list \<times> byte list) list \<Rightarrow> byte list" where
  "print_params [] = []"
| "print_params [(n, v)] = n @ 61 # 34 # v @ [34]"
| "print_params ((n, v) # ps) = n @ 61 # 34 # v @ 34 # 44 # 32 # print_params ps"

lemma extract_value_quoted:
  assumes "34 \<notin> set v"
  shows "extract_value (34 # v @ 34 # g) 44 = (case dropWhile (\<lambda>c. c \<noteq> 44) g of [] \<Rightarrow> Some (v, []) | _ # q \<Rightarrow> Some (v, q))"
proof -
  have "takeWhile (\<lambda>c. c \<noteq> 34) (v @ 34 # g) = v" "dropWhile (\<lambda>c. c \<noteq> 34) (v @ 34 # g) = 34 # g"
    using assms by (induction v) auto
  moreover have "dropWhile (\<lambda>c. c \<noteq> 44) (dropWhile isspace g) = dropWhile (\<lambda>c. c \<noteq> 44) g"
    by (induction g) (auto simp: isspace_def)
  moreover have "hd (dropWhile (\<lambda>c. c \<noteq> 44) g) = 44" if "dropWhile (\<lambda>c. c \<noteq> 44) g \<noteq> []" using hd_dropWhile [OF that] by simp
  ultimately show ?thesis
    by (cases "dropWhile (\<lambda>c. c \<noteq> 44) g") (simp_all add: extract_value_def Let_def del: dropWhile_eq_Nil_conv)
qed

lemma extract_param_quoted:
  assumes "param_ok (n, v)"
  shows "extract_param (n @ 61 # 34 # v @ 34 # g) 44 = (case dropWhile (\<lambda>c. c \<noteq> 44) g of [] \<Rightarrow> Some ([], n, v) | _ # q \<Rightarrow> Some (q, n, v))"
proof -
  let ?ok = "\<lambda>c. \<not> isspace c \<and> c \<noteq> 61 \<and> c \<noteq> 44"
  let ?s = "n @ 61 # 34 # v @ 34 # g"
  have n: "n \<noteq> []" "\<forall>c \<in> set n. ?ok c" "34 \<notin> set v" using assms by (auto simp: param_ok_def)
  have "dropWhile isspace ?s = ?s" using n by (cases n) auto
  moreover have "takeWhile ?ok ?s = n" "dropWhile ?ok ?s = 61 # 34 # v @ 34 # g"
    using n(2) by (simp_all add: takeWhile_append2 dropWhile_append2)
  moreover have "\<not> isspace 61" "\<not> isspace 34" by (simp_all add: isspace_def)
  ultimately show ?thesis
    using n(1)
    by (cases "dropWhile (\<lambda>c. c \<noteq> 44) g") (simp_all add: extract_param_def Let_def extract_value_quoted [OF n(3)] del: dropWhile_eq_Nil_conv)
qed

lemma header_params_space: "header_params (32 # s) = header_params s"
  by (simp add: header_params.simps [of "32 # s"] header_params.simps [of s] extract_param_def isspace_def)

lemma params_print: "\<forall>nv \<in> set ps. param_ok nv \<Longrightarrow> header_params (print_params ps) = ps"
proof (induction ps rule: print_params.induct)
  case 1
  show ?case by (simp add: header_params.simps extract_param_def)
next
  case (2 n v)
  then show ?case
    using extract_param_quoted [of n v "[]"]
    by (simp add: header_params.simps [of "n @ 61 # 34 # v @ [34]"] header_params.simps [of "[]"] extract_param_def)
next
  case (3 n v p ps)
  then show ?case
    using extract_param_quoted [of n v "44 # 32 # print_params (p # ps)"]
    by (simp add: header_params.simps [of "n @ 61 # 34 # v @ 34 # 44 # 32 # print_params (p # ps)"] header_params_space)
qed

text \<open>Reading a header is the inverse of printing it: from parameters whose names have no space, equals sign or comma and whose
  values have no quote, printed with quoted values and separated by a comma and a space, the loop over \<^verbatim>\<open>extract_param\<close> ends with exactly these
  parameters in this order.\<close>

theorem header_params_print:
  assumes "\<forall>nv \<in> set ps. param_ok nv"
  shows "header_params (print_params ps) = ps"
  using assms by (rule params_print)

lemma quoted_garbage_skipped: "extract_param (str ''foo=\"bar\"baz, x'') 44 = Some (str '' x'', str ''foo'', str ''bar'')"
  using extract_param_quoted [of "str ''foo''" "str ''bar''" "str ''baz, x''"] by (simp add: str_def param_ok_def isspace_def)

lemma field_prefix_accepted: "d_realm (digest_parse (str ''r=\"a\"'')) = Some (str ''a'')"
  using params_print [of "[(str ''r'', str ''a'')]"]
  by (simp add: digest_parse_def digest_field_def strncaseeq_def str_def param_ok_def isspace_def tolower_def)

section \<open>Witnesses\<close>

definition ex_ctx :: md5_state where
  "ex_ctx = \<lparr>md5_count = (1, 2), md5_abcd = (3, 4, 5, 6), md5_buf = replicate 64 7\<rparr>"

definition ex_params :: "(byte list \<times> byte list) list" where
  "ex_params = [(str ''realm'', str ''proxy''), (str ''qop'', str ''auth''), (str ''nonce'', str ''n1'')]"

theorem header_params_print_witness:
  "print_params ex_params = str ''realm=\"proxy\", qop=\"auth\", nonce=\"n1\"'' \<and>
    header_params (str ''realm=\"proxy\", qop=\"auth\", nonce=\"n1\"'') = ex_params"
proof -
  have p: "print_params ex_params = str ''realm=\"proxy\", qop=\"auth\", nonce=\"n1\"''" by (simp add: ex_params_def str_def)
  have "\<forall>nv \<in> set ex_params. param_ok nv" by (simp add: ex_params_def str_def param_ok_def isspace_def)
  from header_params_print [OF this] p show ?thesis by simp
qed

lemma ex_params_parse:
  "digest_parse (str ''realm=\"proxy\", qop=\"auth\", nonce=\"n1\"'') =
    \<lparr>d_realm = Some (str ''proxy''), d_opaque = None, d_nonce = Some (str ''n1''), d_qop = Some (str ''auth'')\<rparr>"
proof -
  have p: "print_params ex_params = str ''realm=\"proxy\", qop=\"auth\", nonce=\"n1\"''" by (simp add: ex_params_def str_def)
  have "\<forall>nv \<in> set ex_params. param_ok nv" by (simp add: ex_params_def str_def param_ok_def isspace_def)
  from params_print [OF this] have "header_params (str ''realm=\"proxy\", qop=\"auth\", nonce=\"n1\"'') = ex_params" unfolding p .
  then show ?thesis unfolding digest_parse_def by (simp add: ex_params_def digest_field_def strncaseeq_def str_def tolower_def)
qed


end
