(* ===== verification/Redsocks_Relay.thy ===== *)
theory Redsocks_Relay
  imports Prelude
begin

text \<open>
  The buffer pump of \<^verbatim>\<open>redsocks/redsocks.c\<close>, which relays a TCP connection between a client and a proxy, together with the part of
  \<^verbatim>\<open>libevent/bufferevent_sock.c\<close> and \<^verbatim>\<open>libevent/bufferevent.c\<close> that drives it: the two socket callbacks, watermarks, and enabling and disabling of
  events.  What the sockets answer to reads and writes is an argument; what is read, written and shut down is observed.
\<close>

section \<open>Buffered events\<close>

text \<open>The fields of \<^verbatim>\<open>struct bufferevent\<close> that matter here; \<open>write_pending\<close> is whether \<^verbatim>\<open>ev_write\<close> is registered.\<close>

record bufferevent =
  ev_input :: "byte list"
  ev_output :: "byte list"
  en_read :: bool
  en_write :: bool
  write_pending :: bool
  wm_read :: "nat \<times> nat"
  wm_write :: "nat \<times> nat"

definition bufferevent_enable :: "bufferevent \<Rightarrow> bool \<Rightarrow> bool \<Rightarrow> bufferevent" where
  "bufferevent_enable b r w = b\<lparr>en_read := en_read b \<or> r, en_write := en_write b \<or> w, write_pending := write_pending b \<or> w\<rparr>"

definition bufferevent_disable :: "bufferevent \<Rightarrow> bool \<Rightarrow> bool \<Rightarrow> bufferevent" where
  "bufferevent_disable b r w =
     b\<lparr>en_read := en_read b \<and> \<not> r, en_write := en_write b \<and> \<not> w, write_pending := write_pending b \<and> \<not> w\<rparr>"

definition bufferevent_setwatermark :: "bufferevent \<Rightarrow> bool \<Rightarrow> bool \<Rightarrow> nat \<Rightarrow> nat \<Rightarrow> bufferevent" where
  "bufferevent_setwatermark b r w low high =
     b\<lparr>wm_read := if r then (low, high) else wm_read b, wm_write := if w then (low, high) else wm_write b\<rparr>"

text \<open>Reading is suspended while the input has reached a high watermark (\<^verbatim>\<open>bufferevent_inbuf_wm_cb\<close>).\<close>

definition read_suspended :: "bufferevent \<Rightarrow> bool" where
  "read_suspended b \<longleftrightarrow> snd (wm_read b) \<noteq> 0 \<and> length (ev_input b) \<ge> snd (wm_read b)"

text \<open>Adding data to the output registers the write event (\<^verbatim>\<open>bufferevent_socket_outbuf_cb\<close>).\<close>

definition output_add :: "bufferevent \<Rightarrow> byte list \<Rightarrow> bufferevent" where
  "output_add b data = b\<lparr>ev_output := ev_output b @ data, write_pending := write_pending b \<or> (data \<noteq> [] \<and> en_write b)\<rparr>"

section \<open>Clients\<close>

datatype side = Client | Relay

fun anti :: "side \<Rightarrow> side" where
  "anti Client = Relay"
| "anti Relay = Client"

datatype how = SHUT_RD | SHUT_WR | SHUT_RDWR

text \<open>\<^verbatim>\<open>client\<close> and \<^verbatim>\<open>relay\<close>, \<^verbatim>\<open>client_evshut\<close> and \<^verbatim>\<open>relay_evshut\<close> by side, the two bits of an \<^verbatim>\<open>evshut_t\<close> apart; \<open>rc_freed\<close> is
  whether the memory of the client was released.  The payload behind the client (\<^verbatim>\<open>red_payload\<close>) is that of \<^verbatim>\<open>socks5.c\<close>.\<close>

record redsocks_client =
  rc_state :: int
  rc_bev :: "side \<Rightarrow> bufferevent"
  shut_rd :: "side \<Rightarrow> bool"
  shut_wr :: "side \<Rightarrow> bool"
  rc_freed :: bool
  pl_do_password :: bool
  pl_to_skip :: nat

datatype relay_event = RvRead side "byte list" | RvWrote side "byte list" | RvShutdown side how | RvDropped

abbreviation REDSOCKS_RELAY_HALFBUFF :: nat where "REDSOCKS_RELAY_HALFBUFF \<equiv> 4096"
abbreviation pump_active :: int where "pump_active \<equiv> -1"

definition upd_bev :: "redsocks_client \<Rightarrow> side \<Rightarrow> (bufferevent \<Rightarrow> bufferevent) \<Rightarrow> redsocks_client" where
  "upd_bev c d f = c\<lparr>rc_bev := (rc_bev c)(d := f (rc_bev c d))\<rparr>"

definition shut_both :: "redsocks_client \<Rightarrow> bool" where
  "shut_both c \<longleftrightarrow> (shut_rd c Relay \<and> shut_wr c Relay) \<and> (shut_rd c Client \<and> shut_wr c Client)"

definition redsocks_drop_client :: "redsocks_client \<Rightarrow> redsocks_client \<times> relay_event list" where
  "redsocks_drop_client c = (c\<lparr>rc_freed := True\<rparr>, [RvDropped])"

definition redsocks_shutdown :: "redsocks_client \<Rightarrow> side \<Rightarrow> how \<Rightarrow> redsocks_client \<times> relay_event list" where
  "redsocks_shutdown c d how =
     (let r = (how = SHUT_RD \<or> how = SHUT_RDWR);
          w = (how = SHUT_WR \<or> how = SHUT_RDWR);
          calls = (if \<not> (how = SHUT_RD \<and> shut_wr c d) then [RvShutdown d how] else []);
          c = upd_bev c d (\<lambda>b. bufferevent_disable b r w);
          c = c\<lparr>shut_rd := (shut_rd c)(d := shut_rd c d \<or> r), shut_wr := (shut_wr c)(d := shut_wr c d \<or> w)\<rparr>
      in if shut_both c then (case redsocks_drop_client c of (c, ev) \<Rightarrow> (c, calls @ ev)) else (c, calls))"

text \<open>\<open>ok\<close>: the call succeeds and moves all the data.\<close>

definition bufferevent_write_buffer :: "redsocks_client \<Rightarrow> side \<Rightarrow> side \<Rightarrow> bool \<Rightarrow> redsocks_client" where
  "bufferevent_write_buffer c to from ok =
     (if ok then upd_bev (upd_bev c to (\<lambda>b. output_add b (ev_input (rc_bev c from)))) from (\<lambda>b. b\<lparr>ev_input := []\<rparr>) else c)"

definition redsocks_relay_readcb :: "redsocks_client \<Rightarrow> side \<Rightarrow> side \<Rightarrow> bool \<Rightarrow> redsocks_client" where
  "redsocks_relay_readcb c from to ok =
     (if length (ev_output (rc_bev c to)) < snd (wm_write (rc_bev c to)) then bufferevent_write_buffer c to from ok
      else if en_read (rc_bev c from) then upd_bev c from (\<lambda>b. bufferevent_disable b True False)
      else c)"

definition redsocks_relay_writecb :: "redsocks_client \<Rightarrow> side \<Rightarrow> side \<Rightarrow> bool \<Rightarrow> redsocks_client \<times> relay_event list" where
  "redsocks_relay_writecb c from to ok =
     (let from_eof = shut_rd c from
      in if ev_input (rc_bev c from) = [] \<and> from_eof then redsocks_shutdown c to SHUT_WR
      else if length (ev_output (rc_bev c to)) < snd (wm_write (rc_bev c to)) then
        (let c = bufferevent_write_buffer c to from ok
         in ((if \<not> from_eof \<and> \<not> en_read (rc_bev c from) then upd_bev c from (\<lambda>b. bufferevent_enable b True False) else c), []))
      else (c, []))"

text \<open>The two callbacks of each side, as \<^verbatim>\<open>redsocks_start_bufferpump\<close> installs them.\<close>

definition relay_readcb :: "redsocks_client \<Rightarrow> side \<Rightarrow> bool \<Rightarrow> redsocks_client \<times> relay_event list" where
  "relay_readcb c d ok =
     (case d of
        Relay \<Rightarrow> (redsocks_relay_readcb c Relay Client ok, [])
      | Client \<Rightarrow> (redsocks_relay_readcb c Client Relay ok, []))"

definition relay_writecb :: "redsocks_client \<Rightarrow> side \<Rightarrow> bool \<Rightarrow> redsocks_client \<times> relay_event list" where
  "relay_writecb c d ok =
     (case d of
        Relay \<Rightarrow> redsocks_relay_writecb c Client Relay ok
      | Client \<Rightarrow> redsocks_relay_writecb c Relay Client ok)"

definition redsocks_start_bufferpump :: "redsocks_client \<Rightarrow> redsocks_client" where
  "redsocks_start_bufferpump c =
     (let c = upd_bev c Client (\<lambda>b. bufferevent_setwatermark b True True 0 REDSOCKS_RELAY_HALFBUFF);
          c = upd_bev c Relay (\<lambda>b. bufferevent_setwatermark b True True 0 REDSOCKS_RELAY_HALFBUFF);
          c = upd_bev c Client (\<lambda>b. bufferevent_enable b (\<not> shut_rd c Client) (\<not> shut_wr c Client))
      in upd_bev c Relay (\<lambda>b. bufferevent_enable b (\<not> shut_rd c Relay) (\<not> shut_wr c Relay)))"

text \<open>Without splicing, and with events that can be enabled.\<close>

definition redsocks_start_relay :: "redsocks_client \<Rightarrow> redsocks_client" where
  "redsocks_start_relay c = redsocks_start_bufferpump (c\<lparr>rc_state := pump_active\<rparr>)"

text \<open>\<open>eof\<close> is the event \<^verbatim>\<open>EVBUFFER_READ|EVBUFFER_EOF\<close>, anything else an error.  The result is \<open>None\<close> when a client that was released is read.\<close>

definition redsocks_event_error :: "redsocks_client \<Rightarrow> side \<Rightarrow> bool \<Rightarrow> (redsocks_client \<times> relay_event list) option" where
  "redsocks_event_error c buffev eof =
     (if eof then
        (case redsocks_shutdown c buffev SHUT_RD of
           (c, ev) \<Rightarrow>
             (if rc_freed c then None
              else if rc_state c = pump_active \<and> ev_output (rc_bev c (anti buffev)) = [] then
                (case redsocks_shutdown c (anti buffev) SHUT_WR of (c, ev') \<Rightarrow> Some (c, ev @ ev'))
              else Some (c, ev)))
      else Some (redsocks_drop_client c))"

section \<open>Socket callbacks\<close>

datatype io_result = IoData "byte list" | IoEof | IoError | IoAgain

text \<open>\<open>cb\<close> is the read or write callback installed for the side.\<close>

type_synonym callback = "redsocks_client \<Rightarrow> redsocks_client \<times> relay_event list"

definition bufferevent_readcb :: "callback \<Rightarrow> redsocks_client \<Rightarrow> side \<Rightarrow> io_result \<Rightarrow> (redsocks_client \<times> relay_event list) option" where
  "bufferevent_readcb cb c d res =
     (let b = rc_bev c d in
      if read_suspended b then Some (c, [])
      else case res of
        IoData data \<Rightarrow>
          (let data = (if snd (wm_read b) \<noteq> 0 then take (snd (wm_read b) - length (ev_input b)) data else data);
               c = upd_bev c d (\<lambda>b. b\<lparr>ev_input := ev_input b @ data\<rparr>)
           in if data = [] then Some (c, [])
              else if length (ev_input (rc_bev c d)) \<ge> fst (wm_read b) then
                (case cb c of (c, ev) \<Rightarrow> Some (c, RvRead d data # ev))
              else Some (c, [RvRead d data]))
      | IoEof \<Rightarrow> redsocks_event_error (upd_bev c d (\<lambda>b. bufferevent_disable b True False)) d True
      | IoError \<Rightarrow> redsocks_event_error (upd_bev c d (\<lambda>b. bufferevent_disable b True False)) d False
      | IoAgain \<Rightarrow> Some (c, []))"

text \<open>A write takes the first bytes of the output; \<open>IoData\<close> gives their number by its length.\<close>

definition bufferevent_writecb :: "callback \<Rightarrow> redsocks_client \<Rightarrow> side \<Rightarrow> io_result \<Rightarrow> (redsocks_client \<times> relay_event list) option" where
  "bufferevent_writecb cb c d res =
     (let b = rc_bev c d;
          finish = (\<lambda>c ev.
            let c = (if ev_output (rc_bev c d) = [] then upd_bev c d (\<lambda>b. b\<lparr>write_pending := False\<rparr>) else c)
            in if length (ev_output (rc_bev c d)) \<le> fst (wm_write (rc_bev c d)) then
                 (case cb c of (c, ev') \<Rightarrow> Some (c, ev @ ev'))
               else Some (c, ev))
      in if ev_output b = [] then finish c []
      else case res of
        IoData data \<Rightarrow>
          (if data = [] then redsocks_event_error (upd_bev c d (\<lambda>b. bufferevent_disable b False True)) d False
           else finish (upd_bev c d (\<lambda>b. b\<lparr>ev_output := drop (length data) (ev_output b)\<rparr>)) [RvWrote d (take (length data) (ev_output b))])
      | IoAgain \<Rightarrow> Some (c, [])
      | _ \<Rightarrow> redsocks_event_error (upd_bev c d (\<lambda>b. bufferevent_disable b False True)) d False)"

section \<open>The relay as a machine\<close>

text \<open>The event loop calls back a registered event; after the client was dropped nothing is registered.\<close>

datatype relay_op = RelayReadable side io_result bool | RelayWritable side io_result bool

fun relay_step :: "relay_op \<Rightarrow> redsocks_client \<Rightarrow> (redsocks_client \<times> relay_event list) option" where
  "relay_step (RelayReadable d res ok) c =
     (if \<not> rc_freed c \<and> en_read (rc_bev c d) then bufferevent_readcb (\<lambda>c. relay_readcb c d ok) c d res else Some (c, []))"
| "relay_step (RelayWritable d res ok) c =
     (if \<not> rc_freed c \<and> write_pending (rc_bev c d) then bufferevent_writecb (\<lambda>c. relay_writecb c d ok) c d res else Some (c, []))"

section \<open>Invariants\<close>

lemma anti_simps [simp]: "anti (anti d) = d" "anti d \<noteq> d" "d \<noteq> anti d"
  by (cases d; simp)+

lemma all_sides: "(\<forall>e. P e) \<longleftrightarrow> P d \<and> P (anti d)"
  by (metis (full_types) anti.simps side.exhaust)

lemma shut_both_alt: "shut_both c \<longleftrightarrow> shut_rd c d \<and> shut_wr c d \<and> shut_rd c (anti d) \<and> shut_wr c (anti d)"
  by (cases d) (auto simp: shut_both_def)

lemma relay_readcb_alt: "relay_readcb c d ok = (redsocks_relay_readcb c d (anti d) ok, [])"
  by (cases d) (simp_all add: relay_readcb_def)

lemma relay_writecb_alt: "relay_writecb c d ok = redsocks_relay_writecb c (anti d) d ok"
  by (cases d) (simp_all add: relay_writecb_def)

lemma upd_bev_simps [simp]:
  "rc_bev (upd_bev c d f) e = (if e = d then f (rc_bev c d) else rc_bev c e)" "rc_state (upd_bev c d f) = rc_state c"
  "shut_rd (upd_bev c d f) = shut_rd c" "shut_wr (upd_bev c d f) = shut_wr c" "rc_freed (upd_bev c d f) = rc_freed c"
  "(upd_bev c d f)\<lparr>shut_rd := shut_rd c\<rparr> = upd_bev c d f" "(upd_bev c d f)\<lparr>shut_wr := shut_wr c\<rparr> = upd_bev c d f"
  by (simp_all add: upd_bev_def)

lemma bufferevent_simps [simp]:
  "ev_input (bufferevent_enable b r w) = ev_input b" "ev_output (bufferevent_enable b r w) = ev_output b"
  "wm_read (bufferevent_enable b r w) = wm_read b" "wm_write (bufferevent_enable b r w) = wm_write b"
  "en_read (bufferevent_enable b r w) = (en_read b \<or> r)" "en_write (bufferevent_enable b r w) = (en_write b \<or> w)"
  "write_pending (bufferevent_enable b r w) = (write_pending b \<or> w)"
  "ev_input (bufferevent_disable b r w) = ev_input b" "ev_output (bufferevent_disable b r w) = ev_output b"
  "wm_read (bufferevent_disable b r w) = wm_read b" "wm_write (bufferevent_disable b r w) = wm_write b"
  "en_read (bufferevent_disable b r w) = (en_read b \<and> \<not> r)" "en_write (bufferevent_disable b r w) = (en_write b \<and> \<not> w)"
  "write_pending (bufferevent_disable b r w) = (write_pending b \<and> \<not> w)"
  "ev_input (output_add b x) = ev_input b" "ev_output (output_add b x) = ev_output b @ x" "wm_read (output_add b x) = wm_read b"
  "wm_write (output_add b x) = wm_write b" "en_read (output_add b x) = en_read b" "en_write (output_add b x) = en_write b"
  "write_pending (output_add b x) = (write_pending b \<or> (x \<noteq> [] \<and> en_write b))"
  by (simp_all add: bufferevent_enable_def bufferevent_disable_def output_add_def)

text \<open>What holds of a client in the pump, whatever the environment does.\<close>

definition side_ok :: "redsocks_client \<Rightarrow> side \<Rightarrow> bool" where
  "side_ok c d \<longleftrightarrow>
     wm_read (rc_bev c d) = (0, REDSOCKS_RELAY_HALFBUFF) \<and> wm_write (rc_bev c d) = (0, REDSOCKS_RELAY_HALFBUFF) \<and>
     (shut_rd c d \<longrightarrow> \<not> en_read (rc_bev c d)) \<and>
     (shut_wr c d \<longrightarrow> shut_rd c (anti d) \<and> ev_output (rc_bev c d) = [] \<and> \<not> write_pending (rc_bev c d) \<and> \<not> en_write (rc_bev c d)) \<and>
     (\<not> shut_wr c d \<longrightarrow> rc_freed c \<or> en_write (rc_bev c d))"

definition pump_ok :: "redsocks_client \<Rightarrow> bool" where
  "pump_ok c \<longleftrightarrow> rc_state c = pump_active \<and> (\<forall>d. side_ok c d) \<and> (\<not> rc_freed c \<longrightarrow> \<not> shut_both c)"

lemma pump_okD:
  assumes "pump_ok c"
  shows "rc_state c = pump_active" "wm_read (rc_bev c d) = (0, REDSOCKS_RELAY_HALFBUFF)" "wm_write (rc_bev c d) = (0, REDSOCKS_RELAY_HALFBUFF)"
    "shut_rd c d \<Longrightarrow> \<not> en_read (rc_bev c d)" "shut_wr c d \<Longrightarrow> shut_rd c (anti d)" "shut_wr c d \<Longrightarrow> ev_output (rc_bev c d) = []"
    "shut_wr c d \<Longrightarrow> \<not> write_pending (rc_bev c d)" "\<not> rc_freed c \<Longrightarrow> en_write (rc_bev c d) \<longleftrightarrow> \<not> shut_wr c d"
  using assms unfolding pump_ok_def side_ok_def by blast+

lemma pump_ok_sides: "pump_ok c \<longleftrightarrow> rc_state c = pump_active \<and> side_ok c d \<and> side_ok c (anti d) \<and> (\<not> rc_freed c \<longrightarrow> \<not> shut_both c)"
  unfolding pump_ok_def by (metis all_sides)

text \<open>The bytes read from and written to a side, and what a part of a run does to the data in between.\<close>

fun got :: "side \<Rightarrow> relay_event list \<Rightarrow> byte list" where
  "got d [] = []"
| "got d (RvRead e x # evs) = (if e = d then x @ got d evs else got d evs)"
| "got d (_ # evs) = got d evs"

fun sent :: "side \<Rightarrow> relay_event list \<Rightarrow> byte list" where
  "sent d [] = []"
| "sent d (RvWrote e x # evs) = (if e = d then x @ sent d evs else sent d evs)"
| "sent d (_ # evs) = sent d evs"

lemma got_append [simp]: "got d (h @ h') = got d h @ got d h'"
  by (induction d h rule: got.induct) auto

lemma sent_append [simp]: "sent d (h @ h') = sent d h @ sent d h'"
  by (induction d h rule: sent.induct) auto

abbreviation in_transit :: "redsocks_client \<Rightarrow> side \<Rightarrow> byte list" where
  "in_transit c d \<equiv> ev_output (rc_bev c d) @ ev_input (rc_bev c (anti d))"

definition flows :: "redsocks_client \<Rightarrow> redsocks_client \<Rightarrow> relay_event list \<Rightarrow> side \<Rightarrow> bool" where
  "flows c c' evs d \<longleftrightarrow>
     in_transit c d @ got (anti d) evs = sent d evs @ in_transit c' d \<and>
     (shut_wr c' d \<longleftrightarrow> shut_wr c d \<or> RvShutdown d SHUT_WR \<in> set evs)"

definition good :: "redsocks_client \<Rightarrow> redsocks_client \<Rightarrow> relay_event list \<Rightarrow> bool" where
  "good c c' evs \<longleftrightarrow> pump_ok c' \<and> (\<forall>d. flows c c' evs d)"

lemma flows_trans:
  assumes "flows c c1 e1 d" "flows c1 c2 e2 d"
  shows "flows c c2 (e1 @ e2) d"
proof -
  have "(in_transit c d @ got (anti d) e1) @ got (anti d) e2 = sent d e1 @ in_transit c1 d @ got (anti d) e2"
    using assms(1) unfolding flows_def by simp
  also have "\<dots> = sent d e1 @ sent d e2 @ in_transit c2 d" using assms(2) unfolding flows_def by simp
  finally show ?thesis using assms unfolding flows_def by auto
qed

lemma good_trans: "good c c1 e1 \<Longrightarrow> good c1 c2 e2 \<Longrightarrow> good c c2 (e1 @ e2)"
  unfolding good_def using flows_trans by blast

lemma good_sides: "good c c' evs \<longleftrightarrow> pump_ok c' \<and> flows c c' evs d \<and> flows c c' evs (anti d)"
  unfolding good_def by (metis all_sides)

lemma good_refl: "pump_ok c \<Longrightarrow> good c c []"
  by (simp add: good_def flows_def)

text \<open>The elementary changes of the state of a client.\<close>

lemma good_enable: "pump_ok c \<Longrightarrow> \<not> shut_rd c d \<Longrightarrow> good c (upd_bev c d (\<lambda>b. bufferevent_enable b True False)) []"
  by (simp add: good_sides [of _ _ _ d] pump_ok_sides [of _ d] shut_both_alt [of _ d] side_ok_def flows_def)

lemma good_disable: "pump_ok c \<Longrightarrow> good c (upd_bev c d (\<lambda>b. bufferevent_disable b True False)) []"
  by (simp add: good_sides [of _ _ _ d] pump_ok_sides [of _ d] shut_both_alt [of _ d] side_ok_def flows_def)

lemma good_written: "pump_ok c \<Longrightarrow> good c (upd_bev c d (\<lambda>b. b\<lparr>write_pending := False\<rparr>)) []"
  by (simp add: good_sides [of _ _ _ d] pump_ok_sides [of _ d] shut_both_alt [of _ d] side_ok_def flows_def)

lemma good_input: "pump_ok c \<Longrightarrow> good c (upd_bev c d (\<lambda>b. b\<lparr>ev_input := ev_input b @ x\<rparr>)) [RvRead d x]"
  by (simp add: good_sides [of _ _ _ d] pump_ok_sides [of _ d] shut_both_alt [of _ d] side_ok_def flows_def)

lemma good_output:
  "pump_ok c \<Longrightarrow> good c (upd_bev c d (\<lambda>b. b\<lparr>ev_output := drop n (ev_output b)\<rparr>)) [RvWrote d (take n (ev_output (rc_bev c d)))]"
  by (auto simp: good_sides [of _ _ _ d] pump_ok_sides [of _ d] shut_both_alt [of _ d] side_ok_def flows_def)

lemma good_move: "pump_ok c \<Longrightarrow> \<not> shut_wr c (anti d) \<Longrightarrow> good c (bufferevent_write_buffer c (anti d) d ok) []"
  by (simp add: good_sides [of _ _ _ d] pump_ok_sides [of _ d] shut_both_alt [of _ d] side_ok_def flows_def bufferevent_write_buffer_def)

lemma good_drop: "pump_ok c \<Longrightarrow> good c (c\<lparr>rc_freed := True\<rparr>) [RvDropped]"
  by (simp add: good_def pump_ok_def side_ok_def flows_def)

lemma good_write_error: "pump_ok c \<Longrightarrow> good c ((upd_bev c d (\<lambda>b. bufferevent_disable b False True))\<lparr>rc_freed := True\<rparr>) [RvDropped]"
  by (simp add: good_sides [of _ _ _ d] pump_ok_sides [of _ d] side_ok_def flows_def)

lemma shutdown_rd:
  assumes "pump_ok c" "\<not> shut_rd c d" "\<not> rc_freed c" "redsocks_shutdown c d SHUT_RD = (c', ev)"
  shows "c' = (upd_bev c d (\<lambda>b. bufferevent_disable b True False))\<lparr>shut_rd := (shut_rd c)(d := True)\<rparr>" "good c c' ev" "\<not> rc_freed c'"
proof -
  have "\<not> shut_wr c (anti d)" using pump_okD(5) [OF assms(1), of "anti d"] assms(2) by auto
  then have "c' = (upd_bev c d (\<lambda>b. bufferevent_disable b True False))\<lparr>shut_rd := (shut_rd c)(d := True)\<rparr> \<and> good c c' ev \<and> \<not> rc_freed c'"
    using assms
    by (auto simp: redsocks_shutdown_def Let_def good_sides [of _ _ _ d] pump_ok_sides [of _ d] shut_both_alt [of _ d] side_ok_def flows_def split: if_splits)
  then show "c' = (upd_bev c d (\<lambda>b. bufferevent_disable b True False))\<lparr>shut_rd := (shut_rd c)(d := True)\<rparr>" "good c c' ev" "\<not> rc_freed c'" by blast+
qed

lemma shutdown_wr:
  assumes "pump_ok c" "shut_rd c (anti d)" "ev_output (rc_bev c d) = []" "redsocks_shutdown c d SHUT_WR = (c', ev)"
  shows "good c c' ev"
    "\<exists>f. c' = (upd_bev c d (\<lambda>b. bufferevent_disable b False True))\<lparr>shut_wr := (shut_wr c)(d := True), rc_freed := f\<rparr>"
proof -
  let ?c = "(upd_bev c d (\<lambda>b. bufferevent_disable b False True))\<lparr>shut_wr := (shut_wr c)(d := True)\<rparr>"
  have c': "(c', ev) = (if shut_both ?c then (?c\<lparr>rc_freed := True\<rparr>, [RvShutdown d SHUT_WR, RvDropped]) else (?c, [RvShutdown d SHUT_WR]))"
    using assms(4) by (auto simp: redsocks_shutdown_def Let_def redsocks_drop_client_def split: if_splits)
  have "c' = ?c\<lparr>rc_freed := rc_freed c'\<rparr>" using c' by (auto split: if_splits)
  then show "\<exists>f. c' = (upd_bev c d (\<lambda>b. bufferevent_disable b False True))\<lparr>shut_wr := (shut_wr c)(d := True), rc_freed := f\<rparr>" by blast
  show "good c c' ev"
    using c' assms(1-3)
    by (auto simp: good_sides [of _ _ _ d] pump_ok_sides [of _ d] shut_both_alt [of _ d] side_ok_def flows_def split: if_splits)
qed

section \<open>The callbacks\<close>

lemma readcb_good:
  assumes "pump_ok c" "\<not> shut_rd c d"
  shows "good c (redsocks_relay_readcb c d (anti d) ok) []"
  using assms good_move good_disable good_refl pump_okD(5) [OF assms(1), of "anti d"]
  by (auto simp: redsocks_relay_readcb_def)

lemma writecb_good:
  assumes "pump_ok c" "\<not> shut_wr c d" "ev_output (rc_bev c d) = []" "redsocks_relay_writecb c (anti d) d ok = (c', ev)"
  shows "good c c' ev"
proof (cases "ev_input (rc_bev c (anti d)) = [] \<and> shut_rd c (anti d)")
  case True
  then show ?thesis using assms shutdown_wr(1) [OF assms(1)] by (auto simp: redsocks_relay_writecb_def)
next
  case False
  let ?m = "bufferevent_write_buffer c d (anti d) ok"
  have m: "good c ?m []" using good_move [OF assms(1), of "anti d"] assms(2) by simp
  have e: "good ?m (upd_bev ?m (anti d) (\<lambda>b. bufferevent_enable b True False)) []" if "\<not> shut_rd c (anti d)"
    using m that by (intro good_enable) (auto simp: good_def bufferevent_write_buffer_def)
  have "length (ev_output (rc_bev c d)) < snd (wm_write (rc_bev c d))" using assms(3) pump_okD(3) [OF assms(1), of d] by simp
  then show ?thesis
    using assms(4) False m e good_trans [OF m] by (auto simp: redsocks_relay_writecb_def Let_def split: if_splits)
qed

lemma event_error_good:
  assumes "pump_ok c" "\<not> rc_freed c" "eof \<longrightarrow> \<not> shut_rd c d"
  shows "\<exists>c' ev. redsocks_event_error c d eof = Some (c', ev) \<and> good c c' ev"
proof (cases eof)
  case False
  then show ?thesis using good_drop [OF assms(1)] by (auto simp: redsocks_event_error_def redsocks_drop_client_def)
next
  case True
  obtain c1 ev1 where s1: "redsocks_shutdown c d SHUT_RD = (c1, ev1)" by fastforce
  note r = shutdown_rd [OF assms(1) _ assms(2) s1]
  have g: "good c c1 ev1" "\<not> rc_freed c1" "shut_rd c1 d" using r assms(3) True by auto
  then have p1: "pump_ok c1" by (simp add: good_def)
  obtain c2 ev2 where s2: "redsocks_shutdown c1 (anti d) SHUT_WR = (c2, ev2)" by fastforce
  have "good c c2 (ev1 @ ev2)" if "ev_output (rc_bev c1 (anti d)) = []"
    using good_trans [OF g(1) shutdown_wr(1) [OF p1 _ that s2]] g(3) by simp
  then show ?thesis using True s1 s2 g by (auto simp: redsocks_event_error_def)
qed

definition write_done :: "redsocks_client \<Rightarrow> side \<Rightarrow> bool \<Rightarrow> redsocks_client \<times> relay_event list" where
  "write_done c d ok =
     (if ev_output (rc_bev c d) = [] then redsocks_relay_writecb (upd_bev c d (\<lambda>b. b\<lparr>write_pending := False\<rparr>)) (anti d) d ok else (c, []))"

lemma write_done_good:
  assumes "pump_ok c" "\<not> shut_wr c d" "write_done c d ok = (c', ev)"
  shows "good c c' ev"
proof (cases "ev_output (rc_bev c d) = []")
  case True
  let ?c = "upd_bev c d (\<lambda>b. b\<lparr>write_pending := False\<rparr>)"
  have g: "good c ?c []" by (rule good_written [OF assms(1)])
  then have "good ?c c' ev" using assms True by (intro writecb_good [of ?c d ok]) (auto simp: good_def write_done_def)
  then show ?thesis using good_trans [OF g] by simp
next
  case False
  then show ?thesis using assms good_refl by (auto simp: write_done_def)
qed

lemma bufferevent_writecb_alt:
  assumes "pump_ok c"
  shows "bufferevent_writecb (\<lambda>c. relay_writecb c d ok) c d res =
    (if ev_output (rc_bev c d) = [] then Some (write_done c d ok)
     else case res of
       IoAgain \<Rightarrow> Some (c, [])
     | IoData (x # xs) \<Rightarrow>
         (case write_done (upd_bev c d (\<lambda>b. b\<lparr>ev_output := drop (length (x # xs)) (ev_output b)\<rparr>)) d ok of
            (c', ev) \<Rightarrow> Some (c', RvWrote d (take (length (x # xs)) (ev_output (rc_bev c d))) # ev))
     | _ \<Rightarrow> Some ((upd_bev c d (\<lambda>b. bufferevent_disable b False True))\<lparr>rc_freed := True\<rparr>, [RvDropped]))"
  using pump_okD(3) [OF assms, of d]
  by (auto simp: bufferevent_writecb_def Let_def write_done_def relay_writecb_alt redsocks_event_error_def redsocks_drop_client_def
      split: io_result.splits list.splits prod.splits)

lemma writable_good:
  assumes "pump_ok c" "\<not> shut_wr c d"
  shows "\<exists>c' ev. bufferevent_writecb (\<lambda>c. relay_writecb c d ok) c d res = Some (c', ev) \<and> good c c' ev"
proof -
  have "good c c' ev" if "write_done c d ok = (c', ev)" for c' ev by (rule write_done_good [OF assms that])
  moreover have "good c c' (RvWrote d (take n (ev_output (rc_bev c d))) # ev)"
    if "write_done (upd_bev c d (\<lambda>b. b\<lparr>ev_output := drop n (ev_output b)\<rparr>)) d ok = (c', ev)" for n c' ev
  proof -
    have g: "good c (upd_bev c d (\<lambda>b. b\<lparr>ev_output := drop n (ev_output b)\<rparr>)) [RvWrote d (take n (ev_output (rc_bev c d)))]"
      by (rule good_output [OF assms(1)])
    then have "good (upd_bev c d (\<lambda>b. b\<lparr>ev_output := drop n (ev_output b)\<rparr>)) c' ev"
      using assms(2) by (intro write_done_good [OF _ _ that]) (auto simp: good_def)
    with good_trans [OF g] show ?thesis by simp
  qed
  moreover have "good c c []" by (rule good_refl [OF assms(1)])
  moreover have "good c ((upd_bev c d (\<lambda>b. bufferevent_disable b False True))\<lparr>rc_freed := True\<rparr>) [RvDropped]"
    by (rule good_write_error [OF assms(1)])
  ultimately show ?thesis
    unfolding bufferevent_writecb_alt [OF assms(1)]
    by (cases "write_done c d ok") (auto split: io_result.splits list.splits prod.splits)
qed

lemma step_good:
  assumes "pump_ok c"
  shows "\<exists>c' ev. relay_step x c = Some (c', ev) \<and> good c c' ev"
proof (cases x)
  case (RelayReadable d res ok)
  show ?thesis
  proof (cases "\<not> rc_freed c \<and> en_read (rc_bev c d) \<and> \<not> read_suspended (rc_bev c d)")
    case False
    then show ?thesis using RelayReadable good_refl [OF assms] by (auto simp: bufferevent_readcb_def Let_def)
  next
    case True
    then have rd: "\<not> shut_rd c d" using pump_okD(4) [OF assms] by blast
    let ?dis = "upd_bev c d (\<lambda>b. bufferevent_disable b True False)"
    have dis: "good c ?dis []" "pump_ok ?dis" using good_disable [OF assms] by (auto simp: good_def)
    show ?thesis
    proof (cases res)
      case (IoData data0)
      define data where "data = take (4096 - length (ev_input (rc_bev c d))) data0"
      let ?c = "upd_bev c d (\<lambda>b. b\<lparr>ev_input := ev_input b @ data\<rparr>)"
      have "good c ?c [RvRead d data]" by (rule good_input [OF assms])
      moreover from this have "good ?c (redsocks_relay_readcb ?c d (anti d) ok) []" using rd by (intro readcb_good) (auto simp: good_def)
      ultimately have "good c (redsocks_relay_readcb ?c d (anti d) ok) [RvRead d data]" using good_trans by fastforce
      then show ?thesis
        using RelayReadable True IoData pump_okD(2) [OF assms, of d] good_refl [OF assms]
        by (auto simp: bufferevent_readcb_def Let_def data_def [symmetric] relay_readcb_alt upd_bev_def)
    next
      case IoEof
      from event_error_good [OF dis(2), of True d] obtain c' ev where "redsocks_event_error ?dis d True = Some (c', ev)" "good ?dis c' ev"
        using True rd by auto
      then show ?thesis using RelayReadable True IoEof good_trans [OF dis(1)] by (auto simp: bufferevent_readcb_def)
    next
      case IoError
      from event_error_good [OF dis(2), of False d] obtain c' ev where "redsocks_event_error ?dis d False = Some (c', ev)" "good ?dis c' ev"
        using True by auto
      then show ?thesis using RelayReadable True IoError good_trans [OF dis(1)] by (auto simp: bufferevent_readcb_def)
    next
      case IoAgain
      then show ?thesis using RelayReadable True good_refl [OF assms] by (auto simp: bufferevent_readcb_def)
    qed
  qed
next
  case (RelayWritable d res ok)
  show ?thesis
  proof (cases "\<not> rc_freed c \<and> write_pending (rc_bev c d)")
    case False
    then show ?thesis using RelayWritable good_refl [OF assms] by auto
  next
    case True
    then have wr: "\<not> shut_wr c d" using pump_okD(7) [OF assms] by blast
    show ?thesis using writable_good [OF assms wr, of ok res] True RelayWritable by simp
  qed
qed

section \<open>Nothing is lost or stuck\<close>

text \<open>The flow of data towards a side \<open>d\<close>: data waits in the input of the other side only behind output, output is registered to be written,
  reading is stopped only for output that waits, and both buffers are bounded.\<close>

definition dir_full :: "redsocks_client \<Rightarrow> side \<Rightarrow> bool" where
  "dir_full c d \<longleftrightarrow>
     (ev_input (rc_bev c (anti d)) \<noteq> [] \<longrightarrow> ev_output (rc_bev c d) \<noteq> []) \<and>
     (ev_output (rc_bev c d) \<noteq> [] \<longrightarrow> write_pending (rc_bev c d)) \<and>
     (\<not> shut_rd c (anti d) \<and> \<not> en_read (rc_bev c (anti d)) \<longrightarrow> ev_output (rc_bev c d) \<noteq> []) \<and>
     length (ev_input (rc_bev c (anti d))) \<le> REDSOCKS_RELAY_HALFBUFF \<and>
     length (ev_output (rc_bev c d)) < 2 * REDSOCKS_RELAY_HALFBUFF"

definition pump_full :: "redsocks_client \<Rightarrow> bool" where
  "pump_full c \<longleftrightarrow> (rc_freed c \<or> (\<forall>d. dir_full c d)) \<and> (\<forall>d. shut_wr c d \<longrightarrow> ev_input (rc_bev c (anti d)) = [])"

fun op_ok :: "relay_op \<Rightarrow> bool" where
  "op_ok (RelayReadable d res ok) = ok"
| "op_ok (RelayWritable d res ok) = ok"

lemma pump_full_sides: "pump_full c \<longleftrightarrow> (rc_freed c \<or> (dir_full c d \<and> dir_full c (anti d))) \<and>
    (shut_wr c d \<longrightarrow> ev_input (rc_bev c (anti d)) = []) \<and> (shut_wr c (anti d) \<longrightarrow> ev_input (rc_bev c d) = [])"
  unfolding pump_full_def using all_sides [of "dir_full c" d] all_sides [of "\<lambda>d. shut_wr c d \<longrightarrow> ev_input (rc_bev c (anti d)) = []" d] by auto

lemma readcb_full:
  assumes "pump_ok c" "pump_full c" "\<not> rc_freed c" "en_read (rc_bev c d)" "length (ev_input (rc_bev c d)) + length data \<le> REDSOCKS_RELAY_HALFBUFF"
  shows "pump_full (redsocks_relay_readcb (upd_bev c d (\<lambda>b. b\<lparr>ev_input := ev_input b @ data\<rparr>)) d (anti d) True)"
proof -
  have "\<not> shut_rd c d" using pump_okD(4) [OF assms(1)] assms(4) by blast
  then have wr: "\<not> shut_wr c (anti d)" "en_write (rc_bev c (anti d))"
    using pump_okD(5,8) [OF assms(1), of "anti d"] assms(3) by auto
  show ?thesis
    using assms(2-5) wr pump_okD(3) [OF assms(1), of "anti d"]
    by (auto simp: redsocks_relay_readcb_def bufferevent_write_buffer_def pump_full_sides [of _ d] dir_full_def)
qed

lemma dir_full_cong:
  "dir_full c d \<Longrightarrow> ev_input (rc_bev c' (anti d)) = ev_input (rc_bev c (anti d)) \<Longrightarrow> ev_output (rc_bev c' d) = ev_output (rc_bev c d) \<Longrightarrow>
    write_pending (rc_bev c' d) = write_pending (rc_bev c d) \<Longrightarrow> shut_rd c' (anti d) = shut_rd c (anti d) \<Longrightarrow>
    en_read (rc_bev c' (anti d)) = en_read (rc_bev c (anti d)) \<Longrightarrow> dir_full c' d"
  by (simp add: dir_full_def)

lemma pump_fullI:
  assumes "pump_full c" "\<not> rc_freed c" "dir_full c' d"
    and "ev_input (rc_bev c' d) = ev_input (rc_bev c d)" "ev_output (rc_bev c' (anti d)) = ev_output (rc_bev c (anti d))"
    "write_pending (rc_bev c' (anti d)) = write_pending (rc_bev c (anti d))" "shut_rd c' = shut_rd c" "en_read (rc_bev c' d) = en_read (rc_bev c d)"
    and "shut_wr c' (anti d) = shut_wr c (anti d)" "shut_wr c' d \<Longrightarrow> ev_input (rc_bev c' (anti d)) = []"
  shows "pump_full c'"
proof -
  have "dir_full c (anti d)" "shut_wr c (anti d) \<Longrightarrow> ev_input (rc_bev c d) = []" using assms(1,2) by (auto simp: pump_full_sides [of _ d])
  moreover from this(1) have "dir_full c' (anti d)" by (rule dir_full_cong) (simp_all add: assms)
  ultimately show ?thesis using assms by (auto simp: pump_full_sides [of _ d])
qed

lemma writecb_full:
  assumes "pump_ok c" "pump_full c" "\<not> rc_freed c" "\<not> shut_wr c d" "write_done (upd_bev c d (\<lambda>b. b\<lparr>ev_output := drop n (ev_output b)\<rparr>)) d True = (c', ev)"
  shows "pump_full c'"
proof (cases "drop n (ev_output (rc_bev c d)) = []")
  case False
  then have c': "c' = upd_bev c d (\<lambda>b. b\<lparr>ev_output := drop n (ev_output b)\<rparr>)" using assms(5) by (simp add: write_done_def)
  have "dir_full c d" using assms(2,3) by (auto simp: pump_full_def)
  moreover have "ev_output (rc_bev c d) \<noteq> []" using False by auto
  ultimately have "dir_full c' d" using False by (auto simp: dir_full_def c')
  then show ?thesis by (rule pump_fullI [OF assms(2,3)]) (use assms(4) in \<open>simp_all add: c'\<close>)
next
  case True
  let ?c = "upd_bev (upd_bev c d (\<lambda>b. b\<lparr>ev_output := drop n (ev_output b)\<rparr>)) d (\<lambda>b. b\<lparr>write_pending := False\<rparr>)"
  have w: "redsocks_relay_writecb ?c (anti d) d True = (c', ev)" using assms(5) True by (simp add: write_done_def)
  have en: "en_write (rc_bev c d)" using pump_okD(8) [OF assms(1,3)] assms(4) by blast
  have df: "dir_full c d" using assms(2,3) by (auto simp: pump_full_def)
  show ?thesis
  proof (cases "ev_input (rc_bev c (anti d)) = [] \<and> shut_rd c (anti d)")
    case eof: True
    have "pump_ok ?c" using assms(1) True by (simp add: pump_ok_sides [of _ d] side_ok_def shut_both_alt [of _ d])
    then obtain f where c': "c' = (upd_bev ?c d (\<lambda>b. bufferevent_disable b False True))\<lparr>shut_wr := (shut_wr c)(d := True), rc_freed := f\<rparr>"
      using shutdown_wr(2) [of ?c d c' ev] w True eof by (auto simp: redsocks_relay_writecb_def)
    have "dir_full c' d" using eof True df by (simp add: dir_full_def c')
    then show ?thesis by (rule pump_fullI [OF assms(2,3)]) (use eof in \<open>simp_all add: c'\<close>)
  next
    case False
    let ?m = "bufferevent_write_buffer ?c d (anti d) True"
    have c': "c' = (if \<not> shut_rd c (anti d) \<and> \<not> en_read (rc_bev ?m (anti d)) then upd_bev ?m (anti d) (\<lambda>b. bufferevent_enable b True False) else ?m)"
      using w False True pump_okD(3) [OF assms(1), of d] by (auto simp: redsocks_relay_writecb_def Let_def)
    have "dir_full c' d" using df True en by (simp add: dir_full_def c' bufferevent_write_buffer_def)
    then show ?thesis by (rule pump_fullI [OF assms(2,3)]) (use assms(4) in \<open>simp_all add: c' bufferevent_write_buffer_def\<close>)
  qed
qed

lemma eof_full:
  assumes "pump_ok c" "pump_full c" "\<not> rc_freed c" "en_read (rc_bev c d)"
    "redsocks_event_error (upd_bev c d (\<lambda>b. bufferevent_disable b True False)) d True = Some (c', ev)"
  shows "pump_full c'"
proof -
  let ?dis = "upd_bev c d (\<lambda>b. bufferevent_disable b True False)"
  have rd: "\<not> shut_rd c d" using pump_okD(4) [OF assms(1)] assms(4) by blast
  have dis: "pump_ok ?dis" using good_disable [OF assms(1)] by (simp add: good_def)
  obtain c1 ev1 where s1: "redsocks_shutdown ?dis d SHUT_RD = (c1, ev1)" by fastforce
  have r: "c1 = (upd_bev ?dis d (\<lambda>b. bufferevent_disable b True False))\<lparr>shut_rd := (shut_rd c)(d := True)\<rparr>" "pump_ok c1" "\<not> rc_freed c1"
    using shutdown_rd [OF dis _ _ s1] rd assms(3) by (auto simp: good_def)
  have df: "dir_full c d" "dir_full c (anti d)" using assms(2,3) by (auto simp: pump_full_def)
  have "dir_full c1 d" by (rule dir_full_cong [OF df(1)]) (simp_all add: r(1))
  moreover have "dir_full c1 (anti d)" using df(2) by (auto simp: dir_full_def r(1))
  ultimately have f1: "pump_full c1" using assms(2) by (simp add: pump_full_sides [of _ d] r(1))
  show ?thesis
  proof (cases "ev_output (rc_bev c1 (anti d)) = []")
    case False
    then have "c' = c1" using assms(5) s1 r(3) by (auto simp: redsocks_event_error_def split: if_splits prod.splits)
    then show ?thesis using f1 by simp
  next
    case True
    obtain c2 ev2 where s2: "redsocks_shutdown c1 (anti d) SHUT_WR = (c2, ev2)" by fastforce
    have "c' = c2" using assms(5) s1 s2 True r(3) pump_okD(1) [OF r(2)] by (auto simp: redsocks_event_error_def)
    moreover obtain f where c2: "c2 = (upd_bev c1 (anti d) (\<lambda>b. bufferevent_disable b False True))\<lparr>shut_wr := (shut_wr c1)(anti d := True), rc_freed := f\<rparr>"
      using shutdown_wr(2) [OF r(2) _ True s2] r(1) by auto
    moreover have "ev_input (rc_bev c1 d) = []" using True f1 r(3) by (auto simp: pump_full_sides [of _ d] dir_full_def)
    moreover have "dir_full c2 (anti d)" using True df(2) calculation(3) by (simp add: dir_full_def c2 r(1))
    ultimately show ?thesis
      using pump_fullI [OF f1 r(3), of c2 "anti d"] by (simp add: c2)
  qed
qed

lemma step_full:
  assumes "pump_ok c" "pump_full c" "op_ok x" "relay_step x c = Some (c', ev)"
  shows "pump_full c'"
proof (cases x)
  case (RelayReadable d res ok)
  show ?thesis
  proof (cases "\<not> rc_freed c \<and> en_read (rc_bev c d) \<and> \<not> read_suspended (rc_bev c d)")
    case False
    then show ?thesis using assms(2,4) RelayReadable by (auto simp: bufferevent_readcb_def Let_def split: if_splits)
  next
    case True
    show ?thesis
    proof (cases res)
      case (IoData data0)
      define data where "data = take (4096 - length (ev_input (rc_bev c d))) data0"
      have "length (ev_input (rc_bev c d)) + length data \<le> 4096"
        using True pump_okD(2) [OF assms(1), of d] by (auto simp: data_def read_suspended_def)
      then have "pump_full (redsocks_relay_readcb (upd_bev c d (\<lambda>b. b\<lparr>ev_input := ev_input b @ data\<rparr>)) d (anti d) True)"
        using readcb_full [OF assms(1,2)] True by blast
      then show ?thesis
        using RelayReadable True IoData pump_okD(2) [OF assms(1), of d] assms(2-4)
        by (auto simp: bufferevent_readcb_def Let_def data_def [symmetric] relay_readcb_alt upd_bev_def split: if_splits)
    next
      case IoEof
      then show ?thesis using eof_full [OF assms(1,2)] True RelayReadable assms(4) by (auto simp: bufferevent_readcb_def)
    next
      case IoError
      then show ?thesis using True RelayReadable assms(2,4)
        by (auto simp: bufferevent_readcb_def redsocks_event_error_def redsocks_drop_client_def pump_full_sides [of _ d])
    next
      case IoAgain
      then show ?thesis using True RelayReadable assms(2,4) by (auto simp: bufferevent_readcb_def)
    qed
  qed
next
  case (RelayWritable d res ok)
  show ?thesis
  proof (cases "\<not> rc_freed c \<and> write_pending (rc_bev c d)")
    case False
    then show ?thesis using assms(2,4) RelayWritable by auto
  next
    case True
    then have wr: "\<not> shut_wr c d" using pump_okD(7) [OF assms(1)] by blast
    have same: "upd_bev c d (\<lambda>b. b\<lparr>ev_output := drop 0 (ev_output b)\<rparr>) = c" by (simp add: upd_bev_def)
    have wd: "pump_full c2" if "write_done (upd_bev c d (\<lambda>b. b\<lparr>ev_output := drop n (ev_output b)\<rparr>)) d True = (c2, e2)" for n c2 e2
      using writecb_full [OF assms(1,2) _ wr that] True by blast
    have "pump_full ((upd_bev c d (\<lambda>b. bufferevent_disable b False True))\<lparr>rc_freed := True\<rparr>)"
      using assms(2) by (simp add: pump_full_sides [of _ d])
    moreover have "bufferevent_writecb (\<lambda>c. relay_writecb c d True) c d res = Some (c', ev)" using assms(3,4) RelayWritable True by simp
    ultimately show ?thesis
      using assms(2) wd wd [of 0, unfolded same] unfolding bufferevent_writecb_alt [OF assms(1)]
      by (auto split: if_splits io_result.splits list.splits prod.splits)
  qed
qed


section \<open>Runs\<close>

text \<open>A client whose relay was just connected: nothing is shut for writing, and what reached an end of file is not read.\<close>

definition relay_connected :: "redsocks_client \<Rightarrow> bool" where
  "relay_connected c \<longleftrightarrow> \<not> rc_freed c \<and> (\<forall>d. \<not> shut_wr c d \<and> (shut_rd c d \<longrightarrow> \<not> en_read (rc_bev c d)) \<and> ev_output (rc_bev c d) = [])"

lemma both_sides: "(\<forall>d. P d) \<longleftrightarrow> P Client \<and> P Relay"
  using all_sides [of P Client] by simp

lemma start_ok:
  assumes "relay_connected c"
  shows "pump_ok (redsocks_start_relay c)" "in_transit (redsocks_start_relay c) d = ev_input (rc_bev c (anti d))" "\<not> shut_wr (redsocks_start_relay c) d"
    "\<forall>d. ev_input (rc_bev c d) = [] \<Longrightarrow> pump_full (redsocks_start_relay c)"
  using assms
  by (cases d; auto simp: relay_connected_def redsocks_start_relay_def redsocks_start_bufferpump_def Let_def bufferevent_setwatermark_def
      pump_ok_def side_ok_def shut_both_def pump_full_def dir_full_def both_sides)+

lemma start_flow:
  assumes "relay_connected c" "good (redsocks_start_relay c) c' h"
  shows "ev_input (rc_bev c (anti d)) @ got (anti d) h = sent d h @ in_transit c' d"
  using assms(2) start_ok(2) [OF assms(1), of d] unfolding good_def flows_def by metis

interpretation relay_total: history_invariant "\<lambda>h c. good c0 c h" "\<lambda>_. True" relay_step for c0
proof
  fix h c x c' as
  assume g: "good c0 c h" and s: "relay_step x c = Some (c', as)"
  have "pump_ok c" using g by (simp add: good_def)
  from step_good [OF this, of x] s have "good c c' as" by auto
  with good_trans [OF g] show "good c0 c' (h @ as)" by blast
qed

interpretation relay_ok: history_invariant "\<lambda>h c. good c0 c h \<and> pump_full c" op_ok relay_step for c0
proof
  fix h c x c' as
  assume g: "good c0 c h \<and> pump_full c" and x: "op_ok x" and s: "relay_step x c = Some (c', as)"
  have p: "pump_ok c" using g by (simp add: good_def)
  from step_good [OF p, of x] s have "good c c' as" by auto
  with good_trans [of c0 c h c' as] g step_full [OF p _ x s] show "good c0 c' (h @ as) \<and> pump_full c'" by blast
qed

lemma run_good:
  assumes "pump_ok c"
  shows "\<exists>c' h. run_ops relay_step ops c = Some (c', h) \<and> good c c' h"
proof -
  have "\<exists>c' h. run_ops relay_step ops c = Some (c', h)" if "pump_ok c" for c
    using that
  proof (induction ops arbitrary: c)
    case (Cons x ops)
    from step_good [OF Cons.prems, of x] obtain c1 h1 where s: "relay_step x c = Some (c1, h1)" "pump_ok c1" by (auto simp: good_def)
    with Cons.IH [OF s(2)] show ?case by auto
  qed simp
  then obtain c' h where r: "run_ops relay_step ops c = Some (c', h)" using assms by blast
  have "list_all (\<lambda>_. True) ops" by (simp add: list_all_iff)
  from relay_total.run_history [OF good_refl [OF assms] this r] r show ?thesis by auto
qed

text \<open>C21.  The relay never touches a client after it was released, whatever the sockets answer and in whatever order events come: every
  callback ends regularly.  All along, the bytes written to one side followed by those still in the two buffers are the bytes that were
  waiting when the relay started followed by those read from the other side.\<close>

theorem relay_safe:
  assumes "relay_connected c"
  shows "\<exists>c' h. run_ops relay_step ops (redsocks_start_relay c) = Some (c', h) \<and>
    (\<forall>d. ev_input (rc_bev c (anti d)) @ got (anti d) h = sent d h @ ev_output (rc_bev c' d) @ ev_input (rc_bev c' (anti d)))"
proof -
  obtain c' h where r: "run_ops relay_step ops (redsocks_start_relay c) = Some (c', h)" "good (redsocks_start_relay c) c' h"
    using run_good [OF start_ok(1) [OF assms]] by blast
  moreover have "ev_input (rc_bev c (anti d)) @ got (anti d) h = sent d h @ ev_output (rc_bev c' d) @ ev_input (rc_bev c' (anti d))" for d
    using start_flow [OF assms r(2)] by simp
  ultimately show ?thesis by blast
qed



text \<open>C23.  Data that came before the relay started can be lost: when the client sent data and then closes its side, and the end of file is
  handled before the first write callback of the relay, the relay is shut for writing although the data was never written.\<close>

theorem relay_early_data_lost:
  assumes "relay_connected c" "en_read (rc_bev c Client)" "\<not> shut_rd c Relay" "ev_input (rc_bev c Client) = data" "0 < length data" "length data < 4096"
  shows "\<exists>c'. run_ops relay_step (RelayReadable Client IoEof True # replicate n (RelayWritable Relay IoAgain True)) (redsocks_start_relay c) =
    Some (c', [RvShutdown Client SHUT_RD, RvShutdown Relay SHUT_WR]) \<and> ev_input (rc_bev c' Client) = data \<and> shut_wr c' Relay"
proof -
  let ?c = "redsocks_start_relay c"
  have "\<not> shut_rd c Client" using assms(1,2) by (auto simp: relay_connected_def)
  then obtain c' where c': "relay_step (RelayReadable Client IoEof True) ?c = Some (c', [RvShutdown Client SHUT_RD, RvShutdown Relay SHUT_WR])"
    "ev_input (rc_bev c' Client) = data" "shut_wr c' Relay" "\<not> write_pending (rc_bev c' Relay)"
    using assms
    by (auto simp: relay_connected_def redsocks_start_relay_def redsocks_start_bufferpump_def Let_def bufferevent_setwatermark_def
        bufferevent_readcb_def read_suspended_def redsocks_event_error_def redsocks_shutdown_def shut_both_def)
  have "run_ops relay_step (replicate n (RelayWritable Relay IoAgain True)) c' = Some (c', [])" using c'(4) by (induction n) auto
  with c' show ?thesis by simp
qed

section \<open>Witnesses\<close>

definition ex_bev :: "byte list \<Rightarrow> bufferevent" where
  "ex_bev x = \<lparr>ev_input = x, ev_output = [], en_read = True, en_write = False, write_pending = False, wm_read = (0, 0), wm_write = (0, 0)\<rparr>"

definition ex_client :: "byte list \<Rightarrow> redsocks_client" where
  "ex_client x = \<lparr>rc_state = 5, rc_bev = (\<lambda>d. ex_bev (if d = Client then x else [])), shut_rd = \<lambda>_. False, shut_wr = \<lambda>_. False, rc_freed = False,
     pl_do_password = False, pl_to_skip = 0\<rparr>"

definition ex_relay_ops :: "relay_op list" where
  "ex_relay_ops = [RelayReadable Client (IoData [1, 2]) True, RelayWritable Relay (IoData [0]) True, RelayReadable Client IoEof True,
     RelayWritable Relay (IoData [0]) True]"

lemmas relay_eval = ex_client_def ex_bev_def redsocks_start_relay_def redsocks_start_bufferpump_def Let_def bufferevent_setwatermark_def
  bufferevent_readcb_def bufferevent_writecb_def read_suspended_def redsocks_event_error_def redsocks_shutdown_def shut_both_def relay_readcb_def
  relay_writecb_def redsocks_relay_readcb_def redsocks_relay_writecb_def bufferevent_write_buffer_def

lemma ex_relay_connected: "relay_connected (ex_client x)"
  by (simp add: relay_connected_def ex_client_def ex_bev_def)

lemma ex_relay_run:
  "\<exists>c'. run_ops relay_step ex_relay_ops (redsocks_start_relay (ex_client [])) =
    Some (c', [RvRead Client [1, 2], RvWrote Relay [1], RvShutdown Client SHUT_RD, RvWrote Relay [2], RvShutdown Relay SHUT_WR]) \<and> \<not> rc_freed c'"
  by (simp add: ex_relay_ops_def relay_eval)

theorem relay_safe_witness:
  "\<exists>c' h. run_ops relay_step ex_relay_ops (redsocks_start_relay (ex_client [7])) = Some (c', h) \<and>
    7 # got Client h = sent Relay h @ ev_output (rc_bev c' Relay) @ ev_input (rc_bev c' Client)"
proof -
  from relay_safe [OF ex_relay_connected, of ex_relay_ops "[7]"] obtain c' h where
    "run_ops relay_step ex_relay_ops (redsocks_start_relay (ex_client [7])) = Some (c', h)"
    "ev_input (rc_bev (ex_client [7]) (anti Relay)) @ got (anti Relay) h = sent Relay h @ ev_output (rc_bev c' Relay) @ ev_input (rc_bev c' (anti Relay))"
    by blast
  then show ?thesis by (intro exI [of _ c'] exI [of _ h]) (simp add: ex_client_def ex_bev_def)
qed



theorem relay_early_data_lost_witness:
  "\<exists>c'. run_ops relay_step [RelayReadable Client IoEof True, RelayWritable Relay IoAgain True] (redsocks_start_relay (ex_client [7])) =
    Some (c', [RvShutdown Client SHUT_RD, RvShutdown Relay SHUT_WR]) \<and> ev_input (rc_bev c' Client) = [7] \<and> shut_wr c' Relay"
  using relay_early_data_lost [OF ex_relay_connected [of "[7]"], of "[7]" 1] by (simp add: ex_client_def ex_bev_def)

end
