(* ===== verification/Redsocks_Socks.thy ===== *)
theory Redsocks_Socks
  imports Redsocks_Relay
begin

text \<open>
  How redsocks asks a SOCKS proxy for a connection: \<^verbatim>\<open>redsocks/socks4.c\<close>, \<^verbatim>\<open>redsocks/socks5.c\<close> and the helpers of \<^verbatim>\<open>redsocks/redsocks.c\<close>
  they share.  The handshake runs on the buffered events of \<^verbatim>\<open>Redsocks_Relay\<close> and ends by starting the relay.  What both protocols
  have in common is proved once, in locales that each of them interprets.
\<close>

section \<open>Shared helpers\<close>

text \<open>What \<^verbatim>\<open>client->instance->config\<close> and \<^verbatim>\<open>client->destaddr\<close> give to a protocol; the address and the port in network order as they are stored.\<close>

record socks_params =
  cfg_login :: "byte list option"
  cfg_password :: "byte list option"
  sin_addr :: u32
  sin_port :: u16

text \<open>Whether a buffer can be made and whether it can be added to the output of the relay.\<close>

type_synonym mem = "bool \<times> bool"

definition sizes_equal :: "nat \<Rightarrow> nat \<Rightarrow> bool" where
  "sizes_equal a b \<longleftrightarrow> a = b"

definition sizes_greater_equal :: "nat \<Rightarrow> nat \<Rightarrow> bool" where
  "sizes_greater_equal a b \<longleftrightarrow> a \<ge> b"

text \<open>\<open>Inl\<close> after the client was dropped, \<open>Inr\<close> with the data that was removed from the input.\<close>

definition redsocks_read_expected :: "redsocks_client \<Rightarrow> (nat \<Rightarrow> nat \<Rightarrow> bool) \<Rightarrow> nat \<Rightarrow>
    (redsocks_client \<times> relay_event list) + (redsocks_client \<times> byte list)" where
  "redsocks_read_expected c comparator expected =
     (let inp = ev_input (rc_bev c Relay)
      in if comparator (length inp) expected then Inr (upd_bev c Relay (\<lambda>b. b\<lparr>ev_input := drop expected inp\<rparr>), take expected inp)
      else Inl (redsocks_drop_client c))"

definition mkevbuffer :: "byte list \<Rightarrow> mem \<Rightarrow> byte list option" where
  "mkevbuffer data mem = (if fst mem then Some data else None)"

definition redsocks_write_helper_ex_plain :: "redsocks_client \<Rightarrow> (mem \<Rightarrow> byte list option) option \<Rightarrow> mem \<Rightarrow> int \<Rightarrow> nat \<Rightarrow> nat \<Rightarrow>
    redsocks_client \<times> relay_event list" where
  "redsocks_write_helper_ex_plain c mkmessage mem state wm_low wm_high =
     (let finish = (\<lambda>c.
            let c = c\<lparr>rc_state := state\<rparr>;
                c = upd_bev c Relay (\<lambda>b. bufferevent_setwatermark b True False wm_low wm_high)
            in (upd_bev c Relay (\<lambda>b. bufferevent_enable b True False), []))
      in case mkmessage of
           None \<Rightarrow> finish c
         | Some mk \<Rightarrow>
             (case mk mem of
                None \<Rightarrow> redsocks_drop_client c
              | Some buff \<Rightarrow>
                  if snd mem then finish (upd_bev c Relay (\<lambda>b. output_add b buff)) else redsocks_drop_client c))"

definition redsocks_write_helper :: "redsocks_client \<Rightarrow> (mem \<Rightarrow> byte list option) option \<Rightarrow> mem \<Rightarrow> int \<Rightarrow> nat \<Rightarrow>
    redsocks_client \<times> relay_event list" where
  "redsocks_write_helper c mkmessage mem state wm_only = redsocks_write_helper_ex_plain c mkmessage mem state wm_only wm_only"

text \<open>\<open>ok\<close> is what \<^verbatim>\<open>red_is_socket_connected_ok\<close> answers; \<open>writecb\<close> is the write callback of the protocol.\<close>

definition redsocks_relay_connected :: "(mem \<Rightarrow> callback) \<Rightarrow> redsocks_client \<Rightarrow> bool \<Rightarrow> mem \<Rightarrow> redsocks_client \<times> relay_event list" where
  "redsocks_relay_connected writecb c ok mem = (if \<not> ok then redsocks_drop_client c else writecb mem c)"

section \<open>SOCKS5\<close>

abbreviation socks5_new :: int where "socks5_new \<equiv> 0"
abbreviation socks5_method_sent :: int where "socks5_method_sent \<equiv> 1"
abbreviation socks5_auth_sent :: int where "socks5_auth_sent \<equiv> 2"
abbreviation socks5_request_sent :: int where "socks5_request_sent \<equiv> 3"
abbreviation socks5_skip_domain :: int where "socks5_skip_domain \<equiv> 4"
abbreviation socks5_skip_address :: int where "socks5_skip_address \<equiv> 5"

definition socks5_is_valid_cred :: "byte list option \<Rightarrow> byte list option \<Rightarrow> bool" where
  "socks5_is_valid_cred login password =
     (case (login, password) of
        (Some l, Some p) \<Rightarrow> \<not> length l > 255 \<and> \<not> length p > 255
      | _ \<Rightarrow> False)"

definition socks5_instance_init :: "socks_params \<Rightarrow> socks_params" where
  "socks5_instance_init config =
     (if cfg_login config \<noteq> None \<or> cfg_password config \<noteq> None then
        (let deauth = (if cfg_login config \<noteq> None \<and> cfg_password config \<noteq> None
                       then \<not> socks5_is_valid_cred (cfg_login config) (cfg_password config) else True)
         in if deauth then config\<lparr>cfg_login := None, cfg_password := None\<rparr> else config)
      else config)"

definition socks5_client_init :: "socks_params \<Rightarrow> redsocks_client \<Rightarrow> redsocks_client" where
  "socks5_client_init config c =
     c\<lparr>rc_state := socks5_new, pl_do_password := (cfg_login config \<noteq> None \<and> cfg_password config \<noteq> None)\<rparr>"

definition socks5_mkmethods_plain :: "bool \<Rightarrow> mem \<Rightarrow> byte list option" where
  "socks5_mkmethods_plain do_password mem =
     mkevbuffer ([5, 1 + of_bool do_password, 0] @ (if do_password then [2] else [])) mem"

text \<open>\<^verbatim>\<open>req[1]\<close> and \<^verbatim>\<open>req[2+ulen]\<close> hold the lengths modulo 256; the strings are not null where this is called.\<close>

definition socks5_mkpassword_plain :: "byte list \<Rightarrow> byte list \<Rightarrow> mem \<Rightarrow> byte list option" where
  "socks5_mkpassword_plain login password mem =
     mkevbuffer ([1, of_nat (length login)] @ login @ [of_nat (length password)] @ password) mem"

definition socks5_mkcommand_plain :: "byte \<Rightarrow> socks_params \<Rightarrow> mem \<Rightarrow> byte list option" where
  "socks5_mkcommand_plain socks5_cmd P mem = mkevbuffer ([5, socks5_cmd, 0, 1] @ le32 (sin_addr P) @ le16 (sin_port P)) mem"

definition socks5_mkconnect :: "socks_params \<Rightarrow> mem \<Rightarrow> byte list option" where
  "socks5_mkconnect P mem = socks5_mkcommand_plain 1 P mem"

definition socks5_mkpassword :: "socks_params \<Rightarrow> mem \<Rightarrow> byte list option" where
  "socks5_mkpassword P mem = socks5_mkpassword_plain (the (cfg_login P)) (the (cfg_password P)) mem"

definition socks5_write_cb :: "mem \<Rightarrow> callback" where
  "socks5_write_cb mem c =
     (if rc_state c = socks5_new then
        redsocks_write_helper c (Some (socks5_mkmethods_plain (pl_do_password c))) mem socks5_method_sent 2
      else (c, []))"

text \<open>Whether the function returns an error text.\<close>

definition socks5_is_known_auth_method :: "byte \<Rightarrow> byte \<Rightarrow> bool \<Rightarrow> bool" where
  "socks5_is_known_auth_method ver meth do_password =
     (if ver \<noteq> 5 then True
      else if meth = 0xFF then True
      else if meth \<noteq> 0 \<and> \<not> (meth = 2 \<and> do_password) then True
      else False)"

definition socks5_read_auth_methods :: "socks_params \<Rightarrow> mem \<Rightarrow> callback" where
  "socks5_read_auth_methods P mem c =
     (case redsocks_read_expected c sizes_equal 2 of
        Inl r \<Rightarrow> r
      | Inr (c, reply) \<Rightarrow>
          if socks5_is_known_auth_method (reply ! 0) (reply ! 1) (pl_do_password c) then redsocks_drop_client c
          else if reply ! 1 = 0 then redsocks_write_helper c (Some (socks5_mkconnect P)) mem socks5_request_sent 4
          else if reply ! 1 = 2 then redsocks_write_helper c (Some (socks5_mkpassword P)) mem socks5_auth_sent 2
          else (c, []))"

definition socks5_read_auth_reply :: "socks_params \<Rightarrow> mem \<Rightarrow> callback" where
  "socks5_read_auth_reply P mem c =
     (case redsocks_read_expected c sizes_equal 2 of
        Inl r \<Rightarrow> r
      | Inr (c, reply) \<Rightarrow>
          if reply ! 0 \<noteq> 1 then redsocks_drop_client c
          else if reply ! 1 = 0 then redsocks_write_helper c (Some (socks5_mkconnect P)) mem socks5_request_sent 4
          else redsocks_drop_client c)"

definition socks5_read_reply :: "mem \<Rightarrow> callback" where
  "socks5_read_reply mem c =
     (case redsocks_read_expected c sizes_greater_equal 4 of
        Inl r \<Rightarrow> r
      | Inr (c, reply) \<Rightarrow>
          if reply ! 0 \<noteq> 5 then redsocks_drop_client c
          else if reply ! 1 = 0 then
            (if reply ! 3 = 1 then redsocks_write_helper (c\<lparr>pl_to_skip := 6\<rparr>) None mem socks5_skip_address 6
             else if reply ! 3 = 4 then redsocks_write_helper (c\<lparr>pl_to_skip := 18\<rparr>) None mem socks5_skip_address 18
             else if reply ! 3 = 3 then redsocks_write_helper c None mem socks5_skip_domain 1
             else redsocks_drop_client c)
          else redsocks_drop_client c)"

definition socks5_read_cb :: "socks_params \<Rightarrow> mem \<Rightarrow> callback" where
  "socks5_read_cb P mem c =
     (if rc_state c = socks5_method_sent then socks5_read_auth_methods P mem c
      else if rc_state c = socks5_auth_sent then socks5_read_auth_reply P mem c
      else if rc_state c = socks5_request_sent then socks5_read_reply mem c
      else if rc_state c = socks5_skip_domain then
        (case redsocks_read_expected c sizes_greater_equal 1 of
           Inl r \<Rightarrow> r
         | Inr (c, data) \<Rightarrow>
             (let c = c\<lparr>pl_to_skip := unat (data ! 0) + 2\<rparr>
              in redsocks_write_helper c None mem socks5_skip_address (pl_to_skip c)))
      else if rc_state c = socks5_skip_address then
        (case redsocks_read_expected c sizes_greater_equal (pl_to_skip c) of
           Inl r \<Rightarrow> r
         | Inr (c, _) \<Rightarrow> (redsocks_start_relay c, []))
      else redsocks_drop_client c)"

section \<open>SOCKS4\<close>

abbreviation socks4_new :: int where "socks4_new \<equiv> 0"
abbreviation socks4_request_sent :: int where "socks4_request_sent \<equiv> 1"
abbreviation socks4_reply_came :: int where "socks4_reply_came \<equiv> 2"

definition socks4_client_init :: "redsocks_client \<Rightarrow> redsocks_client" where
  "socks4_client_init c = c\<lparr>rc_state := socks4_new\<rparr>"

definition socks4_mkconnect :: "socks_params \<Rightarrow> mem \<Rightarrow> byte list option" where
  "socks4_mkconnect P mem =
     (let username = (case cfg_login P of Some l \<Rightarrow> l | None \<Rightarrow> [])
      in mkevbuffer ([4, 1] @ le16 (sin_port P) @ le32 (sin_addr P) @ username @ [0]) mem)"

definition socks4_read_cb :: "mem \<Rightarrow> callback" where
  "socks4_read_cb mem c =
     (if rc_state c = socks4_request_sent then
        (case redsocks_read_expected c sizes_greater_equal 8 of
           Inl r \<Rightarrow> r
         | Inr (c, reply) \<Rightarrow>
             (let c = c\<lparr>rc_state := socks4_reply_came\<rparr>
              in if reply ! 0 \<noteq> 0 then redsocks_drop_client c
                 else if reply ! 1 = 90 then (redsocks_start_relay c, [])
                 else redsocks_drop_client c))
      else (c, []))"

definition socks4_write_cb :: "socks_params \<Rightarrow> mem \<Rightarrow> callback" where
  "socks4_write_cb P mem c =
     (if rc_state c = socks4_new then redsocks_write_helper c (Some (socks4_mkconnect P)) mem socks4_request_sent 8
      else if rc_state c \<ge> socks4_request_sent then (upd_bev c Relay (\<lambda>b. bufferevent_disable b False True), [])
      else (c, []))"

section \<open>The handshake as a machine\<close>

text \<open>Before the relay starts, the relay has the callbacks of the protocol and the client has none.  The handshake is over when the
  relay has started.\<close>

datatype hs_op = HsReadable side io_result mem | HsWritable side io_result mem

fun hs_step :: "(mem \<Rightarrow> callback) \<Rightarrow> (mem \<Rightarrow> callback) \<Rightarrow> hs_op \<Rightarrow> redsocks_client \<Rightarrow> (redsocks_client \<times> relay_event list) option" where
  "hs_step readcb writecb (HsReadable d res mem) c =
     (if \<not> rc_freed c \<and> rc_state c \<noteq> pump_active \<and> en_read (rc_bev c d)
      then bufferevent_readcb (case d of Relay \<Rightarrow> readcb mem | Client \<Rightarrow> (\<lambda>c. (c, []))) c d res else Some (c, []))"
| "hs_step readcb writecb (HsWritable d res mem) c =
     (if \<not> rc_freed c \<and> rc_state c \<noteq> pump_active \<and> write_pending (rc_bev c d)
      then bufferevent_writecb (case d of Relay \<Rightarrow> writecb mem | Client \<Rightarrow> (\<lambda>c. (c, []))) c d res else Some (c, []))"

section \<open>What the protocols have in common\<close>

text \<open>The effect of a callback that took its message, sends \<open>out\<close> and waits for \<open>n\<close> more bytes.\<close>

definition hs_wait :: "redsocks_client \<Rightarrow> byte list \<Rightarrow> int \<Rightarrow> nat \<Rightarrow> nat \<Rightarrow> redsocks_client" where
  "hs_wait c out st n sk =
     (upd_bev c Relay (\<lambda>b. bufferevent_enable (bufferevent_setwatermark (output_add (b\<lparr>ev_input := []\<rparr>) out) True False n n) True False))
     \<lparr>rc_state := st, pl_to_skip := sk\<rparr>"

definition took_input :: "redsocks_client \<Rightarrow> redsocks_client" where
  "took_input c = upd_bev c Relay (\<lambda>b. b\<lparr>ev_input := []\<rparr>)"

text \<open>No side is shut for writing, nothing is written to the client, and what the client sends is kept.\<close>

definition hs_frame :: "redsocks_client \<Rightarrow> relay_event list \<Rightarrow> redsocks_client \<Rightarrow> bool" where
  "hs_frame c0 h c \<longleftrightarrow>
     (\<forall>d. \<not> shut_wr c d \<and> (shut_rd c d \<longrightarrow> \<not> en_read (rc_bev c d))) \<and> ev_output (rc_bev c Client) = [] \<and> sent Client h = [] \<and>
     ev_input (rc_bev c Client) = ev_input (rc_bev c0 Client) @ got Client h \<and> pl_do_password c = pl_do_password c0"

text \<open>The protocol state \<open>J\<close> relates the bytes that were consumed, the bytes given out to be sent, and what is waited for.\<close>

type_synonym protocol_state = "bool \<Rightarrow> byte list \<Rightarrow> byte list \<Rightarrow> int \<Rightarrow> nat \<Rightarrow> nat \<Rightarrow> bool"

definition hs_waits :: "protocol_state \<Rightarrow> relay_event list \<Rightarrow> redsocks_client \<Rightarrow> bool" where
  "hs_waits J h c \<longleftrightarrow> (\<exists>n g. wm_read (rc_bev c Relay) = (n, n) \<and> length (ev_input (rc_bev c Relay)) < n \<and> got Relay h = g @ ev_input (rc_bev c Relay) \<and>
     J (pl_do_password c) g (sent Relay h @ ev_output (rc_bev c Relay)) (rc_state c) (pl_to_skip c) n)"

definition hs_inv :: "protocol_state \<Rightarrow> (bool \<Rightarrow> byte list \<Rightarrow> byte list \<Rightarrow> bool) \<Rightarrow> redsocks_client \<Rightarrow> relay_event list \<Rightarrow> redsocks_client \<Rightarrow> bool" where
  "hs_inv J complete c0 h c \<longleftrightarrow> rc_freed c \<or> hs_frame c0 h c \<and>
     (if rc_state c = pump_active
      then pump_ok c \<and> ev_input (rc_bev c Relay) = [] \<and> complete (pl_do_password c) (got Relay h) (sent Relay h @ ev_output (rc_bev c Relay))
      else hs_waits J h c)"

text \<open>A client whose connection to the proxy is about to be reported.\<close>

definition hs_fresh :: "redsocks_client \<Rightarrow> bool" where
  "hs_fresh c \<longleftrightarrow> \<not> rc_freed c \<and> rc_state c = 0 \<and> ev_input (rc_bev c Relay) = [] \<and> (\<forall>d. ev_output (rc_bev c d) = [] \<and> \<not> shut_wr c d) \<and>
     \<not> shut_rd c Relay \<and> (shut_rd c Client \<longrightarrow> \<not> en_read (rc_bev c Client))"

definition dropped :: "redsocks_client \<times> relay_event list \<Rightarrow> bool" where
  "dropped r \<longleftrightarrow> rc_freed (fst r) \<and> snd r = [RvDropped]"

lemma watermark_simps [simp]:
  "ev_input (bufferevent_setwatermark b r w l u) = ev_input b" "ev_output (bufferevent_setwatermark b r w l u) = ev_output b"
  "en_read (bufferevent_setwatermark b r w l u) = en_read b" "en_write (bufferevent_setwatermark b r w l u) = en_write b"
  "write_pending (bufferevent_setwatermark b r w l u) = write_pending b"
  "wm_read (bufferevent_setwatermark b r w l u) = (if r then (l, u) else wm_read b)"
  "wm_write (bufferevent_setwatermark b r w l u) = (if w then (l, u) else wm_write b)"
  by (simp_all add: bufferevent_setwatermark_def)

lemma upd_bev_payload [simp]:
  "pl_do_password (upd_bev c d f) = pl_do_password c" "pl_to_skip (upd_bev c d f) = pl_to_skip c"
  by (simp_all add: upd_bev_def)

lemma start_relay_simps [simp]:
  "rc_state (redsocks_start_relay c) = pump_active" "rc_freed (redsocks_start_relay c) = rc_freed c" "shut_rd (redsocks_start_relay c) = shut_rd c"
  "shut_wr (redsocks_start_relay c) = shut_wr c" "pl_do_password (redsocks_start_relay c) = pl_do_password c"
  "ev_input (rc_bev (redsocks_start_relay c) d) = ev_input (rc_bev c d)" "ev_output (rc_bev (redsocks_start_relay c) d) = ev_output (rc_bev c d)"
  "en_read (rc_bev (redsocks_start_relay c) d) = (en_read (rc_bev c d) \<or> \<not> shut_rd c d)"
  by (cases d; simp add: redsocks_start_relay_def redsocks_start_bufferpump_def Let_def)+

lemma hs_wait_simps [simp]:
  "rc_state (hs_wait c out st n sk) = st" "rc_freed (hs_wait c out st n sk) = rc_freed c" "shut_rd (hs_wait c out st n sk) = shut_rd c"
  "shut_wr (hs_wait c out st n sk) = shut_wr c" "pl_do_password (hs_wait c out st n sk) = pl_do_password c"
  "pl_to_skip (hs_wait c out st n sk) = sk" "rc_bev (hs_wait c out st n sk) Client = rc_bev c Client"
  "ev_input (rc_bev (hs_wait c out st n sk) Relay) = []" "ev_output (rc_bev (hs_wait c out st n sk) Relay) = ev_output (rc_bev c Relay) @ out"
  "en_read (rc_bev (hs_wait c out st n sk) Relay)" "wm_read (rc_bev (hs_wait c out st n sk) Relay) = (n, n)"
  by (simp_all add: hs_wait_def)

lemma took_input_simps [simp]:
  "rc_state (took_input c) = rc_state c" "rc_freed (took_input c) = rc_freed c" "shut_rd (took_input c) = shut_rd c"
  "shut_wr (took_input c) = shut_wr c" "pl_do_password (took_input c) = pl_do_password c" "pl_to_skip (took_input c) = pl_to_skip c"
  "rc_bev (took_input c) Client = rc_bev c Client" "ev_input (rc_bev (took_input c) Relay) = []"
  "ev_output (rc_bev (took_input c) Relay) = ev_output (rc_bev c Relay)" "en_read (rc_bev (took_input c) Relay) = en_read (rc_bev c Relay)"
  by (simp_all add: took_input_def)

lemma start_pump_ok:
  assumes "\<forall>d. \<not> shut_wr c d \<and> (shut_rd c d \<longrightarrow> \<not> en_read (rc_bev c d))"
  shows "pump_ok (redsocks_start_relay c)"
  using assms
  by (simp add: redsocks_start_relay_def redsocks_start_bufferpump_def Let_def pump_ok_def side_ok_def shut_both_def both_sides)

text \<open>Before the relay runs, an end of file only closes the reading side.\<close>

lemma hs_eof:
  assumes "\<forall>d. \<not> shut_wr c d" "rc_state c \<noteq> pump_active" "\<not> rc_freed c"
  shows "redsocks_event_error c d True =
    Some ((upd_bev c d (\<lambda>b. bufferevent_disable b True False))\<lparr>shut_rd := (shut_rd c)(d := True)\<rparr>, [RvShutdown d SHUT_RD])"
proof -
  have "(upd_bev c d (\<lambda>b. bufferevent_disable b True False))\<lparr>shut_rd := (shut_rd c)(d := True), shut_wr := (shut_wr c)(d := False)\<rparr> =
      (upd_bev c d (\<lambda>b. bufferevent_disable b True False))\<lparr>shut_rd := (shut_rd c)(d := True)\<rparr>"
    using assms(1) by (simp add: upd_bev_def fun_upd_idem)
  then show ?thesis using assms by (simp add: redsocks_event_error_def redsocks_shutdown_def Let_def shut_both_def)
qed

locale relay_subsys =
  fixes readcb writecb :: "mem \<Rightarrow> callback" and J :: protocol_state and complete :: "bool \<Rightarrow> byte list \<Rightarrow> byte list \<Rightarrow> bool"
  assumes read_law: "J (pl_do_password c) g q (rc_state c) (pl_to_skip c) n \<Longrightarrow> length (ev_input (rc_bev c Relay)) = n \<Longrightarrow>
      dropped (readcb mem c) \<or>
      (\<exists>out st n' sk. readcb mem c = (hs_wait c out st n' sk, []) \<and> st \<noteq> pump_active \<and> 0 < n' \<and>
        J (pl_do_password c) (g @ ev_input (rc_bev c Relay)) (q @ out) st sk n') \<or>
      (readcb mem c = (redsocks_start_relay (took_input c), []) \<and> complete (pl_do_password c) (g @ ev_input (rc_bev c Relay)) q)"
    and write_law: "J (pl_do_password c) g q (rc_state c) (pl_to_skip c) n \<Longrightarrow>
      writecb mem c = (c, []) \<or> writecb mem c = (upd_bev c Relay (\<lambda>b. bufferevent_disable b False True), [])"
    and start_law: "rc_state c = 0 \<Longrightarrow> ev_input (rc_bev c Relay) = [] \<Longrightarrow>
      dropped (writecb mem c) \<or>
      (\<exists>out st n sk. writecb mem c = (hs_wait c out st n sk, []) \<and> st \<noteq> pump_active \<and> 0 < n \<and> J (pl_do_password c) [] out st sk n)"
begin

lemma connected_inv:
  assumes "hs_fresh c" "redsocks_relay_connected writecb c ok mem = (c', h)"
  shows "hs_inv J complete c h c'"
proof -
  have "dropped (writecb mem c) \<or>
      (\<exists>out st n sk. writecb mem c = (hs_wait c out st n sk, []) \<and> st \<noteq> pump_active \<and> 0 < n \<and> J (pl_do_password c) [] out st sk n)"
    using assms(1) by (intro start_law) (auto simp: hs_fresh_def)
  then consider "rc_freed c'" | out st n sk where "c' = hs_wait c out st n sk" "h = []" "st \<noteq> pump_active" "0 < n" "J (pl_do_password c) [] out st sk n"
    using assms(2) by (auto simp: redsocks_relay_connected_def redsocks_drop_client_def dropped_def split: if_splits)
  then show ?thesis
  proof cases
    case 2
    then show ?thesis using assms(1) by (auto simp: hs_inv_def hs_frame_def hs_waits_def hs_fresh_def both_sides)
  qed (simp add: hs_inv_def)
qed

end

context relay_subsys
begin

lemma relay_read_inv:
  assumes "hs_frame c0 h c" "hs_waits J h c" "\<not> rc_freed c" "rc_state c \<noteq> pump_active" "en_read (rc_bev c Relay)"
    and "bufferevent_readcb (readcb mem) c Relay (IoData data) = Some (c', ev)"
  shows "hs_inv J complete c0 (h @ ev) c'"
proof -
  obtain n g where w: "wm_read (rc_bev c Relay) = (n, n)" "length (ev_input (rc_bev c Relay)) < n" "got Relay h = g @ ev_input (rc_bev c Relay)"
    "J (pl_do_password c) g (sent Relay h @ ev_output (rc_bev c Relay)) (rc_state c) (pl_to_skip c) n"
    using assms(2) unfolding hs_waits_def by blast
  define x where "x = take (n - length (ev_input (rc_bev c Relay))) data"
  define c1 where "c1 = upd_bev c Relay (\<lambda>b. b\<lparr>ev_input := ev_input b @ x\<rparr>)"
  have c1: "rc_state c1 = rc_state c" "rc_freed c1 = rc_freed c" "shut_rd c1 = shut_rd c" "shut_wr c1 = shut_wr c" "pl_do_password c1 = pl_do_password c"
    "pl_to_skip c1 = pl_to_skip c" "rc_bev c1 Client = rc_bev c Client" "ev_input (rc_bev c1 Relay) = ev_input (rc_bev c Relay) @ x"
    "ev_output (rc_bev c1 Relay) = ev_output (rc_bev c Relay)" "en_read (rc_bev c1 Relay) = en_read (rc_bev c Relay)"
    "wm_read (rc_bev c1 Relay) = wm_read (rc_bev c Relay)"
    by (simp_all add: c1_def)
  have ns: "\<not> read_suspended (rc_bev c Relay)" using w(1,2) by (simp add: read_suspended_def)
  have rd: "bufferevent_readcb (readcb mem) c Relay (IoData data) =
      (if x = [] then Some (c1, []) else if length (ev_input (rc_bev c1 Relay)) \<ge> n
       then (case readcb mem c1 of (c, ev) \<Rightarrow> Some (c, RvRead Relay x # ev)) else Some (c1, [RvRead Relay x]))"
    using ns w(1,2) by (simp add: bufferevent_readcb_def Let_def x_def c1_def)
  have len: "length (ev_input (rc_bev c1 Relay)) \<le> n" using w(2) by (auto simp: c1 x_def)
  have f1: "hs_frame c0 (h @ [RvRead Relay x]) c1" using assms(1) by (simp add: hs_frame_def both_sides c1)
  have g1: "got Relay (h @ [RvRead Relay x]) = g @ ev_input (rc_bev c1 Relay)" by (simp add: w(3) c1)
  show ?thesis
  proof (cases "x = [] \<or> length (ev_input (rc_bev c1 Relay)) < n")
    case True
    then have "c' = c1 \<and> (x = [] \<and> ev = [] \<or> ev = [RvRead Relay x])" using assms(6) unfolding rd by (auto split: if_splits)
    moreover have "hs_waits J (h @ [RvRead Relay x]) c1"
      unfolding hs_waits_def using w True g1 by (intro exI [of _ n] exI [of _ g]) (auto simp: c1)
    moreover have "hs_waits J h c1" "hs_frame c0 h c1" if "x = []" using that assms(1,2) by (simp_all add: hs_waits_def hs_frame_def both_sides c1)
    ultimately show ?thesis using f1 assms(4) by (auto simp: hs_inv_def c1)
  next
    case False
    then have full: "length (ev_input (rc_bev c1 Relay)) = n" "x \<noteq> []" using len by auto
    obtain ev' where r: "readcb mem c1 = (c', ev')" "ev = RvRead Relay x # ev'"
      using assms(6) False unfolding rd by (auto split: if_splits prod.splits)
    have j: "J (pl_do_password c1) g (sent Relay h @ ev_output (rc_bev c Relay)) (rc_state c1) (pl_to_skip c1) n" using w(4) by (simp add: c1)
    have p: "pump_ok (redsocks_start_relay (took_input c1))"
      using f1 by (intro start_pump_ok) (simp add: hs_frame_def both_sides)
    from read_law [OF j full(1), of mem] show ?thesis
      using p f1 g1 assms(3,5) by (auto simp: r hs_inv_def hs_frame_def hs_waits_def both_sides dropped_def c1)
  qed
qed

lemma inv_cong:
  assumes "hs_inv J complete c0 h c" "rc_state c \<noteq> pump_active" "rc_state c' = rc_state c" "rc_freed c' = rc_freed c" "pl_do_password c' = pl_do_password c" "pl_to_skip c' = pl_to_skip c"
    "shut_wr c' = shut_wr c" "\<forall>d. shut_rd c' d \<longrightarrow> \<not> en_read (rc_bev c' d)"
    "\<forall>d. ev_input (rc_bev c' d) = ev_input (rc_bev c d)" "ev_output (rc_bev c' Client) = ev_output (rc_bev c Client)" "wm_read (rc_bev c' Relay) = wm_read (rc_bev c Relay)"
    "got Client ev = []" "got Relay ev = []" "sent Client ev = []" "sent Relay ev @ ev_output (rc_bev c' Relay) = ev_output (rc_bev c Relay)"
  shows "hs_inv J complete c0 (h @ ev) c'"
proof (cases "rc_freed c")
  case False
  then have f: "hs_frame c0 (h @ ev) c'" using assms unfolding hs_inv_def hs_frame_def by simp
  have i: "ev_input (rc_bev c' Relay) = ev_input (rc_bev c Relay)" using assms(9) by blast
  have "hs_waits J (h @ ev) c' = hs_waits J h c" unfolding hs_waits_def by (simp add: i assms)
  with f False assms(1) show ?thesis unfolding hs_inv_def by (simp add: i assms)
qed (use assms(4) in \<open>simp add: hs_inv_def\<close>)

lemma client_read_inv:
  assumes "hs_frame c0 h c" "hs_waits J h c" "rc_state c \<noteq> pump_active"
    and "bufferevent_readcb (\<lambda>c. (c, [])) c Client (IoData data) = Some (c', ev)"
  shows "hs_inv J complete c0 (h @ ev) c'"
proof -
  obtain x where x: "c' = upd_bev c Client (\<lambda>b. b\<lparr>ev_input := ev_input b @ x\<rparr>)" "ev = [RvRead Client x] \<or> ev = [] \<and> x = [] \<or> c' = c \<and> ev = []"
    using assms(4) that [of "[]"] unfolding bufferevent_readcb_def Let_def by (auto split: if_splits simp: upd_bev_def)
  then consider "c' = c" "ev = []" | "ev = [RvRead Client x] \<or> ev = [] \<and> x = []" by blast
  then show ?thesis
  proof cases
    case 2
    have "hs_frame c0 (h @ ev) c'" using assms(1) 2 by (auto simp: hs_frame_def both_sides x(1))
    moreover have "hs_waits J (h @ ev) c' = hs_waits J h c" unfolding hs_waits_def using 2 by (auto simp: x(1))
    ultimately show ?thesis using assms(2,3) by (simp add: hs_inv_def x(1))
  qed (use assms in \<open>simp add: hs_inv_def\<close>)
qed

lemma error_inv: "redsocks_event_error c d False = Some (c', ev) \<Longrightarrow> hs_inv J complete c0 (h @ ev) c'"
  by (auto simp: redsocks_event_error_def redsocks_drop_client_def hs_inv_def)

lemma eof_inv:
  assumes "hs_inv J complete c0 h c" "rc_state c \<noteq> pump_active" "\<not> rc_freed c"
    and "redsocks_event_error (upd_bev c d (\<lambda>b. bufferevent_disable b True False)) d True = Some (c', ev)"
  shows "hs_inv J complete c0 (h @ ev) c'"
proof -
  have wr: "\<forall>d. \<not> shut_wr c d" using assms(1,3) by (auto simp: hs_inv_def hs_frame_def)
  have rd: "shut_rd c d \<longrightarrow> \<not> en_read (rc_bev c d)" for d using assms(1,3) by (auto simp: hs_inv_def hs_frame_def)
  show ?thesis
    using hs_eof [of "upd_bev c d (\<lambda>b. bufferevent_disable b True False)" d] wr assms(2-4) rd
    by (intro inv_cong [OF assms(1)]) auto
qed

end

context relay_subsys
begin

lemma write_inv:
  assumes "hs_inv J complete c0 h c" "\<not> rc_freed c" "d = Client \<longrightarrow> ev_output (rc_bev c Client) = []" and pre: "rc_state c \<noteq> pump_active"
    and cb: "\<And>c1. rc_state c1 = rc_state c \<Longrightarrow> pl_do_password c1 = pl_do_password c \<Longrightarrow> pl_to_skip c1 = pl_to_skip c \<Longrightarrow>
      cb c1 = (c1, []) \<or> cb c1 = (upd_bev c1 Relay (\<lambda>b. bufferevent_disable b False True), [])"
    and "bufferevent_writecb cb c d res = Some (c', ev)"
  shows "hs_inv J complete c0 (h @ ev) c'"
proof -
  let ?err = "redsocks_event_error (upd_bev c d (\<lambda>b. bufferevent_disable b False True)) d False"
  have rd: "shut_rd c d \<longrightarrow> \<not> en_read (rc_bev c d)" for d using assms(1,2) by (auto simp: hs_inv_def hs_frame_def)
  define fin where "fin = (\<lambda>c ev. let c = (if ev_output (rc_bev c d) = [] then upd_bev c d (\<lambda>b. b\<lparr>write_pending := False\<rparr>) else c)
      in if length (ev_output (rc_bev c d)) \<le> fst (wm_write (rc_bev c d)) then (case cb c of (c, ev') \<Rightarrow> Some (c, ev @ ev')) else Some (c, ev))"
  have fin: "hs_inv J complete c0 (h @ ev) c'"
    if "fin (upd_bev c d (\<lambda>b. b\<lparr>ev_output := drop k (ev_output b)\<rparr>)) ev1 = Some (c', ev)" "got Client ev1 = []" "got Relay ev1 = []" "sent Client ev1 = []"
      "d = Relay \<longrightarrow> sent Relay ev1 = take k (ev_output (rc_bev c Relay))" "d = Client \<longrightarrow> ev1 = []" for k ev1
  proof -
    define c1 where "c1 = upd_bev c d (\<lambda>b. b\<lparr>ev_output := drop k (ev_output b)\<rparr>)"
    define c2 where "c2 = (if ev_output (rc_bev c1 d) = [] then upd_bev c1 d (\<lambda>b. b\<lparr>write_pending := False\<rparr>) else c1)"
    have c2: "rc_state c2 = rc_state c" "rc_freed c2 = rc_freed c" "pl_do_password c2 = pl_do_password c" "pl_to_skip c2 = pl_to_skip c"
      "shut_wr c2 = shut_wr c" "shut_rd c2 = shut_rd c" "\<And>d. en_read (rc_bev c2 d) = en_read (rc_bev c d)" "\<And>d. ev_input (rc_bev c2 d) = ev_input (rc_bev c d)"
      "\<And>d. wm_read (rc_bev c2 d) = wm_read (rc_bev c d)" "ev_output (rc_bev c2 e) = (if e = d then drop k (ev_output (rc_bev c d)) else ev_output (rc_bev c e))" for e
      by (simp_all add: c2_def c1_def)
    have "ev = ev1 \<and> (c' = c2 \<or> c' = upd_bev c2 Relay (\<lambda>b. bufferevent_disable b False True))"
      using that(1) cb [OF c2(1,3,4)] unfolding fin_def c1_def [symmetric] Let_def c2_def [symmetric] by (auto split: if_splits)
    then have e: "ev = ev1" and c': "c' = c2 \<or> c' = upd_bev c2 Relay (\<lambda>b. bufferevent_disable b False True)" by simp_all
    have f: "rc_state c' = rc_state c" "rc_freed c' = rc_freed c" "pl_do_password c' = pl_do_password c" "pl_to_skip c' = pl_to_skip c"
      "shut_wr c' = shut_wr c" "shut_rd c' = shut_rd c" "\<And>d. en_read (rc_bev c' d) = en_read (rc_bev c d)" "\<And>d. ev_input (rc_bev c' d) = ev_input (rc_bev c d)"
      "\<And>d. wm_read (rc_bev c' d) = wm_read (rc_bev c d)" "\<And>e. ev_output (rc_bev c' e) = ev_output (rc_bev c2 e)"
      using c' by (elim disjE; simp add: c2)+
    have "ev_output (rc_bev c' Client) = ev_output (rc_bev c Client)" "sent Relay ev @ ev_output (rc_bev c' Relay) = ev_output (rc_bev c Relay)"
      using that(5,6) assms(3) by (cases d; simp add: f c2 e)+
    then show ?thesis by (intro inv_cong [OF assms(1)]) (simp_all add: f e that(2-4) rd pre)
  qed
  have w: "bufferevent_writecb cb c d res =
      (if ev_output (rc_bev c d) = [] then fin c []
       else case res of
         IoData data \<Rightarrow> (if data = [] then ?err
           else fin (upd_bev c d (\<lambda>b. b\<lparr>ev_output := drop (length data) (ev_output b)\<rparr>)) [RvWrote d (take (length data) (ev_output (rc_bev c d)))])
       | IoAgain \<Rightarrow> Some (c, []) | _ \<Rightarrow> ?err)"
    unfolding bufferevent_writecb_def fin_def Let_def by simp
  have same: "upd_bev c d (\<lambda>b. b\<lparr>ev_output := drop 0 (ev_output b)\<rparr>) = c" by (simp add: upd_bev_def)
  show ?thesis
  proof (cases "ev_output (rc_bev c d) = []")
    case True
    then show ?thesis using assms(6) fin [of 0 "[]"] unfolding w same by simp
  next
    case False
    then have d: "d = Relay" using assms(3) by (cases d) auto
    show ?thesis
    proof (cases res)
      case (IoData data)
      then show ?thesis
        using assms(6) False fin [of "length data" "[RvWrote d (take (length data) (ev_output (rc_bev c d)))]"] error_inv
        unfolding w by (auto simp: d split: if_splits)
    qed (use assms(1) assms(6) [unfolded w] False error_inv in auto)
  qed
qed

lemma step_inv:
  assumes "hs_inv J complete c0 h c" "hs_step readcb writecb x c = Some (c', ev)"
  shows "hs_inv J complete c0 (h @ ev) c'"
proof (cases "rc_freed c \<or> rc_state c = pump_active")
  case True
  then have "c' = c \<and> ev = []" using assms(2) by (cases x) auto
  then show ?thesis using assms(1) by simp
next
  case False
  then have i: "hs_frame c0 h c" "hs_waits J h c" using assms(1) by (auto simp: hs_inv_def)
  from i(2) obtain g q n where j: "J (pl_do_password c) g q (rc_state c) (pl_to_skip c) n" unfolding hs_waits_def by blast
  have same: ?thesis if "c' = c \<and> ev = []" using that assms(1) by simp
  show ?thesis
  proof (cases x)
    case (HsReadable d res mem)
    then show ?thesis
    proof (cases "en_read (rc_bev c d) \<and> \<not> read_suspended (rc_bev c d)")
      case True
      show ?thesis
      proof (cases res)
        case (IoData data)
        then show ?thesis
          using assms(2) HsReadable False True relay_read_inv [OF i, of mem data c' ev] client_read_inv [OF i, of data c' ev]
          by (cases d) auto
      next
        case IoEof
        then show ?thesis using assms(2) HsReadable False True eof_inv [OF assms(1), of d c' ev] by (auto simp: bufferevent_readcb_def)
      next
        case IoError
        then show ?thesis using assms(2) HsReadable False True error_inv by (auto simp: bufferevent_readcb_def)
      next
        case IoAgain
        then show ?thesis using assms(2) HsReadable False True same by (auto simp: bufferevent_readcb_def)
      qed
    qed (use assms(2) same HsReadable in \<open>auto simp: bufferevent_readcb_def Let_def split: if_splits\<close>)
  next
    case (HsWritable d res mem)
    have o: "ev_output (rc_bev c Client) = []" using i(1) by (simp add: hs_frame_def)
    have "writecb mem c1 = (c1, []) \<or> writecb mem c1 = (upd_bev c1 Relay (\<lambda>b. bufferevent_disable b False True), [])"
      if "rc_state c1 = rc_state c" "pl_do_password c1 = pl_do_password c" "pl_to_skip c1 = pl_to_skip c" for c1
      by (rule write_law [of _ g q n]) (simp add: that j)
    then show ?thesis
      using assms(2) same HsWritable False o write_inv [OF assms(1), of Relay "writecb mem" res c' ev] write_inv [OF assms(1), of Client "\<lambda>c. (c, [])" res c' ev]
      by (cases d) (auto split: if_splits)
  qed
qed

lemma step_total:
  assumes "hs_inv J complete c0 h c"
  shows "\<exists>c' ev. hs_step readcb writecb x c = Some (c', ev)"
proof (cases "rc_freed c \<or> rc_state c = pump_active")
  case False
  then have wr: "\<forall>d. \<not> shut_wr c d" using assms by (auto simp: hs_inv_def hs_frame_def)
  show ?thesis
  proof (cases x)
    case (HsReadable d res mem)
    with wr False hs_eof [of "upd_bev c d (\<lambda>b. bufferevent_disable b True False)" d] show ?thesis
      by (cases res) (auto simp: bufferevent_readcb_def Let_def redsocks_event_error_def [of _ _ False] split: prod.splits)
  next
    case (HsWritable d res mem)
    then show ?thesis by (cases res) (auto simp: bufferevent_writecb_def Let_def redsocks_event_error_def split: prod.splits)
  qed
qed (cases x; auto)

end

sublocale relay_subsys \<subseteq> hs_history: history_invariant "hs_inv J complete c0" "\<lambda>_. True" "hs_step readcb writecb" for c0
  by unfold_locales (rule step_inv)

context relay_subsys
begin

text \<open>From the connection on, every run ends regularly and the invariant holds.\<close>

lemma run_total:
  assumes "hs_inv J complete c0 h c"
  shows "\<exists>c' h'. run_ops (hs_step readcb writecb) ops c = Some (c', h') \<and> hs_inv J complete c0 (h @ h') c'"
proof -
  have "\<exists>c' h'. run_ops (hs_step readcb writecb) ops c = Some (c', h')"
    using assms
  proof (induction ops arbitrary: h c)
    case (Cons x ops)
    from step_total [OF Cons.prems, of x] obtain c2 e2 where s: "hs_step readcb writecb x c = Some (c2, e2)" by blast
    with Cons.IH [OF step_inv [OF Cons.prems s]] show ?case by auto
  qed simp
  then obtain c' h' where r: "run_ops (hs_step readcb writecb) ops c = Some (c', h')" by blast
  have "list_all (\<lambda>_. True) ops" by (simp add: list_all_iff)
  from hs_history.run_history [OF assms this r] r show ?thesis by blast
qed

lemma run_inv:
  assumes "hs_fresh c" "redsocks_relay_connected writecb c ok mem = (c1, h1)"
  shows "\<exists>c' h. run_ops (hs_step readcb writecb) ops c1 = Some (c', h) \<and> hs_inv J complete c (h1 @ h) c'"
  by (rule run_total [OF connected_inv [OF assms]])

end

section \<open>Progress of a handshake\<close>

text \<open>Events other than data or an end from the proxy, with no socket reporting an error.\<close>

fun op_other :: "hs_op \<Rightarrow> bool" where
  "op_other (HsReadable d res mem) \<longleftrightarrow> d = Client \<and> res \<noteq> IoError"
| "op_other (HsWritable d res mem) \<longleftrightarrow> (case res of IoData data \<Rightarrow> data \<noteq> [] | IoAgain \<Rightarrow> True | _ \<Rightarrow> False)"

text \<open>Such events leave the protocol and the input from the proxy alone, and the client is neither dropped nor told that the connection ended.\<close>

definition hs_same :: "redsocks_client \<Rightarrow> redsocks_client \<Rightarrow> relay_event list \<Rightarrow> bool" where
  "hs_same c c' ev \<longleftrightarrow> rc_freed c' = rc_freed c \<and> rc_state c' = rc_state c \<and> pl_do_password c' = pl_do_password c \<and> pl_to_skip c' = pl_to_skip c \<and>
     shut_rd c' Relay = shut_rd c Relay \<and> ev_input (rc_bev c' Relay) = ev_input (rc_bev c Relay) \<and> en_read (rc_bev c' Relay) = en_read (rc_bev c Relay) \<and>
     wm_read (rc_bev c' Relay) = wm_read (rc_bev c Relay) \<and> RvDropped \<notin> set ev \<and> RvShutdown Client SHUT_WR \<notin> set ev \<and> got Relay ev = []"

lemma hs_same_refl: "hs_same c c []"
  by (simp add: hs_same_def)

text \<open>A socket on which the proxy sent \<open>s\<close>: each \<open>Feed\<close> offers some of it, and what was not read stays.\<close>

datatype feed_op = Feed nat | Other hs_op

fun feed :: "(mem \<Rightarrow> callback) \<Rightarrow> (mem \<Rightarrow> callback) \<Rightarrow> feed_op list \<Rightarrow> byte list \<Rightarrow> redsocks_client \<Rightarrow> redsocks_client option" where
  "feed readcb writecb [] s c = Some c"
| "feed readcb writecb (Feed k # xs) s c =
     (case hs_step readcb writecb (HsReadable Relay (IoData (take (Suc k) s)) (True, True)) c of
        None \<Rightarrow> None
      | Some (c, ev) \<Rightarrow> feed readcb writecb xs (drop (length (got Relay ev)) s) c)"
| "feed readcb writecb (Other x # xs) s c =
     (case hs_step readcb writecb x c of
        None \<Rightarrow> None
      | Some (c, _) \<Rightarrow> feed readcb writecb xs s c)"

fun feeds :: "feed_op list \<Rightarrow> nat" where
  "feeds [] = 0"
| "feeds (Feed k # xs) = Suc (feeds xs)"
| "feeds (Other x # xs) = feeds xs"

fun feed_ok :: "feed_op \<Rightarrow> bool" where
  "feed_ok (Feed k) = True"
| "feed_ok (Other x) = op_other x"

context relay_subsys
begin

lemma other_same:
  assumes "hs_inv J complete c0 h c" "\<not> rc_freed c" "rc_state c \<noteq> pump_active" "op_other x" "hs_step readcb writecb x c = Some (c', ev)"
  shows "hs_same c c' ev"
proof (cases x)
  case (HsReadable d res mem)
  have wr: "\<forall>d. \<not> shut_wr c d" using assms(1,2) by (auto simp: hs_inv_def hs_frame_def)
  have d: "d = Client" "res \<noteq> IoError" using assms(4) HsReadable by auto
  show ?thesis
  proof (cases "en_read (rc_bev c Client) \<and> \<not> read_suspended (rc_bev c Client)")
    case True
    show ?thesis
    proof (cases res)
      case (IoData data)
      then show ?thesis using assms(5) HsReadable d True by (auto simp: bufferevent_readcb_def Let_def hs_same_def split: if_splits)
    next
      case IoEof
      then show ?thesis
        using assms(2,3,5) HsReadable d True wr hs_eof [of "upd_bev c Client (\<lambda>b. bufferevent_disable b True False)" Client]
        by (auto simp: bufferevent_readcb_def hs_same_def)
    qed (use assms(5) HsReadable d True hs_same_refl in \<open>auto simp: bufferevent_readcb_def split: if_splits\<close>)
  qed (use assms(5) HsReadable d hs_same_refl in \<open>auto simp: bufferevent_readcb_def Let_def split: if_splits\<close>)
next
  case (HsWritable d res mem)
  from assms(1-3) have "hs_waits J h c" by (simp add: hs_inv_def)
  then obtain g q n where j: "J (pl_do_password c) g q (rc_state c) (pl_to_skip c) n" unfolding hs_waits_def by blast
  have cb: "hs_same c c2 (evs @ e2)" if "hs_same c c1 evs" "(case d of Relay \<Rightarrow> writecb mem | Client \<Rightarrow> \<lambda>c. (c, [])) c1 = (c2, e2)" for c1 c2 evs e2
  proof -
    have "J (pl_do_password c1) g q (rc_state c1) (pl_to_skip c1) n" using j that(1) by (simp add: hs_same_def)
    from write_law [OF this, of mem] that show ?thesis by (cases d) (auto simp: hs_same_def)
  qed
  have s: "hs_same c (upd_bev c d (\<lambda>b. b\<lparr>write_pending := False\<rparr>)) []"
    "hs_same c (upd_bev c d (\<lambda>b. b\<lparr>ev_output := drop k (ev_output b)\<rparr>)) [RvWrote d y]"
    "hs_same c (upd_bev (upd_bev c d (\<lambda>b. b\<lparr>ev_output := drop k (ev_output b)\<rparr>)) d (\<lambda>b. b\<lparr>write_pending := False\<rparr>)) [RvWrote d y]" for k y
    by (simp_all add: hs_same_def)
  show ?thesis
    using assms(4,5) HsWritable hs_same_refl s(2) cb [OF s(1)] cb [OF s(2)] cb [OF s(3)]
    by (auto simp: bufferevent_writecb_def Let_def split: if_splits io_result.splits prod.splits)
qed

lemma eof_hangs:
  assumes "hs_inv J complete c0 h0 c" "\<not> rc_freed c" "rc_state c \<noteq> pump_active" "shut_rd c Relay"
    and "list_all (\<lambda>x. op_other x \<or> (\<exists>res mem. x = HsReadable Relay res mem)) xs" "run_ops (hs_step readcb writecb) xs c = Some (c', h)"
  shows "\<not> rc_freed c' \<and> rc_state c' = rc_state c \<and> RvDropped \<notin> set h \<and> RvShutdown Client SHUT_WR \<notin> set h"
  using assms
proof (induction xs arbitrary: c h0 h)
  case (Cons x xs)
  from Cons.prems(6) obtain c1 e1 e2 where s: "hs_step readcb writecb x c = Some (c1, e1)" "run_ops (hs_step readcb writecb) xs c1 = Some (c', e2)" "h = e1 @ e2"
    by (auto split: option.splits prod.splits)
  have "\<not> en_read (rc_bev c Relay)" using Cons.prems(1,2,4) by (auto simp: hs_inv_def hs_frame_def)
  then have "hs_same c c1 e1"
    using Cons.prems(5) s(1) other_same [OF Cons.prems(1-3) _ s(1)] hs_same_refl by auto
  then show ?case
    using Cons.IH [OF step_inv [OF Cons.prems(1) s(1)] _ _ _ _ s(2)] Cons.prems(2-5) s(3) by (auto simp: hs_same_def)
qed simp

lemma relay_eof:
  assumes "hs_inv J complete c0 h0 c" "\<not> rc_freed c" "rc_state c \<noteq> pump_active" "en_read (rc_bev c Relay)"
    and "list_all (\<lambda>x. op_other x \<or> (\<exists>res mem. x = HsReadable Relay res mem)) xs"
  shows "\<exists>c' h. run_ops (hs_step readcb writecb) (HsReadable Relay IoEof mem # xs) c = Some (c', h) \<and>
    \<not> rc_freed c' \<and> rc_state c' = rc_state c \<and> RvDropped \<notin> set h \<and> RvShutdown Client SHUT_WR \<notin> set h"
proof -
  have wr: "\<forall>d. \<not> shut_wr c d" and w: "hs_waits J h0 c" using assms(1-3) by (auto simp: hs_inv_def hs_frame_def)
  then have "\<not> read_suspended (rc_bev c Relay)" by (auto simp: hs_waits_def read_suspended_def)
  then obtain c1 where s: "hs_step readcb writecb (HsReadable Relay IoEof mem) c = Some (c1, [RvShutdown Relay SHUT_RD])"
    and c1: "\<not> rc_freed c1" "rc_state c1 = rc_state c" "shut_rd c1 Relay"
    using assms(2-4) wr hs_eof [of "upd_bev c Relay (\<lambda>b. bufferevent_disable b True False)" Relay] by (auto simp: bufferevent_readcb_def)
  have i: "hs_inv J complete c0 (h0 @ [RvShutdown Relay SHUT_RD]) c1" by (rule step_inv [OF assms(1) s])
  from run_total [OF i] obtain c' h where r: "run_ops (hs_step readcb writecb) xs c1 = Some (c', h)" by blast
  from eof_hangs [OF i _ _ _ assms(5) r] c1 assms(3) s r show ?thesis by auto
qed

end

text \<open>\<open>rest\<close> says what a server that grants the request still has to send in a state, the bytes that wait in the input included.\<close>

locale relay_server = relay_subsys +
  fixes rest :: "bool \<Rightarrow> int \<Rightarrow> nat \<Rightarrow> byte list \<Rightarrow> bool"
  assumes enough: "J dp g q st sk n \<Longrightarrow> rest dp st sk s \<Longrightarrow> n \<le> length s"
    and answers: "J (pl_do_password c) g q (rc_state c) (pl_to_skip c) n \<Longrightarrow> length (ev_input (rc_bev c Relay)) = n \<Longrightarrow>
      rest (pl_do_password c) (rc_state c) (pl_to_skip c) (ev_input (rc_bev c Relay) @ s) \<Longrightarrow>
      (\<exists>out st n' sk. readcb (True, True) c = (hs_wait c out st n' sk, []) \<and> st \<noteq> pump_active \<and> rest (pl_do_password c) st sk s) \<or>
      (readcb (True, True) c = (redsocks_start_relay (took_input c), []) \<and> s = [])"
begin

definition feeding :: "byte list \<Rightarrow> redsocks_client \<Rightarrow> bool" where
  "feeding s c \<longleftrightarrow> \<not> rc_freed c \<and>
     (if rc_state c = pump_active then s = []
      else en_read (rc_bev c Relay) \<and> rest (pl_do_password c) (rc_state c) (pl_to_skip c) (ev_input (rc_bev c Relay) @ s))"

lemma feed_step:
  assumes "hs_inv J complete c0 h c" "feeding s c" "rc_state c \<noteq> pump_active"
    and "hs_step readcb writecb (HsReadable Relay (IoData (take (Suc k) s)) (True, True)) c = Some (c', ev)"
  shows "feeding (drop (length (got Relay ev)) s) c' \<and> length (drop (length (got Relay ev)) s) < length s"
proof -
  from assms(1-3) have "hs_waits J h c" by (simp add: hs_inv_def feeding_def)
  then obtain n g where w: "wm_read (rc_bev c Relay) = (n, n)" "length (ev_input (rc_bev c Relay)) < n"
    "J (pl_do_password c) g (sent Relay h @ ev_output (rc_bev c Relay)) (rc_state c) (pl_to_skip c) n"
    unfolding hs_waits_def by blast
  have r: "rest (pl_do_password c) (rc_state c) (pl_to_skip c) (ev_input (rc_bev c Relay) @ s)" "en_read (rc_bev c Relay)" "\<not> rc_freed c"
    using assms(2,3) by (auto simp: feeding_def)
  have ne: "s \<noteq> []" using enough [OF w(3) r(1)] w(2) by auto
  define x where "x = take (n - length (ev_input (rc_bev c Relay))) (take (Suc k) s)"
  have x: "x \<noteq> []" "x @ drop (length x) s = s" using ne w(2) by (auto simp: x_def min_def)
  define c1 where "c1 = upd_bev c Relay (\<lambda>b. b\<lparr>ev_input := ev_input b @ x\<rparr>)"
  have c1: "rc_state c1 = rc_state c" "rc_freed c1 = rc_freed c" "pl_do_password c1 = pl_do_password c" "pl_to_skip c1 = pl_to_skip c"
    "ev_input (rc_bev c1 Relay) = ev_input (rc_bev c Relay) @ x" "en_read (rc_bev c1 Relay) = en_read (rc_bev c Relay)"
    by (simp_all add: c1_def)
  have st: "Some (c', ev) = (if length (ev_input (rc_bev c1 Relay)) \<ge> n
       then (case readcb (True, True) c1 of (c, ev) \<Rightarrow> Some (c, RvRead Relay x # ev)) else Some (c1, [RvRead Relay x]))"
    unfolding assms(4) [symmetric] using r w(1,2) x(1) assms(3) by (simp add: bufferevent_readcb_def Let_def read_suspended_def x_def c1_def)
  have len: "length (drop (length x) s) < length s" using x(1) ne by simp
  show ?thesis
  proof (cases "length (ev_input (rc_bev c1 Relay)) < n")
    case True
    then have "c' = c1" "got Relay ev = x" using st by auto
    then show ?thesis using assms(3) r x(2) len by (simp add: feeding_def c1)
  next
    case False
    then have full: "length (ev_input (rc_bev c1 Relay)) = n" using w(2) by (auto simp: c1 x_def)
    have j: "J (pl_do_password c1) g (sent Relay h @ ev_output (rc_bev c Relay)) (rc_state c1) (pl_to_skip c1) n" using w(3) by (simp add: c1)
    have "rest (pl_do_password c1) (rc_state c1) (pl_to_skip c1) (ev_input (rc_bev c1 Relay) @ drop (length x) s)" using r(1) x(2) by (simp add: c1)
    from answers [OF j full this] show ?thesis using st full r(3) len by (auto simp: feeding_def c1)
  qed
qed

lemma feed_reaches:
  assumes "hs_inv J complete c0 h c" "feeding s c" "list_all feed_ok xs" "length s \<le> feeds xs"
  shows "\<exists>c'. feed readcb writecb xs s c = Some c' \<and> \<not> rc_freed c' \<and> rc_state c' = pump_active"
  using assms
proof (induction xs arbitrary: h s c)
  case Nil
  then show ?case
  proof (cases "rc_state c = pump_active")
    case False
    with Nil have "hs_waits J h c" "rest (pl_do_password c) (rc_state c) (pl_to_skip c) (ev_input (rc_bev c Relay) @ [])" by (auto simp: hs_inv_def feeding_def)
    then show ?thesis using enough unfolding hs_waits_def by fastforce
  qed (auto simp: feeding_def)
next
  case (Cons y xs)
  define x where "x = (case y of Feed k \<Rightarrow> HsReadable Relay (IoData (take (Suc k) s)) (True, True) | Other x \<Rightarrow> x)"
  from step_total [OF Cons.prems(1), of x] obtain c1 e1 where s: "hs_step readcb writecb x c = Some (c1, e1)" by blast
  define s1 where "s1 = (case y of Feed k \<Rightarrow> drop (length (got Relay e1)) s | Other _ \<Rightarrow> s)"
  have f: "feed readcb writecb (y # xs) s c = feed readcb writecb xs s1 c1" using s by (cases y) (auto simp: x_def s1_def)
  have "feeding s1 c1 \<and> length s1 \<le> feeds xs"
  proof (cases "rc_state c = pump_active")
    case True
    then have "c1 = c" "e1 = []" using s by (cases x; auto)+
    then show ?thesis using Cons.prems(2,4) True by (auto simp: feeding_def s1_def split: feed_op.split)
  next
    case False
    show ?thesis
    proof (cases y)
      case (Feed k)
      then show ?thesis using feed_step [OF Cons.prems(1,2) False, of k c1 e1] s Cons.prems(4) by (auto simp: x_def s1_def)
    next
      case (Other z)
      then have "hs_same c c1 e1" using other_same [OF Cons.prems(1) _ False _ s] Cons.prems(2,3) by (auto simp: feeding_def x_def)
      then show ?thesis using Cons.prems(2,4) False Other by (auto simp: feeding_def hs_same_def s1_def)
    qed
  qed
  with Cons.IH [OF step_inv [OF Cons.prems(1) s]] Cons.prems(3) show ?case unfolding f by auto
qed

end

section \<open>The two protocols\<close>

lemma read_expected_all:
  assumes "length (ev_input (rc_bev c Relay)) = n"
  shows "redsocks_read_expected c sizes_equal n = Inr (took_input c, ev_input (rc_bev c Relay))"
    "redsocks_read_expected c sizes_greater_equal n = Inr (took_input c, ev_input (rc_bev c Relay))"
  using assms by (simp_all add: redsocks_read_expected_def Let_def sizes_equal_def sizes_greater_equal_def took_input_def)

lemma write_helper_message:
  "redsocks_write_helper c (Some mk) mem st n =
    (case mk mem of None \<Rightarrow> redsocks_drop_client c
     | Some out \<Rightarrow> if snd mem then
         ((upd_bev c Relay (\<lambda>b. bufferevent_enable (bufferevent_setwatermark (output_add b out) True False n n) True False))\<lparr>rc_state := st\<rparr>, [])
         else redsocks_drop_client c)"
  by (simp add: redsocks_write_helper_def redsocks_write_helper_ex_plain_def Let_def upd_bev_def split: option.split)

lemma write_helper_took:
  "redsocks_write_helper (took_input c) (Some mk) mem st n =
    (case mk mem of None \<Rightarrow> redsocks_drop_client (took_input c)
     | Some out \<Rightarrow> if snd mem then (hs_wait c out st n (pl_to_skip c), []) else redsocks_drop_client (took_input c))"
  by (simp add: write_helper_message hs_wait_def took_input_def upd_bev_def split: option.split)

lemma write_helper_quiet: "redsocks_write_helper ((took_input c)\<lparr>pl_to_skip := k\<rparr>) None mem st n = (hs_wait c [] st n k, [])"
  by (simp add: redsocks_write_helper_def redsocks_write_helper_ex_plain_def Let_def hs_wait_def took_input_def upd_bev_def output_add_def)

lemma write_helper_quiet': "redsocks_write_helper (took_input c) None mem st n = (hs_wait c [] st n (pl_to_skip c), [])"
  using write_helper_quiet [of "pl_to_skip c" c mem st n] by (simp add: took_input_def upd_bev_def)

lemma dropped_drop [simp]: "dropped (redsocks_drop_client c)"
  by (simp add: dropped_def redsocks_drop_client_def)

lemma not_dropped [simp]: "\<not> dropped (c, [])"
  by (simp add: dropped_def)

lemma took_nothing:
  assumes "ev_input (rc_bev c Relay) = []"
  shows "took_input c = c"
proof -
  have "(rc_bev c Relay)\<lparr>ev_input := []\<rparr> = rc_bev c Relay" using assms by (cases "rc_bev c Relay") simp
  then show ?thesis by (simp add: took_input_def upd_bev_def)
qed

text \<open>The messages of RFC 1928 and RFC 1929, and the replies of a server: \<open>socks5_addr a k\<close> says that after the address type (and the length
  of a name) \<open>a\<close> there follow \<open>k\<close> bytes of address and port.\<close>

definition socks5_methods :: "bool \<Rightarrow> byte list" where
  "socks5_methods dp = (if dp then [5, 2, 0, 2] else [5, 1, 0])"

definition socks5_password :: "socks_params \<Rightarrow> byte list" where
  "socks5_password P = [1, of_nat (length (the (cfg_login P)))] @ the (cfg_login P) @ [of_nat (length (the (cfg_password P)))] @ the (cfg_password P)"

definition socks5_connect :: "socks_params \<Rightarrow> byte list" where
  "socks5_connect P = [5, 1, 0, 1] @ le32 (sin_addr P) @ le16 (sin_port P)"

definition socks5_addr :: "byte list \<Rightarrow> nat \<Rightarrow> bool" where
  "socks5_addr a k \<longleftrightarrow> a = [1] \<and> k = 6 \<or> a = [4] \<and> k = 18 \<or> (\<exists>m. a = [3, m] \<and> k = unat m + 2)"

definition socks5_auth :: "socks_params \<Rightarrow> bool \<Rightarrow> byte list \<Rightarrow> byte list \<Rightarrow> bool" where
  "socks5_auth P dp g q \<longleftrightarrow> g = [5, 0] \<and> q = socks5_methods dp @ socks5_connect P \<or>
     dp \<and> g = [5, 2, 1, 0] \<and> q = socks5_methods dp @ socks5_password P @ socks5_connect P"

definition socks5_granted :: "socks_params \<Rightarrow> bool \<Rightarrow> byte list \<Rightarrow> byte list \<Rightarrow> bool" where
  "socks5_granted P dp g q \<longleftrightarrow> (\<exists>g0 x a b. socks5_auth P dp g0 q \<and> g = g0 @ [5, 0, x] @ a @ b \<and> socks5_addr a (length b))"

definition socks5_state :: "socks_params \<Rightarrow> protocol_state" where
  "socks5_state P dp g q st sk n \<longleftrightarrow>
     st = socks5_method_sent \<and> g = [] \<and> q = socks5_methods dp \<and> n = 2 \<or>
     st = socks5_auth_sent \<and> dp \<and> g = [5, 2] \<and> q = socks5_methods dp @ socks5_password P \<and> n = 2 \<or>
     st = socks5_request_sent \<and> socks5_auth P dp g q \<and> n = 4 \<or>
     st = socks5_skip_domain \<and> (\<exists>g0 x. socks5_auth P dp g0 q \<and> g = g0 @ [5, 0, x, 3]) \<and> n = 1 \<or>
     st = socks5_skip_address \<and> (\<exists>g0 x a. socks5_auth P dp g0 q \<and> g = g0 @ [5, 0, x] @ a \<and> socks5_addr a sk) \<and> n = sk"

text \<open>What a server that grants the request has still to send.\<close>

definition socks5_reply :: "byte list \<Rightarrow> bool" where
  "socks5_reply r \<longleftrightarrow> (\<exists>x a b. r = [5, 0, x] @ a @ b \<and> socks5_addr a (length b))"

definition socks5_server :: "bool \<Rightarrow> byte list \<Rightarrow> bool" where
  "socks5_server dp s \<longleftrightarrow> (\<exists>r. socks5_reply r \<and> (s = [5, 0] @ r \<or> dp \<and> s = [5, 2, 1, 0] @ r))"

definition socks5_rest :: "bool \<Rightarrow> int \<Rightarrow> nat \<Rightarrow> byte list \<Rightarrow> bool" where
  "socks5_rest dp st sk s \<longleftrightarrow>
     st = socks5_method_sent \<and> socks5_server dp s \<or>
     st = socks5_auth_sent \<and> (\<exists>r. socks5_reply r \<and> s = [1, 0] @ r) \<or>
     st = socks5_request_sent \<and> socks5_reply s \<or>
     st = socks5_skip_domain \<and> (\<exists>m b. s = m # b \<and> length b = unat m + 2) \<or>
     st = socks5_skip_address \<and> length s = sk"

lemmas socks5_makers = socks5_mkmethods_plain_def socks5_mkconnect_def socks5_mkcommand_plain_def socks5_mkpassword_def socks5_mkpassword_plain_def
  mkevbuffer_def

lemma length_1: "length xs = Suc 0 \<longleftrightarrow> (\<exists>a. xs = [a])"
  by (cases xs) auto

lemma length_2: "length xs = 2 \<longleftrightarrow> (\<exists>a b. xs = [a, b])"
  by (auto simp: numeral_2_eq_2 length_Suc_conv)

lemma length_4: "length xs = 4 \<longleftrightarrow> (\<exists>a b c d. xs = [a, b, c, d])"
  by (auto simp: eval_nat_numeral length_Suc_conv)

text \<open>What the callback does with a whole message, by state.\<close>

lemma socks5_on_methods:
  assumes "rc_state c = socks5_method_sent" "ev_input (rc_bev c Relay) = [a, b]"
  shows "dropped (socks5_read_cb P mem c) \<or>
    a = 5 \<and> b = 0 \<and> socks5_read_cb P mem c = (hs_wait c (socks5_connect P) socks5_request_sent 4 (pl_to_skip c), []) \<or>
    a = 5 \<and> b = 2 \<and> pl_do_password c \<and> socks5_read_cb P mem c = (hs_wait c (socks5_password P) socks5_auth_sent 2 (pl_to_skip c), [])"
    "a = 5 \<Longrightarrow> b = 0 \<or> b = 2 \<and> pl_do_password c \<Longrightarrow> \<not> dropped (socks5_read_cb P (True, True) c)"
  using assms read_expected_all [of c 2]
  by (auto simp: socks5_read_cb_def socks5_read_auth_methods_def socks5_is_known_auth_method_def write_helper_took socks5_makers
      socks5_connect_def socks5_password_def split: if_splits)

lemma socks5_on_auth:
  assumes "rc_state c = socks5_auth_sent" "ev_input (rc_bev c Relay) = [a, b]"
  shows "dropped (socks5_read_cb P mem c) \<or>
    a = 1 \<and> b = 0 \<and> socks5_read_cb P mem c = (hs_wait c (socks5_connect P) socks5_request_sent 4 (pl_to_skip c), [])"
    "a = 1 \<Longrightarrow> b = 0 \<Longrightarrow> \<not> dropped (socks5_read_cb P (True, True) c)"
  using assms read_expected_all [of c 2]
  by (auto simp: socks5_read_cb_def socks5_read_auth_reply_def write_helper_took socks5_makers socks5_connect_def split: if_splits)

lemma socks5_on_reply:
  assumes "rc_state c = socks5_request_sent" "ev_input (rc_bev c Relay) = [a, b, x, t]"
  shows "socks5_read_cb P mem c =
    (if a = 5 \<and> b = 0 \<and> t = 1 then (hs_wait c [] socks5_skip_address 6 6, [])
     else if a = 5 \<and> b = 0 \<and> t = 4 then (hs_wait c [] socks5_skip_address 18 18, [])
     else if a = 5 \<and> b = 0 \<and> t = 3 then (hs_wait c [] socks5_skip_domain 1 (pl_to_skip c), [])
     else redsocks_drop_client (took_input c))"
  using assms read_expected_all [of c 4]
  by (simp add: socks5_read_cb_def socks5_read_reply_def write_helper_quiet write_helper_quiet' eval_nat_numeral)

lemma socks5_on_domain:
  assumes "rc_state c = socks5_skip_domain" "ev_input (rc_bev c Relay) = [m]"
  shows "socks5_read_cb P mem c = (hs_wait c [] socks5_skip_address (unat m + 2) (unat m + 2), [])"
  using assms read_expected_all [of c 1] by (simp add: socks5_read_cb_def Let_def write_helper_quiet)

lemma socks5_on_address:
  assumes "rc_state c = socks5_skip_address" "length (ev_input (rc_bev c Relay)) = pl_to_skip c"
  shows "socks5_read_cb P mem c = (redsocks_start_relay (took_input c), [])"
  using assms read_expected_all [of c "pl_to_skip c"] by (simp add: socks5_read_cb_def)

lemma socks5_addr_cases:
  assumes "socks5_addr (t # a) k"
  shows "t = 1 \<and> a = [] \<and> k = 6 \<or> t = 4 \<and> a = [] \<and> k = 18 \<or> t = 3 \<and> (\<exists>m. a = [m] \<and> k = unat m + 2)"
  using assms by (auto simp: socks5_addr_def)

lemma socks5_addr_simps:
  "socks5_addr [1] 6" "socks5_addr [4] 18" "socks5_addr [3, m] (unat m + 2)" "\<not> socks5_addr [] k" "socks5_addr a k \<Longrightarrow> 2 \<le> k \<and> k \<le> 257"
proof -
  have "unat m \<le> 255" for m :: byte using unsigned_less [of m, where ?'a = nat] by simp
  then show "socks5_addr a k \<Longrightarrow> 2 \<le> k \<and> k \<le> 257" by (fastforce simp: socks5_addr_def)
qed (simp_all add: socks5_addr_def)

lemma socks5_stateE:
  assumes "socks5_state P dp g q (rc_state c) (pl_to_skip c) n" "length (ev_input (rc_bev c Relay)) = n"
  obtains
    (methods) a b where "rc_state c = socks5_method_sent" "ev_input (rc_bev c Relay) = [a, b]" "g = []" "q = socks5_methods dp"
  | (auth) a b where "rc_state c = socks5_auth_sent" "ev_input (rc_bev c Relay) = [a, b]" "dp" "g = [5, 2]" "q = socks5_methods dp @ socks5_password P"
  | (reply) a b x t where "rc_state c = socks5_request_sent" "ev_input (rc_bev c Relay) = [a, b, x, t]" "socks5_auth P dp g q"
  | (domain) m g0 x where "rc_state c = socks5_skip_domain" "ev_input (rc_bev c Relay) = [m]" "socks5_auth P dp g0 q" "g = g0 @ [5, 0, x, 3]"
  | (address) g0 x a where "rc_state c = socks5_skip_address" "length (ev_input (rc_bev c Relay)) = pl_to_skip c" "socks5_auth P dp g0 q"
      "g = g0 @ [5, 0, x] @ a" "socks5_addr a (pl_to_skip c)"
  using assms unfolding socks5_state_def by (auto simp: length_1 length_2 length_4)

interpretation socks5: relay_server "socks5_read_cb P" "socks5_write_cb" "socks5_state P" "socks5_granted P" socks5_rest for P
proof
  fix c :: redsocks_client and g q n mem
  assume j: "socks5_state P (pl_do_password c) g q (rc_state c) (pl_to_skip c) n" "length (ev_input (rc_bev c Relay)) = n"
  let ?d = "pl_do_password c" and ?i = "ev_input (rc_bev c Relay)"
  let ?wait = "\<exists>out st n' sk. socks5_read_cb P mem c = (hs_wait c out st n' sk, []) \<and> st \<noteq> pump_active \<and> 0 < n' \<and> socks5_state P ?d (g @ ?i) (q @ out) st sk n'"
  let ?pump = "socks5_read_cb P mem c = (redsocks_start_relay (took_input c), []) \<and> socks5_granted P ?d (g @ ?i) q"
  have wait: ?wait if "socks5_read_cb P mem c = (hs_wait c out st n' sk, [])" "st \<noteq> pump_active" "0 < n'" "socks5_state P ?d (g @ ?i) (q @ out) st sk n'"
    for out st n' sk using that by blast
  show "dropped (socks5_read_cb P mem c) \<or> ?wait \<or> ?pump"
    using j
  proof (cases rule: socks5_stateE)
    case methods
    then show ?thesis using socks5_on_methods(1) [OF methods(1,2), of P mem] wait by (auto simp: socks5_state_def socks5_auth_def)
  next
    case auth
    then show ?thesis using socks5_on_auth(1) [OF auth(1,2), of P mem] wait by (auto simp: socks5_state_def socks5_auth_def)
  next
    case (reply a b x t)
    have "socks5_state P ?d (g @ [5, 0, x, 1]) q socks5_skip_address 6 6" "socks5_state P ?d (g @ [5, 0, x, 4]) q socks5_skip_address 18 18"
      "socks5_state P ?d (g @ [5, 0, x, 3]) q socks5_skip_domain (pl_to_skip c) 1"
      using reply(3) socks5_addr_simps by (fastforce simp: socks5_state_def)+
    then show ?thesis using reply socks5_on_reply [OF reply(1,2), of P mem] wait [of "[]"] by (auto split: if_splits)
  next
    case (domain m g0 x)
    have "socks5_state P ?d (g @ [m]) q socks5_skip_address (unat m + 2) (unat m + 2)"
      using domain(3,4) socks5_addr_simps(3) [of m] by (fastforce simp: socks5_state_def)
    then show ?thesis using domain socks5_on_domain [OF domain(1,2), of P mem] wait [of "[]"] by auto
  next
    case (address g0 x a)
    then have "socks5_granted P ?d (g @ ?i) q" unfolding socks5_granted_def by fastforce
    then show ?thesis using socks5_on_address [OF address(1,2)] by blast
  qed
next
  fix c :: redsocks_client and g q n mem
  assume "socks5_state P (pl_do_password c) g q (rc_state c) (pl_to_skip c) n"
  then show "socks5_write_cb mem c = (c, []) \<or> socks5_write_cb mem c = (upd_bev c Relay (\<lambda>b. bufferevent_disable b False True), [])"
    by (auto simp: socks5_state_def socks5_write_cb_def)
next
  fix c :: redsocks_client and mem
  assume c: "rc_state c = 0" "ev_input (rc_bev c Relay) = []"
  have "socks5_state P (pl_do_password c) [] (socks5_methods (pl_do_password c)) socks5_method_sent (pl_to_skip c) 2" by (simp add: socks5_state_def)
  moreover have "socks5_write_cb mem c = (if fst mem \<and> snd mem then (hs_wait c (socks5_methods (pl_do_password c)) socks5_method_sent 2 (pl_to_skip c), [])
      else redsocks_drop_client c)"
    using write_helper_took [of c "socks5_mkmethods_plain (pl_do_password c)" mem socks5_method_sent 2] c
    by (auto simp: socks5_write_cb_def took_nothing socks5_makers socks5_methods_def)
  ultimately show "dropped (socks5_write_cb mem c) \<or>
      (\<exists>out st n sk. socks5_write_cb mem c = (hs_wait c out st n sk, []) \<and> st \<noteq> pump_active \<and> 0 < n \<and> socks5_state P (pl_do_password c) [] out st sk n)"
    by (cases "fst mem \<and> snd mem") force+
next
  fix dp g q st sk n s
  assume "socks5_state P dp g q st sk n" "socks5_rest dp st sk s"
  then show "n \<le> length s"
    by (auto simp: socks5_state_def socks5_rest_def socks5_server_def socks5_reply_def socks5_addr_def)
next
  fix c :: redsocks_client and g q n s
  assume j: "socks5_state P (pl_do_password c) g q (rc_state c) (pl_to_skip c) n" "length (ev_input (rc_bev c Relay)) = n"
    and r: "socks5_rest (pl_do_password c) (rc_state c) (pl_to_skip c) (ev_input (rc_bev c Relay) @ s)"
  have wait: "(\<exists>out st n' sk. socks5_read_cb P (True, True) c = (hs_wait c out st n' sk, []) \<and> st \<noteq> pump_active \<and> socks5_rest (pl_do_password c) st sk s)"
    if "socks5_read_cb P (True, True) c = (hs_wait c out st n' sk, [])" "st \<noteq> pump_active" "socks5_rest (pl_do_password c) st sk s" for out st n' sk
    using that by blast
  show "(\<exists>out st n' sk. socks5_read_cb P (True, True) c = (hs_wait c out st n' sk, []) \<and> st \<noteq> pump_active \<and> socks5_rest (pl_do_password c) st sk s) \<or>
      (socks5_read_cb P (True, True) c = (redsocks_start_relay (took_input c), []) \<and> s = [])"
    using j
  proof (cases rule: socks5_stateE)
    case methods
    then show ?thesis using r socks5_on_methods [OF methods(1,2), of P] by (fastforce simp: socks5_rest_def socks5_server_def)
  next
    case auth
    then show ?thesis using r socks5_on_auth [OF auth(1,2), of P] by (fastforce simp: socks5_rest_def)
  next
    case (reply a b x t)
    then obtain aa bb where "[a, b, x, t] @ s = [5, 0, x] @ aa @ bb" "socks5_addr aa (length bb)" using r by (auto simp: socks5_rest_def socks5_reply_def)
    then have t: "a = 5" "b = 0" "t = 1 \<and> length s = 6 \<or> t = 4 \<and> length s = 18 \<or> t = 3 \<and> (\<exists>m b. s = m # b \<and> length b = unat m + 2)"
      by (auto simp: socks5_addr_def)
    have e: "length s = 6 \<Longrightarrow> socks5_rest (pl_do_password c) socks5_skip_address 6 s"
      "length s = 18 \<Longrightarrow> socks5_rest (pl_do_password c) socks5_skip_address 18 s"
      "\<exists>m b. s = m # b \<and> length b = unat m + 2 \<Longrightarrow> socks5_rest (pl_do_password c) socks5_skip_domain (pl_to_skip c) s"
      by (simp_all add: socks5_rest_def)
    from t(3) show ?thesis
    proof (elim disjE conjE)
      assume "t = 1" "length s = 6"
      then show ?thesis using socks5_on_reply [OF reply(1,2), of P "(True, True)"] t(1,2) wait [OF _ _ e(1)] by simp
    next
      assume "t = 4" "length s = 18"
      then show ?thesis using socks5_on_reply [OF reply(1,2), of P "(True, True)"] t(1,2) wait [OF _ _ e(2)] by simp
    next
      assume "t = 3" "\<exists>m b. s = m # b \<and> length b = unat m + 2"
      then show ?thesis using socks5_on_reply [OF reply(1,2), of P "(True, True)"] t(1,2) wait [OF _ _ e(3)] by simp
    qed
  next
    case (domain m g0 x)
    then show ?thesis using r wait [OF socks5_on_domain [OF domain(1,2)]] by (auto simp: socks5_rest_def)
  next
    case (address g0 x a)
    then show ?thesis using r socks5_on_address [OF address(1,2)] by (auto simp: socks5_rest_def)
  qed
qed

text \<open>The whole life of a connection: the handshake followed by the relay.\<close>

context relay_subsys
begin

lemma session:
  assumes "hs_fresh c" "redsocks_relay_connected writecb c ok mem = (c1, h1)" "run_ops (hs_step readcb writecb) ops c1 = Some (c2, h2)"
    and "\<not> rc_freed c2" "rc_state c2 = pump_active"
  shows "\<exists>c3 h3 g q. run_ops relay_step rops c2 = Some (c3, h3) \<and> complete (pl_do_password c) g q \<and>
    got Relay (h1 @ h2 @ h3) = g @ sent Client (h1 @ h2 @ h3) @ ev_output (rc_bev c3 Client) @ ev_input (rc_bev c3 Relay) \<and>
    sent Relay (h1 @ h2 @ h3) @ ev_output (rc_bev c3 Relay) @ ev_input (rc_bev c3 Client) = q @ ev_input (rc_bev c Client) @ got Client (h1 @ h2 @ h3)"
proof -
  have "hs_inv J complete c (h1 @ h2) c2" using run_inv [OF assms(1,2), of ops] assms(3) by auto
  then have i: "hs_frame c (h1 @ h2) c2" "pump_ok c2" "ev_input (rc_bev c2 Relay) = []"
    "complete (pl_do_password c) (got Relay (h1 @ h2)) (sent Relay (h1 @ h2) @ ev_output (rc_bev c2 Relay))"
    using assms(4,5) by (auto simp: hs_inv_def hs_frame_def)
  from run_good [OF i(2)] obtain c3 h3 where r: "run_ops relay_step rops c2 = Some (c3, h3)" "good c2 c3 h3" by blast
  have f: "in_transit c2 d @ got (anti d) h3 = sent d h3 @ in_transit c3 d" for d using r(2) unfolding good_def flows_def by blast
  show ?thesis
    using r(1) i(1,3,4) f [of Client] f [of Relay]
    by (intro exI [of _ c3] exI [of _ h3] exI [of _ "got Relay (h1 @ h2)"] exI [of _ "sent Relay (h1 @ h2) @ ev_output (rc_bev c2 Relay)"])
      (simp add: hs_frame_def)
qed

end

text \<open>The messages of SOCKS4.\<close>

definition socks4_connect :: "socks_params \<Rightarrow> byte list" where
  "socks4_connect P = [4, 1] @ le16 (sin_port P) @ le32 (sin_addr P) @ (case cfg_login P of Some l \<Rightarrow> l | None \<Rightarrow> []) @ [0]"

definition socks4_granted :: "socks_params \<Rightarrow> bool \<Rightarrow> byte list \<Rightarrow> byte list \<Rightarrow> bool" where
  "socks4_granted P dp g q \<longleftrightarrow> q = socks4_connect P \<and> (\<exists>b. g = [0, 90] @ b \<and> length b = 6)"

definition socks4_state :: "socks_params \<Rightarrow> protocol_state" where
  "socks4_state P dp g q st sk n \<longleftrightarrow> st = socks4_request_sent \<and> g = [] \<and> q = socks4_connect P \<and> n = 8"

definition socks4_rest :: "bool \<Rightarrow> int \<Rightarrow> nat \<Rightarrow> byte list \<Rightarrow> bool" where
  "socks4_rest dp st sk s \<longleftrightarrow> (\<exists>b. s = [0, 90] @ b \<and> length b = 6)"

lemma socks4_on_reply:
  assumes "rc_state c = socks4_request_sent" "length (ev_input (rc_bev c Relay)) = 8"
  shows "socks4_read_cb mem c =
    (if ev_input (rc_bev c Relay) ! 0 = 0 \<and> ev_input (rc_bev c Relay) ! 1 = 90 then (redsocks_start_relay (took_input c), [])
     else redsocks_drop_client ((took_input c)\<lparr>rc_state := socks4_reply_came\<rparr>))"
proof -
  have "redsocks_start_relay ((took_input c)\<lparr>rc_state := socks4_reply_came\<rparr>) = redsocks_start_relay (took_input c)"
    by (simp add: redsocks_start_relay_def)
  then show ?thesis using assms read_expected_all [of c 8] by (simp add: socks4_read_cb_def Let_def)
qed

lemma two_first: "2 \<le> length xs \<Longrightarrow> xs = [xs ! 0, xs ! 1] @ drop 2 xs"
  by (cases xs; cases "tl xs") auto

interpretation socks4: relay_server "socks4_read_cb" "socks4_write_cb P" "socks4_state P" "socks4_granted P" socks4_rest for P
proof
  fix c :: redsocks_client and g q n mem
  assume j: "socks4_state P (pl_do_password c) g q (rc_state c) (pl_to_skip c) n" "length (ev_input (rc_bev c Relay)) = n"
  let ?i = "ev_input (rc_bev c Relay)"
  have "?i ! 0 = 0 \<Longrightarrow> ?i ! 1 = 90 \<Longrightarrow> socks4_granted P (pl_do_password c) (g @ ?i) q"
    using two_first [of ?i] j by (auto simp: socks4_granted_def socks4_state_def intro!: exI [of _ "drop 2 ?i"])
  then show "dropped (socks4_read_cb mem c) \<or>
      (\<exists>out st n' sk. socks4_read_cb mem c = (hs_wait c out st n' sk, []) \<and> st \<noteq> pump_active \<and> 0 < n' \<and>
        socks4_state P (pl_do_password c) (g @ ?i) (q @ out) st sk n') \<or>
      (socks4_read_cb mem c = (redsocks_start_relay (took_input c), []) \<and> socks4_granted P (pl_do_password c) (g @ ?i) q)"
    using socks4_on_reply [of c mem] j by (auto simp: socks4_state_def)
next
  fix c :: redsocks_client and g q n mem
  assume "socks4_state P (pl_do_password c) g q (rc_state c) (pl_to_skip c) n"
  then show "socks4_write_cb P mem c = (c, []) \<or> socks4_write_cb P mem c = (upd_bev c Relay (\<lambda>b. bufferevent_disable b False True), [])"
    by (auto simp: socks4_state_def socks4_write_cb_def)
next
  fix c :: redsocks_client and mem
  assume c: "rc_state c = 0" "ev_input (rc_bev c Relay) = []"
  have "socks4_write_cb P mem c = (if fst mem \<and> snd mem then (hs_wait c (socks4_connect P) socks4_request_sent 8 (pl_to_skip c), [])
      else redsocks_drop_client c)"
    using write_helper_took [of c "socks4_mkconnect P" mem socks4_request_sent 8] c
    by (auto simp: socks4_write_cb_def took_nothing socks4_mkconnect_def socks4_connect_def mkevbuffer_def)
  moreover have "socks4_state P (pl_do_password c) [] (socks4_connect P) socks4_request_sent (pl_to_skip c) 8" by (simp add: socks4_state_def)
  ultimately show "dropped (socks4_write_cb P mem c) \<or>
      (\<exists>out st n sk. socks4_write_cb P mem c = (hs_wait c out st n sk, []) \<and> st \<noteq> pump_active \<and> 0 < n \<and> socks4_state P (pl_do_password c) [] out st sk n)"
    by (cases "fst mem \<and> snd mem") force+
next
  fix dp g q st sk n s
  assume "socks4_state P dp g q st sk n" "socks4_rest dp st sk s"
  then show "n \<le> length s" by (auto simp: socks4_state_def socks4_rest_def)
next
  fix c :: redsocks_client and g q n s
  assume j: "socks4_state P (pl_do_password c) g q (rc_state c) (pl_to_skip c) n" "length (ev_input (rc_bev c Relay)) = n"
    and r: "socks4_rest (pl_do_password c) (rc_state c) (pl_to_skip c) (ev_input (rc_bev c Relay) @ s)"
  let ?i = "ev_input (rc_bev c Relay)"
  have n: "length ?i = 8" "rc_state c = socks4_request_sent" using j by (auto simp: socks4_state_def)
  from r obtain b where b: "?i @ s = [0, 90] @ b" "length b = 6" by (auto simp: socks4_rest_def)
  have "length (?i @ s) = length ([0, 90] @ b)" by (simp only: b(1))
  then have "s = []" using n(1) b(2) by simp
  moreover from this b(1) have "?i ! 0 = 0 \<and> ?i ! 1 = 90" by simp
  ultimately show "(\<exists>out st n' sk. socks4_read_cb (True, True) c = (hs_wait c out st n' sk, []) \<and> st \<noteq> pump_active \<and> socks4_rest (pl_do_password c) st sk s) \<or>
      (socks4_read_cb (True, True) c = (redsocks_start_relay (took_input c), []) \<and> s = [])"
    using socks4_on_reply [OF n(2,1), of "(True, True)"] by simp
qed

section \<open>Properties\<close>

lemma credentials_fit:
  "pl_do_password (socks5_client_init (socks5_instance_init P) c) \<Longrightarrow>
    length (the (cfg_login (socks5_instance_init P))) \<le> 255 \<and> length (the (cfg_password (socks5_instance_init P))) \<le> 255"
  by (auto simp: socks5_client_init_def socks5_instance_init_def socks5_is_valid_cred_def Let_def split: if_splits)


text \<open>The same for SOCKS4, with its one request and its reply of eight bytes.\<close>

theorem socks4_session:
  assumes "hs_fresh (socks4_client_init c0)" "redsocks_relay_connected (socks4_write_cb P) (socks4_client_init c0) ok mem = (c1, h1)"
    and "run_ops (hs_step socks4_read_cb (socks4_write_cb P)) ops c1 = Some (c2, h2)" "\<not> rc_freed c2" "rc_state c2 = pump_active"
  shows "\<exists>c3 h3 b. run_ops relay_step rops c2 = Some (c3, h3) \<and> length b = 6 \<and>
    got Relay (h1 @ h2 @ h3) = [0, 90] @ b @ sent Client (h1 @ h2 @ h3) @ ev_output (rc_bev c3 Client) @ ev_input (rc_bev c3 Relay) \<and>
    sent Relay (h1 @ h2 @ h3) @ ev_output (rc_bev c3 Relay) @ ev_input (rc_bev c3 Client) =
      socks4_connect P @ ev_input (rc_bev c0 Client) @ got Client (h1 @ h2 @ h3)"
  using socks4.session [OF assms, of rops] by (fastforce simp: socks4_granted_def socks4_client_init_def)

text \<open>C28.  The SOCKS5 client is always in a proper state: every run ends regularly, and unless the client was released or the relay runs, the
  client is in one of the five waiting states, both watermarks are the size of the message of that state, which is at most 257, and less than that is in the
  input (so the amount is always the expected one); the array for the address has the size that is waited for.\<close>

theorem socks5_typed:
  assumes "hs_fresh c" "redsocks_relay_connected socks5_write_cb c ok mem = (c1, h1)"
  shows "\<exists>c' h. run_ops (hs_step (socks5_read_cb P) socks5_write_cb) ops c1 = Some (c', h) \<and>
    (rc_freed c' \<or> rc_state c' = pump_active \<or>
     rc_state c' \<in> {socks5_method_sent .. socks5_skip_address} \<and>
     (\<exists>n. wm_read (rc_bev c' Relay) = (n, n) \<and> length (ev_input (rc_bev c' Relay)) < n \<and>
       (if rc_state c' = socks5_skip_address then n = pl_to_skip c' \<and> 2 \<le> n \<and> n \<le> 257
        else if rc_state c' = socks5_skip_domain then n = 1
        else if rc_state c' = socks5_request_sent then n = 4 else n = 2)))"
proof -
  have typed: "st \<in> {socks5_method_sent .. socks5_skip_address} \<and>
      (if st = socks5_skip_address then n = sk \<and> 2 \<le> n \<and> n \<le> 257 else if st = socks5_skip_domain then n = 1
       else if st = socks5_request_sent then n = 4 else n = 2)"
    if "socks5_state P dp g q st sk n" for dp g q st sk n
    using that socks5_addr_simps(5) unfolding socks5_state_def by auto
  from socks5.run_inv [OF assms, where P = P and ops = ops] obtain c' h
    where r: "run_ops (hs_step (socks5_read_cb P) socks5_write_cb) ops c1 = Some (c', h)" "hs_inv (socks5_state P) (socks5_granted P) c (h1 @ h) c'" by blast
  then have "rc_freed c' \<or> rc_state c' = pump_active \<or> hs_waits (socks5_state P) (h1 @ h) c'" by (auto simp: hs_inv_def split: if_splits)
  then show ?thesis using r(1) typed unfolding hs_waits_def by blast
qed

text \<open>C27.  With a server that grants the request the handshake ends: when the server sends an acceptable reply and enough memory is
  there, the relay starts as soon as the socket was read as many times as the reply has bytes, whatever the sizes of the pieces and whatever
  else happens in between (data or an end of file from the client, writes), as long as no socket reports an error.\<close>

theorem socks5_connects:
  assumes "hs_fresh c" "redsocks_relay_connected socks5_write_cb c True (True, True) = (c1, h1)"
    and "socks5_server (pl_do_password c) s" "list_all feed_ok xs" "length s \<le> feeds xs"
  shows "\<exists>c'. feed (socks5_read_cb P) socks5_write_cb xs s c1 = Some c' \<and> \<not> rc_freed c' \<and> rc_state c' = pump_active"
proof -
  have f: "rc_state c = 0" "ev_input (rc_bev c Relay) = []" "\<not> rc_freed c" using assms(1) by (auto simp: hs_fresh_def)
  have "c1 = hs_wait c (socks5_methods (pl_do_password c)) socks5_method_sent 2 (pl_to_skip c)"
    using assms(2) write_helper_took [of c "socks5_mkmethods_plain (pl_do_password c)" "(True, True)" socks5_method_sent 2] f
    by (auto simp: redsocks_relay_connected_def socks5_write_cb_def took_nothing socks5_makers socks5_methods_def)
  then have "socks5.feeding s c1" using assms(3) f by (simp add: socks5.feeding_def socks5_rest_def)
  from socks5.feed_reaches [OF socks5.connected_inv [OF assms(1,2)] this assms(4,5)] show ?thesis .
qed


section \<open>Witnesses\<close>

definition ex_socks_params :: socks_params where
  "ex_socks_params = \<lparr>cfg_login = Some [97], cfg_password = Some [98, 99], sin_addr = 0x0100007F, sin_port = 0x5000\<rparr>"

definition ex_socks5 :: redsocks_client where
  "ex_socks5 = socks5_client_init ex_socks_params (ex_client [7])"

definition ex_connected :: redsocks_client where
  "ex_connected = hs_wait ex_socks5 [5, 2, 0, 2] socks5_method_sent 2 0"

definition ex_hs_ops :: "hs_op list" where
  "ex_hs_ops = map (\<lambda>x. HsReadable Relay (IoData x) (True, True)) [[5, 2], [1, 0], [5, 0, 0, 1], [0, 0, 0, 0, 0, 0]]"

lemma ex_socks_init: "socks5_instance_init ex_socks_params = ex_socks_params" "socks4_client_init (ex_client [7]) = (ex_client [7])\<lparr>rc_state := 0\<rparr>"
  by (simp_all add: socks5_instance_init_def ex_socks_params_def socks5_is_valid_cred_def socks4_client_init_def)

lemma ex_fresh: "hs_fresh ex_socks5" "hs_fresh ((ex_client [7])\<lparr>rc_state := 0\<rparr>)"
  by (simp_all add: hs_fresh_def ex_socks5_def socks5_client_init_def ex_client_def ex_bev_def)

lemma ex_socks_password: "pl_do_password ex_socks5"
  by (simp add: ex_socks5_def socks5_client_init_def ex_socks_params_def)

lemmas hs_eval = hs_wait_def redsocks_relay_connected_def redsocks_write_helper_def redsocks_write_helper_ex_plain_def socks5_makers Let_def
  socks5_read_auth_methods_def socks5_read_auth_reply_def socks5_read_reply_def socks5_is_known_auth_method_def
  redsocks_read_expected_def sizes_equal_def sizes_greater_equal_def bufferevent_readcb_def read_suspended_def bufferevent_setwatermark_def

lemma ex_connected: "redsocks_relay_connected socks5_write_cb ex_socks5 True (True, True) = (ex_connected, [])"
  by (simp add: ex_connected_def ex_socks5_def socks5_client_init_def ex_socks_params_def hs_eval socks5_write_cb_def upd_bev_def ex_client_def ex_bev_def
      output_add_def bufferevent_enable_def)

lemma ex_socks5_run: "\<exists>c2 h2. run_ops (hs_step (socks5_read_cb ex_socks_params) socks5_write_cb) ex_hs_ops ex_connected = Some (c2, h2) \<and>
    \<not> rc_freed c2 \<and> rc_state c2 = pump_active"
  by (simp add: ex_connected_def ex_socks5_def socks5_client_init_def ex_socks_params_def hs_eval socks5_read_cb_def ex_hs_ops_def ex_client_def ex_bev_def)


definition ex_socks4_ops :: "hs_op list" where
  "ex_socks4_ops = [HsReadable Relay (IoData [0, 90, 0]) (True, True), HsReadable Relay (IoData [0, 0, 0, 0, 0, 9]) (True, True)]"

lemma ex_socks4_run:
  "\<exists>c1 c2 h2. redsocks_relay_connected (socks4_write_cb ex_socks_params) ((ex_client [7])\<lparr>rc_state := 0\<rparr>) True (True, True) = (c1, []) \<and>
    run_ops (hs_step socks4_read_cb (socks4_write_cb ex_socks_params)) ex_socks4_ops c1 = Some (c2, h2) \<and> \<not> rc_freed c2 \<and> rc_state c2 = pump_active"
  by (simp add: ex_socks_params_def hs_eval socks4_read_cb_def socks4_write_cb_def socks4_mkconnect_def ex_socks4_ops_def ex_client_def ex_bev_def)

theorem socks4_session_witness:
  "\<exists>c1 c2 h2 c3 h3 b. run_ops (hs_step socks4_read_cb (socks4_write_cb ex_socks_params)) ex_socks4_ops c1 = Some (c2, h2) \<and>
    run_ops relay_step ex_relay_ops c2 = Some (c3, h3) \<and> length (b :: byte list) = 6 \<and>
    sent Relay (h2 @ h3) @ ev_output (rc_bev c3 Relay) @ ev_input (rc_bev c3 Client) = socks4_connect ex_socks_params @ [7] @ got Client (h2 @ h3)"
proof -
  obtain c1 c2 h2 where r: "redsocks_relay_connected (socks4_write_cb ex_socks_params) (socks4_client_init (ex_client [7])) True (True, True) = (c1, [])"
    "run_ops (hs_step socks4_read_cb (socks4_write_cb ex_socks_params)) ex_socks4_ops c1 = Some (c2, h2)" "\<not> rc_freed c2" "rc_state c2 = pump_active"
    using ex_socks4_run unfolding ex_socks_init by blast
  have i: "ev_input (rc_bev (ex_client [7]) Client) = [7]" by (simp add: ex_client_def ex_bev_def)
  from socks4_session [OF ex_fresh(2) [folded ex_socks_init(2)] r, of ex_relay_ops, unfolded append_Nil i]
  obtain c3 h3 and b :: "byte list" where "run_ops relay_step ex_relay_ops c2 = Some (c3, h3)" "length b = 6"
    "sent Relay (h2 @ h3) @ ev_output (rc_bev c3 Relay) @ ev_input (rc_bev c3 Client) = socks4_connect ex_socks_params @ [7] @ got Client (h2 @ h3)"
    by blast
  with r(2) show ?thesis by (intro exI conjI)
qed

theorem socks5_typed_witness:
  "\<exists>c' h. run_ops (hs_step (socks5_read_cb ex_socks_params) socks5_write_cb) [HsReadable Relay (IoData [5]) (True, True)] ex_connected = Some (c', h) \<and>
    (rc_freed c' \<or> rc_state c' = pump_active \<or> rc_state c' \<in> {1 .. 5})"
  using socks5_typed [OF ex_fresh(1) ex_connected, of ex_socks_params "[HsReadable Relay (IoData [5]) (True, True)]"] by blast

theorem socks5_connects_witness:
  "\<exists>c'. feed (socks5_read_cb ex_socks_params) socks5_write_cb (replicate 12 (Feed 2)) [5, 0, 5, 0, 0, 1, 0, 0, 0, 0, 0, 0] ex_connected = Some c' \<and>
    \<not> rc_freed c' \<and> rc_state c' = pump_active"
proof -
  have "socks5_reply [5, 0, 0, 1, 0, 0, 0, 0, 0, 0]" unfolding socks5_reply_def
    by (intro exI [of _ 0] exI [of _ "[1]"] exI [of _ "[0, 0, 0, 0, 0, 0]"]) (simp add: socks5_addr_def)
  then have "socks5_server (pl_do_password ex_socks5) [5, 0, 5, 0, 0, 1, 0, 0, 0, 0, 0, 0]" by (auto simp: socks5_server_def)
  moreover have "list_all feed_ok (replicate 12 (Feed 2))" "length [5, 0, 5, 0, 0, 1, 0, 0, 0, 0, 0, 0 :: byte] \<le> feeds (replicate 12 (Feed 2))"
    by (simp_all add: eval_nat_numeral)
  ultimately show ?thesis by (rule socks5_connects [OF ex_fresh(1) ex_connected])
qed


end
