(* ===== verification/Packet_Window.thy ===== *)
theory Packet_Window
  imports Prelude
begin

text \<open>
  The replay filter of the UDP relay of the Rust proxy, \<^verbatim>\<open>shadowsocks-service/src/net/packet_window.rs\<close>: a ring of 64-bit blocks that
  remembers which packet numbers of a sliding window were accepted.  It implements the set of all accepted numbers, of which
  only the window is kept.
\<close>

section \<open>The filter\<close>

definition BLOCK_BIT_LOG :: nat where "BLOCK_BIT_LOG = 6"
definition BLOCK_BITS :: u64 where "BLOCK_BITS = push_bit BLOCK_BIT_LOG 1"
definition RING_BLOCKS :: u64 where "RING_BLOCKS = push_bit 7 1"
definition WINDOW_SIZE :: u64 where "WINDOW_SIZE = (RING_BLOCKS - 1) * BLOCK_BITS"
definition BLOCK_MASK :: u64 where "BLOCK_MASK = RING_BLOCKS - 1"
definition BIT_MASK :: u64 where "BIT_MASK = BLOCK_BITS - 1"

record PacketWindowFilter =
  last_packet_id :: u64
  packet_ring :: "u64 list"

definition filter_new :: PacketWindowFilter where
  "filter_new = \<lparr>last_packet_id = 0, packet_ring = replicate (unat RING_BLOCKS) 0\<rparr>"

definition filter_reset :: "PacketWindowFilter \<Rightarrow> PacketWindowFilter" where
  "filter_reset f = f\<lparr>last_packet_id := 0, packet_ring := (packet_ring f)[0 := 0]\<rparr>"

text \<open>The loop that clears the blocks the window moves onto.\<close>

definition clear_blocks :: "u64 \<Rightarrow> u64 \<Rightarrow> u64 list \<Rightarrow> u64 list" where
  "clear_blocks current diff ring =
     fold (\<lambda>d ring. let i = current + of_nat d in ring[unat (i AND BLOCK_MASK) := 0]) [1..<Suc (unat diff)] ring"

definition check_and_set :: "u64 \<Rightarrow> u64 \<Rightarrow> PacketWindowFilter \<Rightarrow> PacketWindowFilter \<times> bool" where
  "check_and_set packet_id index_block f =
     (let index_block = index_block AND BLOCK_MASK;
          index_bit = packet_id AND BIT_MASK;
          old = packet_ring f ! unat index_block;
          new = old OR push_bit (unat index_bit) 1
      in (f\<lparr>packet_ring := (packet_ring f)[unat index_block := new]\<rparr>, old \<noteq> new))"

definition validate_packet_id :: "u64 \<Rightarrow> u64 \<Rightarrow> PacketWindowFilter \<Rightarrow> PacketWindowFilter \<times> bool" where
  "validate_packet_id packet_id limit f =
     (if packet_id \<ge> limit then (f, False)
      else let index_block = drop_bit BLOCK_BIT_LOG packet_id
      in if packet_id > last_packet_id f then
        (let current = drop_bit BLOCK_BIT_LOG (last_packet_id f);
             diff = index_block - current;
             diff = (if diff > RING_BLOCKS then RING_BLOCKS else diff);
             f = f\<lparr>packet_ring := clear_blocks current diff (packet_ring f)\<rparr>;
             f = f\<lparr>last_packet_id := packet_id\<rparr>
         in check_and_set packet_id index_block f)
      else if last_packet_id f - packet_id > WINDOW_SIZE then (f, False)
      else check_and_set packet_id index_block f)"

section \<open>The set of accepted numbers\<close>

text \<open>The greatest number that was accepted and all of them.  A number is fresh when it is new and not too old.\<close>

type_synonym window_spec = "nat \<times> nat set"

fun fresh :: "nat \<Rightarrow> nat \<Rightarrow> window_spec \<Rightarrow> bool" where
  "fresh packet_id limit (m, seen) \<longleftrightarrow> packet_id < limit \<and> packet_id \<notin> seen \<and> m \<le> packet_id + 8128"

fun spec_validate :: "nat \<Rightarrow> nat \<Rightarrow> window_spec \<Rightarrow> window_spec \<times> bool" where
  "spec_validate packet_id limit (m, seen) =
     (if fresh packet_id limit (m, seen) then ((max m packet_id, insert packet_id seen), True) else ((m, seen), False))"

definition window_rep :: "PacketWindowFilter \<Rightarrow> window_spec \<Rightarrow> bool" where
  "window_rep f s \<longleftrightarrow> (case s of (m, seen) \<Rightarrow>
     unat (last_packet_id f) = m \<and> length (packet_ring f) = 128 \<and> (\<forall>x\<in>seen. x \<le> m) \<and>
     (\<forall>b k. b \<le> m div 64 \<and> m div 64 \<le> b + 127 \<and> k < 64 \<longrightarrow> bit (packet_ring f ! (b mod 128)) k = (64 * b + k \<in> seen)))"

section \<open>Blocks\<close>

lemma window_constants:
  "BLOCK_BIT_LOG = 6" "BLOCK_BITS = 64" "RING_BLOCKS = 128" "WINDOW_SIZE = 8128" "BLOCK_MASK = 127" "BIT_MASK = 63"
  by (simp_all add: BLOCK_BIT_LOG_def BLOCK_BITS_def RING_BLOCKS_def WINDOW_SIZE_def BLOCK_MASK_def BIT_MASK_def)

lemma and_masks: "x AND (127 :: u64) = take_bit 7 x" "x AND (63 :: u64) = take_bit 6 x"
  by (simp_all add: take_bit_eq_mask mask_eq_exp_minus_1)

lemma unat_block: "unat (drop_bit 6 (x :: u64)) = unat x div 64"
  by (simp add: drop_bit_eq_div unat_div_distrib)

lemma unat_masks: "unat (x AND (127 :: u64)) = unat x mod 128" "unat (x AND (63 :: u64)) = unat x mod 64"
  by (simp_all add: and_masks take_bit_eq_mod unat_mod_distrib)

lemma clear_index:
  assumes "d \<le> 128" "current = drop_bit 6 (x :: u64)"
  shows "unat (current + of_nat d) = unat x div 64 + d"
proof -
  have "unat x < 2 ^ 64" using unsigned_less [of x, where ?'a = nat] by simp
  then have "unat x div 64 + d < 2 ^ 64" using assms(1) by simp
  then show ?thesis using assms by (simp add: unat_block unat_word_ariths unat_of_nat)
qed

lemma clear_fold:
  assumes "length ring = 128"
  shows "length (fold (\<lambda>d ring. ring[(c + d) mod 128 := 0]) ds ring) = 128"
    "i < 128 \<Longrightarrow> fold (\<lambda>d ring. ring[(c + d) mod 128 := 0]) ds ring ! i = (if \<exists>d\<in>set ds. (c + d) mod 128 = i then 0 else ring ! i)"
  using assms by (induction ds arbitrary: ring) (auto simp: nth_list_update)

lemma clear_blocks_nth:
  assumes "length ring = 128" "unat diff \<le> 128" "i < 128"
  shows "length (clear_blocks (drop_bit 6 x) diff ring) = 128"
    "clear_blocks (drop_bit 6 x) diff ring ! i = (if \<exists>d\<in>{1..unat diff}. (unat x div 64 + d) mod 128 = i then 0 else ring ! i)"
proof -
  have "clear_blocks (drop_bit 6 x) diff ring = fold (\<lambda>d ring. ring[(unat x div 64 + d) mod 128 := 0]) [1..<Suc (unat diff)] ring"
    unfolding clear_blocks_def Let_def using assms(2)
  proof (intro fold_cong refl)
    fix d assume "d \<in> set [1..<Suc (unat diff)]"
    then have "d \<le> 128" using assms(2) by auto
    then show "(\<lambda>ring. ring[unat ((drop_bit 6 x + of_nat d) AND BLOCK_MASK) := 0]) = (\<lambda>ring. ring[(unat x div 64 + d) mod 128 := 0])"
      using clear_index [OF _ refl, of d x] by (simp add: window_constants unat_masks)
  qed
  moreover have "set [1..<Suc (unat diff)] = {1..unat diff}" by auto
  ultimately show "length (clear_blocks (drop_bit 6 x) diff ring) = 128"
    "clear_blocks (drop_bit 6 x) diff ring ! i = (if \<exists>d\<in>{1..unat diff}. (unat x div 64 + d) mod 128 = i then 0 else ring ! i)"
    using clear_fold [OF assms(1)] assms(3) by simp_all
qed

section \<open>Refinement\<close>

lemma bit_or_single: "old \<noteq> old OR push_bit k (1 :: u64) \<longleftrightarrow> \<not> bit old k" if "k < 64"
proof
  show "old \<noteq> old OR push_bit k 1 \<Longrightarrow> \<not> bit old k"
    by (rule ccontr, erule notE, rule bit_eqI) (auto simp: bit_simps)
next
  assume "\<not> bit old k"
  moreover have "bit (old OR push_bit k 1) k" using that by (simp add: bit_simps)
  ultimately show "old \<noteq> old OR push_bit k 1" by metis
qed

lemma block_unique_le: "b mod 128 = b' mod 128 \<Longrightarrow> b \<le> b' \<Longrightarrow> b' \<le> b + 127 \<Longrightarrow> b = (b' :: nat)"
proof -
  assume a: "b mod 128 = b' mod 128" "b \<le> b'" "b' \<le> b + 127"
  then have "(b' - b) mod 128 = 0" using mod_eq_dvd_iff_nat [of b b' 128] by (simp add: dvd_eq_mod_eq_0)
  then show ?thesis using a(2,3) by simp
qed

lemma block_unique: "b mod 128 = b' mod 128 \<Longrightarrow> b \<le> B \<Longrightarrow> B \<le> b + 127 \<Longrightarrow> b' \<le> B \<Longrightarrow> B \<le> b' + 127 \<Longrightarrow> b = (b' :: nat)"
  using block_unique_le [of b b'] block_unique_le [of b' b] by linarith

lemma block_hit: "\<exists>d\<in>{1..128}. (B + d) mod 128 = c mod (128 :: nat)"
proof
  have "(B + ((c + 127 * (B + 1)) mod 128 + 1)) mod 128 = ((B + 1) + (c + 127 * (B + 1)) mod 128) mod 128" by (simp add: ac_simps)
  also have "\<dots> = ((B + 1) + (c + 127 * (B + 1))) mod 128" by (rule mod_add_right_eq)
  also have "(B + 1) + (c + 127 * (B + 1)) = c + (B + 1) * 128" by simp
  also have "\<dots> mod 128 = c mod 128" by (rule mod_mult_self1)
  finally show "(B + ((c + 127 * (B + 1)) mod 128 + 1)) mod 128 = c mod 128" .
  have "(c + 127 * (B + 1)) mod 128 < 128" by simp
  then show "(c + 127 * (B + 1)) mod 128 + 1 \<in> {1..128}" by simp
qed

lemma number_unique: "k < 64 \<Longrightarrow> (64 * b + k = x) \<longleftrightarrow> b = x div 64 \<and> k = x mod (64 :: nat)"
  by auto

lemma check_and_set_rep:
  assumes "window_rep f (m, seen)" "unat x \<le> m" "m \<le> unat x + 8128" "check_and_set x (drop_bit 6 x) f = (f', ok)"
  shows "ok \<longleftrightarrow> unat x \<notin> seen" "window_rep f' (m, insert (unat x) seen)"
proof -
  let ?b = "unat x div 64" and ?k = "unat x mod 64"
  define old where "old = packet_ring f ! (?b mod 128)"
  have r: "unat (last_packet_id f) = m" "length (packet_ring f) = 128" "\<forall>y\<in>seen. y \<le> m"
    "\<And>b k. b \<le> m div 64 \<Longrightarrow> m div 64 \<le> b + 127 \<Longrightarrow> k < 64 \<Longrightarrow> bit (packet_ring f ! (b mod 128)) k = (64 * b + k \<in> seen)"
    using assms(1) by (auto simp: window_rep_def)
  have b: "?b \<le> m div 64" "m div 64 \<le> ?b + 127" using assms(2,3) using div_le_mono [of m "unat x + 127 * 64" 64] by (simp_all add: div_le_mono)
  have f': "f' = f\<lparr>packet_ring := (packet_ring f)[?b mod 128 := old OR push_bit ?k 1]\<rparr>" "ok \<longleftrightarrow> old \<noteq> old OR push_bit ?k 1"
    using assms(4) by (auto simp: check_and_set_def Let_def window_constants unat_masks unat_block old_def)
  have old: "bit old k = (64 * ?b + k \<in> seen)" if "k < 64" for k using r(4) [OF b that] by (simp add: old_def)
  show "ok \<longleftrightarrow> unat x \<notin> seen" unfolding f'(2) using old [of ?k] bit_or_single [of ?k old] by simp
  have "bit (packet_ring f' ! (c mod 128)) k = (64 * c + k \<in> insert (unat x) seen)"
    if c: "c \<le> m div 64" "m div 64 \<le> c + 127" "k < 64" for c k
  proof (cases "c mod 128 = ?b mod 128")
    case True
    then have "c = ?b" using block_unique [OF _ c(1,2) b] by blast
    then show ?thesis using old [OF c(3)] r(2) c(3) by (auto simp: f' bit_simps number_unique)
  next
    case False
    then have "c \<noteq> ?b" by auto
    then show ?thesis using r(4) [OF c] r(2) False by (auto simp: f' number_unique [OF c(3)])
  qed
  then show "window_rep f' (m, insert (unat x) seen)" using r assms(2) by (auto simp: window_rep_def f')
qed

lemma forward_rep:
  assumes "window_rep f (m, seen)" "m < unat x"
  defines "diff \<equiv> drop_bit 6 x - drop_bit 6 (last_packet_id f)"
  shows "window_rep (f\<lparr>packet_ring := clear_blocks (drop_bit 6 (last_packet_id f)) (if diff > 128 then 128 else diff) (packet_ring f), last_packet_id := x\<rparr>)
    (unat x, seen)"
proof -
  let ?l = "last_packet_id f" and ?B = "m div 64" and ?B' = "unat x div 64"
  define n where "n = min 128 (?B' - ?B)"
  have r: "unat ?l = m" "length (packet_ring f) = 128" "\<forall>y\<in>seen. y \<le> m"
    "\<And>b k. b \<le> ?B \<Longrightarrow> ?B \<le> b + 127 \<Longrightarrow> k < 64 \<Longrightarrow> bit (packet_ring f ! (b mod 128)) k = (64 * b + k \<in> seen)"
    using assms(1) by (auto simp: window_rep_def)
  have le: "?B \<le> ?B'" using assms(2) by (simp add: div_le_mono)
  then have d: "unat diff = ?B' - ?B" unfolding diff_def by (simp add: unat_sub word_le_nat_alt unat_block r(1))
  then have n: "unat (if diff > 128 then 128 else diff) = n" by (auto simp: word_less_nat_alt n_def)
  define ring where "ring = clear_blocks (drop_bit 6 ?l) (if diff > 128 then 128 else diff) (packet_ring f)"
  have ring: "length ring = 128" "ring ! (c mod 128) = (if \<exists>d\<in>{1..n}. (?B + d) mod 128 = c mod 128 then 0 else packet_ring f ! (c mod 128))" for c
    using clear_blocks_nth [OF r(2), of "if diff > 128 then 128 else diff" "c mod 128" ?l] n by (simp_all add: ring_def r(1) n_def)
  have "bit (ring ! (c mod 128)) k = (64 * c + k \<in> seen)" if c: "c \<le> ?B'" "?B' \<le> c + 127" "k < 64" for c k
  proof (cases "c \<le> ?B")
    case True
    have "(?B + d) mod 128 \<noteq> c mod 128" if "d \<in> {1..n}" for d
    proof
      assume e: "(?B + d) mod 128 = c mod 128"
      have "?B + d \<le> ?B'" "1 \<le> d" using that le by (auto simp: n_def)
      then have "?B + d = c" using c(1,2) True by (intro block_unique [OF e, of ?B']) auto
      then show False using True \<open>1 \<le> d\<close> by simp
    qed
    then show ?thesis using r(4) [OF True _ c(3)] c(2) le by (simp add: ring)
  next
    case False
    have "\<exists>d\<in>{1..n}. (?B + d) mod 128 = c mod 128"
    proof (cases "c - ?B \<le> n")
      case True
      then show ?thesis using False by (intro bexI [of _ "c - ?B"]) auto
    next
      case wide: False
      then have n128: "n = 128" using c(1) by (auto simp: n_def)
      then show ?thesis using block_hit [of ?B c] by simp
    qed
    moreover have "m < 64 * c + k" using False by auto
    ultimately show ?thesis using r(3) by (auto simp: ring)
  qed
  then show ?thesis using ring(1) r(3) assms(2) unfolding ring_def [symmetric] by (auto simp: window_rep_def)
qed

lemma validate_rep:
  assumes "window_rep f s" "validate_packet_id x limit f = (f', ok)"
  shows "\<exists>s'. spec_validate (unat x) (unat limit) s = (s', ok) \<and> window_rep f' s'"
proof -
  obtain m seen where s: "s = (m, seen)" by fastforce
  have r: "unat (last_packet_id f) = m" "\<forall>y\<in>seen. y \<le> m" using assms(1) by (auto simp: window_rep_def s)
  consider "limit \<le> x" | "x < limit" "m < unat x" | "x < limit" "unat x \<le> m" "m \<le> unat x + 8128" | "x < limit" "unat x + 8128 < m"
    by (metis not_le)
  then show ?thesis
  proof cases
    case 1
    then show ?thesis using assms by (auto simp: validate_packet_id_def s word_le_nat_alt)
  next
    case 2
    define diff where "diff = drop_bit 6 x - drop_bit 6 (last_packet_id f)"
    define g where "g = f\<lparr>packet_ring := clear_blocks (drop_bit 6 (last_packet_id f)) (if diff > 128 then 128 else diff) (packet_ring f), last_packet_id := x\<rparr>"
    have "window_rep g (unat x, seen)" unfolding g_def diff_def by (rule forward_rep [OF assms(1) [unfolded s] 2(2)])
    moreover have "check_and_set x (drop_bit 6 x) g = (f', ok)"
    proof -
      have "\<not> limit \<le> x" "last_packet_id f < x" using 2 r(1) by (simp_all add: word_less_nat_alt word_le_nat_alt)
      then show ?thesis using assms(2) unfolding validate_packet_id_def Let_def window_constants g_def diff_def by simp
    qed
    moreover have "unat x \<notin> seen" using r(2) 2(2) by force
    ultimately show ?thesis using check_and_set_rep [of g "unat x" seen x f' ok] 2 by (simp add: s word_less_nat_alt max_def)
  next
    case 3
    then have "check_and_set x (drop_bit 6 x) f = (f', ok)"
      using assms(2) r(1) by (simp add: validate_packet_id_def Let_def window_constants word_less_nat_alt unat_sub word_le_nat_alt split: if_splits)
    from check_and_set_rep [OF assms(1) [unfolded s] 3(2,3) this] show ?thesis
      using 3 by (auto simp: s word_less_nat_alt max_def insert_absorb)
  next
    case 4
    then show ?thesis
      using assms r(1) by (auto simp: validate_packet_id_def Let_def window_constants word_less_nat_alt unat_sub word_le_nat_alt s split: if_splits)
  qed
qed

section \<open>Runs\<close>

datatype window_op = Validate u64 u64 | Reset
datatype window_event = Accepted u64 | Rejected u64 | Was_reset

fun window_step :: "window_op \<Rightarrow> PacketWindowFilter \<Rightarrow> (PacketWindowFilter \<times> window_event list) option" where
  "window_step (Validate x limit) f = (case validate_packet_id x limit f of (f, ok) \<Rightarrow> Some (f, [if ok then Accepted x else Rejected x]))"
| "window_step Reset f = Some (filter_reset f, [Was_reset])"

fun spec_step :: "window_op \<Rightarrow> window_spec \<Rightarrow> (window_spec \<times> window_event list) option" where
  "spec_step (Validate x limit) s =
     (case spec_validate (unat x) (unat limit) s of (s, ok) \<Rightarrow> Some (s, [if ok then Accepted x else Rejected x]))"
| "spec_step Reset s = Some ((0, {}), [Was_reset])"

lemma rep_empty: "length (packet_ring f) = 128 \<Longrightarrow> last_packet_id f = 0 \<Longrightarrow> packet_ring f ! 0 = 0 \<Longrightarrow> window_rep f (0, {})"
  by (simp add: window_rep_def)

lemma rep_new: "window_rep filter_new (0, {})"
  by (rule rep_empty) (simp_all add: filter_new_def window_constants)

lemma rep_reset: "window_rep f s \<Longrightarrow> window_rep (filter_reset f) (0, {})"
  by (rule rep_empty) (auto simp: filter_reset_def window_rep_def)

interpretation window: simulation window_rep window_step spec_step
proof
  fix f s x s' as
  assume r: "window_rep f s" and a: "spec_step x s = Some (s', as)"
  show "\<exists>f'. window_step x f = Some (f', as) \<and> window_rep f' s'"
  proof (cases x)
    case (Validate i limit)
    obtain f' ok where v: "validate_packet_id i limit f = (f', ok)" by fastforce
    with validate_rep [OF r v] a Validate show ?thesis by auto
  next
    case Reset
    then show ?thesis using a rep_reset [OF r] by auto
  qed
qed

lemma spec_total: "\<exists>s' as. run_ops spec_step ops s = Some (s', as)"
proof (induction ops arbitrary: s)
  case (Cons x ops)
  obtain s1 a1 where "spec_step x s = Some (s1, a1)" by (cases x; cases "spec_validate (unat (case x of Validate i _ \<Rightarrow> i)) (unat (case x of Validate _ l \<Rightarrow> l)) s") auto
  with Cons.IH [of s1] show ?case by auto
qed simp

text \<open>The numbers accepted since the last reset, and those of a part of a run without one.\<close>

fun accepted :: "window_event list \<Rightarrow> u64 list" where
  "accepted [] = []"
| "accepted (Accepted x # h) = x # accepted h"
| "accepted (_ # h) = accepted h"

lemma accepted_append [simp]: "accepted (h @ h') = accepted h @ accepted h'"
  by (induction h rule: accepted.induct) auto

lemma spec_accepts_once:
  assumes "run_ops spec_step ops (m, seen) = Some (s', h)" "Was_reset \<notin> set h"
  shows "distinct (accepted h) \<and> (\<forall>x\<in>set (accepted h). unat x \<notin> seen) \<and> snd s' = seen \<union> unat ` set (accepted h)"
  using assms
proof (induction ops arbitrary: m seen h)
  case Nil
  then show ?case by auto
next
  case (Cons x ops)
  from Cons.prems obtain s1 h1 h2 where s: "spec_step x (m, seen) = Some (s1, h1)" "run_ops spec_step ops s1 = Some (s', h2)" "h = h1 @ h2"
    by (auto split: option.splits prod.splits)
  obtain m1 seen1 where s1: "s1 = (m1, seen1)" by fastforce
  have "(\<exists>i. h1 = [Accepted i] \<and> unat i \<notin> seen \<and> seen1 = insert (unat i) seen) \<or> (accepted h1 = [] \<and> seen1 = seen)"
    using s(1) Cons.prems(2) s(3) by (cases x) (auto simp: s1 split: if_splits)
  then show ?case using Cons.IH [OF s(2) [unfolded s1]] Cons.prems(2) s(3) by auto
qed

lemma packet_window_rep:
  "\<exists>f s h. run_ops window_step ops filter_new = Some (f, h) \<and> run_ops spec_step ops (0, {}) = Some (s, h) \<and> window_rep f s"
proof -
  obtain s h where s: "run_ops spec_step ops (0, {}) = Some (s, h)" using spec_total by blast
  from window.run_sim [OF rep_new this] s show ?thesis by blast
qed

text \<open>C30.  The filter implements the set of all accepted numbers: in every sequence of checks and resets it accepts exactly the numbers that
  are below the limit, were not accepted since the last reset, and are not more than the window of 8128 behind the greatest number accepted.  The
  specification never refuses a step, so the filter never panics.\<close>

theorem packet_window_refines:
  "\<exists>f s h. run_ops window_step ops filter_new = Some (f, h) \<and> run_ops spec_step ops (0, {}) = Some (s, h) \<and> window_rep f s"
  by (rule packet_window_rep)

text \<open>No replay: whatever the filter was used for before, between resets it accepts each number at most once.\<close>

theorem packet_window_no_replay:
  assumes "run_ops window_step ops filter_new = Some (f, h)" "run_ops window_step ops' (filter_reset f) = Some (f', h')" "Was_reset \<notin> set h'"
  shows "distinct (accepted h')"
proof -
  from packet_window_rep [of ops] assms(1) obtain s where "window_rep f s" by auto
  then have "window_rep (filter_reset f) (0, {})" by (rule rep_reset)
  moreover obtain t k where t: "run_ops spec_step ops' (0, {}) = Some (t, k)" using spec_total by blast
  ultimately have "k = h'" using window.run_sim [OF _ t] assms(2) by fastforce
  then show ?thesis using spec_accepts_once [OF t] assms(3) by blast
qed

theorem packet_window_no_replay_witness:
  "\<exists>f'. run_ops window_step [Validate 5 100, Validate 5 100, Validate 3 100] (filter_reset filter_new) = Some (f', [Accepted 5, Rejected 5, Accepted 3]) \<and>
    distinct (accepted [Accepted 5, Rejected 5, Accepted 3])"
proof -
  have "run_ops spec_step [Validate 5 100, Validate 5 100, Validate 3 100] (0, {}) = Some ((5, {3, 5}), [Accepted 5, Rejected 5, Accepted 3])" by simp
  from window.run_sim [OF rep_reset [OF rep_new] this] obtain f'
    where r: "run_ops window_step [Validate 5 100, Validate 5 100, Validate 3 100] (filter_reset filter_new) = Some (f', [Accepted 5, Rejected 5, Accepted 3])"
    by blast
  have "run_ops window_step [] filter_new = Some (filter_new, [])" by simp
  from packet_window_no_replay [OF this r] r show ?thesis by simp
qed

end
