(* ===== verification/Ss_Socks5.thy ===== *)
theory Ss_Socks5
  imports Prelude
begin

text \<open>
  The SOCKS5 messages of the Rust proxy, \<^verbatim>\<open>shadowsocks/src/relay/socks5.rs\<close>: addresses, requests and replies, their readers and
  writers.  A stream is the bytes it delivers before its end; \<^verbatim>\<open>read_exact\<close> fails at the end.  A reader returns its value with the
  rest of the stream, an error, or panics.
\<close>

section \<open>Streams and outcomes\<close>

datatype socks5_error =
    IoError
  | AddressTypeNotSupported byte
  | AddressDomainInvalidEncoding
  | UnsupportedSocksVersion byte
  | UnsupportedCommand byte
  | UnsupportedPasswdAuthVersion byte
  | PasswdAuthInvalidRequest

datatype 'a outcome = Done 'a "byte list" | Fail socks5_error | Panic

fun and_then :: "'a outcome \<Rightarrow> ('a \<Rightarrow> byte list \<Rightarrow> 'b outcome) \<Rightarrow> 'b outcome" where
  "and_then (Done x s) f = f x s"
| "and_then (Fail e) f = Fail e"
| "and_then Panic f = Panic"

definition read_exact :: "nat \<Rightarrow> byte list \<Rightarrow> byte list outcome" where
  "read_exact n s = (if n \<le> length s then Done (take n s) (drop n s) else Fail IoError)"

text \<open>The getters of \<^verbatim>\<open>bytes::Buf\<close> panic when too few bytes remain.\<close>

definition get_bytes :: "nat \<Rightarrow> byte list \<Rightarrow> byte list outcome" where
  "get_bytes n s = (if n \<le> length s then Done (take n s) (drop n s) else Panic)"

text \<open>Well-formed UTF-8 (the byte sequences \<^verbatim>\<open>String::from_utf8\<close> accepts).\<close>

definition cont :: "byte \<Rightarrow> bool" where
  "cont b \<longleftrightarrow> 0x80 \<le> b \<and> b \<le> 0xBF"

fun utf8 :: "byte list \<Rightarrow> bool" where
  "utf8 [] = True"
| "utf8 (a # s) =
     (if a \<le> 0x7F then utf8 s
      else case s of
        [] \<Rightarrow> False
      | b # s1 \<Rightarrow>
          if 0xC2 \<le> a \<and> a \<le> 0xDF then cont b \<and> utf8 s1
          else case s1 of
            [] \<Rightarrow> False
          | c # s2 \<Rightarrow>
              if 0xE0 \<le> a \<and> a \<le> 0xEF then
                cont b \<and> (a = 0xE0 \<longrightarrow> 0xA0 \<le> b) \<and> (a = 0xED \<longrightarrow> b \<le> 0x9F) \<and> cont c \<and> utf8 s2
              else case s2 of
                [] \<Rightarrow> False
              | d # s3 \<Rightarrow>
                  0xF0 \<le> a \<and> a \<le> 0xF4 \<and> cont b \<and> (a = 0xF0 \<longrightarrow> 0x90 \<le> b) \<and> (a = 0xF4 \<longrightarrow> b \<le> 0x8F) \<and> cont c \<and> cont d \<and> utf8 s3)"

section \<open>Addresses\<close>

text \<open>An IPv4 address by its octets, an IPv6 address by its segments with port, flow info and scope; a \<^verbatim>\<open>String\<close> by its bytes.\<close>

datatype SocketAddr = V4 "byte list" u16 | V6 "u16 list" u16 u32 u32
datatype Address = SocketAddress SocketAddr | DomainNameAddress "byte list" u16

fun segments :: "byte list \<Rightarrow> u16 list" where
  "segments (a # b # s) = un_be16 [a, b] # segments s"
| "segments _ = []"

definition read_cursor :: "byte list \<Rightarrow> Address outcome" where
  "read_cursor cur =
     (if length cur < 2 then Fail IoError
      else and_then (get_bytes 1 cur) (\<lambda>b cur.
        let atyp = b ! 0 in
        if atyp = 1 then
          (if length cur < 4 + 2 then Fail IoError
           else and_then (get_bytes 4 cur) (\<lambda>addr cur. and_then (get_bytes 2 cur) (\<lambda>port cur.
             Done (SocketAddress (V4 addr (un_be16 port))) cur)))
        else if atyp = 4 then
          (if length cur < 16 + 2 then Fail IoError
           else and_then (get_bytes 16 cur) (\<lambda>addr cur. and_then (get_bytes 2 cur) (\<lambda>port cur.
             Done (SocketAddress (V6 (segments addr) (un_be16 port) 0 0)) cur)))
        else if atyp = 3 then
          and_then (get_bytes 1 cur) (\<lambda>len cur.
            let domain_len = unat (len ! 0) in
            if length cur < domain_len then Fail AddressDomainInvalidEncoding
            else and_then (get_bytes domain_len cur) (\<lambda>buf cur. and_then (get_bytes 2 cur) (\<lambda>port cur.
              if utf8 buf then Done (DomainNameAddress buf (un_be16 port)) cur else Fail AddressDomainInvalidEncoding)))
        else Fail (AddressTypeNotSupported atyp)))"

definition read_from :: "byte list \<Rightarrow> Address outcome" where
  "read_from stream =
     and_then (read_exact 1 stream) (\<lambda>b stream.
       let addr_type = b ! 0 in
       if addr_type = 1 then
         and_then (read_exact 6 stream) (\<lambda>buf stream. Done (SocketAddress (V4 (take 4 buf) (un_be16 (drop 4 buf)))) stream)
       else if addr_type = 4 then
         and_then (read_exact 18 stream) (\<lambda>buf stream.
           let buf = segments buf in Done (SocketAddress (V6 (take 8 buf) (buf ! 8) 0 0)) stream)
       else if addr_type = 3 then
         and_then (read_exact 1 stream) (\<lambda>length_buf stream.
           let len = unat (length_buf ! 0); buf_length = len + 2 in
           and_then (read_exact buf_length stream) (\<lambda>raw_addr stream.
             let port = un_be16 (drop len raw_addr); raw_addr = take len raw_addr in
             if utf8 raw_addr then Done (DomainNameAddress raw_addr port) stream else Fail AddressDomainInvalidEncoding))
       else Fail (AddressTypeNotSupported addr_type))"

definition write_ipv4_address :: "byte list \<Rightarrow> u16 \<Rightarrow> byte list" where
  "write_ipv4_address octets port = [1] @ octets @ be16 port"

definition write_ipv6_address :: "u16 list \<Rightarrow> u16 \<Rightarrow> byte list" where
  "write_ipv6_address segs port = [4] @ concat (map be16 segs) @ be16 port"

text \<open>\<open>None\<close> is a failed assertion.\<close>

definition write_domain_name_address :: "byte list \<Rightarrow> u16 \<Rightarrow> byte list option" where
  "write_domain_name_address dnaddr port =
     (if length dnaddr \<le> 255 then Some ([3] @ [of_nat (length dnaddr)] @ dnaddr @ be16 port) else None)"

fun write_socket_address :: "SocketAddr \<Rightarrow> byte list" where
  "write_socket_address (V4 octets port) = write_ipv4_address octets port"
| "write_socket_address (V6 segs port flowinfo scope) = write_ipv6_address segs port"

fun write_address :: "Address \<Rightarrow> byte list option" where
  "write_address (SocketAddress addr) = Some (write_socket_address addr)"
| "write_address (DomainNameAddress dnaddr port) = write_domain_name_address dnaddr port"

fun get_addr_len :: "Address \<Rightarrow> nat" where
  "get_addr_len (SocketAddress (V4 octets port)) = 1 + 4 + 2"
| "get_addr_len (SocketAddress (V6 segs port flowinfo scope)) = 1 + 8 * 2 + 2"
| "get_addr_len (DomainNameAddress dmname port) = 1 + 1 + length dmname + 2"

definition max_serialized_len :: nat where
  "max_serialized_len = 1 + 1 + 255 + 2"

section \<open>Messages\<close>

datatype Command = TcpConnect | TcpBind | UdpAssociate

fun command_as_u8 :: "Command \<Rightarrow> byte" where
  "command_as_u8 TcpConnect = 1"
| "command_as_u8 TcpBind = 2"
| "command_as_u8 UdpAssociate = 3"

definition command_from_u8 :: "byte \<Rightarrow> Command option" where
  "command_from_u8 code = (if code = 1 then Some TcpConnect else if code = 2 then Some TcpBind else if code = 3 then Some UdpAssociate else None)"

datatype Reply = Succeeded | GeneralFailure | ConnectionNotAllowed | NetworkUnreachable | HostUnreachable | ConnectionRefused | TtlExpired
  | CommandNotSupported | ReplyAddressTypeNotSupported | OtherReply byte

fun reply_as_u8 :: "Reply \<Rightarrow> byte" where
  "reply_as_u8 Succeeded = 0"
| "reply_as_u8 GeneralFailure = 1"
| "reply_as_u8 ConnectionNotAllowed = 2"
| "reply_as_u8 NetworkUnreachable = 3"
| "reply_as_u8 HostUnreachable = 4"
| "reply_as_u8 ConnectionRefused = 5"
| "reply_as_u8 TtlExpired = 6"
| "reply_as_u8 CommandNotSupported = 7"
| "reply_as_u8 ReplyAddressTypeNotSupported = 8"
| "reply_as_u8 (OtherReply c) = c"

definition reply_from_u8 :: "byte \<Rightarrow> Reply" where
  "reply_from_u8 code =
     (if code = 0 then Succeeded else if code = 1 then GeneralFailure else if code = 2 then ConnectionNotAllowed
      else if code = 3 then NetworkUnreachable else if code = 4 then HostUnreachable else if code = 5 then ConnectionRefused
      else if code = 6 then TtlExpired else if code = 7 then CommandNotSupported else if code = 8 then ReplyAddressTypeNotSupported
      else OtherReply code)"

record TcpRequestHeader =
  command :: Command
  request_address :: Address

record TcpResponseHeader =
  reply :: Reply
  response_address :: Address

record UdpAssociateHeader =
  frag :: byte
  udp_address :: Address

record PasswdAuthRequest =
  uname :: "byte list"
  passwd :: "byte list"

definition request_read_from :: "byte list \<Rightarrow> TcpRequestHeader outcome" where
  "request_read_from r =
     and_then (read_exact 3 r) (\<lambda>buf r.
       if buf ! 0 \<noteq> 5 then Fail (UnsupportedSocksVersion (buf ! 0))
       else case command_from_u8 (buf ! 1) of
         None \<Rightarrow> Fail (UnsupportedCommand (buf ! 1))
       | Some c \<Rightarrow> and_then (read_from r) (\<lambda>a r. Done \<lparr>command = c, request_address = a\<rparr> r))"

definition request_write_to_buf :: "TcpRequestHeader \<Rightarrow> byte list option" where
  "request_write_to_buf h = map_option (\<lambda>a. [5, command_as_u8 (command h), 0] @ a) (write_address (request_address h))"

definition response_read_from :: "byte list \<Rightarrow> TcpResponseHeader outcome" where
  "response_read_from r =
     and_then (read_exact 3 r) (\<lambda>buf r.
       if buf ! 0 \<noteq> 5 then Fail (UnsupportedSocksVersion (buf ! 0))
       else and_then (read_from r) (\<lambda>a r. Done \<lparr>reply = reply_from_u8 (buf ! 1), response_address = a\<rparr> r))"

definition response_write_to_buf :: "TcpResponseHeader \<Rightarrow> byte list option" where
  "response_write_to_buf h = map_option (\<lambda>a. [5, reply_as_u8 (reply h), 0] @ a) (write_address (response_address h))"

definition handshake_read_from :: "byte list \<Rightarrow> byte list outcome" where
  "handshake_read_from r =
     and_then (read_exact 2 r) (\<lambda>buf r.
       if buf ! 0 \<noteq> 5 then Fail (UnsupportedSocksVersion (buf ! 0)) else read_exact (unat (buf ! 1)) r)"

text \<open>The number of methods is written modulo 256.\<close>

definition handshake_write_to_buf :: "byte list \<Rightarrow> byte list" where
  "handshake_write_to_buf methods = [5, of_nat (length methods)] @ methods"

definition handshake_response_read_from :: "byte list \<Rightarrow> byte outcome" where
  "handshake_response_read_from r =
     and_then (read_exact 2 r) (\<lambda>buf r. if buf ! 0 \<noteq> 5 then Fail (UnsupportedSocksVersion (buf ! 0)) else Done (buf ! 1) r)"

definition handshake_response_write_to_buf :: "byte \<Rightarrow> byte list" where
  "handshake_response_write_to_buf chosen_method = [5, chosen_method]"

definition udp_read_from :: "byte list \<Rightarrow> UdpAssociateHeader outcome" where
  "udp_read_from r =
     and_then (read_exact 3 r) (\<lambda>buf r. and_then (read_from r) (\<lambda>a r. Done \<lparr>frag = buf ! 2, udp_address = a\<rparr> r))"

definition udp_write_to_buf :: "UdpAssociateHeader \<Rightarrow> byte list option" where
  "udp_write_to_buf h = map_option (\<lambda>a. [0, 0, frag h] @ a) (write_address (udp_address h))"

text \<open>\<open>None\<close> is the failed assertion of \<^verbatim>\<open>PasswdAuthRequest::new\<close>.\<close>

definition passwd_request_new :: "byte list \<Rightarrow> byte list \<Rightarrow> PasswdAuthRequest option" where
  "passwd_request_new u p =
     (if u \<noteq> [] \<and> length u \<le> 255 \<and> p \<noteq> [] \<and> length p \<le> 255 then Some \<lparr>uname = u, passwd = p\<rparr> else None)"

definition passwd_request_read_from :: "byte list \<Rightarrow> PasswdAuthRequest outcome" where
  "passwd_request_read_from r =
     and_then (read_exact 1 r) (\<lambda>ver_buf r.
       if ver_buf ! 0 \<noteq> 1 then Fail (UnsupportedPasswdAuthVersion (ver_buf ! 0))
       else and_then (read_exact 1 r) (\<lambda>ulen_buf r.
         let ulen = unat (ulen_buf ! 0) in
         if ulen = 0 then Fail PasswdAuthInvalidRequest
         else and_then (read_exact ulen r) (\<lambda>u r. and_then (read_exact 1 r) (\<lambda>plen_buf r.
           let plen = unat (plen_buf ! 0) in
           if plen = 0 then Fail PasswdAuthInvalidRequest
           else and_then (read_exact plen r) (\<lambda>p r. Done \<lparr>uname = u, passwd = p\<rparr> r)))))"

definition passwd_request_write_to_buf :: "PasswdAuthRequest \<Rightarrow> byte list" where
  "passwd_request_write_to_buf h = [1] @ [of_nat (length (uname h))] @ uname h @ [of_nat (length (passwd h))] @ passwd h"

text \<open>The result of \<^verbatim>\<open>read_exact\<close> is dropped here: the bytes that came are in the buffer, the others stay zero.\<close>

definition passwd_response_read_from :: "byte list \<Rightarrow> byte outcome" where
  "passwd_response_read_from r =
     (let buf = take 2 (take 2 r @ [0, 0])
      in if buf ! 0 \<noteq> 1 then Fail (UnsupportedPasswdAuthVersion (buf ! 0)) else Done (buf ! 1) (drop 2 r))"

definition passwd_response_write_to_buf :: "byte \<Rightarrow> byte list" where
  "passwd_response_write_to_buf status = [1] @ [status]"

section \<open>Readers and writers are inverse\<close>

fun addr_ok :: "Address \<Rightarrow> bool" where
  "addr_ok (SocketAddress (V4 octets port)) \<longleftrightarrow> length octets = 4"
| "addr_ok (SocketAddress (V6 segs port flowinfo scope)) \<longleftrightarrow> length segs = 8 \<and> flowinfo = 0 \<and> scope = 0"
| "addr_ok (DomainNameAddress dn port) \<longleftrightarrow> length dn \<le> 255 \<and> utf8 dn"

lemma and_then_Done: "and_then m f = Done y s \<longleftrightarrow> (\<exists>x s'. m = Done x s' \<and> f x s' = Done y s)"
  by (cases m) auto

lemma and_then_Panic: "and_then m f = Panic \<longleftrightarrow> m = Panic \<or> (\<exists>x s. m = Done x s \<and> f x s = Panic)"
  by (cases m) auto

lemma read_exact_Done: "read_exact n s = Done x s' \<longleftrightarrow> length x = n \<and> s = x @ s'"
  by (auto simp: read_exact_def)

lemma get_bytes_Done: "get_bytes n s = Done x s' \<longleftrightarrow> length x = n \<and> s = x @ s'"
  by (auto simp: get_bytes_def)

lemma getters_Panic: "read_exact n s \<noteq> Panic" "get_bytes n s = Panic \<longleftrightarrow> length s < n"
  by (auto simp: read_exact_def get_bytes_def)

lemmas outcome_simps = and_then_Done and_then_Panic read_exact_Done get_bytes_Done getters_Panic

lemma length_be16s: "length (concat (map be16 xs)) = 2 * length xs"
  by (induction xs) auto

lemma segments_be16 [simp]: "segments (be16 w @ s) = w # segments s"
  by (simp add: be16_def word16_of_def) (rule bit_eqI, auto simp: bit_simps)

lemma segments_concat [simp]: "segments (concat (map be16 xs) @ s) = xs @ segments s"
  by (induction xs) auto

lemma concat_segments: "even (length s) \<Longrightarrow> concat (map be16 (segments s)) = s"
  by (induction s rule: segments.induct) (auto simp: be16_un_be16)

lemma length_segments: "length (segments s) = length s div 2"
  by (induction s rule: segments.induct) auto

lemma unat_of_length: "length xs \<le> 255 \<Longrightarrow> unat (of_nat (length xs) :: byte) = length xs"
  by (simp add: unat_of_nat)

lemma of_nat_unat_byte [simp]: "of_nat (unat (b :: byte)) = b"
  by simp

lemma port_split: "length bs = 2 \<Longrightarrow> be16 (un_be16 bs) = bs"
  by (rule be16_un_be16_list)

lemma split_last2: "length xs = n + 2 \<Longrightarrow> \<exists>ys zs. xs = ys @ zs \<and> length ys = n \<and> length zs = 2"
  by (intro exI [of _ "take n xs"] exI [of _ "drop n xs"]) auto

lemma segments_append: "even (length xs) \<Longrightarrow> segments (xs @ ys) = segments xs @ segments ys"
  by (induction xs rule: segments.induct) auto

lemma segments_split:
  assumes "18 \<le> length s"
  shows "take 8 (segments (take 18 s)) = segments (take 16 s)" "segments (take 18 s) ! 8 = un_be16 (take 2 (drop 16 s))"
proof -
  have "take 18 s = take 16 s @ take 2 (drop 16 s)" using take_add [of 16 2 s] by simp
  moreover have "length (segments (take 16 s)) = 8" using assms by (simp add: length_segments)
  moreover have "length (drop 16 s) \<ge> 2" using assms by simp
  then obtain a b t where "drop 16 s = a # b # t" by (cases "drop 16 s"; cases "tl (drop 16 s)") auto
  ultimately show "take 8 (segments (take 18 s)) = segments (take 16 s)" "segments (take 18 s) ! 8 = un_be16 (take 2 (drop 16 s))"
    using assms segments_append [of "take 16 s" "[a, b]"] by (simp_all add: nth_append)
qed

text \<open>The two readers of an address, by its first bytes.\<close>

lemma read_exact_1 [simp]: "read_exact (Suc 0) (t # s) = Done [t] s" "get_bytes (Suc 0) (t # s) = Done [t] s"
  by (simp_all add: read_exact_def get_bytes_def)

lemma read_from_cases:
  "read_from [] = Fail IoError"
  "read_from (1 # s) = (if length s < 6 then Fail IoError else Done (SocketAddress (V4 (take 4 s) (un_be16 (take 2 (drop 4 s))))) (drop 6 s))"
  "read_from (4 # s) = (if length s < 18 then Fail IoError else Done (SocketAddress (V6 (segments (take 16 s)) (un_be16 (take 2 (drop 16 s))) 0 0)) (drop 18 s))"
  "read_from [3] = Fail IoError"
  "read_from (3 # n # s) = (if length s < unat n + 2 then Fail IoError
     else if utf8 (take (unat n) s) then Done (DomainNameAddress (take (unat n) s) (un_be16 (take 2 (drop (unat n) s)))) (drop (unat n + 2) s)
     else Fail AddressDomainInvalidEncoding)"
  "t \<noteq> 1 \<Longrightarrow> t \<noteq> 4 \<Longrightarrow> t \<noteq> 3 \<Longrightarrow> read_from (t # s) = Fail (AddressTypeNotSupported t)"
  by (simp_all add: read_from_def Let_def segments_split)
    (simp_all add: read_exact_def drop_take segments_split)

lemma read_cursor_cases:
  "read_cursor [] = Fail IoError" "read_cursor [t] = Fail IoError"
  "s \<noteq> [] \<Longrightarrow> read_cursor (1 # s) = read_from (1 # s)"
  "s \<noteq> [] \<Longrightarrow> read_cursor (4 # s) = read_from (4 # s)"
  "read_cursor (3 # n # s) = (if length s < unat n then Fail AddressDomainInvalidEncoding else if length s < unat n + 2 then Panic
     else read_from (3 # n # s))"
  "s \<noteq> [] \<Longrightarrow> t \<noteq> 1 \<Longrightarrow> t \<noteq> 4 \<Longrightarrow> t \<noteq> 3 \<Longrightarrow> read_cursor (t # s) = Fail (AddressTypeNotSupported t)"
  by (simp_all add: read_cursor_def read_from_cases Let_def not_less Suc_le_eq)
    (auto simp: get_bytes_def)


lemma read_from_write:
  assumes "addr_ok a" "write_address a = Some bs"
  shows "read_from (bs @ rest) = Done a rest"
  using assms
proof (induction a rule: addr_ok.induct)
  case (1 octets port)
  then show ?case by (auto simp: write_ipv4_address_def read_from_cases)
next
  case (2 segs port fl sc)
  have "segments (concat (map be16 segs)) = segs" using segments_concat [of segs "[]"] by simp
  then show ?case using 2 by (auto simp: write_ipv6_address_def read_from_cases length_be16s)
next
  case (3 dn port)
  then show ?case by (auto simp: write_domain_name_address_def read_from_cases unat_of_length split: if_splits)
qed

lemma read_from_Done:
  assumes "read_from s = Done a rest"
  shows "addr_ok a \<and> (\<exists>bs. write_address a = Some bs \<and> s = bs @ rest)"
proof -
  have port: "be16 (un_be16 (take 2 (drop n s1))) @ drop (n + 2) s1 = drop n s1" if "n + 2 \<le> length s1" for n and s1 :: "byte list"
    using that port_split [of "take 2 (drop n s1)"] append_take_drop_id [of 2 "drop n s1"] by (simp add: ac_simps)
  obtain t s1 where s: "s = t # s1" using assms read_from_cases(1) by (cases s) auto
  consider "t = 1" | "t = 4" | "t = 3" using assms read_from_cases(6) s by fastforce
  then show ?thesis
  proof cases
    case 1
    then show ?thesis using assms port [of 4 s1] by (auto simp: s read_from_cases write_ipv4_address_def split: if_splits)
  next
    case 2
    have "concat (map be16 (segments (take 16 s1))) = take 16 s1" if "18 \<le> length s1" by (rule concat_segments) (use that in simp)
    then show ?thesis using 2 assms port [of 16 s1]
      by (auto simp: s read_from_cases write_ipv6_address_def length_segments split: if_splits)
  next
    case 3
    obtain n s2 where s1: "s1 = n # s2" using assms 3 s read_from_cases(4) by (cases s1) auto
    then show ?thesis using 3 assms port [of "unat n" s2] unat_byte_less [of n]
      by (auto simp: s read_from_cases write_domain_name_address_def split: if_splits)
  qed
qed

lemma read_from_iff: "read_from s = Done a rest \<longleftrightarrow> addr_ok a \<and> (\<exists>bs. write_address a = Some bs \<and> s = bs @ rest)"
  using read_from_write read_from_Done by blast

lemma read_from_no_panic: "read_from s \<noteq> Panic"
proof (cases s)
  case (Cons t s1)
  then show ?thesis
    by (cases s1; cases "t = 1"; cases "t = 4"; cases "t = 3") (auto simp: read_from_cases)
qed (simp add: read_from_cases)

lemma serialized: "addr_ok a \<Longrightarrow> \<exists>bs. write_address a = Some bs \<and> length bs = get_addr_len a \<and> get_addr_len a \<le> max_serialized_len"
  by (induction a rule: addr_ok.induct)
    (auto simp: write_ipv4_address_def write_ipv6_address_def write_domain_name_address_def length_be16s max_serialized_len_def)


lemma read_cursor_spec:
  "(read_cursor s = Done a rest \<longleftrightarrow> read_from s = Done a rest) \<and>
   (read_cursor s = Panic \<longleftrightarrow> (\<exists>n d. s = 3 # n # d \<and> unat n \<le> length d \<and> length d < unat n + 2))"
proof (cases s)
  case (Cons t s1)
  show ?thesis
  proof (cases s1)
    case Nil
    then show ?thesis using Cons
      by (cases "t = 1"; cases "t = 4"; cases "t = 3") (auto simp: read_from_cases read_cursor_cases)
  next
    case (Cons n d)
    then show ?thesis using \<open>s = t # s1\<close> read_from_no_panic
      by (cases "t = 1"; cases "t = 4"; cases "t = 3") (auto simp: read_from_cases(5,6) read_cursor_cases)
  qed
qed (simp add: read_from_cases read_cursor_cases)

text \<open>The reader for datagrams accepts the same addresses as the reader for streams, but it panics on a datagram that ends inside
  the port after a domain name, and only there.\<close>

theorem read_cursor_panics:
  "(read_cursor s = Done a rest \<longleftrightarrow> read_from s = Done a rest) \<and>
   (read_cursor s = Panic \<longleftrightarrow> (\<exists>n d. s = 3 # n # d \<and> unat n \<le> length d \<and> length d < unat n + 2))"
  by (rule read_cursor_spec)

section \<open>Messages\<close>

lemma command_codec: "command_from_u8 b = Some c \<longleftrightarrow> command_as_u8 c = b"
  by (cases c) (auto simp: command_from_u8_def)

lemma reply_codec: "reply_as_u8 (reply_from_u8 b) = b"
  by (simp add: reply_from_u8_def)

text \<open>Every message with a proper address is read back as it was written, with the rest of the stream left: requests, replies
  (but for a code that has a name of its own) and associations.  The writer writes as many bytes as it announces, at most 259 for
  an address.\<close>

theorem socks5_messages_roundtrip:
  assumes "addr_ok a" "reply_from_u8 (reply_as_u8 rep) = rep"
  shows "\<exists>bs w1 w2 w3. write_address a = Some bs \<and> length bs = get_addr_len a \<and> get_addr_len a \<le> max_serialized_len \<and>
    request_write_to_buf \<lparr>command = c, request_address = a\<rparr> = Some w1 \<and> request_read_from (w1 @ rest) = Done \<lparr>command = c, request_address = a\<rparr> rest \<and>
    response_write_to_buf \<lparr>reply = rep, response_address = a\<rparr> = Some w2 \<and> response_read_from (w2 @ rest) = Done \<lparr>reply = rep, response_address = a\<rparr> rest \<and>
    udp_write_to_buf \<lparr>frag = f, udp_address = a\<rparr> = Some w3 \<and> udp_read_from (w3 @ rest) = Done \<lparr>frag = f, udp_address = a\<rparr> rest"
proof -
  obtain bs where bs: "write_address a = Some bs" "length bs = get_addr_len a" "get_addr_len a \<le> max_serialized_len" using serialized [OF assms(1)] by blast
  have "read_from (bs @ rest) = Done a rest" by (rule read_from_write [OF assms(1) bs(1)])
  moreover have "command_from_u8 (command_as_u8 c) = Some c" by (simp add: command_codec)
  ultimately show ?thesis using bs assms(2)
    by (simp add: request_write_to_buf_def request_read_from_def response_write_to_buf_def response_read_from_def udp_write_to_buf_def udp_read_from_def
        read_exact_def)
qed

theorem socks5_messages_roundtrip_witness:
  "\<exists>w. request_write_to_buf \<lparr>command = TcpConnect, request_address = DomainNameAddress [97, 46, 98] 80\<rparr> = Some w \<and>
    request_read_from (w @ [1, 2]) = Done \<lparr>command = TcpConnect, request_address = DomainNameAddress [97, 46, 98] 80\<rparr> [1, 2]"
proof -
  have "addr_ok (DomainNameAddress [97, 46, 98] 80)" "reply_from_u8 (reply_as_u8 Succeeded) = Succeeded" by (simp_all add: reply_from_u8_def)
  from socks5_messages_roundtrip [OF this, of TcpConnect "[1, 2]" 0] show ?thesis by blast
qed

text \<open>Credentials that can be made round trip, as do method lists that fit their length; a method list of 256 does not.\<close>

lemma read_exact_append [simp]: "length x = n \<Longrightarrow> read_exact n (x @ s) = Done x s"
  by (simp add: read_exact_def)

lemma passwd_request_roundtrip:
  assumes "passwd_request_new u p = Some cred"
  shows "passwd_request_read_from (passwd_request_write_to_buf cred @ rest) = Done cred rest"
proof -
  have c: "cred = \<lparr>uname = u, passwd = p\<rparr>" "length u \<noteq> 0" "length p \<noteq> 0" "length u \<le> 255" "length p \<le> 255"
    using assms by (auto simp: passwd_request_new_def split: if_splits)
  show ?thesis
    unfolding passwd_request_write_to_buf_def passwd_request_read_from_def Let_def
    using c(2,3) by (simp add: c(1) unat_of_length [OF c(4)] unat_of_length [OF c(5)])
qed

lemma handshake_roundtrip: "length methods \<le> 255 \<Longrightarrow> handshake_read_from (handshake_write_to_buf methods @ rest) = Done methods rest"
  by (simp add: handshake_read_from_def handshake_write_to_buf_def read_exact_def unat_of_length)

lemma handshake_response_roundtrip: "handshake_response_read_from (handshake_response_write_to_buf m @ rest) = Done m rest"
  by (simp add: handshake_response_read_from_def handshake_response_write_to_buf_def read_exact_def)

text \<open>The reply to credentials round trips, but a reply that is cut off after its version byte is read as a success, because the
  error of the short read is dropped.\<close>

theorem passwd_response_truncated:
  "passwd_response_read_from (passwd_response_write_to_buf st @ rest) = Done st rest \<and> passwd_response_read_from [1] = Done 0 [] \<and>
   passwd_response_read_from [] = Fail (UnsupportedPasswdAuthVersion 0)"
  by (simp add: passwd_response_read_from_def passwd_response_write_to_buf_def)

end
