(* ===== verification/Ss_Aead.thy ===== *)
theory Ss_Aead
  imports Ss_Socks5 "HOL-Library.Sublist"
begin

text \<open>
  The encrypted protocol of the Rust proxy: streams (\<^verbatim>\<open>shadowsocks/src/relay/tcprelay/aead.rs\<close>) and datagrams
  (\<^verbatim>\<open>shadowsocks/src/relay/udprelay/aead.rs\<close>).  The cipher is the crate \<^verbatim>\<open>shadowsocks-crypto\<close>, a parameter.  A socket is what it holds and a
  schedule of what it answers to each poll; where a schedule ends, the poll is pending.
\<close>

section \<open>The cipher\<close>

text \<open>The operations of \<^verbatim>\<open>crypto::v1::Cipher\<close> and the lengths of a \<^verbatim>\<open>CipherKind\<close>.  Both directions advance the state (the nonce); a decryption
  verifies the tag.\<close>

record 'c crypto =
  salt_len :: nat
  tag_len :: nat
  cipher_new :: "byte list \<Rightarrow> byte list \<Rightarrow> 'c"
  encrypt_packet :: "'c \<Rightarrow> byte list \<Rightarrow> 'c \<times> byte list"
  decrypt_packet :: "'c \<Rightarrow> byte list \<Rightarrow> 'c \<times> byte list option"

definition crypto_ok :: "'c crypto \<Rightarrow> bool" where
  "crypto_ok K \<longleftrightarrow> 0 < tag_len K \<and> (\<forall>c m. length (snd (encrypt_packet K c m)) = length m + tag_len K \<and>
     decrypt_packet K c (snd (encrypt_packet K c m)) = (fst (encrypt_packet K c m), Some m))"

definition MAX_PACKET_SIZE :: nat where
  "MAX_PACKET_SIZE = 0x3FFF"

section \<open>Writing\<close>

datatype EncryptWriteState = AssemblePacket | Writing nat

record 'c EncryptedWriter =
  w_cipher :: 'c
  w_buffer :: "byte list"
  w_state :: EncryptWriteState

datatype write_poll = WPending | WError | WAccept nat
datatype write_result = WrPending | WrError | WrOk nat

definition writer_new :: "'c crypto \<Rightarrow> byte list \<Rightarrow> byte list \<Rightarrow> 'c EncryptedWriter" where
  "writer_new K key nonce = \<lparr>w_cipher = cipher_new K key nonce, w_buffer = nonce, w_state = AssemblePacket\<rparr>"

definition assemble :: "'c crypto \<Rightarrow> 'c EncryptedWriter \<Rightarrow> byte list \<Rightarrow> 'c EncryptedWriter" where
  "assemble K w buf =
     (let (c, x) = encrypt_packet K (w_cipher w) (be16 (of_nat (length buf)));
          (c, y) = encrypt_packet K c buf
      in \<lparr>w_cipher = c, w_buffer = w_buffer w @ x @ y, w_state = Writing 0\<rparr>)"

text \<open>The loop that writes the buffer: the new position (\<open>Inr\<close> when all is written) and what was written.\<close>

fun write_loop :: "byte list \<Rightarrow> nat \<Rightarrow> write_poll list \<Rightarrow> byte list \<times> nat \<times> write_result option" where
  "write_loop b pos [] = ([], pos, if pos < length b then Some WrPending else None)"
| "write_loop b pos (e # env) =
     (if pos < length b then
        (case e of
           WAccept n \<Rightarrow>
             (let n = min n (length b - pos)
              in if n = 0 then ([], pos, Some WrError)
                 else (case write_loop b (pos + n) env of (out, pos', r) \<Rightarrow> (take n (drop pos b) @ out, pos', r)))
         | WError \<Rightarrow> ([], pos, Some WrError)
         | WPending \<Rightarrow> ([], pos, Some WrPending))
      else ([], pos, None))"

definition poll_write_encrypted :: "'c crypto \<Rightarrow> 'c EncryptedWriter \<Rightarrow> write_poll list \<Rightarrow> byte list \<Rightarrow>
    'c EncryptedWriter \<times> byte list \<times> write_result" where
  "poll_write_encrypted K w env buf =
     (let buf = (if length buf > MAX_PACKET_SIZE then take MAX_PACKET_SIZE buf else buf);
          w = (case w_state w of AssemblePacket \<Rightarrow> assemble K w buf | Writing _ \<Rightarrow> w);
          pos = (case w_state w of Writing pos \<Rightarrow> pos | AssemblePacket \<Rightarrow> 0)
      in case write_loop (w_buffer w) pos env of
           (out, pos', Some r) \<Rightarrow> (w\<lparr>w_state := Writing pos'\<rparr>, out, r)
         | (out, pos', None) \<Rightarrow> (w\<lparr>w_state := AssemblePacket, w_buffer := []\<rparr>, out, WrOk (length buf)))"

section \<open>Reading\<close>

datatype DecryptReadState = WaitSalt "byte list" | ReadLength | ReadData nat | BufferedData nat

record 'c DecryptedReader =
  r_state :: DecryptReadState
  r_cipher :: "'c option"
  r_buffer :: "byte list"
  r_salt :: "byte list option"
  has_handshaked :: bool

datatype aead_error = AeadIo | UnexpectedEof | DecryptDataError | DecryptLengthError | DataTooLong nat | RepeatedNonce
datatype read_poll = RPending | RError | RAvail nat
datatype 'a polled = PollPending | PollErr aead_error | PollPanic | PollReady 'a

definition reader_new :: "'c crypto \<Rightarrow> byte list \<Rightarrow> 'c DecryptedReader" where
  "reader_new K key =
     (if salt_len K > 0 then \<lparr>r_state = WaitSalt key, r_cipher = None, r_buffer = [], r_salt = None, has_handshaked = False\<rparr>
      else \<lparr>r_state = ReadLength, r_cipher = Some (cipher_new K key []), r_buffer = [], r_salt = None, has_handshaked = False\<rparr>)"

text \<open>A socket: the bytes that are still to come, after which it is at its end, and the schedule.  \<open>RAvail k\<close> delivers at most \<open>Suc k\<close> bytes.\<close>

type_synonym source = "byte list \<times> read_poll list"

fun read_exact_loop :: "byte list \<Rightarrow> nat \<Rightarrow> byte list \<Rightarrow> read_poll list \<Rightarrow> byte list \<times> source \<times> nat polled" where
  "read_exact_loop buffer sz wire [] = (buffer, (wire, []), if length buffer < sz then PollPending else PollReady sz)"
| "read_exact_loop buffer sz wire (e # env) =
     (if length buffer < sz then
        (case e of
           RAvail k \<Rightarrow>
             (let x = take (min (Suc k) (sz - length buffer)) wire
              in if x = [] then (buffer, (wire, env), if buffer \<noteq> [] then PollErr UnexpectedEof else PollReady 0)
                 else read_exact_loop (buffer @ x) sz (drop (length x) wire) env)
         | RError \<Rightarrow> (buffer, (wire, env), PollErr AeadIo)
         | RPending \<Rightarrow> (buffer, (wire, env), PollPending))
      else (buffer, (wire, e # env), PollReady sz))"

definition poll_read_exact :: "'c DecryptedReader \<Rightarrow> source \<Rightarrow> nat \<Rightarrow> 'c DecryptedReader \<times> source \<times> nat polled" where
  "poll_read_exact r s sz =
     (if sz = 0 then (r, s, PollPanic)
      else case read_exact_loop (r_buffer r) sz (fst s) (snd s) of (b, s, p) \<Rightarrow> (r\<lparr>r_buffer := b\<rparr>, s, p))"

definition poll_read_salt :: "'c crypto \<Rightarrow> 'c DecryptedReader \<Rightarrow> source \<Rightarrow> byte list \<Rightarrow> 'c DecryptedReader \<times> source \<times> unit polled" where
  "poll_read_salt K r s key =
     (case poll_read_exact r s (salt_len K) of
        (r, s, PollReady n) \<Rightarrow>
          (if n < salt_len K then (r, s, PollErr UnexpectedEof)
           else let salt = take (salt_len K) (r_buffer r)
           in (r\<lparr>r_salt := Some salt, r_cipher := Some (cipher_new K key salt)\<rparr>, s, PollReady ()))
      | (r, s, PollErr e) \<Rightarrow> (r, s, PollErr e)
      | (r, s, PollPending) \<Rightarrow> (r, s, PollPending)
      | (r, s, PollPanic) \<Rightarrow> (r, s, PollPanic))"

definition decrypt_length :: "'c crypto \<Rightarrow> 'c \<Rightarrow> byte list \<Rightarrow> 'c \<times> (aead_error + nat)" where
  "decrypt_length K c m =
     (case decrypt_packet K c m of
        (c, None) \<Rightarrow> (c, Inl DecryptLengthError)
      | (c, Some m) \<Rightarrow>
          (let plen = unat (un_be16 m)
           in if plen > MAX_PACKET_SIZE then (c, Inl (DataTooLong plen)) else (c, Inr plen)))"

definition poll_read_length :: "'c crypto \<Rightarrow> 'c DecryptedReader \<Rightarrow> source \<Rightarrow> 'c DecryptedReader \<times> source \<times> nat option polled" where
  "poll_read_length K r s =
     (let length_len = 2 + tag_len K in
      case poll_read_exact r s length_len of
        (r, s, PollReady n) \<Rightarrow>
          (if n = 0 then (r, s, PollReady None)
           else case r_cipher r of
             None \<Rightarrow> (r, s, PollPanic)
           | Some c \<Rightarrow>
               (case decrypt_length K c (take length_len (r_buffer r)) of
                  (c, Inr len) \<Rightarrow> (r\<lparr>r_cipher := Some c\<rparr>, s, PollReady (Some len))
                | (c, Inl e) \<Rightarrow> (r\<lparr>r_cipher := Some c\<rparr>, s, PollErr e)))
      | (r, s, PollErr e) \<Rightarrow> (r, s, PollErr e)
      | (r, s, PollPending) \<Rightarrow> (r, s, PollPending)
      | (r, s, PollPanic) \<Rightarrow> (r, s, PollPanic))"

text \<open>\<open>replayed\<close> is what \<^verbatim>\<open>context.check_nonce_replay\<close> answers.\<close>

definition poll_read_data :: "'c crypto \<Rightarrow> (byte list \<Rightarrow> bool) \<Rightarrow> 'c DecryptedReader \<Rightarrow> source \<Rightarrow> nat \<Rightarrow> 'c DecryptedReader \<times> source \<times> unit polled" where
  "poll_read_data K replayed r s sz =
     (let data_len = sz + tag_len K in
      case poll_read_exact r s data_len of
        (r, s, PollReady n) \<Rightarrow>
          (if n = 0 then (r, s, PollErr UnexpectedEof)
           else case r_cipher r of
             None \<Rightarrow> (r, s, PollPanic)
           | Some c \<Rightarrow>
               (case decrypt_packet K c (take data_len (r_buffer r)) of
                  (c, None) \<Rightarrow> (r\<lparr>r_cipher := Some c\<rparr>, s, PollErr DecryptDataError)
                | (c, Some m) \<Rightarrow>
                    (let salt = r_salt r;
                         r = r\<lparr>r_cipher := Some c, r_buffer := m @ drop sz (r_buffer r), r_salt := None\<rparr>
                     in if (case salt of Some x \<Rightarrow> replayed x | None \<Rightarrow> False) then (r, s, PollErr RepeatedNonce)
                        else (r\<lparr>r_buffer := take sz (r_buffer r)\<rparr>, s, PollReady ()))))
      | (r, s, PollErr e) \<Rightarrow> (r, s, PollErr e)
      | (r, s, PollPending) \<Rightarrow> (r, s, PollPending)
      | (r, s, PollPanic) \<Rightarrow> (r, s, PollPanic))"

text \<open>One call of \<^verbatim>\<open>poll_read_decrypted\<close> into a buffer with \<open>cap\<close> bytes of room: what was put into it and the result.\<close>

definition read_rank :: "'c DecryptedReader \<Rightarrow> nat" where
  "read_rank r = (case r_state r of
     BufferedData _ \<Rightarrow> 1 | ReadData _ \<Rightarrow> if r_buffer r = [] then 0 else 2 | _ \<Rightarrow> if r_buffer r = [] then 0 else 3)"

lemma read_exact_env:
  assumes "read_exact_loop b n wire env = (b', (wire', env'), p)"
  shows "length env' \<le> length env" "p \<noteq> PollPanic"
  using assms
  by (induction b n wire env rule: read_exact_loop.induct) (auto simp: Let_def split: if_splits read_poll.splits dest!: le_SucI)

lemma read_exact_consumes:
  assumes "read_exact_loop [] n wire env = (b', (wire', env'), PollReady k)" "0 < n"
  shows "length env' < length env"
proof (cases env)
  case (Cons e es)
  then show ?thesis using assms read_exact_env(1) [of _ n _ es b' wire' env']
    by (auto simp: Let_def less_Suc_eq_le split: if_splits read_poll.splits)
qed (use assms in auto)

lemma poll_read_exact_ready:
  assumes "poll_read_exact r s n = (r', s', PollReady k)"
  shows "length (snd s') \<le> length (snd s)" "r_buffer r = [] \<Longrightarrow> length (snd s') < length (snd s)"
proof -
  from assms have n: "n \<noteq> 0" and l: "read_exact_loop (r_buffer r) n (fst s) (snd s) = (r_buffer r', (fst s', snd s'), PollReady k)"
    by (auto simp: poll_read_exact_def split: if_splits prod.splits)
  then show "length (snd s') \<le> length (snd s)" "r_buffer r = [] \<Longrightarrow> length (snd s') < length (snd s)"
    using read_exact_env(1) [OF l] read_exact_consumes [of n "fst s" "snd s"] by (cases s', auto)+
qed

lemma poll_reads_env:
  "poll_read_salt K r s key = (r', s', PollReady u) \<Longrightarrow> length (snd s') \<le> length (snd s) \<and> (r_buffer r = [] \<longrightarrow> length (snd s') < length (snd s))"
  "poll_read_length K r s = (r', s', PollReady l) \<Longrightarrow> length (snd s') \<le> length (snd s) \<and> (r_buffer r = [] \<longrightarrow> length (snd s') < length (snd s))"
  "poll_read_data K rp r s n = (r', s', PollReady u) \<Longrightarrow> length (snd s') \<le> length (snd s) \<and> (r_buffer r = [] \<longrightarrow> length (snd s') < length (snd s))"
  by (auto simp: poll_read_salt_def poll_read_length_def poll_read_data_def Let_def split: prod.splits polled.splits if_splits option.splits sum.splits
      dest: poll_read_exact_ready)

function poll_read_decrypted :: "'c crypto \<Rightarrow> (byte list \<Rightarrow> bool) \<Rightarrow> nat \<Rightarrow> 'c DecryptedReader \<Rightarrow> source \<Rightarrow>
    'c DecryptedReader \<times> source \<times> byte list \<times> unit polled" where
  "poll_read_decrypted K replayed cap r s =
     (case r_state r of
        WaitSalt key \<Rightarrow>
          (case poll_read_salt K r s key of
             (r', s', PollReady _) \<Rightarrow>
               poll_read_decrypted K replayed cap (r'\<lparr>r_buffer := [], r_state := ReadLength, has_handshaked := True\<rparr>) s'
           | (r', s', p) \<Rightarrow> (r', s', [], p))
      | ReadLength \<Rightarrow>
          (case poll_read_length K r s of
             (r', s', PollReady None) \<Rightarrow> (r', s', [], PollReady ())
           | (r', s', PollReady (Some len)) \<Rightarrow> poll_read_decrypted K replayed cap (r'\<lparr>r_buffer := [], r_state := ReadData len\<rparr>) s'
           | (r', s', PollErr e) \<Rightarrow> (r', s', [], PollErr e)
           | (r', s', PollPending) \<Rightarrow> (r', s', [], PollPending)
           | (r', s', PollPanic) \<Rightarrow> (r', s', [], PollPanic))
      | ReadData len \<Rightarrow>
          (case poll_read_data K replayed r s len of
             (r', s', PollReady _) \<Rightarrow> poll_read_decrypted K replayed cap (r'\<lparr>r_state := BufferedData 0\<rparr>) s'
           | (r', s', p) \<Rightarrow> (r', s', [], p))
      | BufferedData pos \<Rightarrow>
          (if pos < length (r_buffer r) then
             (let buffered = drop pos (r_buffer r); consumed = min (length buffered) cap
              in (r\<lparr>r_state := BufferedData (pos + consumed)\<rparr>, s, take consumed buffered, PollReady ()))
           else poll_read_decrypted K replayed cap (r\<lparr>r_buffer := [], r_state := ReadLength\<rparr>) s))"
  by pat_completeness auto
termination
proof (relation "inv_image (less_than <*lex*> less_than) (\<lambda>(K, replayed, cap, r, s). (length (snd s), read_rank r))")
qed (auto simp: read_rank_def dest: poll_reads_env [OF sym])

declare poll_read_decrypted.simps [simp del]

section \<open>The encoding of a stream\<close>

fun encode :: "'c crypto \<Rightarrow> 'c \<Rightarrow> byte list list \<Rightarrow> byte list" where
  "encode K c [] = []"
| "encode K c (m # ms) =
     (let (c, x) = encrypt_packet K c (be16 (of_nat (length m))); (c, y) = encrypt_packet K c m in x @ y @ encode K c ms)"

definition chunks_ok :: "byte list list \<Rightarrow> bool" where
  "chunks_ok ms \<longleftrightarrow> (\<forall>m\<in>set ms. length m \<le> MAX_PACKET_SIZE)"

text \<open>What a reader has still to deliver: \<open>rest\<close> when the socket holds \<open>wire\<close>, and \<open>sfx\<close> was cut off.\<close>

definition reads :: "'c crypto \<Rightarrow> 'c DecryptedReader \<Rightarrow> byte list \<Rightarrow> byte list \<Rightarrow> byte list \<Rightarrow> bool" where
  "reads K r wire sfx rest \<longleftrightarrow>
     (case r_state r of
        WaitSalt key \<Rightarrow> length (r_buffer r) < salt_len K \<and>
          (\<exists>salt ms. length salt = salt_len K \<and> r_buffer r @ wire @ sfx = salt @ encode K (cipher_new K key salt) ms \<and> chunks_ok ms \<and> rest = concat ms)
      | ReadLength \<Rightarrow> length (r_buffer r) < 2 + tag_len K \<and>
          (\<exists>c ms. r_cipher r = Some c \<and> r_buffer r @ wire @ sfx = encode K c ms \<and> chunks_ok ms \<and> rest = concat ms)
      | ReadData n \<Rightarrow> length (r_buffer r) < n + tag_len K \<and>
          (\<exists>c m ms. r_cipher r = Some c \<and> length m = n \<and> r_buffer r @ wire @ sfx = snd (encrypt_packet K c m) @ encode K (fst (encrypt_packet K c m)) ms \<and>
             chunks_ok ms \<and> rest = m @ concat ms)
      | BufferedData pos \<Rightarrow> pos \<le> length (r_buffer r) \<and>
          (\<exists>c ms. r_cipher r = Some c \<and> wire @ sfx = encode K c ms \<and> chunks_ok ms \<and> rest = drop pos (r_buffer r) @ concat ms))"

lemma read_exact_cases:
  assumes "read_exact_loop b n wire env = (b', (wire', env'), p)" "length b < n"
  shows "b' @ wire' = b @ wire \<and> set env' \<subseteq> set env \<and>
    (p = PollPending \<and> length b' < n \<or>
     p = PollErr AeadIo \<and> RError \<in> set env \<or>
     p = PollErr UnexpectedEof \<and> wire' = [] \<and> 0 < length b' \<and> length b' < n \<or>
     p = PollReady 0 \<and> b' = [] \<and> wire' = [] \<or>
     p = PollReady n \<and> length b' = n)"
  using assms
proof (induction b n wire env rule: read_exact_loop.induct)
  case (2 b n wire e env)
  show ?case
  proof (cases e)
    case (RAvail k)
    let ?x = "take (min (Suc k) (n - length b)) wire"
    show ?thesis
    proof (cases "?x = []")
      case True
      then have "wire = []" using 2(3) by auto
      then show ?thesis using 2(2,3) RAvail by auto
    next
      case False
      have step: "read_exact_loop (b @ ?x) n (drop (length ?x) wire) env = (b', (wire', env'), p)" using 2(2,3) RAvail False
        by (simp add: Let_def min_def split: if_splits)
      have app: "(b @ ?x) @ drop (length ?x) wire = b @ wire" by (metis append.assoc append_eq_conv_conj append_take_drop_id)
      show ?thesis
      proof (cases "length (b @ ?x) < n")
        case True
        then show ?thesis using 2(1) [OF 2(3) RAvail refl False step] app by auto
      next
        case full: False
        then have "length (b @ ?x) = n" using 2(3) by auto
        then have "b' = b @ ?x \<and> wire' = drop (length ?x) wire \<and> env' = env \<and> p = PollReady n" using step by (cases env) auto
        then show ?thesis using \<open>length (b @ ?x) = n\<close> app by auto
      qed
    qed
  qed (use 2 in auto)
qed auto

definition fault :: "(byte list \<Rightarrow> bool) \<Rightarrow> read_poll list \<Rightarrow> byte list \<Rightarrow> aead_error \<Rightarrow> bool" where
  "fault replayed env sfx e \<longleftrightarrow>
     e = AeadIo \<and> RError \<in> set env \<or> e = RepeatedNonce \<and> (\<exists>x. replayed x) \<or> e = UnexpectedEof \<and> sfx \<noteq> []"

lemma fault_mono: "fault rp env' sfx e \<Longrightarrow> set env' \<subseteq> set env \<Longrightarrow> fault rp env sfx e"
  by (auto simp: fault_def)

lemma poll_read_exact_target:
  assumes "poll_read_exact r (wire, env) n = (r', (wire', env'), p)" "r_buffer r @ wire @ sfx = x @ y" "length x = n" "length (r_buffer r) < n"
  obtains (pend) b where "set env' \<subseteq> set env" "r' = r\<lparr>r_buffer := b\<rparr>" "p = PollPending" "length b < n" "b @ wire' @ sfx = x @ y"
    | (err) b e where "set env' \<subseteq> set env" "r' = r\<lparr>r_buffer := b\<rparr>" "p = PollErr e" "fault rp env sfx e"
    | (eof) "set env' \<subseteq> set env" "r' = r\<lparr>r_buffer := []\<rparr>" "p = PollReady 0" "wire' = []" "sfx = x @ y"
    | (full) "set env' \<subseteq> set env" "r' = r\<lparr>r_buffer := x\<rparr>" "p = PollReady n" "wire' @ sfx = y"
proof -
  obtain b where l: "read_exact_loop (r_buffer r) n wire env = (b, (wire', env'), p)" and r': "r' = r\<lparr>r_buffer := b\<rparr>"
    using assms(1,4) by (auto simp: poll_read_exact_def split: prod.splits)
  have app: "b @ wire' = r_buffer r @ wire" using read_exact_cases [OF l assms(4)] by blast
  then have all: "b @ wire' @ sfx = x @ y" using assms(2) by (metis append.assoc)
  have cut: "length b < n \<Longrightarrow> wire' = [] \<Longrightarrow> sfx \<noteq> []" using all assms(3) by auto
  have env: "set env' \<subseteq> set env" using read_exact_cases [OF l assms(4)] by blast
  consider "p = PollPending" "length b < n" | "p = PollErr AeadIo" "RError \<in> set env" | "p = PollErr UnexpectedEof" "wire' = []" "length b < n"
    | "p = PollReady 0" "b = []" "wire' = []" | "p = PollReady n" "length b = n"
    using read_exact_cases [OF l assms(4)] by blast
  then show ?thesis
  proof cases
    case 1 then show ?thesis using pend env r' all by blast
  next
    case 2 then show ?thesis using err env r' by (auto simp: fault_def)
  next
    case 3 then show ?thesis using err env r' cut by (auto simp: fault_def)
  next
    case 4 then show ?thesis using eof env r' all by simp
  next
    case 5 then show ?thesis using full env r' all assms(3) by simp
  qed
qed

lemma crypto_laws:
  assumes "crypto_ok K"
  shows "0 < tag_len K" "length (snd (encrypt_packet K c m)) = length m + tag_len K"
    "decrypt_packet K c (snd (encrypt_packet K c m)) = (fst (encrypt_packet K c m), Some m)"
  using assms by (auto simp: crypto_ok_def)

lemma encode_Cons:
  "encode K c (m # ms) =
     (let c1 = encrypt_packet K c (be16 (of_nat (length m))); c2 = encrypt_packet K (fst c1) m in snd c1 @ snd c2 @ encode K (fst c2) ms)"
  by (simp add: split_def Let_def)

lemma decrypt_length_encrypt:
  assumes "crypto_ok K" "length m \<le> MAX_PACKET_SIZE"
  shows "decrypt_length K c (snd (encrypt_packet K c (be16 (of_nat (length m))))) = (fst (encrypt_packet K c (be16 (of_nat (length m)))), Inr (length m))"
proof -
  have "length m < 2 ^ 16" using assms(2) by (simp add: MAX_PACKET_SIZE_def)
  then have "unat (of_nat (length m) :: 16 word) = length m" by (simp add: unat_of_nat)
  then show ?thesis using assms(2) by (simp add: decrypt_length_def crypto_laws [OF assms(1)] Let_def)
qed

section \<open>One call of the reader\<close>

lemma reads_salt:
  assumes "poll_read_salt K r (wire, env) key = (r', (wire', env'), p)" "r_state r = WaitSalt key" "reads K r wire sfx rest" "crypto_ok K"
  shows "set env' \<subseteq> set env \<and>
    (p = PollReady () \<and> reads K (r'\<lparr>r_buffer := [], r_state := ReadLength, has_handshaked := True\<rparr>) wire' sfx rest \<or>
     p = PollPending \<and> reads K r' wire' sfx rest \<or> (\<exists>e. p = PollErr e \<and> fault rp env sfx e))"
proof -
  obtain salt ms where s: "length salt = salt_len K" "r_buffer r @ wire @ sfx = salt @ encode K (cipher_new K key salt) ms" "chunks_ok ms" "rest = concat ms"
    "length (r_buffer r) < salt_len K"
    using assms(2,3) by (auto simp: reads_def)
  obtain r1 w1 e1 p1 where q: "poll_read_exact r (wire, env) (salt_len K) = (r1, (w1, e1), p1)" by (metis prod.exhaust)
  from q s(2,1,5) show ?thesis
  proof (cases rule: poll_read_exact_target [where rp = rp])
    case (pend b)
    then show ?thesis using q assms(1,2) s by (auto simp: poll_read_salt_def reads_def intro!: exI [of _ salt] exI [of _ ms])
  next
    case (err b e)
    then show ?thesis using q assms(1) by (auto simp: poll_read_salt_def)
  next
    case eof
    then have "sfx \<noteq> []" using s(1,5) by auto
    then show ?thesis using eof q assms(1) s(5) by (auto simp: poll_read_salt_def fault_def)
  next
    case full
    then show ?thesis using q assms(1) s crypto_laws(1) [OF assms(4)] by (auto simp: poll_read_salt_def reads_def Let_def)
  qed
qed

lemma reads_length_end:
  assumes "poll_read_length K r (wire, env) = (r', (wire', env'), p)" "r_buffer r = []" "wire = []"
  shows "set env' \<subseteq> set env \<and> r' = r \<and> wire' = [] \<and> (p = PollReady None \<or> p = PollPending \<or> p = PollErr AeadIo \<and> RError \<in> set env)"
proof -
  obtain b w1 e1 p1 where l: "read_exact_loop [] (2 + tag_len K) [] env = (b, (w1, e1), p1)" by (metis prod.exhaust)
  have "b = []" "w1 = []" "set e1 \<subseteq> set env" "p1 = PollReady 0 \<or> p1 = PollPending \<or> p1 = PollErr AeadIo \<and> RError \<in> set env"
    using read_exact_cases [OF l] by auto
  then show ?thesis using l assms by (auto simp: poll_read_length_def poll_read_exact_def Let_def)
qed

lemma reads_length:
  assumes "poll_read_length K r (wire, env) = (r', (wire', env'), p)" "r_state r = ReadLength" "reads K r wire sfx rest" "crypto_ok K"
  shows "set env' \<subseteq> set env \<and>
    (p = PollReady None \<and> reads K r' wire' sfx rest \<and> wire' = [] \<and> (sfx = [] \<longrightarrow> rest = []) \<or>
     (\<exists>n. p = PollReady (Some n) \<and> reads K (r'\<lparr>r_buffer := [], r_state := ReadData n\<rparr>) wire' sfx rest) \<or>
     p = PollPending \<and> reads K r' wire' sfx rest \<or> (\<exists>e. p = PollErr e \<and> fault rp env sfx e))"
proof -
  obtain c ms where s: "r_cipher r = Some c" "r_buffer r @ wire @ sfx = encode K c ms" "chunks_ok ms" "rest = concat ms"
    "length (r_buffer r) < 2 + tag_len K"
    using assms(2,3) by (auto simp: reads_def)
  show ?thesis
  proof (cases ms)
    case Nil
    then show ?thesis using reads_length_end [OF assms(1)] s assms(3) by (auto simp: fault_def)
  next
    case (Cons m ms')
    let ?c1 = "encrypt_packet K c (be16 (of_nat (length m)))"
    let ?y = "snd (encrypt_packet K (fst ?c1) m) @ encode K (fst (encrypt_packet K (fst ?c1) m)) ms'"
    have m: "length m \<le> MAX_PACKET_SIZE" "chunks_ok ms'" using s(3) Cons by (auto simp: chunks_ok_def)
    have e: "r_buffer r @ wire @ sfx = snd ?c1 @ ?y" using s(2) Cons by (simp add: encode_Cons Let_def del: encode.simps)
    have x: "length (snd ?c1) = 2 + tag_len K" by (simp add: crypto_laws [OF assms(4)])
    obtain r1 w1 e1 p1 where q: "poll_read_exact r (wire, env) (2 + tag_len K) = (r1, (w1, e1), p1)" by (metis prod.exhaust)
    from q e x s(5) show ?thesis
    proof (cases rule: poll_read_exact_target [where rp = rp])
      case (pend b)
      then have "b @ w1 @ sfx = encode K c ms" using e s(2) by simp
      then show ?thesis using pend q assms(1,2) s by (auto simp: poll_read_length_def reads_def Let_def)
    next
      case (err b e)
      then show ?thesis using q assms(1) by (auto simp: poll_read_length_def Let_def)
    next
      case eof
      then have "sfx \<noteq> []" "r_buffer r = []" "wire = []" using x e by auto
      then show ?thesis using reads_length_end [OF assms(1)] s assms(3) by (auto simp: fault_def)
    next
      case full
      then have "r' = r\<lparr>r_buffer := snd ?c1, r_cipher := Some (fst ?c1)\<rparr>" "p = PollReady (Some (length m))" "wire' = w1" "env' = e1"
        using q assms(1) s(1) x decrypt_length_encrypt [OF assms(4) m(1), of c] by (auto simp: poll_read_length_def Let_def)
      moreover have "reads K (r\<lparr>r_cipher := Some (fst ?c1), r_buffer := [], r_state := ReadData (length m)\<rparr>) w1 sfx rest"
        using full(4) s(4) m(2) Cons crypto_laws(1) [OF assms(4)] by (auto simp: reads_def)
      ultimately show ?thesis using full(1) by simp
    qed
  qed
qed

lemma reads_data:
  assumes "poll_read_data K rp r (wire, env) n = (r', (wire', env'), p)" "r_state r = ReadData n" "reads K r wire sfx rest" "crypto_ok K"
  shows "set env' \<subseteq> set env \<and>
    (p = PollReady () \<and> reads K (r'\<lparr>r_state := BufferedData 0\<rparr>) wire' sfx rest \<or>
     p = PollPending \<and> reads K r' wire' sfx rest \<or> (\<exists>e. p = PollErr e \<and> fault rp env sfx e))"
proof -
  obtain c m ms where s: "r_cipher r = Some c" "length m = n" "r_buffer r @ wire @ sfx = snd (encrypt_packet K c m) @ encode K (fst (encrypt_packet K c m)) ms"
    "chunks_ok ms" "rest = m @ concat ms" "length (r_buffer r) < n + tag_len K"
    using assms(2,3) by (auto simp: reads_def)
  have x: "length (snd (encrypt_packet K c m)) = n + tag_len K" using s(2) by (simp add: crypto_laws [OF assms(4)])
  have tag: "n + tag_len K \<noteq> 0" using crypto_laws(1) [OF assms(4)] by simp
  obtain r1 w1 e1 p1 where q: "poll_read_exact r (wire, env) (n + tag_len K) = (r1, (w1, e1), p1)" by (metis prod.exhaust)
  from q s(3) x s(6) show ?thesis
  proof (cases rule: poll_read_exact_target [where rp = rp])
    case (pend b)
    then show ?thesis using q assms(1,2) s by (auto simp: poll_read_data_def reads_def Let_def intro!: exI [of _ m] exI [of _ ms])
  next
    case (err b e)
    then show ?thesis using q assms(1) by (auto simp: poll_read_data_def Let_def)
  next
    case eof
    then have "sfx \<noteq> []" using x tag by auto
    then show ?thesis using eof q assms(1) by (auto simp: poll_read_data_def fault_def Let_def)
  next
    case full
    then show ?thesis using q assms(1) s x tag crypto_laws(3) [OF assms(4), of c m]
      by (auto simp: poll_read_data_def reads_def fault_def Let_def split: if_splits option.splits)
  qed
qed

text \<open>A call delivers the next bytes of what is to be delivered; it delivers none into a buffer with room only at the end of the stream.\<close>

definition call_ok :: "'c crypto \<Rightarrow> (byte list \<Rightarrow> bool) \<Rightarrow> nat \<Rightarrow> read_poll list \<Rightarrow> byte list \<Rightarrow> byte list \<Rightarrow> 'c DecryptedReader \<Rightarrow> byte list \<Rightarrow> byte list \<Rightarrow> unit polled \<Rightarrow> bool" where
  "call_ok K rp cap env sfx rest r' wire' out p \<longleftrightarrow>
     (\<exists>rest'. p = PollReady () \<and> reads K r' wire' sfx rest' \<and> rest = out @ rest' \<and> (out = [] \<longrightarrow> 0 < cap \<longrightarrow> wire' = [] \<and> (sfx = [] \<longrightarrow> rest = []))) \<or>
     p = PollPending \<and> out = [] \<and> reads K r' wire' sfx rest \<or>
     (\<exists>e. p = PollErr e \<and> out = [] \<and> fault rp env sfx e)"

lemma call_ok_mono: "call_ok K rp cap env' sfx rest r' wire' out p \<Longrightarrow> set env' \<subseteq> set env \<Longrightarrow> call_ok K rp cap env sfx rest r' wire' out p"
  unfolding call_ok_def using fault_mono by blast

lemma reads_buffered:
  fixes cap :: nat
  assumes "reads K r wire sfx rest" "r_state r = BufferedData pos" "pos < length (r_buffer r)"
  defines "n \<equiv> min (length (r_buffer r) - pos) cap"
  shows "call_ok K rp cap env sfx rest (r\<lparr>r_state := BufferedData (pos + n)\<rparr>) wire (take n (drop pos (r_buffer r))) (PollReady ())"
proof -
  obtain c ms where i: "r_cipher r = Some c" "wire @ sfx = encode K c ms" "chunks_ok ms" "rest = drop pos (r_buffer r) @ concat ms"
    using assms(1,2) by (auto simp: reads_def)
  have "reads K (r\<lparr>r_state := BufferedData (pos + n)\<rparr>) wire sfx (drop (pos + n) (r_buffer r) @ concat ms)"
    using i assms(3) by (auto simp: reads_def n_def)
  moreover have "rest = take n (drop pos (r_buffer r)) @ drop (pos + n) (r_buffer r) @ concat ms"
    using i(4) by (metis add.commute append.assoc append_take_drop_id drop_drop)
  moreover have "take n (drop pos (r_buffer r)) = [] \<longrightarrow> \<not> 0 < cap" using assms(3) by (auto simp: n_def)
  ultimately show ?thesis unfolding call_ok_def by blast
qed

lemma poll_read_decrypted_ok:
  assumes "crypto_ok K" "reads K r (fst s) sfx rest" "poll_read_decrypted K rp cap r s = (r', (wire', env'), out, p)"
  shows "call_ok K rp cap (snd s) sfx rest r' wire' out p"
  using assms
proof (induction K rp cap r s arbitrary: rest rule: poll_read_decrypted.induct)
  case (1 K rp cap r s)
  obtain wire env where s: "s = (wire, env)" by (metis prod.exhaust)
  have r: "reads K r wire sfx rest" using 1(6) s by simp
  show ?case
  proof (cases "r_state r")
    case (WaitSalt key)
    obtain r1 w1 e1 p1 where q: "poll_read_salt K r s key = (r1, (w1, e1), p1)" by (metis prod.exhaust)
    note * = reads_salt [OF q [unfolded s] WaitSalt r 1(5), of rp]
    show ?thesis
    proof (cases p1)
      case (PollReady u)
      then have "call_ok K rp cap e1 sfx rest r' wire' out p"
        using 1(1) [OF WaitSalt q [symmetric] refl PollReady 1(5), of rest] * 1(7) WaitSalt q by (simp add: poll_read_decrypted.simps [of K rp cap r])
      then show ?thesis using call_ok_mono * s by auto
    qed (use * 1(7) WaitSalt q s in \<open>auto simp: poll_read_decrypted.simps [of K rp cap r] call_ok_def\<close>)
  next
    case ReadLength
    obtain r1 w1 e1 p1 where q: "poll_read_length K r s = (r1, (w1, e1), p1)" by (metis prod.exhaust)
    note * = reads_length [OF q [unfolded s] ReadLength r 1(5), of rp]
    show ?thesis
    proof (cases "\<exists>n. p1 = PollReady (Some n)")
      case True
      then obtain n where n: "p1 = PollReady (Some n)" by blast
      then have "call_ok K rp cap e1 sfx rest r' wire' out p"
        using 1(2) [OF ReadLength q [symmetric] refl n refl 1(5), of rest] * 1(7) ReadLength q by (simp add: poll_read_decrypted.simps [of K rp cap r])
      then show ?thesis using call_ok_mono * s by auto
    qed (use * 1(7) ReadLength q s in \<open>auto simp: poll_read_decrypted.simps [of K rp cap r] call_ok_def\<close>)
  next
    case (ReadData n)
    obtain r1 w1 e1 p1 where q: "poll_read_data K rp r s n = (r1, (w1, e1), p1)" by (metis prod.exhaust)
    note * = reads_data [OF q [unfolded s] ReadData r 1(5)]
    show ?thesis
    proof (cases p1)
      case (PollReady u)
      then have "call_ok K rp cap e1 sfx rest r' wire' out p"
        using 1(3) [OF ReadData q [symmetric] refl PollReady 1(5), of rest] * 1(7) ReadData q by (simp add: poll_read_decrypted.simps [of K rp cap r])
      then show ?thesis using call_ok_mono * s by auto
    qed (use * 1(7) ReadData q s in \<open>auto simp: poll_read_decrypted.simps [of K rp cap r] call_ok_def\<close>)
  next
    case (BufferedData pos)
    show ?thesis
    proof (cases "pos < length (r_buffer r)")
      case True
      then show ?thesis using reads_buffered [OF r BufferedData] 1(7) BufferedData s
        by (auto simp: poll_read_decrypted.simps [of K rp cap r] Let_def)
    next
      case False
      have "reads K (r\<lparr>r_buffer := [], r_state := ReadLength\<rparr>) (fst s) sfx rest" using r BufferedData False s by (auto simp: reads_def)
      then show ?thesis using 1(4) [OF BufferedData False 1(5)] 1(7) BufferedData False by (simp add: poll_read_decrypted.simps [of K rp cap r])
    qed
  qed
qed

section \<open>Reading a stream\<close>

text \<open>A caller that reads: each call has the room \<open>cap\<close> and the socket's answers during it; an error ends the stream.\<close>

fun read_session :: "'c crypto \<Rightarrow> (byte list \<Rightarrow> bool) \<Rightarrow> (nat \<times> read_poll list) list \<Rightarrow> 'c DecryptedReader \<Rightarrow> byte list \<Rightarrow> byte list \<times> unit polled" where
  "read_session K replayed [] r wire = ([], PollReady ())"
| "read_session K replayed ((cap, env) # calls) r wire =
     (case poll_read_decrypted K replayed cap r (wire, env) of
        (r', (wire', _), out, PollErr e) \<Rightarrow> (out, PollErr e)
      | (r', (wire', _), out, PollPanic) \<Rightarrow> (out, PollPanic)
      | (r', (wire', _), out, _) \<Rightarrow> (case read_session K replayed calls r' wire' of (got, p) \<Rightarrow> (out @ got, p)))"

lemma read_session_ok:
  assumes "crypto_ok K" "reads K r wire sfx rest" "read_session K rp calls r wire = (got, p)"
  shows "prefix got rest \<and> (p = PollReady () \<or> (\<exists>e. p = PollErr e \<and> fault rp (concat (map snd calls)) sfx e))"
  using assms(2,3)
proof (induction calls arbitrary: r wire rest got p)
  case (Cons call calls)
  obtain cap env where call: "call = (cap, env)" by (metis prod.exhaust)
  obtain r' wire' env' out p' where q: "poll_read_decrypted K rp cap r (wire, env) = (r', (wire', env'), out, p')" by (metis prod.exhaust)
  obtain got' p'' where n: "read_session K rp calls r' wire' = (got', p'')" by (metis prod.exhaust)
  have "call_ok K rp cap env sfx rest r' wire' out p'" using poll_read_decrypted_ok [OF assms(1) _ q] Cons.prems(1) by simp
  then consider rest' where "p' = PollReady ()" "reads K r' wire' sfx rest'" "rest = out @ rest'"
    | "p' = PollPending" "out = []" "reads K r' wire' sfx rest" | e where "p' = PollErr e" "out = []" "fault rp env sfx e"
    by (auto simp: call_ok_def)
  then show ?case
  proof cases
    case 3
    then show ?thesis using Cons.prems(2) call q by (auto simp: fault_def)
  qed (use Cons.IH [OF _ n] Cons.prems(2) call q n in \<open>auto simp: fault_def\<close>)
qed simp

lemma reads_new:
  assumes "crypto_ok K" "length salt = salt_len K" "wire @ sfx = salt @ encode K (cipher_new K key salt) ms" "chunks_ok ms"
  shows "reads K (reader_new K key) wire sfx (concat ms)"
proof (cases "salt_len K > 0")
  case True
  then show ?thesis using assms by (auto simp: reads_def reader_new_def)
next
  case False
  then show ?thesis using assms crypto_laws(1) [OF assms(1)] by (auto simp: reads_def reader_new_def)
qed

section \<open>Writing a stream\<close>

text \<open>A write that its caller polls, with the same buffer, until it ends.\<close>

fun write_polls :: "'c crypto \<Rightarrow> 'c EncryptedWriter \<Rightarrow> byte list \<Rightarrow> write_poll list list \<Rightarrow> 'c EncryptedWriter \<times> byte list \<times> write_result" where
  "write_polls K w buf [] = (w, [], WrPending)"
| "write_polls K w buf (env # envs) =
     (case poll_write_encrypted K w env buf of
        (w', out, WrPending) \<Rightarrow> (case write_polls K w' buf envs of (w'', out', r) \<Rightarrow> (w'', out @ out', r))
      | (w', out, r) \<Rightarrow> (w', out, r))"

text \<open>Writes one after the other, up to the first that does not end well: what reached the socket and what the writes accepted.\<close>

fun write_session :: "'c crypto \<Rightarrow> 'c EncryptedWriter \<Rightarrow> (byte list \<times> write_poll list list) list \<Rightarrow> byte list \<times> byte list list \<times> write_result" where
  "write_session K w [] = ([], [], WrOk 0)"
| "write_session K w ((buf, envs) # jobs) =
     (case write_polls K w buf envs of
        (w', out, WrOk n) \<Rightarrow> (case write_session K w' jobs of (out', ms, r) \<Rightarrow> (out @ out', take n buf # ms, r))
      | (w', out, r) \<Rightarrow> (out, [], r))"

lemma write_loop_cases:
  assumes "write_loop b pos env = (out, pos', r)" "pos \<le> length b"
  shows "pos \<le> pos' \<and> pos' \<le> length b \<and> take pos b @ out = take pos' b \<and> (case r of None \<Rightarrow> pos' = length b | Some x \<Rightarrow> pos' < length b \<and> (x = WrPending \<or> x = WrError))"
  using assms
proof (induction b pos env arbitrary: out rule: write_loop.induct)
  case (2 b pos e env)
  show ?case
  proof (cases "pos < length b \<and> (\<exists>n. e = WAccept n \<and> min n (length b - pos) \<noteq> 0)")
    case True
    then obtain n where n: "e = WAccept n" "pos < length b" "min n (length b - pos) \<noteq> 0" by blast
    let ?n = "min n (length b - pos)"
    obtain out' where l: "write_loop b (pos + ?n) env = (out', pos', r)" "out = take ?n (drop pos b) @ out'"
      using 2(2) n by (auto simp: Let_def split: prod.splits)
    have "pos + ?n \<le> length b" using n by simp
    moreover have "take pos b @ take ?n (drop pos b) = take (pos + ?n) b" by (metis take_add)
    ultimately show ?thesis using 2(1) [OF n(2,1) refl n(3) l(1)] l(2) by (auto simp flip: append.assoc)
  qed (use 2(2,3) in \<open>auto simp: Let_def split: if_splits write_poll.splits prod.splits\<close>)
qed (auto split: if_splits)

text \<open>A writer that has started a packet: \<open>sent\<close> bytes of its buffer are out.\<close>

lemma poll_write_writing:
  assumes "poll_write_encrypted K w env buf = (w', out, r)" "w_state w = Writing pos" "pos \<le> length (w_buffer w)"
  shows "(\<exists>pos'. r \<in> {WrPending, WrError} \<and> pos \<le> pos' \<and> pos' \<le> length (w_buffer w) \<and> w' = w\<lparr>w_state := Writing pos'\<rparr> \<and> take pos (w_buffer w) @ out = take pos' (w_buffer w)) \<or>
    r = WrOk (min (length buf) MAX_PACKET_SIZE) \<and> take pos (w_buffer w) @ out = w_buffer w \<and> w' = \<lparr>w_cipher = w_cipher w, w_buffer = [], w_state = AssemblePacket\<rparr>"
proof -
  obtain out1 pos1 r1 where l: "write_loop (w_buffer w) pos env = (out1, pos1, r1)" by (metis prod.exhaust)
  show ?thesis using write_loop_cases [OF l assms(3)] assms(1,2) l by (cases r1) (auto simp: poll_write_encrypted_def Let_def min_def)
qed

lemma poll_write_assemble:
  assumes "w_state w = AssemblePacket"
  shows "poll_write_encrypted K w env buf = poll_write_encrypted K (assemble K w (take MAX_PACKET_SIZE buf)) env buf"
proof -
  have st: "w_state (assemble K w m) = Writing 0" for m by (simp add: assemble_def split_def Let_def)
  have "(if MAX_PACKET_SIZE < length buf then take MAX_PACKET_SIZE buf else buf) = take MAX_PACKET_SIZE buf" by simp
  then show ?thesis unfolding poll_write_encrypted_def using assms by (simp only: Let_def EncryptWriteState.case st)
qed

lemma write_polls_writing:
  assumes "write_polls K w buf envs = (w', out, r)" "w_state w = Writing pos" "pos \<le> length (w_buffer w)"
  shows "r \<in> {WrPending, WrError} \<and> prefix (take pos (w_buffer w) @ out) (w_buffer w) \<or>
    r = WrOk (min (length buf) MAX_PACKET_SIZE) \<and> take pos (w_buffer w) @ out = w_buffer w \<and> w' = \<lparr>w_cipher = w_cipher w, w_buffer = [], w_state = AssemblePacket\<rparr>"
  using assms
proof (induction envs arbitrary: w pos out)
  case (Cons env envs)
  obtain w1 out1 r1 where q: "poll_write_encrypted K w env buf = (w1, out1, r1)" by (metis prod.exhaust)
  note * = poll_write_writing [OF q Cons.prems(2,3)]
  show ?case
  proof (cases "r1 = WrPending")
    case True
    then obtain pos1 where 1: "pos1 \<le> length (w_buffer w)" "w1 = w\<lparr>w_state := Writing pos1\<rparr>" "take pos (w_buffer w) @ out1 = take pos1 (w_buffer w)"
      using * by auto
    obtain out2 where 2: "write_polls K w1 buf envs = (w', out2, r)" "out = out1 @ out2" using Cons.prems(1) q True by (auto split: prod.splits)
    have "take pos (w_buffer w) @ out = take pos1 (w_buffer w) @ out2" using 1(3) 2(2) by simp
    then show ?thesis using Cons.IH [OF 2(1), of pos1] 1 by simp
  next
    case False
    then have "w' = w1" "out = out1" "r = r1" using Cons.prems(1) q by (cases r1; simp)+
    then show ?thesis using * by (auto simp: take_is_prefix)
  qed
qed (auto simp: take_is_prefix)

lemma write_polls_ok:
  assumes "write_polls K w buf envs = (w', out, r)" "w_state w = AssemblePacket"
  defines "m \<equiv> take MAX_PACKET_SIZE buf"
  defines "c1 \<equiv> encrypt_packet K (w_cipher w) (be16 (of_nat (length m)))"
  defines "c2 \<equiv> encrypt_packet K (fst c1) m"
  shows "r \<in> {WrPending, WrError} \<and> prefix out (w_buffer w @ snd c1 @ snd c2) \<or>
    r = WrOk (length m) \<and> out = w_buffer w @ snd c1 @ snd c2 \<and> w' = \<lparr>w_cipher = fst c2, w_buffer = [], w_state = AssemblePacket\<rparr>"
proof (cases envs)
  case (Cons env envs')
  let ?w = "assemble K w m"
  have "write_polls K ?w buf envs = (w', out, r)" using assms(1) Cons poll_write_assemble [OF assms(2)] by (simp add: m_def)
  moreover have "?w = \<lparr>w_cipher = fst c2, w_buffer = w_buffer w @ snd c1 @ snd c2, w_state = Writing 0\<rparr>"
    by (simp add: assemble_def c1_def c2_def split_def Let_def)
  ultimately show ?thesis using write_polls_writing [of K ?w buf envs w' out r 0] by (simp add: m_def min.commute)
qed (use assms(1) in auto)

lemma write_session_ok:
  assumes "write_session K w jobs = (out, ms, r)" "w_state w = AssemblePacket"
  shows "\<exists>extra. (case r of WrOk _ \<Rightarrow> extra = [] \<and> ms = map (\<lambda>j. take MAX_PACKET_SIZE (fst j)) jobs \<and> (jobs \<noteq> [] \<longrightarrow> out = w_buffer w @ encode K (w_cipher w) ms) | _ \<Rightarrow> True) \<and>
    prefix out (w_buffer w @ encode K (w_cipher w) (ms @ extra)) \<and> prefix (ms @ extra) (map (\<lambda>j. take MAX_PACKET_SIZE (fst j)) jobs) \<and> chunks_ok (ms @ extra)"
  using assms
proof (induction jobs arbitrary: w out ms)
  case (Cons job jobs)
  obtain buf envs where job: "job = (buf, envs)" by (metis prod.exhaust)
  obtain w1 out1 r1 where q: "write_polls K w buf envs = (w1, out1, r1)" by (metis prod.exhaust)
  define m where "m = take MAX_PACKET_SIZE buf"
  have m: "length m \<le> MAX_PACKET_SIZE" "take (length m) buf = m" by (auto simp: m_def min_def)
  note * = write_polls_ok [OF q Cons.prems(2), folded m_def]
  show ?case
  proof (cases "\<exists>n. r1 = WrOk n")
    case True
    obtain out2 ms2 where 2: "write_session K w1 jobs = (out2, ms2, r)" "out = out1 @ out2" "ms = m # ms2"
      using Cons.prems(1) job q True * m by (auto split: prod.splits)
    have st: "w_state w1 = AssemblePacket" using * True by auto
    obtain extra where x: "case r of WrOk _ \<Rightarrow> extra = [] \<and> ms2 = map (\<lambda>j. take MAX_PACKET_SIZE (fst j)) jobs \<and> (jobs \<noteq> [] \<longrightarrow> out2 = w_buffer w1 @ encode K (w_cipher w1) ms2) | _ \<Rightarrow> True"
      "prefix out2 (w_buffer w1 @ encode K (w_cipher w1) (ms2 @ extra))" "prefix (ms2 @ extra) (map (\<lambda>j. take MAX_PACKET_SIZE (fst j)) jobs)" "chunks_ok (ms2 @ extra)"
      using Cons.IH [OF 2(1)] st by blast
    let ?c1 = "encrypt_packet K (w_cipher w) (be16 (of_nat (length m)))"
    let ?c2 = "encrypt_packet K (fst ?c1) m"
    have w1: "out1 = w_buffer w @ snd ?c1 @ snd ?c2" "w_buffer w1 = []" "w_cipher w1 = fst ?c2" using * True by auto
    have e: "encode K (w_cipher w) (m # xs) = snd ?c1 @ snd ?c2 @ encode K (fst ?c2) xs" for xs by (simp add: split_def Let_def)
    have "case r of WrOk _ \<Rightarrow> extra = [] \<and> ms = map (\<lambda>j. take MAX_PACKET_SIZE (fst j)) (job # jobs) \<and> out = w_buffer w @ encode K (w_cipher w) ms | _ \<Rightarrow> True"
      using x(1) w1 2 job m_def e [of ms2] by (cases jobs) (auto split: write_result.splits simp del: encode.simps(2))
    moreover have "prefix out (w_buffer w @ encode K (w_cipher w) (ms @ extra))" using x(2) w1 2 e [of "ms2 @ extra"] by (simp del: encode.simps)
    moreover have "prefix (ms @ extra) (map (\<lambda>j. take MAX_PACKET_SIZE (fst j)) (job # jobs))" using x(3) 2(3) job by (simp add: m_def)
    moreover have "chunks_ok (ms @ extra)" using x(4) 2(3) m(1) by (auto simp: chunks_ok_def)
    ultimately show ?thesis by (intro exI [of _ extra]) (auto split: write_result.splits)
  next
    case False
    then have "ms = []" "out = out1" "r = r1" "\<forall>n. r \<noteq> WrOk n" using Cons.prems(1) job q by (cases r1; simp)+
    then show ?thesis using * False m(1) job
      by (intro exI [of _ "[m]"]) (auto simp: m_def chunks_ok_def split_def Let_def split: write_result.splits)
  qed
qed (auto simp: chunks_ok_def intro!: exI [of _ "[]"])

section \<open>Progress\<close>

text \<open>A socket that always has an answer, for longer than its bytes last.\<close>

definition avail :: "byte list \<Rightarrow> read_poll list \<Rightarrow> bool" where
  "avail wire env \<longleftrightarrow> length wire < length env \<and> (\<forall>e\<in>set env. \<exists>k. e = RAvail k)"

lemma read_exact_full: "\<not> length b < n \<Longrightarrow> read_exact_loop b n wire env = (b, (wire, env), PollReady n)"
  by (cases env) auto

lemma read_exact_avail:
  assumes "read_exact_loop b n wire env = (b', (wire', env'), p)" "length b < n" "avail wire env"
  shows "p \<noteq> PollPending \<and> (p = PollReady n \<longrightarrow> avail wire' env')"
  using assms
proof (induction b n wire env rule: read_exact_loop.induct)
  case (2 b n wire e env)
  obtain k where e: "e = RAvail k" using 2(4) by (auto simp: avail_def)
  let ?x = "take (min (Suc k) (n - length b)) wire"
  show ?case
  proof (cases "?x = []")
    case True
    then show ?thesis using 2(2,3) e by (auto simp: Let_def split: if_splits)
  next
    case False
    have step: "read_exact_loop (b @ ?x) n (drop (length ?x) wire) env = (b', (wire', env'), p)" using 2(2,3) e False
      by (simp add: Let_def min_def split: if_splits)
    have "0 < length ?x" "0 < length wire" using False by auto
    then have "length wire - length ?x < length wire" by (rule diff_less)
    then have a: "avail (drop (length ?x) wire) env" using 2(4) unfolding avail_def length_drop by auto
    show ?thesis
    proof (cases "length (b @ ?x) < n")
      case True
      then show ?thesis using 2(1) [OF 2(3) e refl False step True a] by blast
    next
      case False
      have "wire' = drop (length ?x) wire \<and> env' = env \<and> p = PollReady n" using step unfolding read_exact_full [OF False] by blast
      then show ?thesis using a by simp
    qed
  qed
qed (auto simp: avail_def)

lemma read_exact_wire: "read_exact_loop b n wire env = (b', (wire', env'), p) \<Longrightarrow> length wire' \<le> length wire"
proof (induction b n wire env rule: read_exact_loop.induct)
  case (2 b n wire e env)
  show ?case
  proof (cases "length b < n \<and> (\<exists>k. e = RAvail k \<and> take (min (Suc k) (n - length b)) wire \<noteq> [])")
    case True
    then obtain k where k: "length b < n" "e = RAvail k" "take (min (Suc k) (n - length b)) wire \<noteq> []" by blast
    have "read_exact_loop (b @ take (min (Suc k) (n - length b)) wire) n (drop (length (take (min (Suc k) (n - length b)) wire)) wire) env = (b', (wire', env'), p)"
      using 2(2) k by (simp add: Let_def min_def split: if_splits)
    then have "length wire' \<le> length (drop (length (take (min (Suc k) (n - length b)) wire)) wire)" by (rule 2(1) [OF k(1,2) refl k(3)])
    then show ?thesis by (rule le_trans) simp
  qed (use 2(2) in \<open>auto simp: Let_def split: if_splits read_poll.splits\<close>)
qed auto

lemma poll_read_exact_avail:
  assumes "poll_read_exact r (wire, env) n = (r', (wire', env'), p)" "length (r_buffer r) < n" "avail wire env"
  shows "p \<noteq> PollPending" "p = PollReady k \<Longrightarrow> k \<noteq> 0 \<Longrightarrow> avail wire' env'"
proof -
  obtain b where l: "read_exact_loop (r_buffer r) n wire env = (b, (wire', env'), p)"
    using assms(1,2) by (auto simp: poll_read_exact_def split: prod.splits)
  show "p \<noteq> PollPending" "p = PollReady k \<Longrightarrow> k \<noteq> 0 \<Longrightarrow> avail wire' env'"
    using read_exact_avail [OF l assms(2,3)] read_exact_cases [OF l assms(2)] by auto
qed

lemma poll_reads_wire:
  "poll_read_exact r s n = (r', s', q) \<Longrightarrow> length (fst s') \<le> length (fst s)"
  "poll_read_salt K r s key = (r', s', p) \<Longrightarrow> length (fst s') \<le> length (fst s)"
  "poll_read_length K r s = (r', s', l) \<Longrightarrow> length (fst s') \<le> length (fst s)"
  "poll_read_data K rp r s n = (r', s', p) \<Longrightarrow> length (fst s') \<le> length (fst s)"
proof -
  show *: "poll_read_exact r s n = (r', s', q) \<Longrightarrow> length (fst s') \<le> length (fst s)" for r :: "'a DecryptedReader" and s n r' s' q
    by (cases s') (auto simp: poll_read_exact_def dest: read_exact_wire split: if_splits prod.splits)
  show "poll_read_salt K r s key = (r', s', p) \<Longrightarrow> length (fst s') \<le> length (fst s)"
    "poll_read_length K r s = (r', s', l) \<Longrightarrow> length (fst s') \<le> length (fst s)"
    "poll_read_data K rp r s n = (r', s', p) \<Longrightarrow> length (fst s') \<le> length (fst s)"
    by (auto simp: poll_read_salt_def poll_read_length_def poll_read_data_def Let_def split: prod.splits polled.splits if_splits option.splits sum.splits dest: *)
qed

lemma poll_reads_avail:
  assumes "crypto_ok K" "reads K r wire sfx rest" "avail wire env"
  shows "r_state r = WaitSalt key \<Longrightarrow> poll_read_salt K r (wire, env) key = (r', (wire', env'), p) \<Longrightarrow> p \<noteq> PollPending \<and> (p = PollReady () \<longrightarrow> avail wire' env')"
    "r_state r = ReadLength \<Longrightarrow> poll_read_length K r (wire, env) = (r', (wire', env'), l) \<Longrightarrow> l \<noteq> PollPending \<and> (l = PollReady (Some n) \<longrightarrow> avail wire' env')"
    "r_state r = ReadData n \<Longrightarrow> poll_read_data K rp r (wire, env) n = (r', (wire', env'), p) \<Longrightarrow> p \<noteq> PollPending \<and> (p = PollReady () \<longrightarrow> avail wire' env')"
proof -
  show "r_state r = WaitSalt key \<Longrightarrow> poll_read_salt K r (wire, env) key = (r', (wire', env'), p) \<Longrightarrow> p \<noteq> PollPending \<and> (p = PollReady () \<longrightarrow> avail wire' env')"
    using assms by (auto simp: poll_read_salt_def reads_def Let_def split: prod.splits polled.splits if_splits dest: poll_read_exact_avail)
  show "r_state r = ReadLength \<Longrightarrow> poll_read_length K r (wire, env) = (r', (wire', env'), l) \<Longrightarrow> l \<noteq> PollPending \<and> (l = PollReady (Some n) \<longrightarrow> avail wire' env')"
    using assms by (auto simp: poll_read_length_def reads_def Let_def split: prod.splits polled.splits if_splits option.splits sum.splits dest: poll_read_exact_avail)
  show "r_state r = ReadData n \<Longrightarrow> poll_read_data K rp r (wire, env) n = (r', (wire', env'), p) \<Longrightarrow> p \<noteq> PollPending \<and> (p = PollReady () \<longrightarrow> avail wire' env')"
    using assms by (auto simp: poll_read_data_def reads_def Let_def split: prod.splits polled.splits if_splits option.splits dest: poll_read_exact_avail)
qed

lemma poll_read_decrypted_wire:
  assumes "poll_read_decrypted K rp cap r s = (r', s', out, p)"
  shows "length (fst s') \<le> length (fst s)"
  using assms
proof (induction K rp cap r s rule: poll_read_decrypted.induct)
  case (1 K rp cap r s)
  show ?case
  proof (cases "r_state r")
    case (WaitSalt key)
    obtain r1 s1 p1 where q: "poll_read_salt K r s key = (r1, s1, p1)" by (metis prod.exhaust)
    show ?thesis using 1(1) [OF WaitSalt q [symmetric] refl] 1(5) WaitSalt q poll_reads_wire(2) [OF q]
      by (cases p1) (auto simp: poll_read_decrypted.simps [of K rp cap r] intro: le_trans)
  next
    case ReadLength
    obtain r1 s1 p1 where q: "poll_read_length K r s = (r1, s1, p1)" by (metis prod.exhaust)
    show ?thesis using 1(2) [OF ReadLength q [symmetric] refl] 1(5) ReadLength q poll_reads_wire(3) [OF q]
      by (auto simp: poll_read_decrypted.simps [of K rp cap r] split: polled.splits option.splits intro: le_trans)
  next
    case (ReadData n)
    obtain r1 s1 p1 where q: "poll_read_data K rp r s n = (r1, s1, p1)" by (metis prod.exhaust)
    show ?thesis using 1(3) [OF ReadData q [symmetric] refl] 1(5) ReadData q poll_reads_wire(4) [OF q]
      by (cases p1) (auto simp: poll_read_decrypted.simps [of K rp cap r] intro: le_trans)
  next
    case (BufferedData pos)
    show ?thesis using 1(4) [OF BufferedData] 1(5) BufferedData
      by (auto simp: poll_read_decrypted.simps [of K rp cap r] Let_def split: if_splits)
  qed
qed

lemma poll_read_decrypted_avail:
  assumes "crypto_ok K" "reads K r (fst s) sfx rest" "avail (fst s) (snd s)" "poll_read_decrypted K rp cap r s = (r', s', out, p)"
  shows "p \<noteq> PollPending"
  using assms
proof (induction K rp cap r s rule: poll_read_decrypted.induct)
  case (1 K rp cap r s)
  obtain wire env where s: "s = (wire, env)" by (metis prod.exhaust)
  have r: "reads K r wire sfx rest" and a: "avail wire env" using 1(6,7) s by simp_all
  show ?case
  proof (cases "r_state r")
    case (WaitSalt key)
    obtain r1 w1 e1 p1 where q: "poll_read_salt K r s key = (r1, (w1, e1), p1)" by (metis prod.exhaust)
    show ?thesis using 1(1) [OF WaitSalt q [symmetric] refl _ 1(5)] 1(8) WaitSalt q
        poll_reads_avail(1) [OF 1(5) r a WaitSalt q [unfolded s]] reads_salt [OF q [unfolded s] WaitSalt r 1(5)]
      by (cases p1) (auto simp: poll_read_decrypted.simps [of K rp cap r])
  next
    case ReadLength
    obtain r1 w1 e1 p1 where q: "poll_read_length K r s = (r1, (w1, e1), p1)" by (metis prod.exhaust)
    show ?thesis using 1(2) [OF ReadLength q [symmetric] refl _ refl 1(5)] 1(8) ReadLength q
        poll_reads_avail(2) [OF 1(5) r a ReadLength q [unfolded s]] reads_length [OF q [unfolded s] ReadLength r 1(5)]
      by (auto simp: poll_read_decrypted.simps [of K rp cap r] split: polled.splits option.splits)
  next
    case (ReadData n)
    obtain r1 w1 e1 p1 where q: "poll_read_data K rp r s n = (r1, (w1, e1), p1)" by (metis prod.exhaust)
    show ?thesis using 1(3) [OF ReadData q [symmetric] refl _ 1(5)] 1(8) ReadData q
        poll_reads_avail(3) [OF 1(5) r a ReadData q [unfolded s]] reads_data [OF q [unfolded s] ReadData r 1(5)]
      by (cases p1) (auto simp: poll_read_decrypted.simps [of K rp cap r])
  next
    case (BufferedData pos)
    have "\<not> pos < length (r_buffer r) \<Longrightarrow> reads K (r\<lparr>r_buffer := [], r_state := ReadLength\<rparr>) wire sfx rest"
      using r BufferedData by (auto simp: reads_def)
    then show ?thesis using 1(4) [OF BufferedData _ 1(5)] 1(8) BufferedData a s
      by (auto simp: poll_read_decrypted.simps [of K rp cap r] Let_def split: if_splits)
  qed
qed

definition ready_calls :: "nat \<Rightarrow> (nat \<times> read_poll list) list \<Rightarrow> bool" where
  "ready_calls n calls \<longleftrightarrow> (\<forall>(cap, env)\<in>set calls. 0 < cap \<and> n < length env \<and> (\<forall>e\<in>set env. \<exists>k. e = RAvail k))"

lemma read_session_delivers:
  assumes "crypto_ok K" "\<forall>x. \<not> rp x" "reads K r wire [] rest" "ready_calls (length wire) calls" "length rest \<le> length calls"
  shows "read_session K rp calls r wire = (rest, PollReady ())"
  using assms(3-)
proof (induction calls arbitrary: r wire rest)
  case (Cons call calls)
  obtain cap env where call: "call = (cap, env)" by (metis prod.exhaust)
  have a: "avail wire env" "0 < cap" and env: "RError \<notin> set env" using Cons.prems(2) call by (auto simp: ready_calls_def avail_def)
  obtain r' wire' env' out p where q: "poll_read_decrypted K rp cap r (wire, env) = (r', (wire', env'), out, p)" by (metis prod.exhaust)
  have ok: "call_ok K rp cap env [] rest r' wire' out p" using poll_read_decrypted_ok [OF assms(1) _ q] Cons.prems(1) by simp
  have "p \<noteq> PollPending" using poll_read_decrypted_avail [OF assms(1) _ _ q] Cons.prems(1) a(1) by simp
  then obtain rest' where n: "p = PollReady ()" "reads K r' wire' [] rest'" "rest = out @ rest'" "out = [] \<Longrightarrow> rest = []"
    using ok a(2) env assms(2) by (auto simp: call_ok_def fault_def)
  have "ready_calls (length wire') calls" using Cons.prems(2) poll_read_decrypted_wire [OF q] by (auto simp: ready_calls_def)
  moreover have "length rest' \<le> length calls" using n(3,4) Cons.prems(3) by (cases out) auto
  ultimately show ?case using Cons.IH [OF n(2)] n(1,3) q call by simp
qed simp

section \<open>Safety\<close>

definition alive :: "'c crypto \<Rightarrow> 'c DecryptedReader \<Rightarrow> bool" where
  "alive K r \<longleftrightarrow> (case r_state r of WaitSalt _ \<Rightarrow> 0 < salt_len K | _ \<Rightarrow> r_cipher r \<noteq> None)"

lemma poll_read_exact_alive:
  assumes "poll_read_exact r s n = (r', s', p)" "0 < n"
  shows "r_state r' = r_state r" "r_cipher r' = r_cipher r" "p \<noteq> PollPanic"
  using assms by (cases s'; auto simp: poll_read_exact_def dest: read_exact_env(2) split: prod.splits)+

lemma poll_read_decrypted_alive:
  assumes "0 < tag_len K" "alive K r" "poll_read_decrypted K rp cap r s = (r', s', out, p)"
  shows "alive K r' \<and> p \<noteq> PollPanic"
  using assms
proof (induction K rp cap r s rule: poll_read_decrypted.induct)
  case (1 K rp cap r s)
  show ?case
  proof (cases "r_state r")
    case (WaitSalt key)
    obtain r1 s1 p1 where q: "poll_read_salt K r s key = (r1, s1, p1)" by (metis prod.exhaust)
    have "p1 \<noteq> PollPanic" "p1 = PollReady () \<Longrightarrow> r_cipher r1 \<noteq> None" "p1 \<noteq> PollReady () \<Longrightarrow> r_state r1 = r_state r"
      using q 1(6) WaitSalt by (auto simp: poll_read_salt_def alive_def Let_def split: prod.splits polled.splits if_splits dest: poll_read_exact_alive)
    then show ?thesis using 1(1) [OF WaitSalt q [symmetric] refl _ 1(5)] 1(6,7) WaitSalt q
      by (cases p1) (auto simp: poll_read_decrypted.simps [of K rp cap r] alive_def)
  next
    case ReadLength
    obtain r1 s1 p1 where q: "poll_read_length K r s = (r1, s1, p1)" by (metis prod.exhaust)
    have "p1 \<noteq> PollPanic" "r_cipher r1 \<noteq> None" "r_state r1 = r_state r"
      using q 1(6) ReadLength by (auto simp: poll_read_length_def alive_def Let_def split: prod.splits polled.splits if_splits option.splits sum.splits dest: poll_read_exact_alive)
    then show ?thesis using 1(2) [OF ReadLength q [symmetric] refl _ refl 1(5)] 1(6,7) ReadLength q
      by (auto simp: poll_read_decrypted.simps [of K rp cap r] alive_def split: polled.splits option.splits)
  next
    case (ReadData n)
    obtain r1 s1 p1 where q: "poll_read_data K rp r s n = (r1, s1, p1)" by (metis prod.exhaust)
    have "p1 \<noteq> PollPanic" "r_cipher r1 \<noteq> None" "r_state r1 = r_state r"
      using q 1(5,6) ReadData by (auto simp: poll_read_data_def alive_def Let_def split: prod.splits polled.splits if_splits option.splits dest: poll_read_exact_alive)
    then show ?thesis using 1(3) [OF ReadData q [symmetric] refl _ 1(5)] 1(6,7) ReadData q
      by (cases p1) (auto simp: poll_read_decrypted.simps [of K rp cap r] alive_def)
  next
    case (BufferedData pos)
    show ?thesis using 1(4) [OF BufferedData _ 1(5)] 1(6,7) BufferedData
      by (auto simp: poll_read_decrypted.simps [of K rp cap r] alive_def Let_def split: if_splits)
  qed
qed

section \<open>Datagrams\<close>

datatype udp_error = PacketTooShortForSalt nat nat | PacketTooShortForTag nat nat | InvalidAddress socks5_error | DecryptPayloadError
datatype 'a udp_result = UdpOk 'a | UdpErr udp_error | UdpPanic

text \<open>\<open>salt\<close> is the nonce that \<^verbatim>\<open>context.generate_nonce\<close> makes, of \<^verbatim>\<open>method.salt_len()\<close> bytes.  No result: the address writer has panicked.\<close>

definition encrypt_payload_aead :: "'c crypto \<Rightarrow> byte list \<Rightarrow> byte list \<Rightarrow> Address \<Rightarrow> byte list \<Rightarrow> byte list option" where
  "encrypt_payload_aead K key salt addr payload =
     (case write_address addr of
        None \<Rightarrow> None
      | Some a \<Rightarrow> Some (salt @ snd (encrypt_packet K (cipher_new K key salt) (a @ payload))))"

definition parse_packet :: "byte list \<Rightarrow> (nat \<times> Address) udp_result" where
  "parse_packet buf =
     (case read_cursor buf of
        Done address rest \<Rightarrow> UdpOk (length buf - length rest, address)
      | Fail err \<Rightarrow> UdpErr (InvalidAddress err)
      | Panic \<Rightarrow> UdpPanic)"

text \<open>The payload is copied to the front of the buffer; the result is its bytes and the address.\<close>

definition decrypt_payload_aead :: "'c crypto \<Rightarrow> byte list \<Rightarrow> byte list \<Rightarrow> (byte list \<times> Address) udp_result" where
  "decrypt_payload_aead K key payload =
     (let plen = length payload; salt = take (salt_len K) payload; data = drop (salt_len K) payload in
      if plen < salt_len K then UdpErr (PacketTooShortForSalt (salt_len K) plen)
      else if length data < tag_len K then UdpErr (PacketTooShortForTag (tag_len K) (length data))
      else case snd (decrypt_packet K (cipher_new K key salt) data) of
        None \<Rightarrow> UdpErr DecryptPayloadError
      | Some data \<Rightarrow>
          (case parse_packet data of
             UdpOk (dn, addr) \<Rightarrow> UdpOk (drop dn data, addr)
           | UdpErr e \<Rightarrow> UdpErr e
           | UdpPanic \<Rightarrow> UdpPanic))"

lemma parse_packet_iff:
  "parse_packet buf = UdpOk (n, a) \<longleftrightarrow> addr_ok a \<and> (\<exists>bs rest. write_address a = Some bs \<and> buf = bs @ rest \<and> n = length bs)"
proof -
  have *: "read_cursor buf = Done x r \<longleftrightarrow> addr_ok x \<and> (\<exists>bs. write_address x = Some bs \<and> buf = bs @ r)" for x r
    using read_cursor_spec [of buf x r] read_from_iff by blast
  show ?thesis
  proof (cases "\<exists>x r. read_cursor buf = Done x r")
    case True
    then obtain x r bs where r: "read_cursor buf = Done x r" "addr_ok x" "write_address x = Some bs" "buf = bs @ r" using * by blast
    then have p: "parse_packet buf = UdpOk (length bs, x)" by (simp add: parse_packet_def)
    show ?thesis
    proof
      assume "addr_ok a \<and> (\<exists>bs rest. write_address a = Some bs \<and> buf = bs @ rest \<and> n = length bs)"
      then obtain cs rest where c: "write_address a = Some cs" "n = length cs" "read_cursor buf = Done a rest" using * by blast
      then have "a = x" using r(1) by simp
      then show "parse_packet buf = UdpOk (n, a)" using p c r(3) by simp
    qed (use p r in auto)
  next
    case False
    then have "parse_packet buf \<noteq> UdpOk (n, a)" by (auto simp: parse_packet_def split: outcome.splits)
    then show ?thesis using False * by blast
  qed
qed

lemma parse_packet_panics: "parse_packet buf = UdpPanic \<longleftrightarrow> (\<exists>n d. buf = 3 # n # d \<and> unat n \<le> length d \<and> length d < unat n + 2)"
proof -
  have "parse_packet buf = UdpPanic \<longleftrightarrow> read_cursor buf = Panic" by (simp add: parse_packet_def split: outcome.splits)
  then show ?thesis using read_cursor_spec by simp
qed

lemma decrypt_payload_panics:
  "decrypt_payload_aead K key payload = UdpPanic \<longleftrightarrow> salt_len K + tag_len K \<le> length payload \<and>
     (\<exists>n d. snd (decrypt_packet K (cipher_new K key (take (salt_len K) payload)) (drop (salt_len K) payload)) = Some (3 # n # d) \<and>
        unat n \<le> length d \<and> length d < unat n + 2)"
proof -
  have "decrypt_payload_aead K key payload = UdpPanic \<longleftrightarrow> salt_len K + tag_len K \<le> length payload \<and>
     (\<exists>data. snd (decrypt_packet K (cipher_new K key (take (salt_len K) payload)) (drop (salt_len K) payload)) = Some data \<and> parse_packet data = UdpPanic)"
    by (auto simp: decrypt_payload_aead_def Let_def split: option.splits udp_result.splits)
  then show ?thesis unfolding parse_packet_panics by blast
qed

lemma decrypt_encrypt_payload:
  assumes "crypto_ok K" "addr_ok a" "length salt = salt_len K" "encrypt_payload_aead K key salt a payload = Some packet"
  shows "decrypt_payload_aead K key packet = UdpOk (payload, a)"
proof -
  obtain bs where bs: "write_address a = Some bs" "packet = salt @ snd (encrypt_packet K (cipher_new K key salt) (bs @ payload))"
    using assms(4) by (auto simp: encrypt_payload_aead_def split: option.splits)
  have "parse_packet (bs @ payload) = UdpOk (length bs, a)" using bs assms(2) by (auto simp: parse_packet_iff)
  then show ?thesis using bs(2) assms(3) crypto_laws [OF assms(1)] by (simp add: decrypt_payload_aead_def Let_def)
qed

section \<open>Streams and datagrams\<close>

lemma written_reads:
  assumes "crypto_ok K" "length nonce = salt_len K" "write_session K (writer_new K key nonce) jobs = (wire @ lost, ms, w)"
  shows "\<exists>sfx rest. reads K (reader_new K key) wire sfx rest \<and> prefix rest (concat (map (\<lambda>j. take MAX_PACKET_SIZE (fst j)) jobs)) \<and>
    (\<forall>n. w = WrOk n \<longrightarrow> jobs \<noteq> [] \<longrightarrow> sfx = lost \<and> rest = concat (map (\<lambda>j. take MAX_PACKET_SIZE (fst j)) jobs))"
proof -
  let ?d = "map (\<lambda>j. take MAX_PACKET_SIZE (fst j)) jobs" and ?c = "cipher_new K key nonce"
  have w: "w_buffer (writer_new K key nonce) = nonce" "w_cipher (writer_new K key nonce) = ?c" "w_state (writer_new K key nonce) = AssemblePacket"
    by (simp_all add: writer_new_def)
  obtain extra where x: "case w of WrOk _ \<Rightarrow> extra = [] \<and> ms = ?d \<and> (jobs \<noteq> [] \<longrightarrow> wire @ lost = nonce @ encode K ?c ms) | _ \<Rightarrow> True"
    "prefix (wire @ lost) (nonce @ encode K ?c (ms @ extra))" "prefix (ms @ extra) ?d" "chunks_ok (ms @ extra)"
    using write_session_ok [OF assms(3) w(3), unfolded w(1,2)] by blast
  obtain sfx where sfx: "wire @ lost @ sfx = nonce @ encode K ?c (ms @ extra)" using x(2) by (metis append.assoc prefixE)
  have "reads K (reader_new K key) wire (lost @ sfx) (concat (ms @ extra))" using reads_new [OF assms(1,2) _ x(4)] sfx by simp
  moreover have "prefix (concat (ms @ extra)) (concat ?d)" using x(3) by (metis concat_append prefixE prefixI)
  moreover have "sfx = [] \<and> ms @ extra = ?d" if "w = WrOk n" "jobs \<noteq> []" for n
  proof -
    have e: "extra = []" "ms = ?d" "wire @ lost = nonce @ encode K ?c ms" using that x(1) by auto
    then have "(wire @ lost) @ sfx = wire @ lost" using sfx by (metis append.assoc append_Nil2)
    then have "sfx = []" by simp
    then show ?thesis using e(1,2) by simp
  qed
  ultimately show ?thesis by (metis append_Nil2)
qed

text \<open>A cipher for examples: it numbers its packets with a tag of one byte.\<close>

definition ex_crypto :: "nat crypto" where
  "ex_crypto = \<lparr>salt_len = 1, tag_len = 1, cipher_new = (\<lambda>key salt. length key), encrypt_packet = (\<lambda>c m. (Suc c, m @ [of_nat c])),
     decrypt_packet = (\<lambda>c m. if m \<noteq> [] \<and> last m = of_nat c then (Suc c, Some (butlast m)) else (c, None))\<rparr>"

lemma ex_crypto_ok: "crypto_ok ex_crypto"
  by (simp add: crypto_ok_def ex_crypto_def)



text \<open>C33.  When all the writes have ended well, a reader whose socket always answers gets all the data, in order, in as many calls as there
  are bytes at most.\<close>

theorem aead_stream_delivers:
  assumes "crypto_ok K" "length nonce = salt_len K" "write_session K (writer_new K key nonce) jobs = (wire, ms, WrOk n)" "jobs \<noteq> []"
    "\<forall>x. \<not> replayed x" "ready_calls (length wire) calls" "length (concat (map (\<lambda>j. take MAX_PACKET_SIZE (fst j)) jobs)) \<le> length calls"
  shows "read_session K replayed calls (reader_new K key) wire = (concat (map (\<lambda>j. take MAX_PACKET_SIZE (fst j)) jobs), PollReady ())"
proof -
  have "write_session K (writer_new K key nonce) jobs = (wire @ [], ms, WrOk n)" using assms(3) by simp
  from written_reads [OF assms(1,2) this]
  have "reads K (reader_new K key) wire [] (concat (map (\<lambda>j. take MAX_PACKET_SIZE (fst j)) jobs))" using assms(4) by blast
  then show ?thesis using read_session_delivers [OF assms(1,5) _ assms(6,7)] by blast
qed

theorem aead_stream_delivers_witness:
  "read_session ex_crypto (\<lambda>_. False) (replicate 3 (2, replicate 20 (RAvail 4))) (reader_new ex_crypto []) [9, 0, 2, 0, 1, 2, 1, 0, 1, 2, 3, 3] = ([1, 2, 3], PollReady ())"
proof -
  let ?jobs = "[([1, 2], [[WAccept 3], [WAccept 9]]), ([3], [[WAccept 1, WAccept 8]])]"
  have w: "write_session ex_crypto (writer_new ex_crypto [] [9]) ?jobs = ([9, 0, 2, 0, 1, 2, 1, 0, 1, 2, 3, 3], [[1, 2], [3]], WrOk 0)" by code_simp
  have s: "length [9 :: byte] = salt_len ex_crypto" by (simp add: ex_crypto_def)
  show ?thesis using aead_stream_delivers [OF ex_crypto_ok s w, of "\<lambda>_. False" "replicate 3 (2, replicate 20 (RAvail 4))"]
    by (simp add: ready_calls_def MAX_PACKET_SIZE_def)
qed

text \<open>Whatever the socket delivers, the reader never panics: a cipher whose tags are not empty is all that is asked.\<close>

theorem aead_reader_safe:
  assumes "0 < tag_len K" "read_session K replayed calls (reader_new K key) wire = (got, p)"
  shows "p \<noteq> PollPanic"
proof -
  have "alive K r \<Longrightarrow> read_session K replayed calls r wire = (got, p) \<Longrightarrow> p \<noteq> PollPanic" for r
  proof (induction calls arbitrary: r wire got)
    case (Cons call calls)
    then show ?case using poll_read_decrypted_alive [OF assms(1) Cons.prems(1)]
      by (cases call) (fastforce split: prod.splits polled.splits)
  qed auto
  moreover have "alive K (reader_new K key)" by (simp add: alive_def reader_new_def)
  ultimately show ?thesis using assms(2) by blast
qed

theorem aead_reader_safe_witness:
  "0 < tag_len ex_crypto \<and> read_session ex_crypto (\<lambda>_. False) [(1, [RAvail 9, RAvail 9])] (reader_new ex_crypto []) [9, 7, 7, 7] = ([], PollErr DecryptLengthError) \<and>
   (PollErr DecryptLengthError :: unit polled) \<noteq> PollPanic"
proof -
  have t: "0 < tag_len ex_crypto" by (simp add: ex_crypto_def)
  have r: "read_session ex_crypto (\<lambda>_. False) [(1, [RAvail 9, RAvail 9])] (reader_new ex_crypto []) [9, 7, 7, 7] = ([], PollErr DecryptLengthError)"
    by code_simp
  show ?thesis using aead_reader_safe [OF t r] t r by blast
qed

text \<open>C34.  A datagram that was encrypted is decrypted to its payload and its address.  Decryption panics on a datagram exactly when its plaintext
  ends inside the port after a domain name.\<close>

theorem aead_datagram:
  "(crypto_ok K \<longrightarrow> addr_ok a \<longrightarrow> length salt = salt_len K \<longrightarrow> (\<exists>packet. encrypt_payload_aead K key salt a payload = Some packet \<and>
      decrypt_payload_aead K key packet = UdpOk (payload, a))) \<and>
   (decrypt_payload_aead K key data = UdpPanic \<longleftrightarrow> salt_len K + tag_len K \<le> length data \<and>
     (\<exists>n d. snd (decrypt_packet K (cipher_new K key (take (salt_len K) data)) (drop (salt_len K) data)) = Some (3 # n # d) \<and>
        unat n \<le> length d \<and> length d < unat n + 2))"
proof (intro conjI impI)
  assume k: "crypto_ok K" "addr_ok a" "length salt = salt_len K"
  then obtain packet where "encrypt_payload_aead K key salt a payload = Some packet" using serialized [of a] by (auto simp: encrypt_payload_aead_def)
  then show "\<exists>packet. encrypt_payload_aead K key salt a payload = Some packet \<and> decrypt_payload_aead K key packet = UdpOk (payload, a)"
    using decrypt_encrypt_payload [OF k] by blast
qed (rule decrypt_payload_panics)

theorem aead_datagram_witness:
  "decrypt_payload_aead ex_crypto [] [9, 3, 1, 65, 0, 53, 7, 0] = UdpOk ([7], DomainNameAddress [65] 53) \<and>
   decrypt_payload_aead ex_crypto [] [9, 3, 1, 65, 0, 0] = UdpPanic"
proof -
  have e: "encrypt_payload_aead ex_crypto [] [9] (DomainNameAddress [65] 53) [7] = Some [9, 3, 1, 65, 0, 53, 7, 0]" by code_simp
  have a: "addr_ok (DomainNameAddress [65] 53)" by code_simp
  have s: "length [9 :: byte] = salt_len ex_crypto" by (simp add: ex_crypto_def)
  note * = aead_datagram [of ex_crypto "DomainNameAddress [65] 53" "[9]" "[]" "[7]" "[9, 3, 1, 65, 0, 0]"]
  have "decrypt_payload_aead ex_crypto [] [9, 3, 1, 65, 0, 0] = UdpPanic" using * by (simp add: ex_crypto_def)
  then show ?thesis using * e a s ex_crypto_ok by simp
qed

end
