(* ===== verification/Ss_Acl.thy ===== *)
theory Ss_Acl
  imports Ss_Socks5 "HOL-Library.AList" "HOL-Library.Sublist"
begin

text \<open>
  The access control list of the Rust proxy: the tree of domain names (\<^verbatim>\<open>shadowsocks-service/src/acl/sub_domains_tree.rs\<close>) and the rules, the file
  reader and the decisions (\<^verbatim>\<open>shadowsocks-service/src/acl/mod.rs\<close>).  A Rust string is the list of its UTF-8 bytes.  The crates \<^verbatim>\<open>ipnet\<close>,
  \<^verbatim>\<open>iprange\<close>, \<^verbatim>\<open>regex\<close> (but for one fixed pattern) and \<^verbatim>\<open>idna\<close>, the standard parser of IP addresses and the name resolution are parameters.
\<close>

section \<open>Strings\<close>

text \<open>What the code uses of \<^verbatim>\<open>str\<close>.\<close>

definition str_of :: "byte list \<Rightarrow> string" where
  "str_of bs = map (\<lambda>b. char_of (unat b)) bs"

definition is_ascii :: "string \<Rightarrow> bool" where
  "is_ascii s \<longleftrightarrow> list_all (\<lambda>c. of_char c < (128 :: int)) s"

definition to_lower_char :: "char \<Rightarrow> char" where
  "to_lower_char c = (let n = of_char c :: int in if 65 \<le> n \<and> n \<le> 90 then char_of (n + 32) else c)"

definition to_ascii_lowercase :: "string \<Rightarrow> string" where
  "to_ascii_lowercase s = map to_lower_char s"

definition trim_end_matches :: "char \<Rightarrow> string \<Rightarrow> string" where
  "trim_end_matches c s = rev (dropWhile (\<lambda>x. x = c) (rev s))"

definition strip_prefix :: "string \<Rightarrow> string \<Rightarrow> string option" where
  "strip_prefix p s = (if take (length p) s = p then Some (drop (length p) s) else None)"

fun split_at :: "char \<Rightarrow> string \<Rightarrow> string list" where
  "split_at d [] = [[]]"
| "split_at d (c # s) =
     (if c = d then [] # split_at d s
      else case split_at d s of [] \<Rightarrow> [[c]] | p # ps \<Rightarrow> (c # p) # ps)"

definition rsplit :: "char \<Rightarrow> string \<Rightarrow> string list" where
  "rsplit d s = rev (split_at d s)"

text \<open>The white space of Unicode, in UTF-8.\<close>

definition whitespace :: "string list" where
  "whitespace =
     map (\<lambda>c. [c]) [CHR 0x09, CHR 0x0A, CHR 0x0B, CHR 0x0C, CHR 0x0D, CHR 0x20] @ map (\<lambda>c. [CHR 0xC2, c]) [CHR 0x85, CHR 0xA0] @
     map (\<lambda>c. [CHR 0xE2, CHR 0x80, c])
       [CHR 0x80, CHR 0x81, CHR 0x82, CHR 0x83, CHR 0x84, CHR 0x85, CHR 0x86, CHR 0x87, CHR 0x88, CHR 0x89, CHR 0x8A, CHR 0xA8, CHR 0xA9, CHR 0xAF] @
     [[CHR 0xE1, CHR 0x9A, CHR 0x80], [CHR 0xE2, CHR 0x81, CHR 0x9F], [CHR 0xE3, CHR 0x80, CHR 0x80]]"

fun strip_any :: "string list \<Rightarrow> string \<Rightarrow> string option" where
  "strip_any [] s = None"
| "strip_any (p # ps) s = (case strip_prefix p s of Some r \<Rightarrow> Some r | None \<Rightarrow> strip_any ps s)"

text \<open>One strip for each byte is enough: no white space is empty.\<close>

fun trim_fuel :: "nat \<Rightarrow> string list \<Rightarrow> string \<Rightarrow> string" where
  "trim_fuel 0 ws s = s"
| "trim_fuel (Suc n) ws s = (case strip_any ws s of Some r \<Rightarrow> trim_fuel n ws r | None \<Rightarrow> s)"

definition trim :: "string \<Rightarrow> string" where
  "trim s =
     (let s = trim_fuel (length s) whitespace s
      in rev (trim_fuel (length s) (map rev whitespace) (rev s)))"

text \<open>\<^verbatim>\<open>BufRead::lines\<close>: lines end with a newline, and with a carriage return before it; a line that is not UTF-8 is an error.\<close>

definition chomp :: "string \<Rightarrow> string" where
  "chomp l = (if l \<noteq> [] \<and> last l = CHR 0x0D then butlast l else l)"

definition lines :: "string \<Rightarrow> string option list" where
  "lines f =
     (let ls = split_at (CHR 0x0A) f; full = map chomp (butlast ls) @ (if last ls = [] then [] else [last ls])
      in map (\<lambda>l. if utf8 (map of_char l) then Some l else None) full)"

section \<open>The tree of domain names\<close>

datatype DomainPart = DomainPart (included: bool) (children: "(string \<times> DomainPart) list")

type_synonym SubDomainsTree = "(string \<times> DomainPart) list"

definition part_new :: DomainPart where
  "part_new = DomainPart False []"

definition tree_new :: SubDomainsTree where
  "tree_new = []"

definition entry :: "string \<Rightarrow> SubDomainsTree \<Rightarrow> DomainPart" where
  "entry part m = (case map_of m (to_ascii_lowercase part) of Some e \<Rightarrow> e | None \<Rightarrow> part_new)"

fun insert_parts :: "string list \<Rightarrow> SubDomainsTree \<Rightarrow> SubDomainsTree" where
  "insert_parts [] m = m"
| "insert_parts (part # parts) m =
     (if included (entry part m) then m
      else AList.update (to_ascii_lowercase part)
        (if parts = [] then DomainPart True [] else DomainPart False (insert_parts parts (children (entry part m)))) m)"

definition tree_insert :: "string \<Rightarrow> SubDomainsTree \<Rightarrow> SubDomainsTree" where
  "tree_insert value t = insert_parts (rsplit (CHR ''.'') value) t"

fun contains_parts :: "string list \<Rightarrow> SubDomainsTree \<Rightarrow> bool" where
  "contains_parts [] m = False"
| "contains_parts (part # parts) m =
     (case map_of m part of
        Some el \<Rightarrow> if included el then True else contains_parts parts (children el)
      | None \<Rightarrow> False)"

definition tree_contains :: "SubDomainsTree \<Rightarrow> string \<Rightarrow> bool" where
  "tree_contains t value = contains_parts (rsplit (CHR ''.'') value) t"

definition tree_is_empty :: "SubDomainsTree \<Rightarrow> bool" where
  "tree_is_empty t \<longleftrightarrow> t = []"

section \<open>Addresses and what the crates provide\<close>

datatype IpAddr = IpV4 "byte list" | IpV6 "u16 list"

fun ip :: "SocketAddr \<Rightarrow> IpAddr" where
  "ip (V4 a port) = IpV4 a"
| "ip (V6 a port flowinfo scope_id) = IpV6 a"

definition to_ipv6_mapped :: "byte list \<Rightarrow> u16 list" where
  "to_ipv6_mapped a = [0, 0, 0, 0, 0, 0xFFFF] @ segments a"

definition to_ipv4_mapped :: "u16 list \<Rightarrow> byte list option" where
  "to_ipv4_mapped a = (if take 6 a = [0, 0, 0, 0, 0, 0xFFFF] then Some (concat (map be16 (drop 6 a))) else None)"

datatype IpNet = V4Net "byte list" nat | V6Net "u16 list" nat

text \<open>The operations of the crates: the parsers of networks and addresses, sets of networks, sets of regular expressions, and the conversion
  of a name to ASCII.  Nothing is assumed of the parsers.\<close>

record ('r4, 'r6, 'x) acl_crates =
  ipnet_parse :: "string \<Rightarrow> IpNet option"
  ipaddr_parse :: "string \<Rightarrow> IpAddr option"
  v4_new :: 'r4
  v4_add :: "byte list \<Rightarrow> nat \<Rightarrow> 'r4 \<Rightarrow> 'r4"
  v4_simplify :: "'r4 \<Rightarrow> 'r4"
  v4_contains :: "'r4 \<Rightarrow> byte list \<Rightarrow> bool"
  v4_is_empty :: "'r4 \<Rightarrow> bool"
  v6_new :: 'r6
  v6_add :: "u16 list \<Rightarrow> nat \<Rightarrow> 'r6 \<Rightarrow> 'r6"
  v6_simplify :: "'r6 \<Rightarrow> 'r6"
  v6_contains :: "'r6 \<Rightarrow> u16 list \<Rightarrow> bool"
  v6_is_empty :: "'r6 \<Rightarrow> bool"
  regex_build :: "string list \<Rightarrow> 'x option"
  regex_is_match :: "'x \<Rightarrow> string \<Rightarrow> bool"
  regex_is_empty :: "'x \<Rightarrow> bool"
  domain_to_ascii :: "string \<Rightarrow> string option"

section \<open>Rules\<close>

datatype Mode = BlackList | WhiteList

record ('r4, 'r6, 'x) Rules =
  ipv4 :: 'r4
  ipv6 :: 'r6
  rule_regex :: 'x
  rule_set :: "string set"
  rule_tree :: SubDomainsTree

definition rules_new :: "('r4, 'r6, 'x) acl_crates \<Rightarrow> 'r4 \<Rightarrow> 'r6 \<Rightarrow> 'x \<Rightarrow> string set \<Rightarrow> SubDomainsTree \<Rightarrow> ('r4, 'r6, 'x) Rules" where
  "rules_new K v4 v6 regex names tree =
     \<lparr>ipv4 = v4_simplify K v4, ipv6 = v6_simplify K v6, rule_regex = regex, rule_set = names, rule_tree = tree\<rparr>"

fun check_ip_matched :: "('r4, 'r6, 'x) acl_crates \<Rightarrow> ('r4, 'r6, 'x) Rules \<Rightarrow> IpAddr \<Rightarrow> bool" where
  "check_ip_matched K R (IpV4 v4) =
     (if v4_contains K (ipv4 R) v4 then True else v6_contains K (ipv6 R) (to_ipv6_mapped v4))"
| "check_ip_matched K R (IpV6 v6) =
     (if v6_contains K (ipv6 R) v6 then True
      else case to_ipv4_mapped v6 of Some v4 \<Rightarrow> v4_contains K (ipv4 R) v4 | None \<Rightarrow> False)"

definition check_host_matched :: "('r4, 'r6, 'x) acl_crates \<Rightarrow> ('r4, 'r6, 'x) Rules \<Rightarrow> string \<Rightarrow> bool" where
  "check_host_matched K R host =
     (let host = trim_end_matches (CHR ''.'') host
      in host \<in> rule_set R \<or> tree_contains (rule_tree R) host \<or> regex_is_match K (rule_regex R) host)"

fun check_address_matched :: "('r4, 'r6, 'x) acl_crates \<Rightarrow> ('r4, 'r6, 'x) Rules \<Rightarrow> Address \<Rightarrow> bool" where
  "check_address_matched K R (SocketAddress saddr) = check_ip_matched K R (ip saddr)"
| "check_address_matched K R (DomainNameAddress domain _) = check_host_matched K R (str_of domain)"

definition rules_is_ip_empty :: "('r4, 'r6, 'x) acl_crates \<Rightarrow> ('r4, 'r6, 'x) Rules \<Rightarrow> bool" where
  "rules_is_ip_empty K R \<longleftrightarrow> v4_is_empty K (ipv4 R) \<and> v6_is_empty K (ipv6 R)"

definition rules_is_host_empty :: "('r4, 'r6, 'x) acl_crates \<Rightarrow> ('r4, 'r6, 'x) Rules \<Rightarrow> bool" where
  "rules_is_host_empty K R \<longleftrightarrow> rule_set R = {} \<and> tree_is_empty (rule_tree R) \<and> regex_is_empty K (rule_regex R)"

section \<open>Reading rules\<close>

datatype acl_error = OpenError | LineError | UnicodeError string string | RegexError string

record ('r4, 'r6) ParsingRules =
  pr_name :: string
  pr_ipv4 :: 'r4
  pr_ipv6 :: 'r6
  rules_regex :: "string list"
  rules_set :: "string set"
  rules_tree :: SubDomainsTree

definition parsing_new :: "('r4, 'r6, 'x) acl_crates \<Rightarrow> string \<Rightarrow> ('r4, 'r6) ParsingRules" where
  "parsing_new K name =
     \<lparr>pr_name = name, pr_ipv4 = v4_new K, pr_ipv6 = v6_new K, rules_regex = [], rules_set = {}, rules_tree = tree_new\<rparr>"

definition add_ipv4_rule :: "('r4, 'r6, 'x) acl_crates \<Rightarrow> byte list \<Rightarrow> nat \<Rightarrow> ('r4, 'r6) ParsingRules \<Rightarrow> ('r4, 'r6) ParsingRules" where
  "add_ipv4_rule K a n P = P\<lparr>pr_ipv4 := v4_add K a n (pr_ipv4 P)\<rparr>"

definition add_ipv6_rule :: "('r4, 'r6, 'x) acl_crates \<Rightarrow> u16 list \<Rightarrow> nat \<Rightarrow> ('r4, 'r6) ParsingRules \<Rightarrow> ('r4, 'r6) ParsingRules" where
  "add_ipv6_rule K a n P = P\<lparr>pr_ipv6 := v6_add K a n (pr_ipv6 P)\<rparr>"

definition check_is_ascii :: "('r4, 'r6) ParsingRules \<Rightarrow> string \<Rightarrow> acl_error + string" where
  "check_is_ascii P s = (if is_ascii s then Inr (trim_end_matches (CHR ''.'') s) else Inl (UnicodeError (pr_name P) s))"

definition add_set_rule_inner :: "string \<Rightarrow> ('r4, 'r6) ParsingRules \<Rightarrow> acl_error + ('r4, 'r6) ParsingRules" where
  "add_set_rule_inner rule P =
     (case check_is_ascii P rule of
        Inl e \<Rightarrow> Inl e
      | Inr r \<Rightarrow> Inr (P\<lparr>rules_set := insert (to_ascii_lowercase r) (rules_set P)\<rparr>))"

definition add_tree_rule_inner :: "string \<Rightarrow> ('r4, 'r6) ParsingRules \<Rightarrow> acl_error + ('r4, 'r6) ParsingRules" where
  "add_tree_rule_inner rule P =
     (case check_is_ascii P rule of
        Inl e \<Rightarrow> Inl e
      | Inr r \<Rightarrow> Inr (P\<lparr>rules_tree := tree_insert r (rules_tree P)\<rparr>))"

text \<open>The pattern \<^verbatim>\<open>TREE_SET_RULE_EQUIV\<close>: after one of five prefixes a group of words, each with an escaped dot after it or not, and a dollar sign; or
  such a group after a caret.  The two captures.\<close>

definition backslash :: char where
  "backslash = CHR 0x5C"

definition is_word :: "char \<Rightarrow> bool" where
  "is_word c \<longleftrightarrow> (let n = of_char c :: int in 48 \<le> n \<and> n \<le> 57 \<or> 65 \<le> n \<and> n \<le> 90 \<or> 97 \<le> n \<and> n \<le> 122 \<or> n = 95 \<or> n = 45)"

fun words :: "bool \<Rightarrow> string \<Rightarrow> bool" where
  "words w [] = True"
| "words w (c # s) =
     (if is_word c then words True s
      else if c = backslash then (case s of [] \<Rightarrow> False | d # s' \<Rightarrow> w \<and> d = CHR ''.'' \<and> words False s')
      else False)"

definition group_dollar :: "string \<Rightarrow> string option" where
  "group_dollar s = (if s \<noteq> [] \<and> last s = CHR ''$'' \<and> butlast s \<noteq> [] \<and> words False (butlast s) then Some (butlast s) else None)"

definition tree_prefixes :: "string list" where
  "tree_prefixes = [''(^|'' @ [backslash] @ ''.)'', ''(?:^|'' @ [backslash] @ ''.)'', ''^.+'' @ [backslash] @ ''.'', ''^.*'' @ [backslash] @ ''.'', [backslash] @ ''.'']"

definition TREE_SET_RULE_EQUIV :: "string \<Rightarrow> (string option \<times> string option) option" where
  "TREE_SET_RULE_EQUIV rule =
     (case Option.bind (strip_any tree_prefixes rule) group_dollar of
        Some g \<Rightarrow> Some (Some g, None)
      | None \<Rightarrow>
          (case Option.bind (strip_prefix ''^'' rule) group_dollar of
             Some g \<Rightarrow> Some (None, Some g)
           | None \<Rightarrow> None))"

fun unescape :: "string \<Rightarrow> string" where
  "unescape (c # d # s) = (if c = backslash \<and> d = CHR ''.'' then d # unescape s else c # unescape (d # s))"
| "unescape s = s"

definition add_regex_rule :: "string \<Rightarrow> ('r4, 'r6) ParsingRules \<Rightarrow> ('r4, 'r6) ParsingRules" where
  "add_regex_rule rule P =
     (let plain = P\<lparr>rules_regex := rules_regex P @ [to_ascii_lowercase rule]\<rparr> in
      case TREE_SET_RULE_EQUIV rule of
        Some (Some tree_rule, _) \<Rightarrow> (case add_tree_rule_inner (unescape tree_rule) P of Inr P' \<Rightarrow> P' | Inl _ \<Rightarrow> plain)
      | Some (None, Some set_rule) \<Rightarrow> (case add_set_rule_inner (unescape set_rule) P of Inr P' \<Rightarrow> P' | Inl _ \<Rightarrow> plain)
      | _ \<Rightarrow> plain)"

definition compile_regex :: "('r4, 'r6, 'x) acl_crates \<Rightarrow> string \<Rightarrow> string list \<Rightarrow> acl_error + 'x" where
  "compile_regex K name regex_rules = (case regex_build K regex_rules of Some x \<Rightarrow> Inr x | None \<Rightarrow> Inl (RegexError name))"

definition into_rules :: "('r4, 'r6, 'x) acl_crates \<Rightarrow> ('r4, 'r6) ParsingRules \<Rightarrow> acl_error + ('r4, 'r6, 'x) Rules" where
  "into_rules K P =
     (case compile_regex K (pr_name P) (rules_regex P) of
        Inl e \<Rightarrow> Inl e
      | Inr x \<Rightarrow> Inr (rules_new K (pr_ipv4 P) (pr_ipv6 P) x (rules_set P) (rules_tree P)))"

section \<open>Reading the file\<close>

record ('r4, 'r6, 'x) AccessControl =
  outbound_block :: "('r4, 'r6, 'x) Rules"
  black_list :: "('r4, 'r6, 'x) Rules"
  white_list :: "('r4, 'r6, 'x) Rules"
  acl_mode :: Mode

datatype acl_section = OutboundBlock | Bypass | Proxy

text \<open>The local variables of \<^verbatim>\<open>load_from_file\<close>; \<^verbatim>\<open>curr\<close> points to one of the three sets of rules.\<close>

record ('r4, 'r6) acl_parser =
  ap_mode :: Mode
  ap_rules :: "acl_section \<Rightarrow> ('r4, 'r6) ParsingRules"
  ap_curr :: acl_section

definition on_curr :: "(('r4, 'r6) ParsingRules \<Rightarrow> acl_error + ('r4, 'r6) ParsingRules) \<Rightarrow> ('r4, 'r6) acl_parser \<Rightarrow> acl_error + ('r4, 'r6) acl_parser" where
  "on_curr f A =
     (case f (ap_rules A (ap_curr A)) of
        Inl e \<Rightarrow> Inl e
      | Inr P \<Rightarrow> Inr (A\<lparr>ap_rules := (ap_rules A)(ap_curr A := P)\<rparr>))"

definition acl_line :: "('r4, 'r6, 'x) acl_crates \<Rightarrow> string \<Rightarrow> ('r4, 'r6) acl_parser \<Rightarrow> acl_error + ('r4, 'r6) acl_parser" where
  "acl_line K line A =
     (if line = [] then Inr A
      else if hd line = CHR ''#'' then Inr A
      else let line = trim line in
      if \<not> is_ascii line then Inr A
      else case strip_prefix ''||'' line of Some rule \<Rightarrow> on_curr (add_tree_rule_inner rule) A | None \<Rightarrow>
      (case strip_prefix ''|'' line of Some rule \<Rightarrow> on_curr (add_set_rule_inner rule) A | None \<Rightarrow>
       if line = ''[reject_all]'' \<or> line = ''[bypass_all]'' then Inr (A\<lparr>ap_mode := WhiteList\<rparr>)
       else if line = ''[accept_all]'' \<or> line = ''[proxy_all]'' then Inr (A\<lparr>ap_mode := BlackList\<rparr>)
       else if line = ''[outbound_block_list]'' then Inr (A\<lparr>ap_curr := OutboundBlock\<rparr>)
       else if line = ''[black_list]'' \<or> line = ''[bypass_list]'' then Inr (A\<lparr>ap_curr := Bypass\<rparr>)
       else if line = ''[white_list]'' \<or> line = ''[proxy_list]'' then Inr (A\<lparr>ap_curr := Proxy\<rparr>)
       else case ipnet_parse K line of
         Some (V4Net a n) \<Rightarrow> on_curr (\<lambda>P. Inr (add_ipv4_rule K a n P)) A
       | Some (V6Net a n) \<Rightarrow> on_curr (\<lambda>P. Inr (add_ipv6_rule K a n P)) A
       | None \<Rightarrow>
           (case ipaddr_parse K line of
              Some (IpV4 a) \<Rightarrow> on_curr (\<lambda>P. Inr (add_ipv4_rule K a 32 P)) A
            | Some (IpV6 a) \<Rightarrow> on_curr (\<lambda>P. Inr (add_ipv6_rule K a 128 P)) A
            | None \<Rightarrow> on_curr (\<lambda>P. Inr (add_regex_rule line P)) A)))"

fun acl_lines :: "('r4, 'r6, 'x) acl_crates \<Rightarrow> string option list \<Rightarrow> ('r4, 'r6) acl_parser \<Rightarrow> acl_error + ('r4, 'r6) acl_parser" where
  "acl_lines K [] A = Inr A"
| "acl_lines K (None # ls) A = Inl LineError"
| "acl_lines K (Some l # ls) A = (case acl_line K l A of Inl e \<Rightarrow> Inl e | Inr A' \<Rightarrow> acl_lines K ls A')"

definition acl_start :: "('r4, 'r6, 'x) acl_crates \<Rightarrow> ('r4, 'r6) acl_parser" where
  "acl_start K =
     \<lparr>ap_mode = BlackList,
      ap_rules = (\<lambda>s. case s of
         OutboundBlock \<Rightarrow> parsing_new K ''[outbound_block_list]''
       | Bypass \<Rightarrow> parsing_new K ''[black_list] or [bypass_list]''
       | Proxy \<Rightarrow> parsing_new K ''[white_list] or [proxy_list]''),
      ap_curr = Bypass\<rparr>"

text \<open>\<open>file\<close> is what the file holds, when it can be opened.\<close>

definition load_from_file :: "('r4, 'r6, 'x) acl_crates \<Rightarrow> string option \<Rightarrow> acl_error + ('r4, 'r6, 'x) AccessControl" where
  "load_from_file K file =
     (case file of None \<Rightarrow> Inl OpenError | Some f \<Rightarrow>
      (case acl_lines K (lines f) (acl_start K) of Inl e \<Rightarrow> Inl e | Inr A \<Rightarrow>
       (case into_rules K (ap_rules A OutboundBlock) of Inl e \<Rightarrow> Inl e | Inr ob \<Rightarrow>
        (case into_rules K (ap_rules A Bypass) of Inl e \<Rightarrow> Inl e | Inr bl \<Rightarrow>
         (case into_rules K (ap_rules A Proxy) of Inl e \<Rightarrow> Inl e | Inr wl \<Rightarrow>
          Inr \<lparr>outbound_block = ob, black_list = bl, white_list = wl, acl_mode = ap_mode A\<rparr>)))))"

section \<open>Decisions\<close>

definition check_ascii_host_in_proxy_list :: "('r4, 'r6, 'x) acl_crates \<Rightarrow> ('r4, 'r6, 'x) AccessControl \<Rightarrow> string \<Rightarrow> bool option" where
  "check_ascii_host_in_proxy_list K acl host =
     (if check_host_matched K (white_list acl) host then Some True
      else if check_host_matched K (black_list acl) host then Some False
      else None)"

definition convert_to_ascii :: "('r4, 'r6, 'x) acl_crates \<Rightarrow> string \<Rightarrow> string" where
  "convert_to_ascii K host = (case domain_to_ascii K host of Some h \<Rightarrow> h | None \<Rightarrow> host)"

definition check_host_in_proxy_list :: "('r4, 'r6, 'x) acl_crates \<Rightarrow> ('r4, 'r6, 'x) AccessControl \<Rightarrow> string \<Rightarrow> bool option" where
  "check_host_in_proxy_list K acl host = check_ascii_host_in_proxy_list K acl (convert_to_ascii K host)"

definition is_ip_empty :: "('r4, 'r6, 'x) acl_crates \<Rightarrow> ('r4, 'r6, 'x) AccessControl \<Rightarrow> bool" where
  "is_ip_empty K acl =
     (case acl_mode acl of BlackList \<Rightarrow> rules_is_ip_empty K (black_list acl) | WhiteList \<Rightarrow> rules_is_ip_empty K (white_list acl))"

definition is_host_empty :: "('r4, 'r6, 'x) acl_crates \<Rightarrow> ('r4, 'r6, 'x) AccessControl \<Rightarrow> bool" where
  "is_host_empty K acl \<longleftrightarrow> rules_is_host_empty K (black_list acl) \<and> rules_is_host_empty K (white_list acl)"

definition check_ip_in_proxy_list :: "('r4, 'r6, 'x) acl_crates \<Rightarrow> ('r4, 'r6, 'x) AccessControl \<Rightarrow> IpAddr \<Rightarrow> bool" where
  "check_ip_in_proxy_list K acl a =
     (case acl_mode acl of
        BlackList \<Rightarrow> \<not> check_ip_matched K (black_list acl) a
      | WhiteList \<Rightarrow> check_ip_matched K (white_list acl) a)"

definition is_default_in_proxy_list :: "('r4, 'r6, 'x) AccessControl \<Rightarrow> bool" where
  "is_default_in_proxy_list acl = (case acl_mode acl of BlackList \<Rightarrow> True | WhiteList \<Rightarrow> False)"

text \<open>\<open>resolve\<close> is what \<^verbatim>\<open>context.dns_resolve\<close> answers.\<close>

definition check_target_bypassed :: "('r4, 'r6, 'x) acl_crates \<Rightarrow> (string \<Rightarrow> u16 \<Rightarrow> SocketAddr list option) \<Rightarrow> ('r4, 'r6, 'x) AccessControl \<Rightarrow> Address \<Rightarrow> bool" where
  "check_target_bypassed K resolve acl addr =
     (case addr of
        SocketAddress a \<Rightarrow> \<not> check_ip_in_proxy_list K acl (ip a)
      | DomainNameAddress name port \<Rightarrow>
          (let host = str_of name in
           case check_host_in_proxy_list K acl host of
             Some value \<Rightarrow> \<not> value
           | None \<Rightarrow>
               if is_ip_empty K acl then \<not> is_default_in_proxy_list acl
               else (case resolve host port of
                 Some vaddr \<Rightarrow> list_ex (\<lambda>a. \<not> check_ip_in_proxy_list K acl (ip a)) vaddr
               | None \<Rightarrow> False)))"

definition check_client_blocked :: "('r4, 'r6, 'x) acl_crates \<Rightarrow> ('r4, 'r6, 'x) AccessControl \<Rightarrow> SocketAddr \<Rightarrow> bool" where
  "check_client_blocked K acl addr =
     (case acl_mode acl of
        BlackList \<Rightarrow> check_ip_matched K (black_list acl) (ip addr)
      | WhiteList \<Rightarrow> \<not> check_ip_matched K (white_list acl) (ip addr))"

definition check_outbound_blocked :: "('r4, 'r6, 'x) acl_crates \<Rightarrow> (string \<Rightarrow> u16 \<Rightarrow> SocketAddr list option) \<Rightarrow> ('r4, 'r6, 'x) AccessControl \<Rightarrow> Address \<Rightarrow> bool" where
  "check_outbound_blocked K resolve acl outbound =
     (case outbound of
        SocketAddress a \<Rightarrow> check_ip_matched K (outbound_block acl) (ip a)
      | DomainNameAddress name port \<Rightarrow>
          (let host = str_of name in
           if check_host_matched K (outbound_block acl) (convert_to_ascii K host) then True
           else case resolve host port of
             Some vaddr \<Rightarrow> list_ex (\<lambda>a. check_ip_matched K (outbound_block acl) (ip a)) vaddr
           | None \<Rightarrow> False))"

section \<open>The tree\<close>

text \<open>Inserting a name adds exactly the name and its subdomains: neither the early return nor the pruning changes what the tree contains.\<close>

lemma contains_parts_empty [simp]: "\<not> contains_parts ps []"
  by (cases ps) auto

lemma contains_insert_parts:
  assumes "qs \<noteq> []"
  shows "contains_parts ps (insert_parts qs m) \<longleftrightarrow> contains_parts ps m \<or> prefix (map to_ascii_lowercase qs) ps"
  using assms
proof (induction qs arbitrary: ps m)
  case (Cons q qs)
  let ?k = "to_ascii_lowercase q"
  show ?case
  proof (cases ps)
    case (Cons p ps')
    show ?thesis
    proof (cases "p = ?k")
      case True
      then show ?thesis using Cons Cons.IH [of ps' "children (entry q m)"]
        by (cases "map_of m ?k") (auto simp: entry_def part_new_def update_conv' split: if_splits)
    next
      case False
      then show ?thesis using Cons by (auto simp: update_conv')
    qed
  qed simp
qed simp

lemma split_at_nonempty [simp]: "split_at d s \<noteq> []"
  by (induction s) (auto split: list.splits)

lemma to_lower_dot: "to_lower_char c = CHR ''.'' \<longleftrightarrow> c = CHR ''.''"
proof (cases "65 \<le> (of_char c :: int) \<and> of_char c \<le> (90 :: int)")
  case True
  then have "of_char (to_lower_char c) = of_char c + (32 :: int)" by (simp add: to_lower_char_def)
  then have "of_char (to_lower_char c) \<noteq> (of_char (CHR ''.'') :: int)" "of_char c \<noteq> (of_char (CHR ''.'') :: int)" using True by auto
  then show ?thesis by auto
next
  case False
  then show ?thesis by (auto simp: to_lower_char_def Let_def)
qed

lemma rsplit_lower: "map to_ascii_lowercase (rsplit (CHR ''.'') s) = rsplit (CHR ''.'') (to_ascii_lowercase s)"
proof -
  have "split_at (CHR ''.'') (map to_lower_char s) = map (map to_lower_char) (split_at (CHR ''.'') s)"
    by (induction s) (auto simp: to_lower_dot split: list.splits)
  then show ?thesis by (simp add: rsplit_def rev_map to_ascii_lowercase_def [abs_def])
qed

lemma split_at_append: "split_at d (x @ d # y) = split_at d x @ split_at d y"
  by (induction x) (auto split: list.splits simp: Cons_eq_append_conv)

definition subdomain :: "string \<Rightarrow> string \<Rightarrow> bool" where
  "subdomain h d \<longleftrightarrow> h = d \<or> length d < length h \<and> drop (length h - Suc (length d)) h = ''.'' @ d"

lemma subdomain_iff: "subdomain h d \<longleftrightarrow> h = d \<or> (\<exists>x. h = x @ ''.'' @ d)"
proof -
  have "(\<exists>x. h = x @ ''.'' @ d) \<longleftrightarrow> length d < length h \<and> drop (length h - Suc (length d)) h = ''.'' @ d"
  proof
    assume "length d < length h \<and> drop (length h - Suc (length d)) h = ''.'' @ d"
    then have "h = take (length h - Suc (length d)) h @ ''.'' @ d" by (metis append_take_drop_id)
    then show "\<exists>x. h = x @ ''.'' @ d" by blast
  qed auto
  then show ?thesis by (simp add: subdomain_def)
qed

fun join_at :: "char \<Rightarrow> string list \<Rightarrow> string" where
  "join_at d [] = []"
| "join_at d [x] = x"
| "join_at d (x # y # ys) = x @ d # join_at d (y # ys)"

lemma join_split: "join_at d (split_at d s) = s"
proof (induction s)
  case (Cons c s)
  obtain p ps where "split_at d s = p # ps" by (meson neq_Nil_conv split_at_nonempty)
  then show ?case using Cons by (cases ps) auto
qed simp

lemma join_append: "xs \<noteq> [] \<Longrightarrow> ys \<noteq> [] \<Longrightarrow> join_at d (xs @ ys) = join_at d xs @ d # join_at d ys"
  by (induction d xs rule: join_at.induct) (auto simp: neq_Nil_conv)

lemma rsplit_prefix: "prefix (rsplit (CHR ''.'') d) (rsplit (CHR ''.'') h) \<longleftrightarrow> subdomain h d"
proof
  assume "prefix (rsplit (CHR ''.'') d) (rsplit (CHR ''.'') h)"
  then obtain xs where xs: "split_at (CHR ''.'') h = xs @ split_at (CHR ''.'') d" by (auto simp: rsplit_def suffix_to_prefix [symmetric] suffix_def)
  show "subdomain h d"
  proof (cases xs)
    case Nil
    then have "h = d" using xs join_split [of "CHR ''.''"] by (metis append_Nil)
    then show ?thesis by (simp add: subdomain_iff)
  next
    case Cons
    then have "h = join_at (CHR ''.'') xs @ CHR ''.'' # d" using xs join_split [of "CHR ''.''"] join_append [of xs] by (metis list.distinct(1) split_at_nonempty)
    then show ?thesis by (auto simp: subdomain_iff)
  qed
next
  assume "subdomain h d"
  then show "prefix (rsplit (CHR ''.'') d) (rsplit (CHR ''.'') h)"
    by (auto simp: subdomain_iff rsplit_def split_at_append)
qed

lemma contains_insert: "tree_contains (tree_insert r t) h \<longleftrightarrow> tree_contains t h \<or> subdomain h (to_ascii_lowercase r)"
proof -
  have "rsplit (CHR ''.'') r \<noteq> []" by (simp add: rsplit_def)
  then show ?thesis by (simp add: tree_contains_def tree_insert_def contains_insert_parts rsplit_lower rsplit_prefix)
qed

lemma insert_nonempty: "\<not> tree_is_empty (tree_insert r t)"
proof -
  have "m \<noteq> [] \<or> \<not> included (entry q m)" for q m by (auto simp: entry_def part_new_def)
  then have "qs \<noteq> [] \<Longrightarrow> insert_parts qs m \<noteq> []" for qs m
    by (cases qs) (auto simp: update_conv' dest: arg_cong [where f = map_of])
  then show ?thesis by (simp add: tree_is_empty_def tree_insert_def rsplit_def)
qed

text \<open>A collection of names: what it holds after names were added, whatever the structure behind it.\<close>

locale name_set =
  fixes none :: "'t" and add :: "string \<Rightarrow> 't \<Rightarrow> 't" and has :: "'t \<Rightarrow> string \<Rightarrow> bool" and covers :: "string \<Rightarrow> string \<Rightarrow> bool"
  assumes has_none: "\<not> has none h"
    and has_add: "has (add r t) h \<longleftrightarrow> has t h \<or> covers h r"
begin

lemma has_fold: "has (fold add rs t) h \<longleftrightarrow> has t h \<or> (\<exists>r\<in>set rs. covers h r)"
  by (induction rs arbitrary: t) (auto simp: has_add)

lemma has_all: "has (fold add rs none) h \<longleftrightarrow> (\<exists>r\<in>set rs. covers h r)"
  by (simp add: has_fold has_none)

end

interpretation subdomains: name_set tree_new tree_insert tree_contains "\<lambda>h r. subdomain h (to_ascii_lowercase r)"
  by unfold_locales (simp add: tree_new_def tree_contains_def, simp add: contains_insert)

text \<open>C36.  A tree into which names were inserted contains exactly these names, in lower case, and their subdomains.\<close>

theorem tree_contains_spec:
  "tree_contains (fold tree_insert rules tree_new) host \<longleftrightarrow> list_ex (\<lambda>r. subdomain host (to_ascii_lowercase r)) rules"
  by (simp add: subdomains.has_all list_ex_iff)

section \<open>What the rules of a file mean\<close>

datatype acl_rule = is_net: NetRule IpNet | SetRule string | TreeRule string | RegexRule string
datatype directive = Nothing | UseMode Mode | InSection acl_section | Rule acl_rule

definition regex_directive :: "string \<Rightarrow> acl_rule" where
  "regex_directive rule =
     (case TREE_SET_RULE_EQUIV rule of
        Some (Some g, _) \<Rightarrow> TreeRule (unescape g)
      | Some (None, Some g) \<Rightarrow> SetRule (unescape g)
      | _ \<Rightarrow> RegexRule rule)"

definition keywords_of :: "(string \<times> directive) list" where
  "keywords_of =
     [(''[reject_all]'', UseMode WhiteList), (''[bypass_all]'', UseMode WhiteList), (''[accept_all]'', UseMode BlackList), (''[proxy_all]'', UseMode BlackList),
      (''[outbound_block_list]'', InSection OutboundBlock), (''[black_list]'', InSection Bypass), (''[bypass_list]'', InSection Bypass),
      (''[white_list]'', InSection Proxy), (''[proxy_list]'', InSection Proxy)]"

definition directive_of :: "('r4, 'r6, 'x) acl_crates \<Rightarrow> string \<Rightarrow> directive" where
  "directive_of K raw =
     (let line = trim raw in
      if raw = [] \<or> hd raw = CHR ''#'' \<or> \<not> is_ascii line then Nothing
      else case (strip_prefix ''||'' line, strip_prefix ''|'' line, map_of keywords_of line, ipnet_parse K line, ipaddr_parse K line) of
        (Some d, _) \<Rightarrow> Rule (TreeRule d)
      | (_, Some d, _) \<Rightarrow> Rule (SetRule d)
      | (_, _, Some d, _) \<Rightarrow> d
      | (_, _, _, Some net, _) \<Rightarrow> Rule (NetRule net)
      | (_, _, _, _, Some (IpV4 a)) \<Rightarrow> Rule (NetRule (V4Net a 32))
      | (_, _, _, _, Some (IpV6 a)) \<Rightarrow> Rule (NetRule (V6Net a 128))
      | _ \<Rightarrow> Rule (regex_directive line))"

text \<open>The mode, the current section and the rules with their sections after some lines.\<close>

type_synonym acl_spec = "Mode \<times> acl_section \<times> (acl_section \<times> acl_rule) list"

fun spec_line :: "('r4, 'r6, 'x) acl_crates \<Rightarrow> string \<Rightarrow> acl_spec \<Rightarrow> acl_spec" where
  "spec_line K line (md, sec, rs) =
     (case directive_of K line of
        Nothing \<Rightarrow> (md, sec, rs)
      | UseMode m \<Rightarrow> (m, sec, rs)
      | InSection s \<Rightarrow> (md, s, rs)
      | Rule r \<Rightarrow> (md, sec, rs @ [(sec, r)]))"

definition file_spec :: "('r4, 'r6, 'x) acl_crates \<Rightarrow> string \<Rightarrow> acl_spec" where
  "file_spec K f = fold (spec_line K) (map the (lines f)) (BlackList, Bypass, [])"

definition plain_name :: "string \<Rightarrow> string" where
  "plain_name d = to_ascii_lowercase (trim_end_matches (CHR ''.'') d)"

text \<open>\<open>re\<close> is the meaning of one regular expression.\<close>

fun host_rule :: "(string \<Rightarrow> string \<Rightarrow> bool) \<Rightarrow> string \<Rightarrow> acl_rule \<Rightarrow> bool" where
  "host_rule re h (SetRule d) \<longleftrightarrow> h = plain_name d"
| "host_rule re h (TreeRule d) \<longleftrightarrow> subdomain h (plain_name d)"
| "host_rule re h (RegexRule r) \<longleftrightarrow> re (to_ascii_lowercase r) h"
| "host_rule re h (NetRule n) \<longleftrightarrow> False"

definition bits_of :: "nat \<Rightarrow> 'a :: len word list \<Rightarrow> bool list" where
  "bits_of w ws = concat (map (\<lambda>x. map (bit x) (rev [0..<w])) ws)"

fun net_rule4 :: "byte list \<Rightarrow> acl_rule \<Rightarrow> bool" where
  "net_rule4 a (NetRule (V4Net b n)) \<longleftrightarrow> take n (bits_of 8 a) = take n (bits_of 8 b)"
| "net_rule4 a r \<longleftrightarrow> False"

fun net_rule6 :: "u16 list \<Rightarrow> acl_rule \<Rightarrow> bool" where
  "net_rule6 a (NetRule (V6Net b n)) \<longleftrightarrow> take n (bits_of 16 a) = take n (bits_of 16 b)"
| "net_rule6 a r \<longleftrightarrow> False"

text \<open>What the crates document: a set of networks contains the addresses of its networks, and merging networks does not change it; a set of
  regular expressions matches what one of them matches.\<close>

definition crates_ok :: "('r4, 'r6, 'x) acl_crates \<Rightarrow> (string \<Rightarrow> string \<Rightarrow> bool) \<Rightarrow> bool" where
  "crates_ok K re \<longleftrightarrow>
     (\<forall>a. \<not> v4_contains K (v4_new K) a) \<and> (\<forall>a. \<not> v6_contains K (v6_new K) a) \<and>
     (\<forall>a b n r. v4_contains K (v4_add K b n r) a \<longleftrightarrow> v4_contains K r a \<or> take n (bits_of 8 a) = take n (bits_of 8 b)) \<and>
     (\<forall>a b n r. v6_contains K (v6_add K b n r) a \<longleftrightarrow> v6_contains K r a \<or> take n (bits_of 16 a) = take n (bits_of 16 b)) \<and>
     (\<forall>a r. v4_contains K (v4_simplify K r) a \<longleftrightarrow> v4_contains K r a) \<and> (\<forall>a r. v6_contains K (v6_simplify K r) a \<longleftrightarrow> v6_contains K r a) \<and>
     v4_is_empty K (v4_new K) \<and> (\<forall>b n r. \<not> v4_is_empty K (v4_add K b n r)) \<and> (\<forall>r. v4_is_empty K (v4_simplify K r) \<longleftrightarrow> v4_is_empty K r) \<and>
     v6_is_empty K (v6_new K) \<and> (\<forall>b n r. \<not> v6_is_empty K (v6_add K b n r)) \<and> (\<forall>r. v6_is_empty K (v6_simplify K r) \<longleftrightarrow> v6_is_empty K r) \<and>
     (\<forall>rs x h. regex_build K rs = Some x \<longrightarrow> (regex_is_match K x h \<longleftrightarrow> (\<exists>r\<in>set rs. re r h)))"

fun regexes :: "acl_rule \<Rightarrow> string list" where
  "regexes (RegexRule r) = [to_ascii_lowercase r]"
| "regexes _ = []"

text \<open>A parser and the rules it has read in a section.\<close>

definition parsed :: "('r4, 'r6, 'x) acl_crates \<Rightarrow> ('r4, 'r6) ParsingRules \<Rightarrow> acl_rule list \<Rightarrow> bool" where
  "parsed K P rs \<longleftrightarrow>
     (\<forall>h. h \<in> rules_set P \<longleftrightarrow> (\<exists>d. SetRule d \<in> set rs \<and> h = plain_name d)) \<and>
     (\<forall>h. tree_contains (rules_tree P) h \<longleftrightarrow> (\<exists>d. TreeRule d \<in> set rs \<and> subdomain h (plain_name d))) \<and>
     rules_regex P = concat (map regexes rs) \<and>
     (\<forall>a. v4_contains K (pr_ipv4 P) a \<longleftrightarrow> list_ex (net_rule4 a) rs) \<and>
     (\<forall>a. v6_contains K (pr_ipv6 P) a \<longleftrightarrow> list_ex (net_rule6 a) rs) \<and>
     (v4_is_empty K (pr_ipv4 P) \<longleftrightarrow> (\<forall>a n. NetRule (V4Net a n) \<notin> set rs)) \<and>
     (v6_is_empty K (pr_ipv6 P) \<longleftrightarrow> (\<forall>a n. NetRule (V6Net a n) \<notin> set rs))"

definition section_rules :: "acl_section \<Rightarrow> (acl_section \<times> acl_rule) list \<Rightarrow> acl_rule list" where
  "section_rules s rs = map snd (filter (\<lambda>r. fst r = s) rs)"

definition acl_rep :: "('r4, 'r6, 'x) acl_crates \<Rightarrow> ('r4, 'r6) acl_parser \<Rightarrow> acl_spec \<Rightarrow> bool" where
  "acl_rep K A S \<longleftrightarrow> (case S of (md, sec, rs) \<Rightarrow>
     ap_mode A = md \<and> ap_curr A = sec \<and> (\<forall>s. parsed K (ap_rules A s) (section_rules s rs)))"

lemma parsed_rules:
  assumes "crates_ok K re" "parsed K P rs"
  shows "is_ascii d \<Longrightarrow> \<exists>P'. add_tree_rule_inner d P = Inr P' \<and> parsed K P' (rs @ [TreeRule d])"
    "is_ascii d \<Longrightarrow> \<exists>P'. add_set_rule_inner d P = Inr P' \<and> parsed K P' (rs @ [SetRule d])"
    "parsed K (P\<lparr>rules_regex := rules_regex P @ [to_ascii_lowercase d]\<rparr>) (rs @ [RegexRule d])"
    "parsed K (add_ipv4_rule K a n P) (rs @ [NetRule (V4Net a n)])"
    "parsed K (add_ipv6_rule K b n P) (rs @ [NetRule (V6Net b n)])"
  using assms
  by (auto simp: parsed_def crates_ok_def add_tree_rule_inner_def add_set_rule_inner_def check_is_ascii_def add_ipv4_rule_def add_ipv6_rule_def
      contains_insert plain_name_def)

lemma word_ascii: "is_word c \<Longrightarrow> of_char c < (128 :: int)"
  by (auto simp: is_word_def Let_def)

lemma words_ascii: "words w s \<Longrightarrow> is_ascii s"
  by (induction w s rule: words.induct)
    (auto simp: is_ascii_def backslash_def dest: word_ascii split: if_splits list.splits)

lemma unescape_ascii: "is_ascii s \<Longrightarrow> is_ascii (unescape s)"
  by (induction s rule: unescape.induct) (auto simp: is_ascii_def)

lemma captures_ascii:
  assumes "TREE_SET_RULE_EQUIV rule = Some (g1, g2)"
  shows "g1 = Some g \<Longrightarrow> is_ascii (unescape g)" "g2 = Some g \<Longrightarrow> is_ascii (unescape g)"
proof -
  have *: "group_dollar s = Some x \<Longrightarrow> is_ascii (unescape x)" for s x
    using unescape_ascii words_ascii by (auto simp: group_dollar_def split: if_splits)
  show "g1 = Some g \<Longrightarrow> is_ascii (unescape g)" "g2 = Some g \<Longrightarrow> is_ascii (unescape g)"
    using assms * by (auto simp: TREE_SET_RULE_EQUIV_def bind_eq_Some_conv split: option.splits)
qed

lemma parsed_regex:
  assumes "crates_ok K re" "parsed K P rs"
  shows "parsed K (add_regex_rule rule P) (rs @ [regex_directive rule])"
proof (cases "TREE_SET_RULE_EQUIV rule")
  case None
  then show ?thesis using parsed_rules(3) [OF assms, of rule] by (simp add: add_regex_rule_def regex_directive_def Let_def)
next
  case (Some c)
  obtain g1 g2 where c: "c = (g1, g2)" by (metis prod.exhaust)
  show ?thesis
  proof (cases g1)
    case (Some g)
    then have "is_ascii (unescape g)" using captures_ascii(1) \<open>TREE_SET_RULE_EQUIV rule = Some c\<close> c by blast
    then show ?thesis using parsed_rules(1) [OF assms] Some \<open>TREE_SET_RULE_EQUIV rule = Some c\<close> c
      by (force simp: add_regex_rule_def regex_directive_def Let_def)
  next
    case None
    show ?thesis
    proof (cases g2)
      case (Some g)
      then have "is_ascii (unescape g)" using captures_ascii(2) \<open>TREE_SET_RULE_EQUIV rule = Some c\<close> c by blast
      then show ?thesis using parsed_rules(2) [OF assms] Some None \<open>TREE_SET_RULE_EQUIV rule = Some c\<close> c
        by (force simp: add_regex_rule_def regex_directive_def Let_def)
    next
      case g2: None
      then show ?thesis using parsed_rules(3) [OF assms, of rule] None \<open>TREE_SET_RULE_EQUIV rule = Some c\<close> c
        by (simp add: add_regex_rule_def regex_directive_def Let_def)
    qed
  qed
qed

lemma on_curr_rep:
  assumes "acl_rep K A (md, sec, rs)" "\<And>P rs. parsed K P rs \<Longrightarrow> \<exists>P'. f P = Inr P' \<and> parsed K P' (rs @ [r])"
  shows "\<exists>A'. on_curr f A = Inr A' \<and> acl_rep K A' (md, sec, rs @ [(sec, r)])"
proof -
  have p: "\<forall>s. parsed K (ap_rules A s) (section_rules s rs)" and c: "ap_curr A = sec" "ap_mode A = md" using assms(1) by (auto simp: acl_rep_def)
  obtain P' where P': "f (ap_rules A sec) = Inr P'" "parsed K P' (section_rules sec rs @ [r])" using assms(2) p by blast
  then show ?thesis using c p by (auto simp: on_curr_def acl_rep_def section_rules_def)
qed

lemma strip_prefix_ascii: "strip_prefix p s = Some r \<Longrightarrow> is_ascii s \<Longrightarrow> is_ascii r"
  by (auto simp: strip_prefix_def is_ascii_def list_all_iff dest: in_set_dropD split: if_splits)

lemma acl_line_rule:
  assumes "crates_ok K re" "acl_rep K A (md, sec, rs)" "directive_of K l = Rule r"
  shows "\<exists>A'. acl_line K l A = Inr A' \<and> acl_rep K A' (md, sec, rs @ [(sec, r)])"
proof -
  let ?l = "trim l"
  have l: "l \<noteq> []" "hd l \<noteq> CHR ''#''" "is_ascii ?l" using assms(3) by (auto simp: directive_of_def Let_def split: if_splits)
  note parsed = parsed_rules [OF assms(1)] parsed_regex [OF assms(1)]
  consider (tree) d where "strip_prefix ''||'' ?l = Some d" | (names) d where "strip_prefix ''||'' ?l = None" "strip_prefix ''|'' ?l = Some d"
    | (other) "strip_prefix ''||'' ?l = None" "strip_prefix ''|'' ?l = None" by fastforce
  then show ?thesis
  proof cases
    case tree
    then have "r = TreeRule d" "acl_line K l A = on_curr (add_tree_rule_inner d) A" using assms(3) l by (auto simp: directive_of_def acl_line_def Let_def)
    then show ?thesis using on_curr_rep [OF assms(2)] parsed(1) strip_prefix_ascii [OF tree l(3)] by simp
  next
    case names
    then have "r = SetRule d" "acl_line K l A = on_curr (add_set_rule_inner d) A" using assms(3) l by (auto simp: directive_of_def acl_line_def Let_def)
    then show ?thesis using on_curr_rep [OF assms(2)] parsed(2) strip_prefix_ascii [OF names(2) l(3)] by simp
  next
    case other
    then have none: "map_of keywords_of ?l = None" using assms(3) l by (auto simp: directive_of_def keywords_of_def Let_def split: option.splits if_splits)
    then have kw: "?l \<noteq> ''[reject_all]''" "?l \<noteq> ''[bypass_all]''" "?l \<noteq> ''[accept_all]''" "?l \<noteq> ''[proxy_all]''" "?l \<noteq> ''[outbound_block_list]''"
      "?l \<noteq> ''[black_list]''" "?l \<noteq> ''[bypass_list]''" "?l \<noteq> ''[white_list]''" "?l \<noteq> ''[proxy_list]''"
      by (auto simp: keywords_of_def split: if_splits)
    have line: "acl_line K l A = (case ipnet_parse K ?l of
         Some (V4Net a n) \<Rightarrow> on_curr (\<lambda>P. Inr (add_ipv4_rule K a n P)) A
       | Some (V6Net a n) \<Rightarrow> on_curr (\<lambda>P. Inr (add_ipv6_rule K a n P)) A
       | None \<Rightarrow> (case ipaddr_parse K ?l of
              Some (IpV4 a) \<Rightarrow> on_curr (\<lambda>P. Inr (add_ipv4_rule K a 32 P)) A
            | Some (IpV6 a) \<Rightarrow> on_curr (\<lambda>P. Inr (add_ipv6_rule K a 128 P)) A
            | None \<Rightarrow> on_curr (\<lambda>P. Inr (add_regex_rule ?l P)) A))"
      using l other kw by (simp add: acl_line_def Let_def)
    have r: "r = (case ipnet_parse K ?l of Some net \<Rightarrow> NetRule net
       | None \<Rightarrow> (case ipaddr_parse K ?l of Some (IpV4 a) \<Rightarrow> NetRule (V4Net a 32) | Some (IpV6 a) \<Rightarrow> NetRule (V6Net a 128) | None \<Rightarrow> regex_directive ?l))"
      using assms(3) l other none by (auto simp: directive_of_def Let_def split: option.splits IpAddr.splits)
    show ?thesis unfolding line r using on_curr_rep [OF assms(2)] parsed(4-6)
      by (simp split: option.split IpNet.split IpAddr.split)
  qed
qed

lemma acl_line_rep:
  assumes "crates_ok K re" "acl_rep K A S"
  shows "\<exists>A'. acl_line K l A = Inr A' \<and> acl_rep K A' (spec_line K l S)"
proof -
  obtain md sec rs where S: "S = (md, sec, rs)" by (metis prod.exhaust)
  show ?thesis
  proof (cases "\<exists>r. directive_of K l = Rule r")
    case True
    then show ?thesis using acl_line_rule [OF assms(1)] assms(2) S by auto
  next
    case no_rule: False
    show ?thesis
    proof (cases "l = [] \<or> hd l = CHR ''#'' \<or> \<not> is_ascii (trim l)")
      case True
      then show ?thesis using assms(2) S by (auto simp: acl_line_def directive_of_def Let_def)
    next
      case False
      then obtain d where "strip_prefix ''||'' (trim l) = None" "strip_prefix ''|'' (trim l) = None" "map_of keywords_of (trim l) = Some d" "directive_of K l = d"
        using no_rule by (auto simp: directive_of_def Let_def split: option.splits IpAddr.splits)
      moreover have "acl_line K l A = (case d of UseMode m \<Rightarrow> Inr (A\<lparr>ap_mode := m\<rparr>) | InSection s \<Rightarrow> Inr (A\<lparr>ap_curr := s\<rparr>) | _ \<Rightarrow> Inr A)"
        using calculation(1-3) False by (auto simp: acl_line_def Let_def keywords_of_def split: if_splits)
      ultimately show ?thesis using no_rule assms(2) S by (cases d) (auto simp: acl_rep_def)
    qed
  qed
qed

lemma acl_lines_rep:
  assumes "crates_ok K re" "acl_rep K A S"
  shows "if None \<in> set ls then acl_lines K ls A = Inl LineError
    else \<exists>A'. acl_lines K ls A = Inr A' \<and> acl_rep K A' (fold (spec_line K) (map the ls) S)"
  using assms(2)
proof (induction ls arbitrary: A S)
  case (Cons x ls)
  show ?case
  proof (cases x)
    case (Some l)
    obtain A1 where A1: "acl_line K l A = Inr A1" "acl_rep K A1 (spec_line K l S)" using acl_line_rep [OF assms(1) Cons.prems] by blast
    show ?thesis using Cons.IH [OF A1(2)] A1(1) Some by simp
  qed simp
qed simp

lemma acl_start_rep: "crates_ok K re \<Longrightarrow> acl_rep K (acl_start K) (BlackList, Bypass, [])"
  by (simp add: acl_rep_def acl_start_def section_rules_def parsed_def parsing_new_def crates_ok_def tree_contains_def tree_new_def split: acl_section.splits)

text \<open>The rules of the loaded list are those of the file.\<close>

definition rules_rep :: "('r4, 'r6, 'x) acl_crates \<Rightarrow> (string \<Rightarrow> string \<Rightarrow> bool) \<Rightarrow> ('r4, 'r6, 'x) Rules \<Rightarrow> acl_rule list \<Rightarrow> bool" where
  "rules_rep K re R rs \<longleftrightarrow>
     (\<forall>h. check_host_matched K R h \<longleftrightarrow> list_ex (host_rule re (trim_end_matches (CHR ''.'') h)) rs) \<and>
     (\<forall>a. v4_contains K (ipv4 R) a \<longleftrightarrow> list_ex (net_rule4 a) rs) \<and> (\<forall>a. v6_contains K (ipv6 R) a \<longleftrightarrow> list_ex (net_rule6 a) rs) \<and>
     (rules_is_ip_empty K R \<longleftrightarrow> \<not> list_ex is_net rs)"

lemma list_ex_host_rule:
  "list_ex (host_rule re h) rs \<longleftrightarrow> (\<exists>d. SetRule d \<in> set rs \<and> h = plain_name d) \<or> (\<exists>d. TreeRule d \<in> set rs \<and> subdomain h (plain_name d)) \<or>
     (\<exists>d. RegexRule d \<in> set rs \<and> re (to_ascii_lowercase d) h)"
proof (induction rs)
  case (Cons r rs)
  then show ?case by (cases r) auto
qed simp

lemma crates_simplify:
  assumes "crates_ok K re"
  shows "v4_contains K (v4_simplify K r) a = v4_contains K r a" "v6_contains K (v6_simplify K q) b = v6_contains K q b"
    "v4_is_empty K (v4_simplify K r) = v4_is_empty K r" "v6_is_empty K (v6_simplify K q) = v6_is_empty K q"
  using assms unfolding crates_ok_def by blast+

lemma crates_regex: "crates_ok K re \<Longrightarrow> regex_build K rs = Some x \<Longrightarrow> regex_is_match K x h \<longleftrightarrow> (\<exists>r\<in>set rs. re r h)"
  unfolding crates_ok_def by simp

lemma parsed_laws:
  assumes "parsed K P rs"
  shows "h \<in> rules_set P \<longleftrightarrow> (\<exists>d. SetRule d \<in> set rs \<and> h = plain_name d)"
    "tree_contains (rules_tree P) h \<longleftrightarrow> (\<exists>d. TreeRule d \<in> set rs \<and> subdomain h (plain_name d))"
    "h \<in> set (rules_regex P) \<longleftrightarrow> (\<exists>d. RegexRule d \<in> set rs \<and> h = to_ascii_lowercase d)"
    "v4_contains K (pr_ipv4 P) a \<longleftrightarrow> list_ex (net_rule4 a) rs" "v6_contains K (pr_ipv6 P) b \<longleftrightarrow> list_ex (net_rule6 b) rs"
    "v4_is_empty K (pr_ipv4 P) \<and> v6_is_empty K (pr_ipv6 P) \<longleftrightarrow> \<not> list_ex is_net rs"
proof -
  have "v4_is_empty K (pr_ipv4 P) \<and> v6_is_empty K (pr_ipv6 P) \<longleftrightarrow> (\<forall>n. NetRule n \<notin> set rs)" (is "?e \<longleftrightarrow> ?n")
  proof
    assume e: ?e
    show ?n
    proof
      fix n
      show "NetRule n \<notin> set rs" using assms e by (cases n) (simp_all add: parsed_def)
    qed
  qed (use assms in \<open>simp add: parsed_def\<close>)
  moreover have "list_ex is_net rs \<longleftrightarrow> (\<exists>n. NetRule n \<in> set rs)" by (auto simp: list_ex_iff is_net_def)
  ultimately show "v4_is_empty K (pr_ipv4 P) \<and> v6_is_empty K (pr_ipv6 P) \<longleftrightarrow> \<not> list_ex is_net rs" by blast
  have "x \<in> set (regexes r) \<longleftrightarrow> (\<exists>d. r = RegexRule d \<and> x = to_ascii_lowercase d)" for x r by (cases r) auto
  then show "h \<in> set (rules_regex P) \<longleftrightarrow> (\<exists>d. RegexRule d \<in> set rs \<and> h = to_ascii_lowercase d)" using assms by (auto simp: parsed_def)
qed (use assms in \<open>simp_all add: parsed_def\<close>)

lemma into_rules_rep:
  assumes "crates_ok K re" "parsed K P rs" "into_rules K P = Inr R"
  shows "rules_rep K re R rs"
proof -
  obtain x where x: "regex_build K (rules_regex P) = Some x" "R = rules_new K (pr_ipv4 P) (pr_ipv6 P) x (rules_set P) (rules_tree P)"
    using assms(3) by (auto simp: into_rules_def compile_regex_def split: option.splits)
  have "regex_is_match K x h \<longleftrightarrow> (\<exists>d. RegexRule d \<in> set rs \<and> re (to_ascii_lowercase d) h)" for h
    unfolding crates_regex [OF assms(1) x(1)] using parsed_laws(3) [OF assms(2)] by auto
  then have "check_host_matched K R h \<longleftrightarrow> list_ex (host_rule re (trim_end_matches (CHR ''.'') h)) rs" for h
    unfolding check_host_matched_def Let_def list_ex_host_rule x(2) rules_new_def by (simp add: parsed_laws(1,2) [OF assms(2)])
  moreover have "rules_is_ip_empty K R \<longleftrightarrow> \<not> list_ex is_net rs"
    unfolding rules_is_ip_empty_def x(2) rules_new_def using parsed_laws(6) [OF assms(2)] by (simp add: crates_simplify [OF assms(1)])
  moreover have "v4_contains K (ipv4 R) a \<longleftrightarrow> list_ex (net_rule4 a) rs" "v6_contains K (ipv6 R) b \<longleftrightarrow> list_ex (net_rule6 b) rs" for a b
    unfolding x(2) rules_new_def by (simp_all add: crates_simplify [OF assms(1)] parsed_laws(4,5) [OF assms(2)])
  ultimately show ?thesis unfolding rules_rep_def by blast
qed

lemma load_parts:
  assumes "load_from_file K (Some f) = Inr acl"
  obtains A where "acl_lines K (lines f) (acl_start K) = Inr A" "acl_mode acl = ap_mode A" "into_rules K (ap_rules A OutboundBlock) = Inr (outbound_block acl)"
    "into_rules K (ap_rules A Bypass) = Inr (black_list acl)" "into_rules K (ap_rules A Proxy) = Inr (white_list acl)"
proof (cases "acl_lines K (lines f) (acl_start K)")
  case (Inr A)
  then show thesis using assms that [OF Inr]
    by (cases "into_rules K (ap_rules A OutboundBlock)"; cases "into_rules K (ap_rules A Bypass)"; cases "into_rules K (ap_rules A Proxy)")
      (auto simp: load_from_file_def)
qed (use assms in \<open>simp add: load_from_file_def\<close>)

lemma load_rep:
  assumes "crates_ok K re" "load_from_file K (Some f) = Inr acl" "file_spec K f = (md, sec, rs)"
  shows "acl_mode acl = md" "rules_rep K re (outbound_block acl) (section_rules OutboundBlock rs)" "rules_rep K re (black_list acl) (section_rules Bypass rs)"
    "rules_rep K re (white_list acl) (section_rules Proxy rs)"
proof -
  obtain A where A: "acl_lines K (lines f) (acl_start K) = Inr A" "acl_mode acl = ap_mode A" "into_rules K (ap_rules A OutboundBlock) = Inr (outbound_block acl)"
    "into_rules K (ap_rules A Bypass) = Inr (black_list acl)" "into_rules K (ap_rules A Proxy) = Inr (white_list acl)"
    using load_parts [OF assms(2)] .
  have "acl_rep K A (md, sec, rs)"
    using acl_lines_rep [OF assms(1) acl_start_rep [OF assms(1)], of "lines f"] A(1) assms(3) by (simp add: file_spec_def split: if_splits)
  then have p: "parsed K (ap_rules A s) (section_rules s rs)" and "ap_mode A = md" for s by (simp_all add: acl_rep_def)
  then show "acl_mode acl = md" "rules_rep K re (outbound_block acl) (section_rules OutboundBlock rs)" "rules_rep K re (black_list acl) (section_rules Bypass rs)"
    "rules_rep K re (white_list acl) (section_rules Proxy rs)"
    using A(2) into_rules_rep [OF assms(1) p A(3)] into_rules_rep [OF assms(1) p A(4)] into_rules_rep [OF assms(1) p A(5)] by simp_all
qed

text \<open>The decisions that a list of rules describes.\<close>

fun ip_rule :: "IpAddr \<Rightarrow> acl_rule list \<Rightarrow> bool" where
  "ip_rule (IpV4 a) rs \<longleftrightarrow> list_ex (net_rule4 a) rs \<or> list_ex (net_rule6 (to_ipv6_mapped a)) rs"
| "ip_rule (IpV6 a) rs \<longleftrightarrow> list_ex (net_rule6 a) rs \<or> (case to_ipv4_mapped a of Some b \<Rightarrow> list_ex (net_rule4 b) rs | None \<Rightarrow> False)"

fun spec_ip_proxied :: "acl_spec \<Rightarrow> IpAddr \<Rightarrow> bool" where
  "spec_ip_proxied (BlackList, sec, rs) a \<longleftrightarrow> \<not> ip_rule a (section_rules Bypass rs)"
| "spec_ip_proxied (WhiteList, sec, rs) a \<longleftrightarrow> ip_rule a (section_rules Proxy rs)"

definition spec_host :: "(string \<Rightarrow> string \<Rightarrow> bool) \<Rightarrow> acl_spec \<Rightarrow> string \<Rightarrow> bool option" where
  "spec_host re S host = (case S of (md, sec, rs) \<Rightarrow> let h = trim_end_matches (CHR ''.'') host in
     if list_ex (host_rule re h) (section_rules Proxy rs) then Some True
     else if list_ex (host_rule re h) (section_rules Bypass rs) then Some False else None)"

text \<open>A name is bypassed when a host rule says so; without a host rule the mode decides when it has no network rules to look at, and otherwise
  one address that is bypassed is enough.\<close>

definition spec_bypassed :: "(string \<Rightarrow> string \<Rightarrow> bool) \<Rightarrow> acl_spec \<Rightarrow> string \<Rightarrow> SocketAddr list option \<Rightarrow> bool" where
  "spec_bypassed re S host addrs =
     (case spec_host re S host of
        Some proxied \<Rightarrow> \<not> proxied
      | None \<Rightarrow> (case S of (md, sec, rs) \<Rightarrow>
          let relevant = section_rules (if md = BlackList then Bypass else Proxy) rs in
          if \<not> list_ex is_net relevant then md = WhiteList
          else (case addrs of Some as \<Rightarrow> list_ex (\<lambda>a. \<not> spec_ip_proxied S (ip a)) as | None \<Rightarrow> False)))"

lemma check_ip_rule: "rules_rep K re R rs \<Longrightarrow> check_ip_matched K R a \<longleftrightarrow> ip_rule a rs"
  by (cases a) (auto simp: rules_rep_def split: option.splits)

lemma acl_ip_spec:
  assumes "crates_ok K re" "load_from_file K (Some f) = Inr acl"
  shows "check_ip_in_proxy_list K acl a \<longleftrightarrow> spec_ip_proxied (file_spec K f) a"
proof -
  obtain md sec rs where S: "file_spec K f = (md, sec, rs)" by (metis prod.exhaust)
  note r = load_rep [OF assms S]
  show ?thesis using check_ip_rule [OF r(3)] check_ip_rule [OF r(4)] r(1) S by (cases md) (simp_all add: check_ip_in_proxy_list_def)
qed

lemma acl_host_spec:
  assumes "crates_ok K re" "load_from_file K (Some f) = Inr acl"
  shows "check_ascii_host_in_proxy_list K acl h = spec_host re (file_spec K f) h"
proof -
  obtain md sec rs where S: "file_spec K f = (md, sec, rs)" by (metis prod.exhaust)
  note r = load_rep [OF assms S]
  show ?thesis using r(3,4) S by (simp add: check_ascii_host_in_proxy_list_def spec_host_def rules_rep_def Let_def)
qed

lemma acl_empty_spec:
  assumes "crates_ok K re" "load_from_file K (Some f) = Inr acl" "file_spec K f = (md, sec, rs)"
  shows "is_ip_empty K acl \<longleftrightarrow> \<not> list_ex is_net (section_rules (if md = BlackList then Bypass else Proxy) rs)"
    "is_default_in_proxy_list acl \<longleftrightarrow> md = BlackList"
  using load_rep [OF assms] by (cases md; simp add: is_ip_empty_def is_default_in_proxy_list_def rules_rep_def)+

lemma acl_name_spec:
  assumes "crates_ok K re" "load_from_file K (Some f) = Inr acl"
  shows "check_target_bypassed K resolve acl (DomainNameAddress name port) \<longleftrightarrow>
    spec_bypassed re (file_spec K f) (convert_to_ascii K (str_of name)) (resolve (str_of name) port)"
proof -
  obtain md sec rs where S: "file_spec K f = (md, sec, rs)" by (metis prod.exhaust)
  let ?h = "convert_to_ascii K (str_of name)"
  show ?thesis
  proof (cases "spec_host re (file_spec K f) ?h")
    case (Some v)
    then show ?thesis using acl_host_spec [OF assms] by (simp add: check_target_bypassed_def check_host_in_proxy_list_def spec_bypassed_def)
  next
    case None
    then show ?thesis using acl_host_spec [OF assms] acl_ip_spec [OF assms] acl_empty_spec [OF assms S] S
      by (cases md; cases "resolve (str_of name) port") (simp_all add: check_target_bypassed_def check_host_in_proxy_list_def spec_bypassed_def Let_def)
  qed
qed

text \<open>Crates for examples: a set of networks is the list of its networks, a regular expression matches the string it is.\<close>

definition ex_crates :: "((byte list \<times> nat) list, (u16 list \<times> nat) list, string list) acl_crates" where
  "ex_crates =
     \<lparr>ipnet_parse = (\<lambda>s. if s = ''10.0.0.0/8'' then Some (V4Net [10, 0, 0, 0] 8) else None),
      ipaddr_parse = (\<lambda>s. if s = ''::1'' then Some (IpV6 [0, 0, 0, 0, 0, 0, 0, 1]) else None),
      v4_new = [], v4_add = (\<lambda>b n r. (b, n) # r), v4_simplify = (\<lambda>r. r),
      v4_contains = (\<lambda>r a. list_ex (\<lambda>(b, n). take n (bits_of 8 a) = take n (bits_of 8 b)) r), v4_is_empty = (\<lambda>r. r = []),
      v6_new = [], v6_add = (\<lambda>b n r. (b, n) # r), v6_simplify = (\<lambda>r. r),
      v6_contains = (\<lambda>r a. list_ex (\<lambda>(b, n). take n (bits_of 16 a) = take n (bits_of 16 b)) r), v6_is_empty = (\<lambda>r. r = []),
      regex_build = (\<lambda>rs. if ''('' \<in> set rs then None else Some rs), regex_is_match = (\<lambda>x h. h \<in> set x), regex_is_empty = (\<lambda>x. x = []),
      domain_to_ascii = (\<lambda>h. Some (to_ascii_lowercase h))\<rparr>"

lemma ex_crates_ok: "crates_ok ex_crates (\<lambda>r h. r = h)"
  by (auto simp: crates_ok_def ex_crates_def split: if_splits)

definition ex_acl_file :: string where
  "ex_acl_file = ''[proxy_list]'' @ [CHR 0x0A] @ ''||Google.com'' @ [CHR 0x0A] @ ''[bypass_list]'' @ [CHR 0x0D, CHR 0x0A] @ ''10.0.0.0/8'' @ [CHR 0x0A] @
     ''^www'' @ [backslash] @ ''.example$''"



lemma to_ipv4_mapped_mapped: "length a = 4 \<Longrightarrow> to_ipv4_mapped (to_ipv6_mapped a) = Some a"
  by (simp add: to_ipv4_mapped_def to_ipv6_mapped_def concat_segments)

text \<open>An IPv4 address and the IPv6 address it is mapped to are always decided alike.\<close>

theorem acl_mapped_alike:
  assumes "length a = 4"
  shows "check_target_bypassed K resolve acl (SocketAddress (V4 a port)) = check_target_bypassed K resolve acl (SocketAddress (V6 (to_ipv6_mapped a) port fl sc)) \<and>
    check_client_blocked K acl (V4 a port) = check_client_blocked K acl (V6 (to_ipv6_mapped a) port fl sc) \<and>
    check_outbound_blocked K resolve acl (SocketAddress (V4 a port)) = check_outbound_blocked K resolve acl (SocketAddress (V6 (to_ipv6_mapped a) port fl sc))"
proof -
  have "check_ip_matched K R (IpV4 a) = check_ip_matched K R (IpV6 (to_ipv6_mapped a))" for R using to_ipv4_mapped_mapped [OF assms] by auto
  then show ?thesis
    by (simp add: check_target_bypassed_def check_client_blocked_def check_outbound_blocked_def check_ip_in_proxy_list_def del: check_ip_matched.simps split: Mode.split)
qed

theorem acl_mapped_alike_witness:
  "check_client_blocked ex_crates \<lparr>outbound_block = undefined, black_list = \<lparr>ipv4 = [([10, 0, 0, 0], 8)], ipv6 = [], rule_regex = [], rule_set = {}, rule_tree = []\<rparr>,
     white_list = undefined, acl_mode = BlackList\<rparr> (V6 [0, 0, 0, 0, 0, 0xFFFF, 0x0A00, 1] 80 0 0)"
proof -
  let ?acl = "\<lparr>outbound_block = undefined, black_list = \<lparr>ipv4 = [([10, 0, 0, 0], 8)], ipv6 = [], rule_regex = [], rule_set = {}, rule_tree = []\<rparr>,
     white_list = undefined, acl_mode = BlackList\<rparr> :: ((byte list \<times> nat) list, (u16 list \<times> nat) list, string list) AccessControl"
  have "check_client_blocked ex_crates ?acl (V4 [10, 0, 0, 1] 80)" by (simp add: check_client_blocked_def ex_crates_def bits_of_def)
  moreover have "to_ipv6_mapped [10, 0, 0, 1] = [0, 0, 0, 0, 0, 0xFFFF, 0x0A00, 1]" by code_simp
  ultimately show ?thesis using acl_mapped_alike [of "[10, 0, 0, 1]" ex_crates "\<lambda>_ _. None" ?acl 80 0 0] by simp
qed

lemma load_fails:
  assumes "crates_ok K re" "None \<notin> set (lines f)" "file_spec K f = (md, sec, rs)"
  shows "(\<exists>acl. load_from_file K (Some f) = Inr acl) \<and> (\<forall>s. regex_build K (concat (map regexes (section_rules s rs))) \<noteq> None) \<or>
    (\<exists>name. load_from_file K (Some f) = Inl (RegexError name)) \<and> (\<exists>s. regex_build K (concat (map regexes (section_rules s rs))) = None)"
proof -
  obtain A where A: "acl_lines K (lines f) (acl_start K) = Inr A" "acl_rep K A (md, sec, rs)"
    using acl_lines_rep [OF assms(1) acl_start_rep [OF assms(1)], of "lines f"] assms(2,3) by (auto simp: file_spec_def)
  have "rules_regex (ap_rules A s) = concat (map regexes (section_rules s rs))" for s using A(2) by (simp add: acl_rep_def parsed_def)
  then have r: "into_rules K (ap_rules A s) = (case regex_build K (concat (map regexes (section_rules s rs))) of
      None \<Rightarrow> Inl (RegexError (pr_name (ap_rules A s)))
    | Some x \<Rightarrow> Inr (rules_new K (pr_ipv4 (ap_rules A s)) (pr_ipv6 (ap_rules A s)) x (rules_set (ap_rules A s)) (rules_tree (ap_rules A s))))" for s
    by (simp add: into_rules_def compile_regex_def split: option.split)
  have all: "(\<forall>s. P s) \<longleftrightarrow> P OutboundBlock \<and> P Bypass \<and> P Proxy" for P by (metis acl_section.exhaust)
  have ex: "(\<exists>s. P s) \<longleftrightarrow> P OutboundBlock \<or> P Bypass \<or> P Proxy" for P by (metis acl_section.exhaust)
  show ?thesis unfolding all ex
    by (cases "regex_build K (concat (map regexes (section_rules OutboundBlock rs)))"; cases "regex_build K (concat (map regexes (section_rules Bypass rs)))";
        cases "regex_build K (concat (map regexes (section_rules Proxy rs)))") (simp_all add: load_from_file_def A(1) r)
qed



text \<open>A regular expression that asks for a dot before a name is taken for the name and its subdomains: it matches the name itself, in front of
  which there is no dot.\<close>

theorem acl_regex_widened:
  assumes "words False g" "g \<noteq> []"
  shows "tree_contains (rules_tree (add_regex_rule (backslash # ''.'' @ g @ ''$'') P)) (plain_name (unescape g))"
proof -
  have g: "TREE_SET_RULE_EQUIV (backslash # ''.'' @ g @ ''$'') = Some (Some g, None)"
    using assms by (simp add: TREE_SET_RULE_EQUIV_def tree_prefixes_def strip_prefix_def group_dollar_def backslash_def)
  then have a: "is_ascii (unescape g)" using captures_ascii(1) by blast
  show ?thesis unfolding add_regex_rule_def g Let_def by (simp add: add_tree_rule_inner_def check_is_ascii_def a contains_insert plain_name_def subdomain_iff)
qed

theorem acl_regex_widened_witness:
  "tree_contains (rules_tree (add_regex_rule ([backslash] @ ''.google'' @ [backslash] @ ''.com$'') (parsing_new ex_crates []))) ''google.com''"
proof -
  have "words False (''google'' @ backslash # ''.com'')" by code_simp
  moreover have "plain_name (unescape (''google'' @ backslash # ''.com'')) = ''google.com''" by code_simp
  ultimately show ?thesis using acl_regex_widened [of "''google'' @ backslash # ''.com''" "parsing_new ex_crates []"] by simp
qed

end
