(* ===== verification/Ss_Dns.thy ===== *)
theory Ss_Dns
  imports Ss_Acl
begin

text \<open>
  How the local DNS server of the Rust proxy chooses between the local and the remote resolver
  (\<^verbatim>\<open>shadowsocks-service/src/local/dns/server.rs\<close>).  Names, queries and records are those of the crate \<^verbatim>\<open>trust-dns\<close>; what the code asks of a name is a
  parameter.  The lookups themselves are I/O: their answers are arguments.
\<close>

section \<open>Names, queries, records\<close>

text \<open>A name: its labels, the most specific first, and whether it is fully qualified.\<close>

record Name =
  labels :: "byte list list"
  is_fqdn :: bool

record dns_crates =
  to_ascii :: "Name \<Rightarrow> string"
  from_str :: "string \<Rightarrow> Name option"
  name_eq :: "Name \<Rightarrow> Name \<Rightarrow> bool"

datatype RecordType = TypeA | TypeAAAA | TypeCNAME | TypeMX | TypeNS | TypePTR | TypeANY | TypeOther nat
datatype DNSClass = ClassIN | ClassOther nat
datatype RData = DataA "byte list" | DataAAAA "u16 list" | DataCNAME Name | DataMX Name | DataNS Name | DataPTR Name | DataOther

record Query =
  q_name :: Name
  query_type :: RecordType
  query_class :: DNSClass

record Record =
  rec_name :: Name
  record_type :: RecordType
  rec_data :: "RData option"

record Message =
  answers :: "Record list"
  additionals :: "Record list"

section \<open>Numbers\<close>

text \<open>\<^verbatim>\<open>char::to_digit\<close> and the parsers of unsigned integers of the standard library: an optional plus sign, then at least one digit; a value
  over the maximum is an error.\<close>

definition to_digit :: "int \<Rightarrow> char \<Rightarrow> int option" where
  "to_digit radix c =
     (let n = of_char c :: int;
          d = (if 48 \<le> n \<and> n \<le> 57 then n - 48 else if 97 \<le> n \<and> n \<le> 122 then n - 87 else if 65 \<le> n \<and> n \<le> 90 then n - 55 else radix)
      in if d < radix then Some d else None)"

fun from_digits :: "int \<Rightarrow> int \<Rightarrow> int \<Rightarrow> string \<Rightarrow> int option" where
  "from_digits radix mx acc [] = Some acc"
| "from_digits radix mx acc (c # s) =
     (case to_digit radix c of
        None \<Rightarrow> None
      | Some d \<Rightarrow> if acc * radix + d > mx then None else from_digits radix mx (acc * radix + d) s)"

definition from_str_radix :: "int \<Rightarrow> int \<Rightarrow> string \<Rightarrow> int option" where
  "from_str_radix radix mx s =
     (if s = [] \<or> s = ''+'' then None
      else if hd s = CHR ''+'' then from_digits radix mx 0 (tl s)
      else from_digits radix mx 0 s)"

section \<open>The decision for a reverse lookup\<close>

fun next_label :: "byte list list \<Rightarrow> string \<times> byte list list" where
  "next_label [] = (''0'', [])"
| "next_label (l # ls) = (if utf8 l then str_of l else ''*'', ls)"

fun parse_octets :: "nat \<Rightarrow> byte list list \<Rightarrow> byte list option" where
  "parse_octets 0 ls = Some []"
| "parse_octets (Suc n) ls =
     (case next_label ls of (l, ls) \<Rightarrow>
        (case from_str_radix 10 255 l of
           None \<Rightarrow> None
         | Some b \<Rightarrow> (case parse_octets n ls of None \<Rightarrow> None | Some bs \<Rightarrow> Some (of_int b # bs))))"

fun parse_segments :: "nat \<Rightarrow> byte list list \<Rightarrow> u16 list option" where
  "parse_segments 0 ls = Some []"
| "parse_segments (Suc n) ls =
     (case next_label ls of (a, ls) \<Rightarrow> case next_label ls of (b, ls) \<Rightarrow> case next_label ls of (c, ls) \<Rightarrow> case next_label ls of (d, ls) \<Rightarrow>
        (case from_str_radix 16 65535 (a @ b @ c @ d) of
           None \<Rightarrow> None
         | Some w \<Rightarrow> (case parse_segments n ls of None \<Rightarrow> None | Some ws \<Rightarrow> Some (of_int w # ws))))"

definition should_forward_by_ptr_name :: "('r4, 'r6, 'x) acl_crates \<Rightarrow> ('r4, 'r6, 'x) AccessControl \<Rightarrow> Name \<Rightarrow> bool" where
  "should_forward_by_ptr_name K acl name =
     (case next_label (rev (labels name)) of (l, ls) \<Rightarrow>
        if to_ascii_lowercase l \<noteq> ''arpa'' then is_default_in_proxy_list acl
        else case next_label ls of (l, ls) \<Rightarrow>
          if to_ascii_lowercase l = ''in-addr'' then
            (case parse_octets 4 ls of
               None \<Rightarrow> is_default_in_proxy_list acl
             | Some octets \<Rightarrow> check_ip_in_proxy_list K acl (IpV4 octets))
          else if to_ascii_lowercase l = ''ip6'' then
            (case parse_segments 8 ls of
               None \<Rightarrow> is_default_in_proxy_list acl
             | Some segs \<Rightarrow> check_ip_in_proxy_list K acl (IpV6 segs))
          else is_default_in_proxy_list acl)"

section \<open>The decision for a query\<close>

definition check_name_in_proxy_list :: "('r4, 'r6, 'x) acl_crates \<Rightarrow> dns_crates \<Rightarrow> ('r4, 'r6, 'x) AccessControl \<Rightarrow> Name \<Rightarrow> bool option" where
  "check_name_in_proxy_list K D acl name =
     (if is_fqdn name then check_ascii_host_in_proxy_list K acl (to_ascii_lowercase (to_ascii D name))
      else Some (is_default_in_proxy_list acl))"

datatype ServerAddr = ServerSocket SocketAddr | ServerDomain string u16

definition is_own_server :: "dns_crates \<Rightarrow> ServerAddr list \<Rightarrow> Query \<Rightarrow> bool" where
  "is_own_server D servers query =
     list_ex (\<lambda>s. case s of
        ServerDomain dn _ \<Rightarrow> (case from_str D dn of Some name \<Rightarrow> name_eq D (q_name query) name | None \<Rightarrow> False)
      | ServerSocket _ \<Rightarrow> False) servers"

definition should_forward_by_query :: "('r4, 'r6, 'x) acl_crates \<Rightarrow> dns_crates \<Rightarrow> ('r4, 'r6, 'x) AccessControl option \<Rightarrow> ServerAddr list \<Rightarrow> Query \<Rightarrow> bool option" where
  "should_forward_by_query K D acl servers query =
     (if servers = [] then Some False
      else if is_own_server D servers query then Some False
      else case acl of
        None \<Rightarrow> Some True
      | Some acl \<Rightarrow>
          if query_class query \<noteq> ClassIN then Some (is_default_in_proxy_list acl)
          else if query_type query = TypePTR then Some (should_forward_by_ptr_name K acl (q_name query))
          else (let result = check_name_in_proxy_list K D acl (q_name query)
                in if result = None \<and> is_ip_empty K acl \<and> is_host_empty K acl then Some (is_default_in_proxy_list acl) else result))"

section \<open>The decision for a local response\<close>

datatype examined = Continue "Name list" | Return bool | Unreachable

definition examine_name :: "('r4, 'r6, 'x) acl_crates \<Rightarrow> dns_crates \<Rightarrow> ('r4, 'r6, 'x) AccessControl \<Rightarrow> Name \<Rightarrow> bool \<Rightarrow> bool" where
  "examine_name K D acl name is_answer =
     (if is_answer then (case check_name_in_proxy_list K D acl name of Some value \<Rightarrow> value | None \<Rightarrow> is_default_in_proxy_list acl)
      else is_default_in_proxy_list acl)"

definition examine_record :: "('r4, 'r6, 'x) acl_crates \<Rightarrow> dns_crates \<Rightarrow> ('r4, 'r6, 'x) AccessControl \<Rightarrow> Query \<Rightarrow> Name list \<Rightarrow> Record \<Rightarrow> bool \<Rightarrow> examined" where
  "examine_record K D acl query names r is_answer =
     (let on = (\<lambda>forward names. if forward then Continue names else Return False);
          other = (if is_answer \<and> query_type query \<noteq> TypeANY \<and> record_type r \<noteq> query_type query then Return True
            else case rec_data r of
              Some (DataA a) \<Rightarrow> on (check_ip_in_proxy_list K acl (IpV4 a)) names
            | Some (DataAAAA a) \<Rightarrow> on (check_ip_in_proxy_list K acl (IpV6 a)) names
            | Some (DataMX name) \<Rightarrow> on (examine_name K D acl name is_answer) (name # names)
            | Some (DataNS name) \<Rightarrow> on (examine_name K D acl name is_answer) (name # names)
            | Some (DataPTR _) \<Rightarrow> Unreachable
            | _ \<Rightarrow> on (is_default_in_proxy_list acl) names)
      in case rec_data r of
           Some (DataCNAME name) \<Rightarrow>
             (case (if is_answer then check_name_in_proxy_list K D acl name else None) of
                Some value \<Rightarrow> Return value
              | None \<Rightarrow> Continue (name # names))
         | _ \<Rightarrow> other)"

fun examine_answers :: "('r4, 'r6, 'x) acl_crates \<Rightarrow> dns_crates \<Rightarrow> ('r4, 'r6, 'x) AccessControl \<Rightarrow> Query \<Rightarrow> Name list \<Rightarrow> Record list \<Rightarrow> examined" where
  "examine_answers K D acl query names [] = Continue names"
| "examine_answers K D acl query names (r # rs) =
     (if \<not> list_ex (name_eq D (rec_name r)) names then Return True
      else case examine_record K D acl query names r True of
        Continue names \<Rightarrow> examine_answers K D acl query names rs
      | x \<Rightarrow> x)"

fun examine_additionals :: "('r4, 'r6, 'x) acl_crates \<Rightarrow> dns_crates \<Rightarrow> ('r4, 'r6, 'x) AccessControl \<Rightarrow> Query \<Rightarrow> Name list \<Rightarrow> Record list \<Rightarrow> examined" where
  "examine_additionals K D acl query names [] = Continue names"
| "examine_additionals K D acl query names (r # rs) =
     (if list_ex (name_eq D (rec_name r)) names then
        (case examine_record K D acl query names r False of
           Continue names \<Rightarrow> examine_additionals K D acl query names rs
         | x \<Rightarrow> x)
      else examine_additionals K D acl query names rs)"

text \<open>No result: an \<^verbatim>\<open>unreachable!()\<close> was reached.  The local response is \<^term>\<open>None\<close> when the lookup failed.\<close>

definition should_forward_by_response :: "('r4, 'r6, 'x) acl_crates \<Rightarrow> dns_crates \<Rightarrow> ('r4, 'r6, 'x) AccessControl option \<Rightarrow> Message option \<Rightarrow> Query \<Rightarrow> bool option" where
  "should_forward_by_response K D acl local_response query =
     (case acl of None \<Rightarrow> None | Some acl \<Rightarrow>
      (case local_response of None \<Rightarrow> Some True | Some m \<Rightarrow>
       (case examine_answers K D acl query [q_name query] (answers m) of
          Unreachable \<Rightarrow> None
        | Return b \<Rightarrow> Some b
        | Continue names \<Rightarrow>
            (case examine_additionals K D acl query names (additionals m) of
               Unreachable \<Rightarrow> None
             | Return b \<Rightarrow> Some b
             | Continue _ \<Rightarrow> Some True))))"

section \<open>Both lookups at once\<close>

text \<open>The two futures of \<^verbatim>\<open>tokio::select!\<close> and the variables of its loop: a future that has completed is not polled again.\<close>

datatype lookup_event = RemoteDone | DeciderDone

record lookup_state =
  use_remote :: bool
  remote_response :: "Message option option"

fun select_loop :: "Message option \<Rightarrow> Message option \<Rightarrow> bool \<Rightarrow> lookup_event list \<Rightarrow> lookup_state \<Rightarrow> (Message option \<times> bool) option" where
  "select_loop local_r remote_r forward [] s = None"
| "select_loop local_r remote_r forward (e # es) s =
     (case e of
        RemoteDone \<Rightarrow>
          if remote_response s \<noteq> None then select_loop local_r remote_r forward es s
          else if use_remote s then Some (remote_r, True)
          else select_loop local_r remote_r forward es (s\<lparr>remote_response := Some remote_r\<rparr>)
      | DeciderDone \<Rightarrow>
          if use_remote s then select_loop local_r remote_r forward es s
          else if \<not> forward then Some (local_r, False)
          else (case remote_response s of
                  Some r \<Rightarrow> Some (r, True)
                | None \<Rightarrow> select_loop local_r remote_r forward es (s\<lparr>use_remote := True\<rparr>)))"

text \<open>\<open>local_r\<close> and \<open>remote_r\<close> are the answers of the two lookups, \<open>order\<close> is the order in which they come.  No result: a panic, or the lookups do not end.\<close>

definition acl_lookup :: "('r4, 'r6, 'x) acl_crates \<Rightarrow> dns_crates \<Rightarrow> ('r4, 'r6, 'x) AccessControl option \<Rightarrow> ServerAddr list \<Rightarrow> Query \<Rightarrow>
    Message option \<Rightarrow> Message option \<Rightarrow> lookup_event list \<Rightarrow> (Message option \<times> bool) option" where
  "acl_lookup K D acl servers query local_r remote_r order =
     (case should_forward_by_query K D acl servers query of
        Some True \<Rightarrow> Some (remote_r, True)
      | Some False \<Rightarrow> Some (local_r, False)
      | None \<Rightarrow>
          (case should_forward_by_response K D acl local_r query of
             None \<Rightarrow> None
           | Some forward \<Rightarrow> select_loop local_r remote_r forward order \<lparr>use_remote = False, remote_response = None\<rparr>))"

section \<open>Reverse names\<close>

definition label :: "string \<Rightarrow> byte list" where
  "label s = map of_char s"

definition digit_char :: "int \<Rightarrow> char" where
  "digit_char d = char_of (if d < 10 then 48 + d else 87 + d)"

definition dec :: "byte \<Rightarrow> string" where
  "dec b = (let n = uint b in
     (if 100 \<le> n then [digit_char (n div 10 div 10)] else []) @ (if 10 \<le> n then [digit_char (n div 10 mod 10)] else []) @ [digit_char (n mod 10)])"

definition nibbles :: "u16 \<Rightarrow> string list" where
  "nibbles w = (let n = uint w in map (\<lambda>d. [digit_char d]) [n div 16 div 16 div 16, n div 16 div 16 mod 16, n div 16 mod 16, n mod 16])"

fun ptr_name :: "bool \<Rightarrow> IpAddr \<Rightarrow> Name" where
  "ptr_name fq (IpV4 a) = \<lparr>labels = map label (rev (map dec a) @ [''in-addr'', ''arpa'']), is_fqdn = fq\<rparr>"
| "ptr_name fq (IpV6 a) = \<lparr>labels = map label (rev (concat (map nibbles a)) @ [''ip6'', ''arpa'']), is_fqdn = fq\<rparr>"

lemma digit_char_code:
  assumes "0 \<le> d" "d < 16"
  shows "of_char (digit_char d) = (if d < 10 then 48 + d else 87 + d)"
  using assms by (simp add: digit_char_def)

lemma to_digit_char:
  assumes "0 \<le> d" "d < radix" "radix \<le> 16"
  shows "to_digit radix (digit_char d) = Some d" "of_char (digit_char d) < (128 :: int)" "digit_char d \<noteq> CHR ''+''"
proof -
  have c: "of_char (digit_char d) = (if d < 10 then 48 + d else 87 + d)" using digit_char_code assms by simp
  then show "to_digit radix (digit_char d) = Some d" "of_char (digit_char d) < (128 :: int)" using assms by (auto simp: to_digit_def Let_def)
  have "of_char (digit_char d) \<noteq> (of_char (CHR ''+'') :: int)" using c assms by auto
  then show "digit_char d \<noteq> CHR ''+''" by auto
qed

lemma unat_of_char [simp]: "unat (of_char c :: byte) = of_char c"
proof -
  have "unat (of_char c :: byte) = unat (of_nat (of_char c) :: byte)" by (simp only: of_nat_of_char)
  also have "\<dots> = of_char c mod 256" by (simp only: unat_of_nat) simp
  finally show ?thesis by simp
qed

lemma str_of_label [simp]: "str_of (label s) = s"
  by (induction s) (auto simp: label_def str_of_def)

lemma utf8_label:
  assumes "is_ascii s"
  shows "utf8 (label s)"
  using assms
proof (induction s)
  case (Cons c s)
  have "int (of_char c) < 128" using Cons.prems by (simp add: is_ascii_def of_nat_of_char)
  then have "(of_char c :: byte) \<le> 0x7F" by (simp add: word_le_nat_alt)
  then show ?case using Cons by (simp add: label_def is_ascii_def)
qed (simp add: label_def)

lemma next_label_ascii: "is_ascii s \<Longrightarrow> next_label (label s # ls) = (s, ls)"
  by (simp add: utf8_label)

text \<open>The value of a numeral.\<close>

lemma from_digits_chars:
  assumes "\<forall>d\<in>set ds. 0 \<le> d \<and> d < radix" "2 \<le> radix" "radix \<le> 16" "0 \<le> acc" "foldl (\<lambda>a d. a * radix + d) acc ds \<le> mx"
  shows "from_digits radix mx acc (map digit_char ds) = Some (foldl (\<lambda>a d. a * radix + d) acc ds)"
  using assms
proof (induction ds arbitrary: acc)
  case (Cons d ds)
  have mono: "0 \<le> a \<Longrightarrow> \<forall>d\<in>set ds. 0 \<le> d \<and> d < radix \<Longrightarrow> a \<le> foldl (\<lambda>a d. a * radix + d) a ds" for a and ds :: "int list"
  proof (induction ds arbitrary: a)
    case (Cons d ds)
    have "a * 1 \<le> a * radix" using Cons.prems(1) assms(2) by (intro mult_left_mono) auto
    then have "a \<le> a * radix + d" using Cons.prems(2) by auto
    then show ?case using Cons.IH [of "a * radix + d"] Cons.prems by auto
  qed simp
  have nn: "0 \<le> acc * radix + d" using Cons.prems by auto
  have "acc * radix + d \<le> mx" using mono [OF nn, of ds] Cons.prems by auto
  then show ?case using Cons.IH [OF _ Cons.prems(2,3) nn] Cons.prems to_digit_char(1) [of d radix] by simp
qed simp

lemma from_str_radix_chars:
  assumes "ds \<noteq> []" "\<forall>d\<in>set ds. 0 \<le> d \<and> d < radix" "2 \<le> radix" "radix \<le> 16" "foldl (\<lambda>a d. a * radix + d) 0 ds \<le> mx"
  shows "from_str_radix radix mx (map digit_char ds) = Some (foldl (\<lambda>a d. a * radix + d) 0 ds)"
proof -
  obtain d ds' where "ds = d # ds'" using assms(1) by (cases ds) auto
  then have "digit_char d \<noteq> CHR ''+''" using to_digit_char(3) [of d radix] assms(2-4) by simp
  then show ?thesis using from_digits_chars [OF assms(2-4) _ assms(5)] \<open>ds = d # ds'\<close> by (simp add: from_str_radix_def)
qed

lemma chars_ascii: "\<forall>d\<in>set ds. 0 \<le> d \<and> d < 16 \<Longrightarrow> is_ascii (map digit_char ds)"
  using to_digit_char(2) [of _ 16] by (simp add: is_ascii_def list_all_iff)

lemma dec_digits:
  "\<exists>ds. dec b = map digit_char ds \<and> ds \<noteq> [] \<and> (\<forall>d\<in>set ds. 0 \<le> d \<and> d < 10) \<and> foldl (\<lambda>a d. a * 10 + d) 0 ds = uint b"
proof -
  let ?n = "uint b" and ?m = "uint b div 10"
  have n: "0 \<le> ?n" "?n < 256" using unsigned_less [of b, where ?'a = int] by auto
  have d: "0 \<le> ?m div 10" "?m div 10 < 10" "0 \<le> ?m mod 10" "?m mod 10 < 10" "0 \<le> ?n mod 10" "?n mod 10 < 10"
    using n by (auto simp: pos_imp_zdiv_nonneg_iff)
  have e: "?m div 10 * 10 + ?m mod 10 = ?m" "?m * 10 + ?n mod 10 = ?n" by auto
  show ?thesis
  proof (cases "100 \<le> ?n")
    case True
    then show ?thesis using d e by (intro exI [of _ "[?m div 10, ?m mod 10, ?n mod 10]"]) (simp add: dec_def Let_def)
  next
    case False
    then have "?m < 10" by simp
    then have m: "?m mod 10 = ?m" using n by (simp add: pos_imp_zdiv_nonneg_iff)
    show ?thesis
    proof (cases "10 \<le> ?n")
      case True
      then show ?thesis using d e m False \<open>?m < 10\<close> n by (intro exI [of _ "[?m mod 10, ?n mod 10]"]) (simp add: dec_def Let_def pos_imp_zdiv_nonneg_iff)
    next
      case small: False
      then have "?n mod 10 = ?n" using n by simp
      then show ?thesis using d False small by (intro exI [of _ "[?n mod 10]"]) (simp add: dec_def Let_def)
    qed
  qed
qed

lemma dec_ascii: "is_ascii (dec b)" and dec_parse: "from_str_radix 10 255 (dec b) = Some (uint b)"
proof -
  obtain ds where ds: "dec b = map digit_char ds" "ds \<noteq> []" "\<forall>d\<in>set ds. 0 \<le> d \<and> d < 10" "foldl (\<lambda>a d. a * 10 + d) 0 ds = uint b"
    using dec_digits by blast
  have "uint b < 256" using unsigned_less [of b, where ?'a = int] by auto
  then show "from_str_radix 10 255 (dec b) = Some (uint b)" using from_str_radix_chars [OF ds(2,3), of 255] ds(1,4) by simp
  have "\<forall>d\<in>set ds. 0 \<le> d \<and> d < 16" using ds(3) by force
  then show "is_ascii (dec b)" unfolding ds(1) by (rule chars_ascii)
qed

lemma nibbles_digits:
  obtains ds where "nibbles w = map (\<lambda>d. [digit_char d]) ds" "ds \<noteq> []" "\<forall>d\<in>set ds. 0 \<le> d \<and> d < 16" "foldl (\<lambda>a d. a * 16 + d) 0 ds = uint w"
proof -
  let ?n = "uint w" and ?m = "uint w div 16" and ?k = "uint w div 16 div 16"
  have n: "0 \<le> ?n" "?n < 65536" using unsigned_less [of w, where ?'a = int] by auto
  have k: "0 \<le> ?k" "?k < 256" using n by (auto simp: pos_imp_zdiv_nonneg_iff)
  have d: "0 \<le> ?k div 16" "?k div 16 < 16" using k by (auto simp: pos_imp_zdiv_nonneg_iff)
  have e: "?k div 16 * 16 + ?k mod 16 = ?k" "?k * 16 + ?m mod 16 = ?m" "?m * 16 + ?n mod 16 = ?n" by auto
  let ?ds = "[?k div 16, ?k mod 16, ?m mod 16, ?n mod 16]"
  show thesis
  proof (rule that)
    show "nibbles w = map (\<lambda>d. [digit_char d]) ?ds" by (simp only: nibbles_def Let_def)
    show "\<forall>d\<in>set ?ds. 0 \<le> d \<and> d < 16" using d by (simp del: zdiv_zmult2_eq)
    show "foldl (\<lambda>a d. a * 16 + d) 0 ?ds = ?n" by (simp only: foldl.simps mult_zero_left add_0_left e)
  qed simp
qed

lemma nibbles_ascii: "l \<in> set (nibbles w) \<Longrightarrow> is_ascii l" and nibbles_parse: "from_str_radix 16 65535 (concat (nibbles w)) = Some (uint w)"
proof -
  obtain ds where ds: "nibbles w = map (\<lambda>d. [digit_char d]) ds" "ds \<noteq> []" "\<forall>d\<in>set ds. 0 \<le> d \<and> d < 16" "foldl (\<lambda>a d. a * 16 + d) 0 ds = uint w"
    by (rule nibbles_digits)
  have "concat (map (\<lambda>d. [digit_char d]) ds) = map digit_char ds" for ds by (induction ds) auto
  then have c: "concat (nibbles w) = map digit_char ds" by (simp add: ds(1))
  have "uint w \<le> 65535" using unsigned_less [of w, where ?'a = int] by auto
  then show "from_str_radix 16 65535 (concat (nibbles w)) = Some (uint w)" unfolding c using from_str_radix_chars [OF ds(2,3), of 65535] ds(4) by simp
  assume "l \<in> set (nibbles w)"
  then obtain d where "l = map digit_char [d]" "0 \<le> d" "d < 16" using ds(1,3) by auto
  then show "is_ascii l" using chars_ascii [of "[d]"] by simp
qed

lemma parse_octets_dec: "parse_octets (length a) (map (\<lambda>b. label (dec b)) a @ rest) = Some a"
  by (induction a) (simp_all add: next_label_ascii dec_ascii dec_parse del: next_label.simps)

lemma parse_segments_nibbles: "parse_segments (length a) (concat (map (\<lambda>w. map label (nibbles w)) a) @ rest) = Some a"
proof (induction a)
  case (Cons w a)
  obtain p q r s where n: "nibbles w = [p, q, r, s]" by (simp add: nibbles_def Let_def)
  then have "is_ascii p" "is_ascii q" "is_ascii r" "is_ascii s" using nibbles_ascii [of _ w] by auto
  then show ?case using Cons nibbles_parse [of w] n by (simp add: next_label_ascii del: next_label.simps)
qed simp

text \<open>Parameters for examples.\<close>

definition ex_dns :: dns_crates where
  "ex_dns = \<lparr>to_ascii = (\<lambda>n. concat (map (\<lambda>l. str_of l @ ''.'') (labels n))), from_str = (\<lambda>_. None), name_eq = (\<lambda>a b. labels a = labels b)\<rparr>"

definition ex_rules :: "(byte list \<times> nat) list \<Rightarrow> ((byte list \<times> nat) list, (u16 list \<times> nat) list, string list) Rules" where
  "ex_rules nets = \<lparr>ipv4 = nets, ipv6 = [], rule_regex = [], rule_set = {}, rule_tree = []\<rparr>"

definition ex_acl :: "((byte list \<times> nat) list, (u16 list \<times> nat) list, string list) AccessControl" where
  "ex_acl = \<lparr>outbound_block = ex_rules [], black_list = ex_rules [([10, 0, 0, 0], 8)], white_list = ex_rules [], acl_mode = BlackList\<rparr>"

definition ex_name :: Name where
  "ex_name = \<lparr>labels = [label ''a'', label ''b''], is_fqdn = True\<rparr>"

definition ex_query :: Query where
  "ex_query = \<lparr>q_name = ex_name, query_type = TypeA, query_class = ClassIN\<rparr>"

definition ex_message :: "byte list \<Rightarrow> Message" where
  "ex_message a = \<lparr>answers = [\<lparr>rec_name = ex_name, record_type = TypeA, rec_data = Some (DataA a)\<rparr>], additionals = []\<rparr>"

text \<open>C38.  A reverse lookup of an address, of either family, is decided as the address itself is.\<close>

theorem ptr_name_decides:
  "(length a = 4 \<longrightarrow> should_forward_by_ptr_name K acl (ptr_name fq (IpV4 a)) = check_ip_in_proxy_list K acl (IpV4 a)) \<and>
   (length b = 8 \<longrightarrow> should_forward_by_ptr_name K acl (ptr_name fq (IpV6 b)) = check_ip_in_proxy_list K acl (IpV6 b))"
proof -
  have s: "is_ascii ''arpa''" "is_ascii ''in-addr''" "is_ascii ''ip6''" by code_simp+
  have l: "to_ascii_lowercase ''arpa'' = ''arpa''" "to_ascii_lowercase ''in-addr'' = ''in-addr''" "to_ascii_lowercase ''ip6'' = ''ip6''" by code_simp+
  have 4: "length a = 4 \<Longrightarrow> parse_octets 4 (map (label \<circ> dec) a) = Some a" using parse_octets_dec [of a "[]"] by (simp add: comp_def)
  have 6: "length b = 8 \<Longrightarrow> parse_segments 8 (map label (concat (map nibbles b))) = Some b"
    using parse_segments_nibbles [of b "[]"] by (simp add: map_concat comp_def)
  show ?thesis by (auto simp: should_forward_by_ptr_name_def next_label_ascii s l 4 6 rev_map simp del: next_label.simps)
qed

theorem ptr_name_decides_witness:
  "\<not> should_forward_by_ptr_name ex_crates ex_acl \<lparr>labels = [label ''3'', label ''2'', label ''1'', label ''10'', label ''in-addr'', label ''arpa''], is_fqdn = True\<rparr>"
proof -
  have "ptr_name True (IpV4 [10, 1, 2, 3]) = \<lparr>labels = [label ''3'', label ''2'', label ''1'', label ''10'', label ''in-addr'', label ''arpa''], is_fqdn = True\<rparr>" by code_simp
  moreover have "\<not> check_ip_in_proxy_list ex_crates ex_acl (IpV4 [10, 1, 2, 3])" by code_simp
  ultimately show ?thesis using ptr_name_decides [of "[10, 1, 2, 3]" ex_crates ex_acl True] by simp
qed

section \<open>Responses\<close>

definition has_ptr :: "Record \<Rightarrow> bool" where
  "has_ptr r \<longleftrightarrow> (case rec_data r of Some (DataPTR _) \<Rightarrow> True | _ \<Rightarrow> False)"

text \<open>Why a record speaks for the local response.\<close>

definition speaks_local :: "('r4, 'r6, 'x) acl_crates \<Rightarrow> dns_crates \<Rightarrow> ('r4, 'r6, 'x) AccessControl \<Rightarrow> Record \<Rightarrow> bool" where
  "speaks_local K D acl r \<longleftrightarrow>
     (case rec_data r of
        Some (DataA a) \<Rightarrow> \<not> check_ip_in_proxy_list K acl (IpV4 a)
      | Some (DataAAAA a) \<Rightarrow> \<not> check_ip_in_proxy_list K acl (IpV6 a)
      | Some (DataCNAME n) \<Rightarrow> check_name_in_proxy_list K D acl n = Some False
      | Some (DataMX n) \<Rightarrow> check_name_in_proxy_list K D acl n = Some False
      | Some (DataNS n) \<Rightarrow> check_name_in_proxy_list K D acl n = Some False
      | _ \<Rightarrow> False)"

lemma examine_record_unreachable: "examine_record K D acl query names r ans = Unreachable \<Longrightarrow> has_ptr r"
  by (auto simp: examine_record_def has_ptr_def Let_def split: option.splits RData.splits if_splits)

lemma examine_record_local:
  "examine_record K D acl query names r ans = Return False \<Longrightarrow> speaks_local K D acl r \<or> \<not> is_default_in_proxy_list acl"
  by (auto simp: examine_record_def speaks_local_def examine_name_def Let_def split: option.splits RData.splits if_splits)

lemma examine_answers_cases:
  "examine_answers K D acl query names rs = Unreachable \<Longrightarrow> \<exists>r\<in>set rs. has_ptr r"
  "examine_answers K D acl query names rs = Return False \<Longrightarrow> (\<exists>r\<in>set rs. speaks_local K D acl r) \<or> \<not> is_default_in_proxy_list acl"
  by (induction rs arbitrary: names)
    (auto dest: examine_record_unreachable examine_record_local split: if_splits examined.splits)

lemma examine_additionals_cases:
  "examine_additionals K D acl query names rs = Unreachable \<Longrightarrow> \<exists>r\<in>set rs. has_ptr r"
  "examine_additionals K D acl query names rs = Return False \<Longrightarrow> (\<exists>r\<in>set rs. speaks_local K D acl r) \<or> \<not> is_default_in_proxy_list acl"
  by (induction rs arbitrary: names)
    (auto dest: examine_record_unreachable examine_record_local split: if_splits examined.splits)

text \<open>C39.  The local response is used only when the access control list says so: when it bypasses by default, or it bypasses an address or a name
  in the response.  A response without reverse records always gets a decision.\<close>

theorem dns_response_sound:
  "(should_forward_by_response K D (Some acl) response query = Some False \<longrightarrow>
     \<not> is_default_in_proxy_list acl \<or> (\<exists>m. response = Some m \<and> list_ex (speaks_local K D acl) (answers m @ additionals m))) \<and>
   (should_forward_by_response K D (Some acl) response query = None \<longrightarrow> (\<exists>m. response = Some m \<and> list_ex has_ptr (answers m @ additionals m)))"
proof (cases response)
  case (Some m)
  show ?thesis
  proof (cases "examine_answers K D acl query [q_name query] (answers m)")
    case (Continue names)
    then show ?thesis using Some examine_additionals_cases [of K D acl query names "additionals m"]
      by (auto simp: should_forward_by_response_def list_ex_iff split: examined.splits)
  qed (use Some examine_answers_cases [of K D acl query "[q_name query]" "answers m"] in \<open>auto simp: should_forward_by_response_def list_ex_iff\<close>)
qed (simp add: should_forward_by_response_def)

theorem dns_response_sound_witness:
  "should_forward_by_response ex_crates ex_dns (Some ex_acl) (Some (ex_message [10, 0, 0, 1])) ex_query = Some False \<and>
   list_ex (speaks_local ex_crates ex_dns ex_acl) (answers (ex_message [10, 0, 0, 1]) @ additionals (ex_message [10, 0, 0, 1]))"
proof -
  have f: "should_forward_by_response ex_crates ex_dns (Some ex_acl) (Some (ex_message [10, 0, 0, 1])) ex_query = Some False" by code_simp
  have "is_default_in_proxy_list ex_acl" by code_simp
  then show ?thesis using dns_response_sound [of ex_crates ex_dns ex_acl "Some (ex_message [10, 0, 0, 1])" ex_query] f by auto
qed



section \<open>Lookups\<close>

lemma select_loop_result:
  assumes "DeciderDone \<in> set order" "RemoteDone \<in> set order"
  shows "select_loop local_r remote_r forward order \<lparr>use_remote = False, remote_response = None\<rparr> = Some (if forward then (remote_r, True) else (local_r, False))"
proof -
  have 1: "RemoteDone \<in> set es \<Longrightarrow> select_loop local_r remote_r True es \<lparr>use_remote = True, remote_response = None\<rparr> = Some (remote_r, True)" for es
    by (induction es) (auto split: lookup_event.splits)
  have 2: "DeciderDone \<in> set es \<Longrightarrow>
      select_loop local_r remote_r forward es \<lparr>use_remote = False, remote_response = Some remote_r\<rparr> = Some (if forward then (remote_r, True) else (local_r, False))" for es
    by (induction es) (auto split: lookup_event.splits)
  show ?thesis
  proof (cases order)
    case (Cons e es)
    then show ?thesis using assms 1 [of es] 2 [of es] by (cases e) auto
  qed (use assms in simp)
qed

text \<open>When both lookups end, the answer and the way it came do not depend on which ends first: the query decides, and where it does not the local
  response decides whether it or the remote response is given.\<close>

theorem dns_lookup_order:
  assumes "DeciderDone \<in> set order" "RemoteDone \<in> set order"
  shows "acl_lookup K D acl servers query local_r remote_r order =
    (case should_forward_by_query K D acl servers query of
       Some forward \<Rightarrow> Some (if forward then (remote_r, True) else (local_r, False))
     | None \<Rightarrow> map_option (\<lambda>forward. if forward then (remote_r, True) else (local_r, False)) (should_forward_by_response K D acl local_r query))"
  by (auto simp: acl_lookup_def select_loop_result [OF assms] split: option.split bool.split)

theorem dns_lookup_order_witness:
  "acl_lookup ex_crates ex_dns (Some ex_acl) [ServerDomain ''s'' 1] ex_query (Some (ex_message [10, 0, 0, 1])) None [RemoteDone, DeciderDone] =
     Some (Some (ex_message [10, 0, 0, 1]), False)"
proof -
  have "should_forward_by_query ex_crates ex_dns (Some ex_acl) [ServerDomain ''s'' 1] ex_query = None" by code_simp
  moreover have "should_forward_by_response ex_crates ex_dns (Some ex_acl) (Some (ex_message [10, 0, 0, 1])) ex_query = Some False" by code_simp
  ultimately show ?thesis
    using dns_lookup_order [of "[RemoteDone, DeciderDone]" ex_crates ex_dns "Some ex_acl" "[ServerDomain ''s'' 1]" ex_query "Some (ex_message [10, 0, 0, 1])" None] by simp
qed

end
