(* ===== verification/Spec2Isabelle.thy ===== *)
theory Spec2Isabelle
  imports Linked_Lists BPending Flow_Interface Flow_Buffers Packet_Proto Ip_Udp BSocksClient Tcp_Client BAVL_Tree Udp_Path Socks_Udp Http_Auth Redsocks_Socks Packet_Window Ss_Aead Ss_Dns
begin

text \<open>
  \<^bold>\<open>AlienConnection: the native networking code.\<close>  Below \<^verbatim>\<open>src/core/src/main/jni\<close> the application carries two C programs, and below
  \<^verbatim>\<open>src/core/src/main/rust\<close> a proxy in Rust.
  \<^verbatim>\<open>tun2socks\<close> (in \<^verbatim>\<open>badvpn/\<close>) reads IP packets from the VPN device, terminates their TCP connections in a user space stack (lwIP) and
  passes each of them, and the UDP packets, through a SOCKS5 proxy.  \<^verbatim>\<open>redsocks\<close> accepts redirected TCP connections and relays them
  through a SOCKS4, SOCKS5 or HTTP proxy, on top of \<^verbatim>\<open>libevent\<close>.  \<^verbatim>\<open>sslocal\<close>
  (\<^verbatim>\<open>shadowsocks-rust/\<close>) is the SOCKS5 server that \<^verbatim>\<open>tun2socks\<close> talks to: it encrypts the connections and packets it is given and passes them
  to a remote server, or connects directly where its access control list says so.  The development models the build of \<^verbatim>\<open>Android.mk\<close>: little endian,
  \<^verbatim>\<open>NDEBUG\<close>, \<^verbatim>\<open>__ANDROID__\<close>.

  \<^bold>\<open>Conventions.\<close>  A struct is a \<open>record\<close>, an object in memory an element of a type of addresses with its fields as functions of the
  address, a byte buffer a \<open>byte list\<close>.  A C \<^verbatim>\<open>int\<close> that cannot overflow is an \<open>int\<close> or a \<open>nat\<close>, an unsigned integer whose width
  matters a \<open>word\<close>.  A result \<open>None\<close> is what C leaves undefined or what an assertion excludes: a broken contract, a read of released
  memory, or a loop that does not end, and in Rust a panic, which some types name as a result of its own; theorems of kind safety show that it does not occur.  What the environment decides (answers of the kernel,
  of lwIP, of malloc) is an argument of the operation, and what the program does to its environment is a list of events.  Runs are
  sequences of operations in any order (\<open>run_ops\<close>, \<open>run_all\<close> in \<open>Prelude\<close>); the locales \<open>simulation\<close>, \<open>history_invariant\<close> and
  \<open>total_machine\<close> of \<open>Prelude\<close> carry an invariant or a refinement from steps to runs.

  \<^bold>\<open>Data structures of badvpn.\<close>
  \<^item> \<open>Misc_Arith\<close> (\<^verbatim>\<open>misc/balign.h, bsize.h, byteorder.h, read_write_int.h\<close>): alignment, checked sizes, byte order.
  \<^item> \<open>ChunkBuffer2\<close> (\<^verbatim>\<open>structure/ChunkBuffer2.h\<close>): the circular packet buffer over a flat memory implements a FIFO of packets.
  \<^item> \<open>Linked_Lists\<close> (\<^verbatim>\<open>structure/LinkedList1.h, SLinkedList_impl.h\<close>): operations on link fields implement those of a list.
  \<^item> \<open>BAVL\<close>, \<open>BAVL_Tree\<close> (\<^verbatim>\<open>structure/BAVL.h\<close>): rebalancing on parent and child links; every sequence of operations implements an ordered
    list, and paths are logarithmic.
  \<^item> \<open>Parse_Number\<close> (\<^verbatim>\<open>misc/parse_number.h\<close>), \<open>BAddr\<close> (\<^verbatim>\<open>system/BAddr.h, misc/ipaddr.h\<close>): numbers and addresses as text, with
    round trips; the order of addresses.

  \<^bold>\<open>Jobs and flows.\<close>
  \<^item> \<open>BPending\<close> (\<^verbatim>\<open>base/BPending.c\<close> and the job dispatch of \<^verbatim>\<open>system/BReactor_badvpn.c\<close>): the group of pending jobs is a stack;
    synchronising with it ends.
  \<^item> \<open>Flow_Interface\<close> (\<^verbatim>\<open>flow/PacketPassInterface, PacketRecvInterface, StreamPassInterface, StreamRecvInterface\<close>): the interfaces with their
    jobs refine an alternation of requests and completions.
  \<^item> \<open>Flow_Buffers\<close> (\<^verbatim>\<open>flow/PacketBuffer.c, SinglePacketBuffer.c, PacketStreamSender.c, BufferWriter.c\<close>): buffers between two interfaces
    are FIFOs.
  \<^item> \<open>Packet_Proto\<close> (\<^verbatim>\<open>flow/PacketProtoEncoder.c, PacketProtoDecoder.c\<close>): framing and its parser are inverse; the parser is safe on any
    input.

  \<^bold>\<open>tun2socks.\<close>
  \<^item> \<open>BSocksClient\<close> (\<^verbatim>\<open>socksclient/BSocksClient.c\<close>): the SOCKS5 client is safe against any server, connects through a proper one,
    and has had exactly the conversation of the RFCs when it reports that it is up.
  \<^item> \<open>Tcp_Client\<close> (\<^verbatim>\<open>tun2socks/tun2socks.c\<close>): a TCP client between lwIP and its \<^verbatim>\<open>BSocksClient\<close>, with the nesting of their callbacks:
    no access after release, two exact byte streams, delivery before closing, the receive window.
  \<^item> \<open>Ip_Udp\<close> (\<^verbatim>\<open>misc/ipv4_proto.h, ipv6_proto.h, udp_proto.h\<close>): header checks and checksums.
  \<^item> \<open>Udp_Path\<close> (\<^verbatim>\<open>tun2socks/tun2socks.c\<close>): UDP packets from and to the device.
  \<^item> \<open>Socks_Udp\<close> (\<^verbatim>\<open>tun2socks/SocksUdpGwClient.c\<close>): the table of UDP connections on top of the AVL tree and the linked list implements a
    cache that evicts the least recently used entry; headers round trip.

  \<^bold>\<open>redsocks.\<close>
  \<^item> \<open>Base64\<close>, \<open>MD5\<close>, \<open>Http_Auth\<close> (\<^verbatim>\<open>base64.c, md5.c, http-auth.c\<close>): equal to the definitions of RFC 4648, RFC 1321 and RFC 2617.
  \<^item> \<open>Redsocks_Relay\<close> (\<^verbatim>\<open>redsocks.c\<close>, \<^verbatim>\<open>libevent/bufferevent.c, bufferevent_sock.c\<close>): the buffer pump over libevent's socket callbacks:
    no access after release, exact streams, no stall, bounded buffers.
  \<^item> \<open>Redsocks_Socks\<close> (\<^verbatim>\<open>socks4.c, socks5.c\<close> and helpers of \<^verbatim>\<open>redsocks.c\<close>): the handshakes, proved once for a protocol with
    a state predicate (locales \<open>relay_subsys\<close>, \<open>relay_server\<close>) and interpreted for both; composed with the relay they give a transparent
    connection.

  \<^bold>\<open>sslocal.\<close>  Crates that are not in the repository are parameters, records of the functions the code calls (\<open>crypto\<close>, \<open>acl_crates\<close>,
  \<open>dns_crates\<close>); what their documentation promises is a predicate (\<open>crypto_ok\<close>, \<open>crates_ok\<close>) that the theorems assume and examples satisfy.
  \<^item> \<open>Ss_Socks5\<close> (\<^verbatim>\<open>shadowsocks/src/relay/socks5.rs\<close>): the messages of SOCKS5; readers and writers are inverse, and where a reader panics.
  \<^item> \<open>Ss_Aead\<close> (\<^verbatim>\<open>shadowsocks/src/relay/tcprelay/aead.rs, udprelay/aead.rs\<close>): the encrypting writer and the decrypting reader as state machines
    polled over sockets that take and give bytes in any pieces: the reader gets a prefix of what was written, all of it when the sockets go on,
    and never panics; datagrams round trip.
  \<^item> \<open>Packet_Window\<close> (\<^verbatim>\<open>shadowsocks-service/src/net/packet_window.rs\<close>): the sliding window against replayed packets implements a set of
    accepted numbers.
  \<^item> \<open>Ss_Acl\<close> (\<^verbatim>\<open>shadowsocks-service/src/acl/\<close>): the tree of domain names (locale \<open>name_set\<close>), the reader of rule files and the decisions, compared
    with the meaning of the file as a list of rules.
  \<^item> \<open>Ss_Dns\<close> (\<^verbatim>\<open>shadowsocks-service/src/local/dns/server.rs\<close>): the choice between the local and the remote resolver for a query and for a
    response, and the race of the two lookups.

  \<^bold>\<open>Bounds and fuel.\<close>  Loops over data are structural or have a termination proof.  Loops that follow links (trees, lists, job
  queues) use fuel, which the theorems show to suffice: the fuel is the number of nodes, or the height bound that the invariant gives.  Word
  widths are those of C.

  \<^bold>\<open>Not modelled.\<close>
  \<^item> System access: \<^verbatim>\<open>BConnection, BDatagram, BTap, BSignal, BUnixSignal, BTime, BNetwork\<close>, logging, the event polling of
    \<^verbatim>\<open>BReactor_badvpn.c\<close> and \<^verbatim>\<open>libancillary\<close> consist of system calls; their answers are arguments here.
  \<^item> The rest of \<^verbatim>\<open>tun2socks.c\<close>: command line, initialisation and the device.
  \<^item> The rest of \<^verbatim>\<open>redsocks\<close>: accepting connections and its backoff, the splice pump, HTTP proxies (\<^verbatim>\<open>http-connect.c, http-relay.c\<close>),
    the configuration parser and the main program.
  \<^item> \<^verbatim>\<open>UdpGwClient, PacketPassFairQueue, PacketPassConnector, PacketProtoFlow, PacketPassInactivityMonitor\<close>, which only the build without
    \<^verbatim>\<open>__ANDROID__\<close> uses.
  \<^item> \<^verbatim>\<open>lwIP\<close> and the rest of \<^verbatim>\<open>libevent\<close>, which are libraries of other projects; what the programs rely on is stated with the component that
    uses it.
  \<^item> The other programs of badvpn (\<^verbatim>\<open>ncd, server, client, udpgw, dostest, tunctl\<close> and others), the parser generators
    \<^verbatim>\<open>lemon\<close> and \<^verbatim>\<open>lime\<close>, and files of redsocks that \<^verbatim>\<open>Android.mk\<close> does not list (\<^verbatim>\<open>redudp, dnstc, reddns, debug\<close>): they are not built.
  \<^item> The rest of \<^verbatim>\<open>shadowsocks-rust\<close>: the services are glue around sockets and the runtime; the ciphers of 2022 and the stream ciphers are
    further protocols of the same kind as the one modelled; the load balancer computes with floating point numbers; the configuration
    is read by a library; the replay filter is not in the Android build.
  \<^item> The Kotlin application around the programs: user interface, database and system services.
\<close>

end
